(* ===== verification/C_Prelude.thy ===== *)
theory C_Prelude
  imports Main "HOL-Library.Word"
begin

text \<open>
  Shared vocabulary of the development: the fixed-width integers of the C sources (on the
  LP64 targets the project builds for, \<open>size_t\<close> and pointers have 64 bits), a byte
  addressed memory with little-endian loads and stores, big- and little-endian conversion
  between words and byte lists, and the lemmas on them that the components share.
  A C function that returns \<open>bool\<close>/\<open>int\<close> success and writes out-parameters is modelled
  by a function into \<open>'a option \<times> 's \<times> 'w\<close>: \<open>None\<close> is "returned false",
  \<open>Some v\<close> is "returned true with the out-parameters \<open>v\<close>", and the stream \<open>'s\<close> and the
  rest of the program state \<open>'w\<close> are threaded through on both paths.
\<close>

unbundle bit_operations_syntax

type_synonym u8 = "8 word"
type_synonym u16 = "16 word"
type_synonym u32 = "32 word"
type_synonym u64 = "64 word"
type_synonym addr = "64 word"
type_synonym mem = "64 word \<Rightarrow> 8 word"

named_theorems wire_simps \<open>evaluation of the byte-level conversions\<close>
named_theorems result_simps \<open>sequencing of fallible calls\<close>

section \<open>Sequencing of fallible calls\<close>

type_synonym ('a, 's, 'w) cres = "'a option \<times> 's \<times> 'w"

text \<open>\<open>if (!f(...)) return false; rest\<close>\<close>

definition andthen :: "('a, 's, 'w) cres \<Rightarrow> ('a \<Rightarrow> 's \<Rightarrow> 'w \<Rightarrow> ('b, 's, 'w) cres) \<Rightarrow> ('b, 's, 'w) cres" where
  "andthen r k = (case r of (None, s, w) \<Rightarrow> (None, s, w) | (Some v, s, w) \<Rightarrow> k v s w)"

lemma andthen_None [simp, result_simps]: "andthen (None, s, w) k = (None, s, w)"
  by (simp add: andthen_def)

lemma andthen_Some [simp, result_simps]: "andthen (Some v, s, w) k = k v s w"
  by (simp add: andthen_def)

lemma andthen_split:
  "P (andthen r k) \<longleftrightarrow>
     (\<forall>s w. r = (None, s, w) \<longrightarrow> P (None, s, w)) \<and> (\<forall>v s w. r = (Some v, s, w) \<longrightarrow> P (k v s w))"
  by (cases r; cases "fst r") (auto simp: andthen_def)

lemma andthen_split_asm:
  "P (andthen r k) \<longleftrightarrow>
     \<not> ((\<exists>s w. r = (None, s, w) \<and> \<not> P (None, s, w)) \<or> (\<exists>v s w. r = (Some v, s, w) \<and> \<not> P (k v s w)))"
  by (cases r; cases "fst r") (auto simp: andthen_def)

lemmas andthen_splits = andthen_split andthen_split_asm

lemma andthen_eq_Some:
  "andthen r k = (Some v, s, w) \<longleftrightarrow> (\<exists>v' s' w'. r = (Some v', s', w') \<and> k v' s' w' = (Some v, s, w))"
  by (cases r; cases "fst r") (auto simp: andthen_def)

lemma andthen_assoc:
  "andthen (andthen r k) l = andthen r (\<lambda>v s w. andthen (k v s w) l)"
  by (cases r; cases "fst r") (auto simp: andthen_def)

text \<open>The same for calls that thread one piece of state.\<close>

definition pthen :: "'a option \<times> 's \<Rightarrow> ('a \<Rightarrow> 's \<Rightarrow> 'b option \<times> 's) \<Rightarrow> 'b option \<times> 's" where
  "pthen r k = (case r of (None, s) \<Rightarrow> (None, s) | (Some v, s) \<Rightarrow> k v s)"

lemma pthen_simps [simp, result_simps]: "pthen (None, s) k = (None, s)" "pthen (Some v, s) k = k v s"
  by (simp_all add: pthen_def)

lemma pthen_eq_Some:
  "pthen r k = (Some v, s) \<longleftrightarrow> (\<exists>v' s'. r = (Some v', s') \<and> k v' s' = (Some v, s))"
  by (cases r; cases "fst r") (auto simp: pthen_def)

section \<open>Words and byte lists\<close>

text \<open>Little-endian: the least significant byte first.\<close>

fun le_bytes :: "nat \<Rightarrow> 'a::len word \<Rightarrow> u8 list" where
  "le_bytes 0 w = []"
| "le_bytes (Suc n) w = ucast w # le_bytes n (drop_bit 8 w)"

fun le_word :: "u8 list \<Rightarrow> 'a::len word" where
  "le_word [] = 0"
| "le_word (b # bs) = ucast b OR push_bit 8 (le_word bs)"

text \<open>Big-endian, accumulating from the most significant byte as the C loops do.\<close>

definition be_step :: "'a::len word \<Rightarrow> u8 \<Rightarrow> 'a word" where
  "be_step acc b = push_bit 8 acc OR ucast b"

definition be_word :: "u8 list \<Rightarrow> 'a::len word" where
  "be_word bs = foldl be_step 0 bs"

definition be_bytes :: "nat \<Rightarrow> 'a::len word \<Rightarrow> u8 list" where
  "be_bytes n w = rev (le_bytes n w)"

lemma length_le_bytes [simp]: "length (le_bytes n w) = n"
  by (induction n arbitrary: w) auto

lemma length_be_bytes [simp]: "length (be_bytes n w) = n"
  by (simp add: be_bytes_def)

lemma bit_le_word:
  "bit (le_word bs :: 'a::len word) i \<longleftrightarrow> i < LENGTH('a) \<and> i div 8 < length bs \<and> bit (bs ! (i div 8)) (i mod 8)"
proof (induction bs arbitrary: i)
  case Nil
  then show ?case by simp
next
  case (Cons b bs)
  show ?case
  proof (cases "i < 8")
    case True
    then show ?thesis by (auto simp: bit_simps)
  next
    case False
    then obtain j where j: "i = j + 8" by (metis add.commute le_Suc_ex not_less)
    have "\<not> bit b (j + 8)" using bit_imp_le_length [of b "j + 8"] by auto
    moreover have "(j + 8) div 8 = Suc (j div 8)" by simp
    ultimately show ?thesis using Cons.IH [of j] by (auto simp: j bit_simps)
  qed
qed

lemma nth_le_bytes: "i < n \<Longrightarrow> le_bytes n w ! i = ucast (drop_bit (8 * i) w)"
proof (induction n arbitrary: w i)
  case 0
  then show ?case by simp
next
  case (Suc n)
  then show ?case by (cases i) (auto simp: drop_bit_drop_bit add.commute)
qed

lemma le_word_le_bytes: "(le_word (le_bytes n w) :: 'a::len word) = take_bit (8 * n) w"
proof (rule bit_word_eqI)
  fix i assume i: "i < LENGTH('a)"
  have "8 * (i div 8) + i mod 8 = i" by simp
  moreover have "i div 8 < n \<longleftrightarrow> i < 8 * n" by (simp add: div_less_iff_less_mult mult.commute)
  ultimately show "bit (le_word (le_bytes n w) :: 'a word) i = bit (take_bit (8 * n) w) i"
    using i by (auto simp: bit_le_word nth_le_bytes bit_simps)
qed

lemma le_bytes_le_word:
  assumes "8 * length bs \<le> LENGTH('a::len)"
  shows "le_bytes (length bs) (le_word bs :: 'a word) = bs"
proof (rule nth_equalityI)
  show "length (le_bytes (length bs) (le_word bs :: 'a word)) = length bs" by simp
next
  fix i assume "i < length (le_bytes (length bs) (le_word bs :: 'a word))"
  then have i: "i < length bs" by simp
  show "le_bytes (length bs) (le_word bs :: 'a word) ! i = bs ! i"
  proof (rule bit_word_eqI)
    fix j assume j: "j < LENGTH(8)"
    then have "8 * i + j < LENGTH('a)" using assms i by simp
    moreover have "(8 * i + j) div 8 = i" "(8 * i + j) mod 8 = j" using j by simp_all
    ultimately show "bit (le_bytes (length bs) (le_word bs :: 'a word) ! i) j = bit (bs ! i) j"
      using i j by (simp add: nth_le_bytes bit_simps bit_le_word)
  qed
qed

text \<open>Widening a word, with or without its sign, keeps its bytes.\<close>

lemma le_bytes_ucast:
  assumes "8 * k \<le> LENGTH('a::len)" "LENGTH('a) \<le> LENGTH('b::len)"
  shows "le_bytes k (ucast (v :: 'a word) :: 'b word) = le_bytes k v"
  using assms by (intro nth_equalityI) (auto simp: nth_le_bytes bit_simps intro!: bit_word_eqI)

lemma le_bytes_scast:
  assumes "8 * k \<le> LENGTH('a::len)" "LENGTH('a) \<le> LENGTH('b::len)"
  shows "le_bytes k (scast (v :: 'a word) :: 'b word) = le_bytes k v"
proof (intro nth_equalityI)
  fix i assume i: "i < length (le_bytes k (scast v :: 'b word))"
  have "bit (scast v :: 'b word) (8 * i + j) = bit v (8 * i + j)" if "j < 8" for j
  proof -
    have "8 * i + j < LENGTH('a)" using i that assms(1) by simp
    moreover from this have "min (LENGTH('a) - 1) (8 * i + j) = 8 * i + j" by simp
    ultimately show ?thesis using assms(2) by (simp add: bit_simps)
  qed
  then show "le_bytes k (scast v :: 'b word) ! i = le_bytes k v ! i"
    using i by (auto simp: nth_le_bytes bit_unsigned_iff bit_drop_bit_eq intro!: bit_word_eqI)
qed simp

lemma narrow_widened:
  assumes "LENGTH('a::len) \<le> LENGTH('b::len)"
  shows "ucast (ucast (x :: 'a word) :: 'b word) = x" "ucast (scast x :: 'b word) = x"
proof -
  show "ucast (ucast x :: 'b word) = x" using assms by (intro bit_word_eqI) (simp add: bit_simps)
  show "ucast (scast x :: 'b word) = x"
  proof (rule bit_word_eqI)
    fix n assume n: "n < LENGTH('a)"
    then have "min (LENGTH('a) - 1) n = n" by simp
    then show "bit (ucast (scast x :: 'b word) :: 'a word) n = bit x n" using n assms by (simp add: bit_simps)
  qed
qed

lemma le_bytes_load: "8 * length bs \<le> LENGTH('a::len) \<Longrightarrow> n = length bs \<Longrightarrow> le_bytes n (le_word bs :: 'a word) = bs"
  by (simp add: le_bytes_le_word)

lemma le_word_snoc: "(le_word (bs @ [b]) :: 'a::len word) = le_word bs OR push_bit (8 * length bs) (ucast b)"
  by (induction bs) (auto simp: push_bit_or push_bit_push_bit or.assoc)

lemma foldl_be_step_rev: "foldl be_step acc bs = le_word (rev bs) OR push_bit (8 * length bs) acc"
proof (induction bs arbitrary: acc)
  case Nil
  then show ?case by simp
next
  case (Cons b bs)
  then show ?case
    by (simp add: be_step_def le_word_snoc push_bit_or push_bit_push_bit or.assoc or.commute add.commute)
qed

lemma be_word_le_word: "be_word bs = le_word (rev bs)"
  by (simp add: be_word_def foldl_be_step_rev)

lemma be_word_be_bytes: "(be_word (be_bytes n w) :: 'a::len word) = take_bit (8 * n) w"
  by (simp add: be_word_le_word be_bytes_def le_word_le_bytes)

lemma be_bytes_be_word:
  "8 * length bs \<le> LENGTH('a::len) \<Longrightarrow> be_bytes (length bs) (be_word bs :: 'a word) = bs"
  using le_bytes_le_word [of "rev bs", where 'a = 'a] by (simp add: be_word_le_word be_bytes_def)

lemma unat_drop_bit_less: "w \<noteq> 0 \<Longrightarrow> 0 < n \<Longrightarrow> unat (drop_bit n (w :: 'a::len word)) < unat w"
proof -
  assume "w \<noteq> 0" and "0 < n"
  then have "0 < unat w" and "1 < (2::nat) ^ n" by (simp_all add: unat_gt_0 one_less_power del: One_nat_def)
  then have "unat w div 2 ^ n < unat w" by (rule div_less_dividend [rotated])
  then show ?thesis by (simp only: unat_drop_bit_eq drop_bit_eq_div [where 'a = nat])
qed

lemma take_bit_small: "unat (w :: 'a::len word) < 2 ^ n \<Longrightarrow> take_bit n w = w"
proof -
  assume "unat w < 2 ^ n"
  then have "unat (take_bit n w) = unat w" by (simp add: unsigned_take_bit_eq take_bit_nat_eq_self)
  then show ?thesis by (simp add: word_unat_eq_iff)
qed

lemma unat_plus_one_less: "(w :: 'a::len word) < v \<Longrightarrow> unat (w + 1) = Suc (unat w)"
proof -
  assume "w < v"
  then have "unat w < unat v" by (simp add: word_less_nat_alt)
  then have "unat w + 1 < 2 ^ LENGTH('a)"
    using unsigned_less [of v, where 'a = nat] by linarith
  then show ?thesis by (simp add: unat_word_ariths)
qed

lemma unat_ucast_up:
  assumes "LENGTH('a::len) \<le> LENGTH('b::len)"
  shows "unat (ucast (w :: 'a word) :: 'b word) = unat w"
proof -
  have "unat w < 2 ^ LENGTH('a)" by (rule unsigned_less)
  also have "(2::nat) ^ LENGTH('a) \<le> 2 ^ LENGTH('b)" using assms by (rule power_increasing) simp
  finally show ?thesis by (simp add: unsigned_ucast_eq take_bit_nat_eq_self)
qed

lemma ucast_of_nat_down:
  "LENGTH('b::len) \<le> LENGTH('a::len) \<Longrightarrow> (ucast (of_nat n :: 'a word) :: 'b word) = of_nat n"
  by (simp add: word_unat_eq_iff unsigned_ucast_eq unsigned_of_nat min_def)

lemma ucast_up_of_nat:
  "LENGTH('a::len) \<le> LENGTH('b::len) \<Longrightarrow> unat (w :: 'a word) = n \<Longrightarrow> (ucast w :: 'b word) = of_nat n"
  by (metis unat_ucast_up of_nat_unat ucast_id)

section \<open>Memory\<close>

fun load_bytes :: "mem \<Rightarrow> addr \<Rightarrow> nat \<Rightarrow> u8 list" where
  "load_bytes m a 0 = []"
| "load_bytes m a (Suc n) = m a # load_bytes m (a + 1) n"

fun store_bytes :: "mem \<Rightarrow> addr \<Rightarrow> u8 list \<Rightarrow> mem" where
  "store_bytes m a [] = m"
| "store_bytes m a (b # bs) = store_bytes (m(a := b)) (a + 1) bs"

definition load16 :: "mem \<Rightarrow> addr \<Rightarrow> u16" where
  "load16 m a = le_word (load_bytes m a 2)"

definition load32 :: "mem \<Rightarrow> addr \<Rightarrow> u32" where
  "load32 m a = le_word (load_bytes m a 4)"

definition load64 :: "mem \<Rightarrow> addr \<Rightarrow> u64" where
  "load64 m a = le_word (load_bytes m a 8)"

definition store32 :: "mem \<Rightarrow> addr \<Rightarrow> u32 \<Rightarrow> mem" where
  "store32 m a v = store_bytes m a (le_bytes 4 v)"

definition store64 :: "mem \<Rightarrow> addr \<Rightarrow> u64 \<Rightarrow> mem" where
  "store64 m a v = store_bytes m a (le_bytes 8 v)"

text \<open>A block that does not wrap around the address space is read back as it was stored.\<close>

lemma store_bytes_other: "(\<And>i. i < length bs \<Longrightarrow> x \<noteq> a + of_nat i) \<Longrightarrow> store_bytes m a bs x = m x"
proof (induction bs arbitrary: m a)
  case (Cons b bs)
  have "store_bytes (m(a := b)) (a + 1) bs x = (m(a := b)) x"
  proof (rule Cons.IH)
    fix i assume "i < length bs"
    then show "x \<noteq> a + 1 + of_nat i" using Cons.prems [of "Suc i"] by (simp add: add.assoc)
  qed
  moreover have "x \<noteq> a" using Cons.prems [of 0] by simp
  ultimately show ?case by simp
qed simp

lemma load_store_bytes: "length bs < 2 ^ 64 \<Longrightarrow> load_bytes (store_bytes m a bs) a (length bs) = bs"
proof (induction bs arbitrary: m a)
  case (Cons b bs)
  have "store_bytes (m(a := b)) (a + 1) bs a = b"
  proof -
    have "a \<noteq> a + 1 + of_nat i" if "i < length bs" for i
    proof
      assume "a = a + 1 + of_nat i"
      then have "of_nat (Suc i) = (0 :: u64)" by (simp add: add.assoc)
      moreover have "Suc i < 2 ^ 64" using that Cons.prems by simp
      then have "unat (of_nat (Suc i) :: u64) = Suc i" by (simp only: unat_of_nat) simp
      ultimately show False by (metis unsigned_0 old.nat.distinct(2))
    qed
    then show ?thesis by (simp add: store_bytes_other)
  qed
  then show ?case using Cons by simp
qed simp

lemma length_load_bytes [simp]: "length (load_bytes m a n) = n"
  by (induction n arbitrary: a) auto

lemma load_bytes_numeral [wire_simps]: "load_bytes m a (numeral k) = m a # load_bytes m (a + 1) (pred_numeral k)"
  by (simp add: numeral_eq_Suc)

lemma le_bytes_numeral [wire_simps]: "le_bytes (numeral k) w = ucast w # le_bytes (pred_numeral k) (drop_bit 8 w)"
  by (simp add: numeral_eq_Suc)

end
