(* ===== verification/Pb_Common.thy ===== *)
theory Pb_Common
  imports C_Prelude
begin

text \<open>
  nanopb's message descriptors and the iterator over them (\<open>pb.h\<close>, \<open>pb_common.c\<close>), in the
  configuration the Xcode targets define: \<open>PB_FIELD_32BIT\<close>, \<open>PB_NO_PACKED_STRUCTS\<close>,
  \<open>PB_ENABLE_MALLOC\<close>, with 64-bit integers and error messages.
  A descriptor array is the list of its entries before the terminator; reading at the
  list's end gives \<open>PB_LAST_FIELD\<close>. The iterator holds the array, an index into it and the
  addresses of the current field's data and of its count or has-flag.
  The lemmas show that the iterator always agrees with the layout the descriptors
  define and that a search by tag visits every field and stops.
\<close>

section \<open>Descriptors\<close>

record pb_field =
  field_tag :: u32
  field_type :: u8
  data_offset :: u32
  size_offset :: u32
  data_size :: u32
  array_size :: u32
  field_ptr :: addr

definition PB_LAST_FIELD :: pb_field where
  "PB_LAST_FIELD = \<lparr>field_tag = 0, field_type = 0, data_offset = 0, size_offset = 0,
     data_size = 0, array_size = 0, field_ptr = 0\<rparr>"

definition PB_SIZE_MAX :: u32 where
  "PB_SIZE_MAX = - 1"

definition PB_LTYPE :: "u8 \<Rightarrow> u8" where "PB_LTYPE x = x AND 0x0F"
definition PB_HTYPE :: "u8 \<Rightarrow> u8" where "PB_HTYPE x = x AND 0x30"
definition PB_ATYPE :: "u8 \<Rightarrow> u8" where "PB_ATYPE x = x AND 0xC0"

abbreviation (input) PB_LTYPE_BOOL :: u8 where "PB_LTYPE_BOOL \<equiv> 0x00"
abbreviation (input) PB_LTYPE_VARINT :: u8 where "PB_LTYPE_VARINT \<equiv> 0x01"
abbreviation (input) PB_LTYPE_UVARINT :: u8 where "PB_LTYPE_UVARINT \<equiv> 0x02"
abbreviation (input) PB_LTYPE_SVARINT :: u8 where "PB_LTYPE_SVARINT \<equiv> 0x03"
abbreviation (input) PB_LTYPE_FIXED32 :: u8 where "PB_LTYPE_FIXED32 \<equiv> 0x04"
abbreviation (input) PB_LTYPE_FIXED64 :: u8 where "PB_LTYPE_FIXED64 \<equiv> 0x05"
abbreviation (input) PB_LTYPE_LAST_PACKABLE :: u8 where "PB_LTYPE_LAST_PACKABLE \<equiv> 0x05"
abbreviation (input) PB_LTYPE_BYTES :: u8 where "PB_LTYPE_BYTES \<equiv> 0x06"
abbreviation (input) PB_LTYPE_STRING :: u8 where "PB_LTYPE_STRING \<equiv> 0x07"
abbreviation (input) PB_LTYPE_SUBMESSAGE :: u8 where "PB_LTYPE_SUBMESSAGE \<equiv> 0x08"
abbreviation (input) PB_LTYPE_EXTENSION :: u8 where "PB_LTYPE_EXTENSION \<equiv> 0x09"
abbreviation (input) PB_LTYPE_FIXED_LENGTH_BYTES :: u8 where "PB_LTYPE_FIXED_LENGTH_BYTES \<equiv> 0x0A"

abbreviation (input) PB_HTYPE_REQUIRED :: u8 where "PB_HTYPE_REQUIRED \<equiv> 0x00"
abbreviation (input) PB_HTYPE_OPTIONAL :: u8 where "PB_HTYPE_OPTIONAL \<equiv> 0x10"
abbreviation (input) PB_HTYPE_REPEATED :: u8 where "PB_HTYPE_REPEATED \<equiv> 0x20"
abbreviation (input) PB_HTYPE_ONEOF :: u8 where "PB_HTYPE_ONEOF \<equiv> 0x30"

abbreviation (input) PB_ATYPE_STATIC :: u8 where "PB_ATYPE_STATIC \<equiv> 0x00"
abbreviation (input) PB_ATYPE_POINTER :: u8 where "PB_ATYPE_POINTER \<equiv> 0x80"
abbreviation (input) PB_ATYPE_CALLBACK :: u8 where "PB_ATYPE_CALLBACK \<equiv> 0x40"

abbreviation ltype :: "pb_field \<Rightarrow> u8" where "ltype f \<equiv> PB_LTYPE (field_type f)"
abbreviation htype :: "pb_field \<Rightarrow> u8" where "htype f \<equiv> PB_HTYPE (field_type f)"
abbreviation atype :: "pb_field \<Rightarrow> u8" where "atype f \<equiv> PB_ATYPE (field_type f)"

datatype pb_wire_type = PB_WT_VARINT | PB_WT_64BIT | PB_WT_STRING | PB_WT_32BIT | PB_WT_other u32

text \<open>The C enum is an integer: the four named values, and whatever else a tag holds.\<close>

fun wt_num :: "pb_wire_type \<Rightarrow> u32" where
  "wt_num PB_WT_VARINT = 0"
| "wt_num PB_WT_64BIT = 1"
| "wt_num PB_WT_STRING = 2"
| "wt_num PB_WT_32BIT = 5"
| "wt_num (PB_WT_other n) = n"

definition wt_of_num :: "u32 \<Rightarrow> pb_wire_type" where
  "wt_of_num n = (if n = 0 then PB_WT_VARINT else if n = 1 then PB_WT_64BIT
     else if n = 2 then PB_WT_STRING else if n = 5 then PB_WT_32BIT else PB_WT_other n)"

lemma wt_num_of_num [simp]: "wt_num (wt_of_num n) = n"
  by (simp add: wt_of_num_def)

section \<open>The field iterator\<close>

text \<open>
  \<open>iter->pSize\<close> points into the message (or the extension), except that the decoder
  redirects it to its local \<open>fixed_count_size\<close>.
\<close>

datatype psize = SizeAt addr | SizeLocal

record pb_field_iter =
  it_start :: "pb_field list"
  it_pos :: nat
  required_field_index :: u32
  dest_struct :: addr
  pData :: addr
  pSize :: psize

definition field_at :: "pb_field list \<Rightarrow> nat \<Rightarrow> pb_field" where
  "field_at fs i = (if i < length fs then fs ! i else PB_LAST_FIELD)"

abbreviation it_field :: "pb_field_iter \<Rightarrow> pb_field" where
  "it_field it \<equiv> field_at (it_start it) (it_pos it)"

definition pb_field_iter_begin :: "pb_field list \<Rightarrow> addr \<Rightarrow> bool \<times> pb_field_iter" where
  "pb_field_iter_begin fs dest =
     (let f = field_at fs 0;
          d = (if dest = 0 then 0 else dest + ucast (data_offset f));
          z = (if dest = 0 then 0 else d + scast (size_offset f))
      in (field_tag f \<noteq> 0,
          \<lparr>it_start = fs, it_pos = 0, required_field_index = 0, dest_struct = dest,
           pData = d, pSize = SizeAt z\<rparr>))"

definition pb_field_iter_next :: "pb_field_iter \<Rightarrow> bool \<times> pb_field_iter" where
  "pb_field_iter_next it =
     (let prev = it_field it; pos = it_pos it + 1; f = field_at (it_start it) pos
      in if field_tag prev = 0 then (False, it)
         else if field_tag f = 0 then (False, snd (pb_field_iter_begin (it_start it) (dest_struct it)))
         else if htype prev = PB_HTYPE_ONEOF \<and> htype f = PB_HTYPE_ONEOF \<and> data_offset f = PB_SIZE_MAX
         then (True, it\<lparr>it_pos := pos\<rparr>)
         else
           (let prev_size :: u64 =
                  (if atype prev = PB_ATYPE_STATIC \<and> htype prev = PB_HTYPE_REPEATED
                   then ucast (data_size prev) * ucast (array_size prev)
                   else if atype prev = PB_ATYPE_POINTER then 8
                   else ucast (data_size prev));
                rfi = (if htype prev = PB_HTYPE_REQUIRED then required_field_index it + 1
                       else required_field_index it);
                d = pData it + prev_size + ucast (data_offset f)
            in (True, it\<lparr>it_pos := pos, required_field_index := rfi, pData := d,
                          pSize := SizeAt (d + scast (size_offset f))\<rparr>)))"

text \<open>
  The search is a \<open>do ... while (iter->pos != start)\<close> loop. One round visits each field once,
  so it runs at most \<open>length\<close> + 1 times; \<open>find_loop\<close> is \<open>None\<close> when that is exceeded.
\<close>

fun find_loop :: "nat \<Rightarrow> nat \<Rightarrow> (pb_field \<Rightarrow> bool) \<Rightarrow> pb_field_iter \<Rightarrow> (bool \<times> pb_field_iter) option" where
  "find_loop 0 start P it = None"
| "find_loop (Suc n) start P it =
     (if P (it_field it) then Some (True, it)
      else let it' = snd (pb_field_iter_next it)
           in if it_pos it' \<noteq> start then find_loop n start P it' else Some (False, it'))"

definition find_field :: "(pb_field \<Rightarrow> bool) \<Rightarrow> pb_field_iter \<Rightarrow> bool \<times> pb_field_iter" where
  "find_field P it = (case find_loop (Suc (length (it_start it))) (it_pos it) P it of
     Some r \<Rightarrow> r | None \<Rightarrow> (False, it))"

definition pb_field_iter_find :: "pb_field_iter \<Rightarrow> u32 \<Rightarrow> bool \<times> pb_field_iter" where
  "pb_field_iter_find it tag =
     find_field (\<lambda>f. field_tag f = tag \<and> ltype f \<noteq> PB_LTYPE_EXTENSION) it"

section \<open>The layout the descriptors define\<close>

definition in_union :: "pb_field \<Rightarrow> pb_field \<Rightarrow> bool" where
  "in_union prev f \<longleftrightarrow> htype prev = PB_HTYPE_ONEOF \<and> htype f = PB_HTYPE_ONEOF \<and> data_offset f = PB_SIZE_MAX"

text \<open>The bytes a field occupies in the C struct.\<close>

definition field_span :: "pb_field \<Rightarrow> u64" where
  "field_span f = (if atype f = PB_ATYPE_STATIC \<and> htype f = PB_HTYPE_REPEATED
      then ucast (data_size f) * ucast (array_size f)
      else if atype f = PB_ATYPE_POINTER then 8 else ucast (data_size f))"

fun data_addr :: "pb_field list \<Rightarrow> addr \<Rightarrow> nat \<Rightarrow> addr" where
  "data_addr fs d 0 = (if d = 0 then 0 else d + ucast (data_offset (field_at fs 0)))"
| "data_addr fs d (Suc i) =
     (if in_union (field_at fs i) (field_at fs (Suc i)) then data_addr fs d i
      else data_addr fs d i + field_span (field_at fs i) + ucast (data_offset (field_at fs (Suc i))))"

fun size_addr :: "pb_field list \<Rightarrow> addr \<Rightarrow> nat \<Rightarrow> addr" where
  "size_addr fs d 0 = (if d = 0 then 0 else data_addr fs d 0 + scast (size_offset (field_at fs 0)))"
| "size_addr fs d (Suc i) =
     (if in_union (field_at fs i) (field_at fs (Suc i)) then size_addr fs d i
      else data_addr fs d (Suc i) + scast (size_offset (field_at fs (Suc i))))"

definition required_before :: "pb_field list \<Rightarrow> nat \<Rightarrow> nat" where
  "required_before fs i = length (filter (\<lambda>f. htype f = PB_HTYPE_REQUIRED) (take i fs))"

definition wf_fields :: "pb_field list \<Rightarrow> bool" where
  "wf_fields fs \<longleftrightarrow> (\<forall>f \<in> set fs. field_tag f \<noteq> 0)"

definition iter_ok :: "pb_field_iter \<Rightarrow> bool" where
  "iter_ok it \<longleftrightarrow> wf_fields (it_start it)
     \<and> (if it_start it = [] then it_pos it = 0 else it_pos it < length (it_start it))
     \<and> required_field_index it = of_nat (required_before (it_start it) (it_pos it))
     \<and> pData it = data_addr (it_start it) (dest_struct it) (it_pos it)
     \<and> (pSize it = SizeAt (size_addr (it_start it) (dest_struct it) (it_pos it))
        \<or> pSize it = SizeLocal \<and> htype (it_field it) = PB_HTYPE_REPEATED)"

lemma field_at_tag: "wf_fields fs \<Longrightarrow> field_tag (field_at fs i) = 0 \<longleftrightarrow> length fs \<le> i"
  by (auto simp: wf_fields_def field_at_def PB_LAST_FIELD_def not_le)

lemma field_at_in_set: "i < length fs \<Longrightarrow> field_at fs i \<in> set fs"
  by (simp add: field_at_def)

lemma required_before_Suc:
  "i < length fs \<Longrightarrow> required_before fs (Suc i) =
     required_before fs i + (if htype (field_at fs i) = PB_HTYPE_REQUIRED then 1 else 0)"
  by (simp add: required_before_def field_at_def take_Suc_conv_app_nth)

lemma iter_begin_start [simp]: "it_start (snd (pb_field_iter_begin fs d)) = fs"
  and iter_begin_pos [simp]: "it_pos (snd (pb_field_iter_begin fs d)) = 0"
  and iter_begin_dest [simp]: "dest_struct (snd (pb_field_iter_begin fs d)) = d"
  by (simp_all add: pb_field_iter_begin_def Let_def)

lemma iter_begin_ok: "wf_fields fs \<Longrightarrow> iter_ok (snd (pb_field_iter_begin fs d))"
  by (auto simp: iter_ok_def pb_field_iter_begin_def Let_def required_before_def)

lemma iter_begin_nonempty: "wf_fields fs \<Longrightarrow> fst (pb_field_iter_begin fs d) \<longleftrightarrow> fs \<noteq> []"
  by (auto simp: pb_field_iter_begin_def Let_def field_at_tag)

lemma iter_next_start [simp]: "it_start (snd (pb_field_iter_next it)) = it_start it"
  and iter_next_dest [simp]: "dest_struct (snd (pb_field_iter_next it)) = dest_struct it"
  by (simp_all add: pb_field_iter_next_def Let_def)

lemma iter_next_pos:
  assumes "wf_fields (it_start it)"
  shows "it_pos (snd (pb_field_iter_next it)) =
    (if length (it_start it) \<le> it_pos it then it_pos it
     else if Suc (it_pos it) < length (it_start it) then Suc (it_pos it) else 0)"
  using assms by (auto simp: pb_field_iter_next_def Let_def field_at_tag)

lemma iter_next_more:
  assumes "wf_fields (it_start it)"
  shows "fst (pb_field_iter_next it) \<longleftrightarrow> Suc (it_pos it) < length (it_start it)"
  using assms by (auto simp: pb_field_iter_next_def Let_def field_at_tag)

lemma union_not_required: "in_union prev f \<Longrightarrow> htype prev \<noteq> PB_HTYPE_REQUIRED"
  by (auto simp: in_union_def)

lemma iter_next_ok:
  assumes ok: "iter_ok it"
  shows "iter_ok (snd (pb_field_iter_next it))"
proof (cases "Suc (it_pos it) < length (it_start it)")
  case True
  let ?p = "field_at (it_start it) (it_pos it)" and ?f = "field_at (it_start it) (Suc (it_pos it))"
  have wf: "wf_fields (it_start it)" using ok by (simp add: iter_ok_def)
  have tags: "field_tag ?p \<noteq> 0" "field_tag ?f \<noteq> 0" using True wf by (simp_all add: field_at_tag)
  have rb: "required_before (it_start it) (Suc (it_pos it)) =
      required_before (it_start it) (it_pos it) + (if htype ?p = PB_HTYPE_REQUIRED then 1 else 0)"
    using True by (simp add: required_before_Suc)
  show ?thesis
  proof (cases "in_union ?p ?f")
    case u: True
    then have "snd (pb_field_iter_next it) = it\<lparr>it_pos := Suc (it_pos it)\<rparr>"
      using tags by (simp add: pb_field_iter_next_def Let_def in_union_def)
    moreover have "pSize it = SizeAt (size_addr (it_start it) (dest_struct it) (it_pos it))"
      using ok u by (auto simp: iter_ok_def in_union_def)
    ultimately show ?thesis using ok True u rb union_not_required [OF u] by (auto simp: iter_ok_def)
  next
    case False
    then have "snd (pb_field_iter_next it) = it\<lparr>it_pos := Suc (it_pos it),
        required_field_index := (if htype ?p = PB_HTYPE_REQUIRED then required_field_index it + 1
                       else required_field_index it),
        pData := pData it + field_span ?p + ucast (data_offset ?f),
        pSize := SizeAt (pData it + field_span ?p + ucast (data_offset ?f) + scast (size_offset ?f))\<rparr>"
      using tags by (auto simp: pb_field_iter_next_def Let_def in_union_def field_span_def)
    then show ?thesis using ok True False rb by (auto simp: iter_ok_def)
  qed
next
  case False
  have wf: "wf_fields (it_start it)" using ok by (simp add: iter_ok_def)
  show ?thesis
  proof (cases "it_start it = []")
    case True
    then have "snd (pb_field_iter_next it) = it"
      using ok by (simp add: pb_field_iter_next_def Let_def field_at_def PB_LAST_FIELD_def)
    then show ?thesis using ok by simp
  next
    case ne: False
    then have "it_pos it < length (it_start it)" using ok by (simp add: iter_ok_def)
    then have "snd (pb_field_iter_next it) = snd (pb_field_iter_begin (it_start it) (dest_struct it))"
      using False wf by (simp add: pb_field_iter_next_def Let_def field_at_tag)
    then show ?thesis using wf by (simp add: iter_begin_ok)
  qed
qed

section \<open>Searching\<close>

lemma mod_round_neq: "s < L \<Longrightarrow> 0 < j \<Longrightarrow> j < L \<Longrightarrow> (s + j) mod L \<noteq> (s::nat)"
  by (cases "s + j < L") (auto simp: le_mod_geq not_less)

lemma find_loop_round:
  assumes "iter_ok it" and "it_start it = fs" and "start < length fs"
    and "it_pos it = (start + j) mod length fs" and "j < length fs" and "length fs - j \<le> n"
  shows "\<exists>b it'. find_loop n start P it = Some (b, it') \<and> iter_ok it' \<and> it_start it' = fs
      \<and> dest_struct it' = dest_struct it
      \<and> (b \<longrightarrow> P (it_field it'))
      \<and> (\<not> b \<longrightarrow> it_pos it' = start \<and> (\<forall>i. j \<le> i \<and> i < length fs \<longrightarrow> \<not> P (field_at fs ((start + i) mod length fs))))"
  using assms
proof (induction n arbitrary: it j)
  case 0
  then show ?case by simp
next
  case (Suc n)
  let ?L = "length fs" and ?it' = "snd (pb_field_iter_next it)"
  show ?case
  proof (cases "P (it_field it)")
    case True
    then show ?thesis using Suc.prems by (intro exI [of _ True] exI [of _ it]) simp
  next
    case False
    then have np: "\<not> P (field_at fs ((start + j) mod ?L))" using Suc.prems by simp
    have ok': "iter_ok ?it'" using Suc.prems(1) by (rule iter_next_ok)
    have "wf_fields (it_start it)" using Suc.prems(1) by (simp add: iter_ok_def)
    moreover have "(start + j) mod ?L < ?L" using Suc.prems(3) by (intro mod_less_divisor) linarith
    ultimately have "it_pos ?it' = (if Suc ((start + j) mod ?L) < ?L then Suc ((start + j) mod ?L) else 0)"
      using iter_next_pos [of it] Suc.prems(2,4) by simp
    then have pos': "it_pos ?it' = (start + Suc j) mod ?L"
      using \<open>(start + j) mod ?L < ?L\<close> by (auto simp: mod_Suc)
    show ?thesis
    proof (cases "Suc j = ?L")
      case True
      then have p': "it_pos ?it' = start" using pos' Suc.prems(3) by simp
      have "\<forall>i. j \<le> i \<and> i < ?L \<longrightarrow> i = j" using True by auto
      then show ?thesis using False np ok' p' Suc.prems(2)
        by (intro exI [of _ False] exI [of _ ?it']) (auto simp: Let_def)
    next
      case neq: False
      then have j': "Suc j < ?L" using Suc.prems by simp
      then have "it_pos ?it' \<noteq> start" using pos' Suc.prems(3)        mod_round_neq [of start ?L "Suc j"] by simp
      then have eq: "find_loop (Suc n) start P it = find_loop n start P ?it'" using False by (simp add: Let_def)
      have "?L - Suc j \<le> n" "it_start ?it' = fs" using Suc.prems(2,6) by simp_all
      from Suc.IH [OF ok' this(2) Suc.prems(3) pos' j' this(1)] obtain b it'' where
        r: "find_loop n start P ?it' = Some (b, it'')" "iter_ok it''" "it_start it'' = fs"
          "dest_struct it'' = dest_struct it" "b \<longrightarrow> P (it_field it'')"
          "\<not> b \<longrightarrow> it_pos it'' = start \<and> (\<forall>i. Suc j \<le> i \<and> i < ?L \<longrightarrow> \<not> P (field_at fs ((start + i) mod ?L)))"
        by auto
      then have "\<not> b \<longrightarrow> (\<forall>i. j \<le> i \<and> i < ?L \<longrightarrow> \<not> P (field_at fs ((start + i) mod ?L)))"
        using np by (metis Suc_le_eq le_neq_implies_less)
      with r eq show ?thesis by (intro exI [of _ b] exI [of _ it'']) simp
    qed
  qed
qed

lemma round_covers:
  assumes "start < length fs" and "\<forall>i < length fs. \<not> P (field_at fs ((start + i) mod length fs))"
  shows "\<forall>f \<in> set fs. \<not> P f"
proof
  fix f assume "f \<in> set fs"
  then obtain k where k: "k < length fs" "field_at fs k = f" by (auto simp: in_set_conv_nth field_at_def)
  show "\<not> P f"
  proof (cases "start \<le> k")
    case True
    then have "(start + (k - start)) mod length fs = k" "k - start < length fs" using k by simp_all
    then show ?thesis using assms(2) k by metis
  next
    case False
    then have "(start + (length fs + k - start)) mod length fs = k" "length fs + k - start < length fs"
      using k assms(1) by simp_all
    then show ?thesis using assms(2) k by metis
  qed
qed

lemma find_field_spec:
  assumes ok: "iter_ok it" and ne: "it_start it \<noteq> []"
  obtains b it' where "find_field P it = (b, it')" "iter_ok it'" "it_start it' = it_start it"
    "dest_struct it' = dest_struct it" "b \<longleftrightarrow> (\<exists>f \<in> set (it_start it). P f)"
    "b \<longrightarrow> P (it_field it')" "\<not> b \<longrightarrow> it_pos it' = it_pos it"
proof -
  let ?fs = "it_start it"
  have lt: "it_pos it < length ?fs" using ok ne by (simp add: iter_ok_def)
  from find_loop_round [OF ok refl lt, of 0 "Suc (length ?fs)" P] lt ne obtain b it' where
    r: "find_loop (Suc (length ?fs)) (it_pos it) P it = Some (b, it')" "iter_ok it'" "it_start it' = ?fs"
      "dest_struct it' = dest_struct it" "b \<longrightarrow> P (it_field it')"
      "\<not> b \<longrightarrow> it_pos it' = it_pos it \<and> (\<forall>i. 0 \<le> i \<and> i < length ?fs \<longrightarrow> \<not> P (field_at ?fs ((it_pos it + i) mod length ?fs)))"
    by (auto simp del: find_loop.simps)
  have "it_pos it' < length ?fs" using r(2,3) ne by (auto simp: iter_ok_def)
  then have "it_field it' \<in> set ?fs" using r(3) by (simp add: field_at_in_set)
  moreover have "\<not> b \<longrightarrow> (\<forall>f \<in> set ?fs. \<not> P f)" using r(6) round_covers [OF lt] by auto
  ultimately have "b \<longleftrightarrow> (\<exists>f \<in> set ?fs. P f)" using r(5) by blast
  moreover have "find_field P it = (b, it')" using r(1) by (simp add: find_field_def)
  ultimately show thesis using that [of b it'] r(2-6) by simp
qed

lemma find_field_empty:
  "it_start it = [] \<Longrightarrow> it_pos it = 0 \<Longrightarrow> find_field P it = (P PB_LAST_FIELD, it)"
  by (simp add: find_field_def pb_field_iter_next_def Let_def field_at_def PB_LAST_FIELD_def)

lemma find_field_start [simp]: "it_start (snd (find_field P it)) = it_start it"
proof -
  have "find_loop n st P i = Some (b, i') \<Longrightarrow> it_start i' = it_start i" for n st i b i'
    by (induction n st P i rule: find_loop.induct) (auto simp: Let_def split: if_splits)
  then show ?thesis by (auto simp: find_field_def simp del: find_loop.simps split: option.splits)
qed

lemma find_field_ok:
  assumes "iter_ok it" shows "iter_ok (snd (find_field P it))"
proof (cases "it_start it = []")
  case True
  then have "snd (find_field P it) = it" using assms by (simp add: find_field_empty iter_ok_def)
  then show ?thesis using assms by simp
next
  case False
  show ?thesis by (rule find_field_spec [OF assms False, of P]) simp
qed

end
