(* ===== verification/Pb_Encode.thy ===== *)
theory Pb_Encode
  imports Pb_Common
begin

text \<open>
  nanopb's encoder (\<open>pb_encode.c\<close>): output streams, the wire-format writers, the field
  encoders and the message encoder with its two-pass submessages.

  The message that is encoded is \<open>const\<close> in the C code; it is the read-only memory
  \<open>src\<close> of the environment, and the output buffer does not overlap it. The environment also
  holds the descriptor arrays that \<open>field->ptr\<close> points to and, as parameters, the functions
  the library's user supplies through function pointers: stream writers, field callbacks and
  extension encoders. These may change the rest of the program's state, of type \<open>'w\<close>.

  Two outcomes C leaves undefined are explicit error results here: writing past the
  destination array (or reading a \<open>NULL\<close> buffer) and calling through a \<open>NULL\<close> entry of the
  encoder table. \<open>pb_encode\<close> recurses through submessages; the model recurses on fuel and
  reports running out of it as an error of its own.
\<close>

section \<open>Output streams\<close>

datatype ocallback = OCb_NULL | OCb_buf_write | OCb_user addr

text \<open>
  For a buffer stream the C field \<open>state\<close> is a pointer into the destination array: here the
  array \<open>o_buf\<close> and the offset \<open>o_pos\<close>. For any other callback it is the opaque \<open>o_state\<close>.
\<close>

record pb_ostream =
  o_callback :: ocallback
  o_buf :: "u8 list"
  o_pos :: nat
  o_state :: addr
  max_size :: u64
  bytes_written :: u64
  o_errmsg :: "string option"

type_synonym 'w eres = "(unit, pb_ostream, 'w) cres"

record 'w pb_enc_env =
  src :: mem
  fields_at :: "addr \<Rightarrow> pb_field list"
  user_write :: "addr \<Rightarrow> u8 list \<Rightarrow> pb_ostream \<Rightarrow> 'w \<Rightarrow> 'w eres"
  user_encode :: "addr \<Rightarrow> pb_field \<Rightarrow> addr \<Rightarrow> pb_ostream \<Rightarrow> 'w \<Rightarrow> 'w eres"
  ext_encode :: "addr \<Rightarrow> addr \<Rightarrow> pb_ostream \<Rightarrow> 'w \<Rightarrow> 'w eres"

text \<open>\<open>PB_RETURN_ERROR\<close>: keeps the first message.\<close>

definition o_set_error :: "string \<Rightarrow> pb_ostream \<Rightarrow> pb_ostream" where
  "o_set_error msg s = s\<lparr>o_errmsg := (case o_errmsg s of None \<Rightarrow> Some msg | Some e \<Rightarrow> Some e)\<rparr>"

definition o_error :: "string \<Rightarrow> pb_ostream \<Rightarrow> 'w \<Rightarrow> 'w eres" where
  "o_error msg s w = (None, o_set_error msg s, w)"

definition o_undefined :: "pb_ostream \<Rightarrow> 'w \<Rightarrow> 'w eres" where
  "o_undefined s w = (None, s\<lparr>o_errmsg := Some ''undefined behaviour''\<rparr>, w)"

definition o_out_of_fuel :: "pb_ostream \<Rightarrow> 'w \<Rightarrow> 'w eres" where
  "o_out_of_fuel s w = (None, s\<lparr>o_errmsg := Some ''out of fuel''\<rparr>, w)"

definition buf_write :: "u8 list \<Rightarrow> pb_ostream \<Rightarrow> 'w \<Rightarrow> 'w eres" where
  "buf_write bs s w =
     (if o_pos s + length bs \<le> length (o_buf s)
      then (Some (), s\<lparr>o_pos := o_pos s + length bs,
              o_buf := take (o_pos s) (o_buf s) @ bs @ drop (o_pos s + length bs) (o_buf s)\<rparr>, w)
      else o_undefined s w)"

definition pb_ostream_from_buffer :: "u8 list \<Rightarrow> u64 \<Rightarrow> pb_ostream" where
  "pb_ostream_from_buffer buf bufsize =
     \<lparr>o_callback = OCb_buf_write, o_buf = buf, o_pos = 0, o_state = 0,
      max_size = bufsize, bytes_written = 0, o_errmsg = None\<rparr>"

definition PB_OSTREAM_SIZING :: pb_ostream where
  "PB_OSTREAM_SIZING =
     \<lparr>o_callback = OCb_NULL, o_buf = [], o_pos = 0, o_state = 0,
      max_size = 0, bytes_written = 0, o_errmsg = None\<rparr>"

text \<open>The arguments \<open>buf, count\<close> of \<open>pb_write\<close>: \<open>count\<close> readable bytes, or \<open>NULL\<close>.\<close>

datatype wbuf = WNull u64 | WBytes "u8 list"

fun wcount :: "wbuf \<Rightarrow> u64" where
  "wcount (WNull n) = n"
| "wcount (WBytes bs) = of_nat (length bs)"

fun run_callback :: "'w pb_enc_env \<Rightarrow> wbuf \<Rightarrow> pb_ostream \<Rightarrow> 'w \<Rightarrow> 'w eres" where
  "run_callback env (WNull n) s w = o_undefined s w"
| "run_callback env (WBytes bs) s w =
     (case o_callback s of
        OCb_NULL \<Rightarrow> o_undefined s w
      | OCb_buf_write \<Rightarrow> buf_write bs s w
      | OCb_user f \<Rightarrow> user_write env f bs s w)"

definition pb_write :: "'w pb_enc_env \<Rightarrow> wbuf \<Rightarrow> pb_ostream \<Rightarrow> 'w \<Rightarrow> 'w eres" where
  "pb_write env b s w =
     (let count = wcount b in
      if 0 < count \<and> o_callback s \<noteq> OCb_NULL then
        if bytes_written s + count < bytes_written s \<or> max_size s < bytes_written s + count
        then o_error ''stream full'' s w
        else (case run_callback env b s w of
                (None, s', w') \<Rightarrow> o_error ''io error'' s' w'
              | (Some _, s', w') \<Rightarrow> (Some (), s'\<lparr>bytes_written := bytes_written s' + count\<rparr>, w'))
      else (Some (), s\<lparr>bytes_written := bytes_written s + count\<rparr>, w))"

section \<open>Wire-format writers\<close>

function varint_loop :: "u64 \<Rightarrow> u8 list" where
  "varint_loop value =
     (if value = 0 then [] else (ucast (value AND 0x7F) OR 0x80) # varint_loop (drop_bit 7 value))"
  by pat_completeness auto
termination
  by (relation "measure unat") (auto simp only: in_measure wf_measure intro: unat_drop_bit_less)

declare varint_loop.simps [simp del]

text \<open>The contents of the local \<open>buffer\<close> when \<open>pb_encode_varint\<close> writes it.\<close>

definition varint_buffer :: "u64 \<Rightarrow> u8 list" where
  "varint_buffer value =
     (if value \<le> 0x7F then [ucast value]
      else let buffer = varint_loop value in buffer[length buffer - 1 := last buffer AND 0x7F])"

definition pb_encode_varint :: "'w pb_enc_env \<Rightarrow> u64 \<Rightarrow> pb_ostream \<Rightarrow> 'w \<Rightarrow> 'w eres" where
  "pb_encode_varint env value s w = pb_write env (WBytes (varint_buffer value)) s w"

definition zigzag :: "u64 \<Rightarrow> u64" where
  "zigzag value = (if sint value < 0 then NOT (push_bit 1 value) else push_bit 1 value)"

definition pb_encode_svarint :: "'w pb_enc_env \<Rightarrow> u64 \<Rightarrow> pb_ostream \<Rightarrow> 'w \<Rightarrow> 'w eres" where
  "pb_encode_svarint env value s w = pb_encode_varint env (zigzag value) s w"

definition fixed32_bytes :: "u32 \<Rightarrow> u8 list" where
  "fixed32_bytes val = [ucast (val AND 0xFF), ucast (drop_bit 8 val AND 0xFF),
     ucast (drop_bit 16 val AND 0xFF), ucast (drop_bit 24 val AND 0xFF)]"

definition pb_encode_fixed32 :: "'w pb_enc_env \<Rightarrow> addr \<Rightarrow> pb_ostream \<Rightarrow> 'w \<Rightarrow> 'w eres" where
  "pb_encode_fixed32 env value s w = pb_write env (WBytes (fixed32_bytes (load32 (src env) value))) s w"

definition fixed64_bytes :: "u64 \<Rightarrow> u8 list" where
  "fixed64_bytes val = [ucast (val AND 0xFF), ucast (drop_bit 8 val AND 0xFF),
     ucast (drop_bit 16 val AND 0xFF), ucast (drop_bit 24 val AND 0xFF),
     ucast (drop_bit 32 val AND 0xFF), ucast (drop_bit 40 val AND 0xFF),
     ucast (drop_bit 48 val AND 0xFF), ucast (drop_bit 56 val AND 0xFF)]"

definition pb_encode_fixed64 :: "'w pb_enc_env \<Rightarrow> addr \<Rightarrow> pb_ostream \<Rightarrow> 'w \<Rightarrow> 'w eres" where
  "pb_encode_fixed64 env value s w = pb_write env (WBytes (fixed64_bytes (load64 (src env) value))) s w"

definition tag_word :: "pb_wire_type \<Rightarrow> u32 \<Rightarrow> u64" where
  "tag_word wiretype field_number = push_bit 3 (ucast field_number) OR ucast (wt_num wiretype)"

definition pb_encode_tag :: "'w pb_enc_env \<Rightarrow> pb_wire_type \<Rightarrow> u32 \<Rightarrow> pb_ostream \<Rightarrow> 'w \<Rightarrow> 'w eres" where
  "pb_encode_tag env wiretype field_number s w = pb_encode_varint env (tag_word wiretype field_number) s w"

definition wiretype_of_ltype :: "u8 \<Rightarrow> pb_wire_type option" where
  "wiretype_of_ltype t =
     (if t = PB_LTYPE_BOOL \<or> t = PB_LTYPE_VARINT \<or> t = PB_LTYPE_UVARINT \<or> t = PB_LTYPE_SVARINT
        then Some PB_WT_VARINT
      else if t = PB_LTYPE_FIXED32 then Some PB_WT_32BIT
      else if t = PB_LTYPE_FIXED64 then Some PB_WT_64BIT
      else if t = PB_LTYPE_BYTES \<or> t = PB_LTYPE_STRING \<or> t = PB_LTYPE_SUBMESSAGE
           \<or> t = PB_LTYPE_FIXED_LENGTH_BYTES then Some PB_WT_STRING
      else None)"

definition pb_encode_tag_for_field :: "'w pb_enc_env \<Rightarrow> pb_field \<Rightarrow> pb_ostream \<Rightarrow> 'w \<Rightarrow> 'w eres" where
  "pb_encode_tag_for_field env field s w =
     (case wiretype_of_ltype (ltype field) of
        None \<Rightarrow> o_error ''invalid field type'' s w
      | Some wt \<Rightarrow> pb_encode_tag env wt (field_tag field) s w)"

definition pb_encode_string :: "'w pb_enc_env \<Rightarrow> u8 list \<Rightarrow> pb_ostream \<Rightarrow> 'w \<Rightarrow> 'w eres" where
  "pb_encode_string env buffer s w =
     andthen (pb_encode_varint env (of_nat (length buffer)) s w)
       (\<lambda>_ s w. pb_write env (WBytes buffer) s w)"

section \<open>Field encoders\<close>

type_synonym 'w encoder = "pb_field \<Rightarrow> addr \<Rightarrow> pb_ostream \<Rightarrow> 'w \<Rightarrow> 'w eres"
type_synonym 'w msg_encoder = "pb_field list \<Rightarrow> addr \<Rightarrow> pb_ostream \<Rightarrow> 'w \<Rightarrow> 'w eres"

definition safe_read_bool :: "mem \<Rightarrow> addr \<Rightarrow> bool" where
  "safe_read_bool m p \<longleftrightarrow> m p \<noteq> 0"

definition pb_enc_bool :: "'w pb_enc_env \<Rightarrow> 'w encoder" where
  "pb_enc_bool env field a s w = pb_encode_varint env (if safe_read_bool (src env) a then 1 else 0) s w"

text \<open>The signed and unsigned loads \<open>value = *(const intN_t*)src\<close>, chosen by \<open>data_size\<close>.\<close>

definition read_signed :: "mem \<Rightarrow> u32 \<Rightarrow> addr \<Rightarrow> u64 option" where
  "read_signed m sz a =
     (if sz = 1 then Some (scast (m a))
      else if sz = 2 then Some (scast (load16 m a))
      else if sz = 4 then Some (scast (load32 m a))
      else if sz = 8 then Some (load64 m a)
      else None)"

definition read_unsigned :: "mem \<Rightarrow> u32 \<Rightarrow> addr \<Rightarrow> u64 option" where
  "read_unsigned m sz a =
     (if sz = 1 then Some (ucast (m a))
      else if sz = 2 then Some (ucast (load16 m a))
      else if sz = 4 then Some (ucast (load32 m a))
      else if sz = 8 then Some (load64 m a)
      else None)"

definition pb_enc_varint :: "'w pb_enc_env \<Rightarrow> 'w encoder" where
  "pb_enc_varint env field a s w =
     (case read_signed (src env) (data_size field) a of
        None \<Rightarrow> o_error ''invalid data_size'' s w
      | Some value \<Rightarrow> pb_encode_varint env value s w)"

definition pb_enc_uvarint :: "'w pb_enc_env \<Rightarrow> 'w encoder" where
  "pb_enc_uvarint env field a s w =
     (case read_unsigned (src env) (data_size field) a of
        None \<Rightarrow> o_error ''invalid data_size'' s w
      | Some value \<Rightarrow> pb_encode_varint env value s w)"

definition pb_enc_svarint :: "'w pb_enc_env \<Rightarrow> 'w encoder" where
  "pb_enc_svarint env field a s w =
     (case read_signed (src env) (data_size field) a of
        None \<Rightarrow> o_error ''invalid data_size'' s w
      | Some value \<Rightarrow> pb_encode_svarint env value s w)"

definition pb_enc_fixed64 :: "'w pb_enc_env \<Rightarrow> 'w encoder" where
  "pb_enc_fixed64 env field a s w = pb_encode_fixed64 env a s w"

definition pb_enc_fixed32 :: "'w pb_enc_env \<Rightarrow> 'w encoder" where
  "pb_enc_fixed32 env field a s w = pb_encode_fixed32 env a s w"

definition pb_enc_bytes :: "'w pb_enc_env \<Rightarrow> 'w encoder" where
  "pb_enc_bytes env field a s w =
     (if a = 0 then pb_encode_string env [] s w
      else let size = load32 (src env) a in
        if atype field = PB_ATYPE_STATIC \<and> (ucast (data_size field) :: u64) - 4 < ucast size
        then o_error ''bytes size exceeded'' s w
        else pb_encode_string env (load_bytes (src env) (a + 4) (unat size)) s w)"

text \<open>The \<open>strnlen\<close> loop of \<open>pb_enc_string\<close>.\<close>

function strnlen_loop :: "mem \<Rightarrow> addr \<Rightarrow> u64 \<Rightarrow> u64 \<Rightarrow> u64" where
  "strnlen_loop m p limit n =
     (if n < limit \<and> m p \<noteq> 0 then strnlen_loop m (p + 1) limit (n + 1) else n)"
  by pat_completeness auto
termination
  by (relation "measure (\<lambda>(m, p, limit, n). unat limit - unat n)")
    (auto simp: unat_plus_one_less word_less_nat_alt)

declare strnlen_loop.simps [simp del]

definition pb_enc_string :: "'w pb_enc_env \<Rightarrow> 'w encoder" where
  "pb_enc_string env field a s w =
     (let max_size :: u64 = (if atype field = PB_ATYPE_POINTER then - 1 else ucast (data_size field));
          size = (if a = 0 then 0 else strnlen_loop (src env) a max_size 0)
      in pb_encode_string env (load_bytes (src env) a (unat size)) s w)"

definition pb_enc_fixed_length_bytes :: "'w pb_enc_env \<Rightarrow> 'w encoder" where
  "pb_enc_fixed_length_bytes env field a s w =
     pb_encode_string env (load_bytes (src env) a (unat (data_size field))) s w"

text \<open>\<open>enc\<close> is \<open>pb_encode\<close>, one level of nesting down.\<close>

definition pb_encode_submessage :: "'w pb_enc_env \<Rightarrow> 'w msg_encoder \<Rightarrow> pb_field list \<Rightarrow> addr \<Rightarrow> pb_ostream \<Rightarrow> 'w \<Rightarrow> 'w eres" where
  "pb_encode_submessage env enc fs a s w =
     (case enc fs a PB_OSTREAM_SIZING w of
        (None, sub, w) \<Rightarrow> (None, s\<lparr>o_errmsg := o_errmsg sub\<rparr>, w)
      | (Some _, sub, w) \<Rightarrow>
         (let size = bytes_written sub in
          andthen (pb_encode_varint env size s w) (\<lambda>_ s w.
            if o_callback s = OCb_NULL then pb_write env (WNull size) s w
            else if max_size s < bytes_written s + size then o_error ''stream full'' s w
            else case enc fs a (s\<lparr>max_size := size, bytes_written := 0, o_errmsg := None\<rparr>) w of
              (status, sub, w) \<Rightarrow>
                (let s' = s\<lparr>bytes_written := bytes_written s + bytes_written sub,
                            o_buf := o_buf sub, o_pos := o_pos sub, o_state := o_state sub,
                            o_errmsg := o_errmsg sub\<rparr>
                 in if bytes_written sub \<noteq> size then o_error ''submsg size changed'' s' w
                    else (status, s', w)))))"

definition pb_enc_submessage :: "'w pb_enc_env \<Rightarrow> 'w msg_encoder \<Rightarrow> 'w encoder" where
  "pb_enc_submessage env enc field a s w =
     (if field_ptr field = 0 then o_error ''invalid field descriptor'' s w
      else pb_encode_submessage env enc (fields_at env (field_ptr field)) a s w)"

definition PB_ENCODERS :: "'w pb_enc_env \<Rightarrow> 'w msg_encoder \<Rightarrow> u8 \<Rightarrow> 'w encoder" where
  "PB_ENCODERS env enc t =
     (if t = 0 then pb_enc_bool env
      else if t = 1 then pb_enc_varint env
      else if t = 2 then pb_enc_uvarint env
      else if t = 3 then pb_enc_svarint env
      else if t = 4 then pb_enc_fixed32 env
      else if t = 5 then pb_enc_fixed64 env
      else if t = 6 then pb_enc_bytes env
      else if t = 7 then pb_enc_string env
      else if t = 8 then pb_enc_submessage env enc
      else if t = 10 then pb_enc_fixed_length_bytes env
      else (\<lambda>field a s w. o_undefined s w))"

section \<open>Arrays and default values\<close>

text \<open>\<open>for (i = 0; i < count; i++) { func(stream, field, p); p += field->data_size; }\<close>\<close>

fun packed_items :: "'w encoder \<Rightarrow> pb_field \<Rightarrow> nat \<Rightarrow> addr \<Rightarrow> pb_ostream \<Rightarrow> 'w \<Rightarrow> 'w eres" where
  "packed_items func field 0 p s w = (Some (), s, w)"
| "packed_items func field (Suc n) p s w =
     andthen (func field p s w) (\<lambda>_ s w. packed_items func field n (p + ucast (data_size field)) s w)"

fun tagged_items :: "'w pb_enc_env \<Rightarrow> 'w encoder \<Rightarrow> pb_field \<Rightarrow> nat \<Rightarrow> addr \<Rightarrow> pb_ostream \<Rightarrow> 'w \<Rightarrow> 'w eres" where
  "tagged_items env func field 0 p s w = (Some (), s, w)"
| "tagged_items env func field (Suc n) p s w =
     andthen (pb_encode_tag_for_field env field s w) (\<lambda>_ s w.
     andthen (func field
          (if atype field = PB_ATYPE_POINTER \<and> (ltype field = PB_LTYPE_STRING \<or> ltype field = PB_LTYPE_BYTES)
           then load64 (src env) p else p) s w) (\<lambda>_ s w.
     tagged_items env func field n (p + ucast (data_size field)) s w))"

text \<open>
  The size of a packed array. A failure of the sizing pass leaves the outer stream,
  and its error message, as they are.
\<close>

definition packed_size :: "'w encoder \<Rightarrow> pb_field \<Rightarrow> addr \<Rightarrow> u64 \<Rightarrow> pb_ostream \<Rightarrow> 'w \<Rightarrow> (u64, pb_ostream, 'w) cres" where
  "packed_size func field p count s w =
     (if ltype field = PB_LTYPE_FIXED32 then (Some (4 * count), s, w)
      else if ltype field = PB_LTYPE_FIXED64 then (Some (8 * count), s, w)
      else case packed_items func field (unat count) p PB_OSTREAM_SIZING w of
             (None, sizestream, w') \<Rightarrow> (None, s, w')
           | (Some _, sizestream, w') \<Rightarrow> (Some (bytes_written sizestream), s, w'))"

definition encode_array :: "'w pb_enc_env \<Rightarrow> pb_field \<Rightarrow> addr \<Rightarrow> u64 \<Rightarrow> 'w encoder \<Rightarrow> pb_ostream \<Rightarrow> 'w \<Rightarrow> 'w eres" where
  "encode_array env field p count func s w =
     (if count = 0 then (Some (), s, w)
      else if atype field \<noteq> PB_ATYPE_POINTER \<and> ucast (array_size field) < count
      then o_error ''array max size exceeded'' s w
      else if ltype field \<le> PB_LTYPE_LAST_PACKABLE then
        andthen (pb_encode_tag env PB_WT_STRING (field_tag field) s w) (\<lambda>_ s w.
        andthen (packed_size func field p count s w) (\<lambda>sz s w.
        andthen (pb_encode_varint env sz s w) (\<lambda>_ s w.
        if o_callback s = OCb_NULL then pb_write env (WNull sz) s w
        else packed_items func field (unat count) p s w)))
      else tagged_items env func field (unat count) p s w)"

text \<open>
  The \<open>do ... while (pb_field_iter_next(&iter))\<close> loops: over a pure test, and over a body
  that encodes. Each step that goes on moves the iterator to a later field.
\<close>

lemma iter_next_step:
  "fst (pb_field_iter_next it) \<Longrightarrow>
     it_pos (snd (pb_field_iter_next it)) = Suc (it_pos it) \<and> Suc (it_pos it) < length (it_start it)"
  by (auto simp: pb_field_iter_next_def Let_def field_at_def PB_LAST_FIELD_def split: if_splits)

function fields_all :: "(pb_field \<Rightarrow> addr \<Rightarrow> bool option) \<Rightarrow> pb_field_iter \<Rightarrow> bool option" where
  "fields_all P it =
     (case P (it_field it) (pData it) of
        None \<Rightarrow> None
      | Some False \<Rightarrow> Some False
      | Some True \<Rightarrow> if fst (pb_field_iter_next it) then fields_all P (snd (pb_field_iter_next it)) else Some True)"
  by pat_completeness auto
termination
  by (relation "measure (\<lambda>(P, it). length (it_start it) - it_pos it)") (use iter_next_step in fastforce)+

function fields_loop :: "(pb_field_iter \<Rightarrow> 's \<Rightarrow> 'w \<Rightarrow> (unit, 's, 'w) cres) \<Rightarrow> pb_field_iter \<Rightarrow> 's \<Rightarrow> 'w \<Rightarrow> (unit, 's, 'w) cres" where
  "fields_loop body it s w =
     (case body it s w of
        (None, s', w') \<Rightarrow> (None, s', w')
      | (Some _, s', w') \<Rightarrow>
          if fst (pb_field_iter_next it) then fields_loop body (snd (pb_field_iter_next it)) s' w'
          else (Some (), s', w'))"
  by pat_completeness auto
termination
  by (relation "measure (\<lambda>(body, it, s, w). length (it_start it) - it_pos it)") (use iter_next_step in fastforce)+

declare fields_all.simps [simp del] fields_loop.simps [simp del]

definition all_zero :: "mem \<Rightarrow> addr \<Rightarrow> nat \<Rightarrow> bool" where
  "all_zero m a n \<longleftrightarrow> list_all (\<lambda>b. b = 0) (load_bytes m a n)"

text \<open>The part of \<open>pb_check_proto3_default_value\<close> for proto3 singular fields.\<close>

definition singular_is_default :: "'w pb_enc_env \<Rightarrow> (pb_field \<Rightarrow> addr \<Rightarrow> bool option) \<Rightarrow> pb_field \<Rightarrow> addr \<Rightarrow> bool option" where
  "singular_is_default env rec field d =
     (let m = src env in
      if atype field = PB_ATYPE_STATIC \<and> ltype field = PB_LTYPE_BYTES then Some (load32 m d = 0)
      else if atype field = PB_ATYPE_STATIC \<and> ltype field = PB_LTYPE_STRING then Some (m d = 0)
      else if atype field = PB_ATYPE_STATIC \<and> ltype field = PB_LTYPE_FIXED_LENGTH_BYTES
        then Some (data_size field = 0)
      else if atype field = PB_ATYPE_STATIC \<and> ltype field = PB_LTYPE_SUBMESSAGE then
        (case pb_field_iter_begin (fields_at env (field_ptr field)) d of
           (nonempty, it) \<Rightarrow> if nonempty then fields_all rec it else Some True)
      else if atype field = PB_ATYPE_POINTER \<and> PB_LTYPE_LAST_PACKABLE < ltype field
        then Some (load64 m d = 0)
      else Some (all_zero m d (unat (data_size field))))"

definition check_default :: "'w pb_enc_env \<Rightarrow> (pb_field \<Rightarrow> addr \<Rightarrow> bool option) \<Rightarrow> pb_field \<Rightarrow> addr \<Rightarrow> bool option" where
  "check_default env rec field d =
     (let m = src env; z = d + scast (size_offset field) in
      if htype field = PB_HTYPE_REQUIRED then Some False
      else if htype field = PB_HTYPE_REPEATED \<and> size_offset field \<noteq> 0 then Some (load32 m z = 0)
      else if htype field = PB_HTYPE_REPEATED \<and> atype field = PB_ATYPE_STATIC then Some False
      else if htype field = PB_HTYPE_ONEOF then Some (load32 m z = 0)
      else if htype field = PB_HTYPE_OPTIONAL \<and> size_offset field \<noteq> 0 then Some (\<not> safe_read_bool m z)
      else singular_is_default env rec field d)"

fun pb_check_proto3_default_value :: "nat \<Rightarrow> 'w pb_enc_env \<Rightarrow> pb_field \<Rightarrow> addr \<Rightarrow> bool option" where
  "pb_check_proto3_default_value 0 env field d = None"
| "pb_check_proto3_default_value (Suc n) env field d =
     check_default env (pb_check_proto3_default_value n env) field d"

section \<open>Fields and messages\<close>

text \<open>
  \<open>dflt\<close> is \<open>pb_check_proto3_default_value\<close>. The C code reads the has-flag through
  \<open>pSize\<close>, which points at the local \<open>implicit_has\<close> or into the message; a oneof
  member without a size offset would read four bytes from the one-byte local. The
  repetition mask has two bits, so the switch's default case is unreachable.
\<close>

definition encode_basic_field :: "'w pb_enc_env \<Rightarrow> (pb_field \<Rightarrow> addr \<Rightarrow> bool option) \<Rightarrow> 'w msg_encoder \<Rightarrow> pb_field \<Rightarrow> addr \<Rightarrow> pb_ostream \<Rightarrow> 'w \<Rightarrow> 'w eres" where
  "encode_basic_field env dflt enc field d s w =
     (let m = src env;
          func = PB_ENCODERS env enc (ltype field);
          z = d + scast (size_offset field);
          d' = (if atype field = PB_ATYPE_POINTER then load64 m d else d);
          implicit_has =
            (if size_offset field \<noteq> 0 then Some True
             else if htype field = PB_HTYPE_OPTIONAL then map_option Not (dflt field d)
             else Some True);
          write_it = (\<lambda>s w. andthen (pb_encode_tag_for_field env field s w) (\<lambda>_ s w. func field d' s w))
      in case implicit_has of
           None \<Rightarrow> o_out_of_fuel s w
         | Some has0 \<Rightarrow>
            (let has = (if atype field = PB_ATYPE_POINTER then d' \<noteq> 0 else has0) in
             if htype field = PB_HTYPE_REQUIRED then
               if d' = 0 then o_error ''missing required field'' s w else write_it s w
             else if htype field = PB_HTYPE_OPTIONAL then
               if (if size_offset field \<noteq> 0 then safe_read_bool m z else has) then write_it s w
               else (Some (), s, w)
             else if htype field = PB_HTYPE_REPEATED then
               encode_array env field d'
                 (ucast (if size_offset field \<noteq> 0 then load32 m z else array_size field)) func s w
             else if size_offset field = 0 then o_undefined s w
             else if load32 m z = field_tag field then write_it s w
             else (Some (), s, w)))"

definition encode_callback_field :: "'w pb_enc_env \<Rightarrow> pb_field \<Rightarrow> addr \<Rightarrow> pb_ostream \<Rightarrow> 'w \<Rightarrow> 'w eres" where
  "encode_callback_field env field d s w =
     (let f = load64 (src env) d in
      if f \<noteq> 0 then
        (case user_encode env f field (d + 8) s w of
           (None, s', w') \<Rightarrow> o_error ''callback error'' s' w'
         | (Some _, s', w') \<Rightarrow> (Some (), s', w'))
      else (Some (), s, w))"

definition encode_field :: "'w pb_enc_env \<Rightarrow> (pb_field \<Rightarrow> addr \<Rightarrow> bool option) \<Rightarrow> 'w msg_encoder \<Rightarrow> pb_field \<Rightarrow> addr \<Rightarrow> pb_ostream \<Rightarrow> 'w \<Rightarrow> 'w eres" where
  "encode_field env dflt enc field d s w =
     (if atype field = PB_ATYPE_STATIC \<or> atype field = PB_ATYPE_POINTER
      then encode_basic_field env dflt enc field d s w
      else if atype field = PB_ATYPE_CALLBACK then encode_callback_field env field d s w
      else o_error ''invalid field type'' s w)"

text \<open>
  \<open>pb_extension_t\<close> in memory: \<open>type\<close>, \<open>dest\<close>, \<open>next\<close> and \<open>found\<close> at offsets 0, 8, 16
  and 24; \<open>pb_extension_type_t\<close>: \<open>decode\<close>, \<open>encode\<close> and \<open>arg\<close> at 0, 8 and 16.
\<close>

definition default_extension_encoder :: "'w pb_enc_env \<Rightarrow> (pb_field \<Rightarrow> addr \<Rightarrow> bool option) \<Rightarrow> 'w msg_encoder \<Rightarrow> addr \<Rightarrow> pb_ostream \<Rightarrow> 'w \<Rightarrow> 'w eres" where
  "default_extension_encoder env dflt enc ext s w =
     (let m = src env; field = field_at (fields_at env (load64 m (load64 m ext + 16))) 0 in
      if atype field = PB_ATYPE_POINTER then encode_field env dflt enc field (ext + 8) s w
      else encode_field env dflt enc field (load64 m (ext + 8)) s w)"

fun extension_loop :: "nat \<Rightarrow> 'w pb_enc_env \<Rightarrow> (pb_field \<Rightarrow> addr \<Rightarrow> bool option) \<Rightarrow> 'w msg_encoder \<Rightarrow> addr \<Rightarrow> pb_ostream \<Rightarrow> 'w \<Rightarrow> 'w eres" where
  "extension_loop n env dflt enc ext s w =
     (if ext = 0 then (Some (), s, w)
      else case n of
        0 \<Rightarrow> o_out_of_fuel s w
      | Suc k \<Rightarrow>
          (let m = src env; f = load64 m (load64 m ext + 8) in
           andthen (if f \<noteq> 0 then ext_encode env f ext s w
                    else default_extension_encoder env dflt enc ext s w)
             (\<lambda>_ s w. extension_loop k env dflt enc (load64 m (ext + 16)) s w)))"

declare extension_loop.simps [simp del]

definition encode_extension_field :: "nat \<Rightarrow> 'w pb_enc_env \<Rightarrow> (pb_field \<Rightarrow> addr \<Rightarrow> bool option) \<Rightarrow> 'w msg_encoder \<Rightarrow> addr \<Rightarrow> pb_ostream \<Rightarrow> 'w \<Rightarrow> 'w eres" where
  "encode_extension_field n env dflt enc d s w = extension_loop n env dflt enc (load64 (src env) d) s w"

text \<open>
  One iteration of \<open>pb_encode\<close>'s loop. The fuel bounds the nesting of submessages, of
  proto3 default checks and the length of an extension list.
\<close>

definition encode_one :: "nat \<Rightarrow> 'w pb_enc_env \<Rightarrow> 'w msg_encoder \<Rightarrow> pb_field_iter \<Rightarrow> pb_ostream \<Rightarrow> 'w \<Rightarrow> 'w eres" where
  "encode_one n env enc it s w =
     (if ltype (it_field it) = PB_LTYPE_EXTENSION
      then encode_extension_field n env (pb_check_proto3_default_value n env) enc (pData it) s w
      else encode_field env (pb_check_proto3_default_value n env) enc (it_field it) (pData it) s w)"

fun pb_encode :: "nat \<Rightarrow> 'w pb_enc_env \<Rightarrow> 'w msg_encoder" where
  "pb_encode 0 env fs a s w = o_out_of_fuel s w"
| "pb_encode (Suc n) env fs a s w =
     (case pb_field_iter_begin fs a of
        (nonempty, it) \<Rightarrow>
          if nonempty then fields_loop (encode_one n env (pb_encode n env)) it s w
          else (Some (), s, w))"

definition pb_encode_delimited :: "nat \<Rightarrow> 'w pb_enc_env \<Rightarrow> 'w msg_encoder" where
  "pb_encode_delimited n env fs a s w = pb_encode_submessage env (pb_encode n env) fs a s w"

definition pb_encode_nullterminated :: "nat \<Rightarrow> 'w pb_enc_env \<Rightarrow> 'w msg_encoder" where
  "pb_encode_nullterminated n env fs a s w =
     andthen (pb_encode n env fs a s w) (\<lambda>_ s w. pb_write env (WBytes [0]) s w)"

definition pb_get_encoded_size :: "nat \<Rightarrow> 'w pb_enc_env \<Rightarrow> pb_field list \<Rightarrow> addr \<Rightarrow> 'w \<Rightarrow> u64 option \<times> 'w" where
  "pb_get_encoded_size n env fs a w =
     (case pb_encode n env fs a PB_OSTREAM_SIZING w of
        (None, s, w') \<Rightarrow> (None, w')
      | (Some _, s, w') \<Rightarrow> (Some (bytes_written s), w'))"

end
