(* ===== verification/Pb_Encode_Spec.thy ===== *)
theory Pb_Encode_Spec
  imports Pb_Encode
begin

text \<open>
  What the encoder promises. The reference encoder maps a message to the bytes of its
  protobuf encoding in one pass, with no streams: a field is its tag followed by its value,
  a submessage or packed array is length-delimited. The refinement says that the two-pass
  stream code produces exactly these bytes: a sizing stream counts them, a buffer stream
  holds them when they fit and refuses otherwise, without touching a byte of the
  destination array outside the window the stream was given and without reaching any of
  the undefined behaviours of the model.
  \<open>Unspec\<close> marks what the reference does not specify: an encoding of \<open>2\<^sup>6\<^sup>3\<close> bytes or more,
  or one the fuel does not suffice for.
\<close>

section \<open>Outcomes of an encoding\<close>

datatype enc_out = Emit "u8 list" | Refuse | Unspec

definition emit :: "u8 list \<Rightarrow> enc_out" where
  "emit bs = (if length bs < 2 ^ 63 then Emit bs else Unspec)"

fun ecat :: "enc_out \<Rightarrow> enc_out \<Rightarrow> enc_out" where
  "ecat (Emit a) (Emit b) = emit (a @ b)"
| "ecat (Emit a) r = r"
| "ecat Refuse r = Refuse"
| "ecat Unspec r = Unspec"

fun delimit :: "enc_out \<Rightarrow> enc_out" where
  "delimit (Emit bs) = emit (varint_buffer (of_nat (length bs)) @ bs)"
| "delimit Refuse = Refuse"
| "delimit Unspec = Unspec"

section \<open>Output windows\<close>

definition out_limit :: "pb_ostream \<Rightarrow> nat" where
  "out_limit s = o_pos s + unat (max_size s - bytes_written s)"

definition out_ok :: "pb_ostream \<Rightarrow> bool" where
  "out_ok s \<longleftrightarrow> o_errmsg s = None \<and>
     (o_callback s = OCb_NULL \<or>
      o_callback s = OCb_buf_write \<and> bytes_written s \<le> max_size s \<and> unat (max_size s) < 2 ^ 63
        \<and> out_limit s \<le> length (o_buf s))"

definition room :: "pb_ostream \<Rightarrow> nat \<Rightarrow> bool" where
  "room s n \<longleftrightarrow> o_callback s = OCb_NULL \<or> n \<le> unat (max_size s - bytes_written s)"

definition put :: "u8 list \<Rightarrow> pb_ostream \<Rightarrow> pb_ostream" where
  "put bs s =
     (if o_callback s = OCb_NULL then s\<lparr>bytes_written := bytes_written s + of_nat (length bs)\<rparr>
      else s\<lparr>bytes_written := bytes_written s + of_nat (length bs),
             o_pos := o_pos s + length bs,
             o_buf := take (o_pos s) (o_buf s) @ bs @ drop (o_pos s + length bs) (o_buf s)\<rparr>)"

definition out_frame :: "pb_ostream \<Rightarrow> pb_ostream \<Rightarrow> bool" where
  "out_frame s s' \<longleftrightarrow>
     (if o_callback s = OCb_NULL then o_buf s' = o_buf s
      else length (o_buf s') = length (o_buf s)
         \<and> take (o_pos s) (o_buf s') = take (o_pos s) (o_buf s)
         \<and> drop (out_limit s) (o_buf s') = drop (out_limit s) (o_buf s))"

text \<open>A failed call: it returned false, changed nothing outside the window, and not by undefined behaviour.\<close>

definition refused :: "pb_ostream \<Rightarrow> 'w \<Rightarrow> 'w eres \<Rightarrow> bool" where
  "refused s w r \<longleftrightarrow> (\<exists>s'. r = (None, s', w) \<and> out_frame s s' \<and> o_errmsg s' \<noteq> Some ''undefined behaviour'')"

definition implements :: "(pb_ostream \<Rightarrow> 'w \<Rightarrow> 'w eres) \<Rightarrow> enc_out \<Rightarrow> bool" where
  "implements f r \<longleftrightarrow> (\<forall>s w. out_ok s \<longrightarrow>
     (case r of
        Emit bs \<Rightarrow> if room s (length bs) then f s w = (Some (), put bs s, w) else refused s w (f s w)
      | Refuse \<Rightarrow> refused s w (f s w)
      | Unspec \<Rightarrow> True))"

lemma refused_None [simp]: "refused s w (None, s', w') \<longleftrightarrow> w' = w \<and> out_frame s s' \<and> o_errmsg s' \<noteq> Some ''undefined behaviour''"
  by (auto simp: refused_def)

lemma refused_Some [simp]: "\<not> refused s w (Some x, s', w')"
  by (simp add: refused_def)

lemma refused_andthen: "refused s w r \<Longrightarrow> refused s w (andthen r k)"
  by (auto simp: refused_def)

lemma implements_Unspec [simp]: "implements f Unspec"
  by (simp add: implements_def)

lemma out_frame_refl [simp]: "out_frame s s"
  by (simp add: out_frame_def)

lemma o_callback_put [simp]: "o_callback (put bs s) = o_callback s"
  by (simp add: put_def)

lemma o_errmsg_put [simp]: "o_errmsg (put bs s) = o_errmsg s"
  by (simp add: put_def)

lemma put_Nil [simp]: "put [] s = s"
  by (simp add: put_def)

lemma unat_sub: "(a::u64) \<le> b \<Longrightarrow> unat (b - a) = unat b - unat a"
  by (simp add: unat_sub_if' word_le_nat_alt)

lemma room_add:
  assumes "out_ok s" and "o_callback s \<noteq> OCb_NULL" and "room s n"
  shows "unat (bytes_written s + of_nat n) = unat (bytes_written s) + n"
    and "unat (bytes_written s) + n \<le> unat (max_size s)"
proof -
  have le: "bytes_written s \<le> max_size s" and "unat (max_size s) < 2 ^ 63"
    using assms by (simp_all add: out_ok_def)
  have "n \<le> unat (max_size s) - unat (bytes_written s)" using assms le by (simp add: room_def unat_sub)
  then show b: "unat (bytes_written s) + n \<le> unat (max_size s)" using le by (simp add: word_le_nat_alt)
  then have "n < 2 ^ 64" "unat (bytes_written s) + n < 2 ^ 64" using \<open>unat (max_size s) < 2 ^ 63\<close> by simp_all
  then show "unat (bytes_written s + of_nat n) = unat (bytes_written s) + n"
    by (simp add: unat_word_ariths unat_of_nat)
qed

lemma put_window:
  assumes "out_ok s" and "o_callback s \<noteq> OCb_NULL" and "room s (length bs)"
  shows "bytes_written (put bs s) \<le> max_size (put bs s)" and "out_limit (put bs s) = out_limit s"
    and "unat (max_size (put bs s) - bytes_written (put bs s)) = unat (max_size s - bytes_written s) - length bs"
proof -
  note r = room_add [OF assms]
  have le: "bytes_written s \<le> max_size s" using assms by (simp add: out_ok_def)
  show le': "bytes_written (put bs s) \<le> max_size (put bs s)"
    using r assms(2) by (simp add: put_def word_le_nat_alt)
  show rm: "unat (max_size (put bs s) - bytes_written (put bs s)) = unat (max_size s - bytes_written s) - length bs"
    using r le le' assms(2) by (simp add: put_def unat_sub)
  show "out_limit (put bs s) = out_limit s"
    using rm assms(2,3) by (simp add: out_limit_def room_def) (simp add: put_def)
qed

lemma length_o_buf_put:
  assumes "out_ok s" and "room s (length bs)" shows "length (o_buf (put bs s)) = length (o_buf s)"
  using assms by (auto simp: put_def out_ok_def room_def out_limit_def)

lemma put_ok: "out_ok s \<Longrightarrow> room s (length bs) \<Longrightarrow> out_ok (put bs s)"
  using put_window [of s bs] length_o_buf_put [of s bs]
  by (auto simp: out_ok_def) (auto simp: put_def)

lemma put_put:
  assumes "out_ok s" and "room s (length bs)"
  shows "put cs (put bs s) = put (bs @ cs) s"
proof (cases "o_callback s = OCb_NULL")
  case True
  then show ?thesis by (simp add: put_def add.assoc)
next
  case False
  then have le: "o_pos s + length bs \<le> length (o_buf s)"
    using assms by (auto simp: out_ok_def room_def out_limit_def)
  then have "min (length (o_buf s)) (o_pos s) = o_pos s" by simp
  then show ?thesis using False le by (simp add: put_def add.assoc) (simp add: add.commute add.left_commute)
qed

lemma room_put:
  "out_ok s \<Longrightarrow> room s (length bs) \<Longrightarrow> room (put bs s) n \<longleftrightarrow> room s (length bs + n)"
  using put_window(3) [of s bs] by (cases "o_callback s = OCb_NULL") (auto simp: room_def)

lemma out_frame_put:
  assumes ok: "out_ok s" and rm: "room s (length bs)" and fr: "out_frame (put bs s) s'"
  shows "out_frame s s'"
proof (cases "o_callback s = OCb_NULL")
  case True
  then show ?thesis using fr by (simp add: out_frame_def put_def)
next
  case False
  have lim: "out_limit (put bs s) = out_limit s" using put_window(2) [OF ok False rm] .
  have le: "o_pos s + length bs \<le> out_limit s" "out_limit s \<le> length (o_buf s)"
    using ok rm False by (auto simp: out_ok_def room_def out_limit_def)
  have pos: "o_pos (put bs s) = o_pos s + length bs" using False by (simp add: put_def)
  have "take (o_pos s) (o_buf s') = take (o_pos s) (take (o_pos s + length bs) (o_buf s'))"
    by (simp add: min_def)
  also have "take (o_pos s + length bs) (o_buf s') = take (o_pos s + length bs) (o_buf (put bs s))"
    using fr False pos by (simp add: out_frame_def)
  also have "take (o_pos s) (take (o_pos s + length bs) (o_buf (put bs s))) = take (o_pos s) (o_buf s)"
    using False le by (simp add: put_def min_def)
  finally have t: "take (o_pos s) (o_buf s') = take (o_pos s) (o_buf s)" .
  have "drop (out_limit s) (o_buf (put bs s)) = drop (out_limit s) (o_buf s)"
    using False le by (simp add: put_def)
  then show ?thesis using fr False lim t length_o_buf_put [OF ok rm] by (simp add: out_frame_def)
qed

section \<open>Composition\<close>

lemma implements_seq:
  assumes f: "implements f r" and g: "\<And>bs. r = Emit bs \<Longrightarrow> implements g q"
  shows "implements (\<lambda>s w. andthen (f s w) (\<lambda>_. g)) (ecat r q)"
proof (cases r)
  case (Emit bs)
  have gq: "implements g q" using g Emit by simp
  have *: "case q of
        Emit cs \<Rightarrow> if room s (length bs + length cs) then andthen (f s w) (\<lambda>_. g) = (Some (), put (bs @ cs) s, w)
             else refused s w (andthen (f s w) (\<lambda>_. g))
      | Refuse \<Rightarrow> refused s w (andthen (f s w) (\<lambda>_. g))
      | Unspec \<Rightarrow> True" if ok: "out_ok s" for s :: pb_ostream and w :: 'a
  proof (cases "room s (length bs)")
    case True
    then have fs: "f s w = (Some (), put bs s, w)" using f Emit ok by (simp add: implements_def)
    have ok': "out_ok (put bs s)" using ok True by (rule put_ok)
    have lift: "refused (put bs s) w r \<Longrightarrow> refused s w r" for r
      using out_frame_put [OF ok True] by (auto simp: refused_def)
    show ?thesis using gq ok' fs True room_put [OF ok True] lift
      by (cases q) (auto simp: implements_def put_put [OF ok True])
  next
    case False
    then have "refused s w (f s w)" using f Emit ok by (simp add: implements_def)
    moreover from this have "refused s w (andthen (f s w) (\<lambda>_. g))"
      by (rule refused_andthen)
    moreover have "\<not> room s (length bs + n)" for n using False by (auto simp: room_def)
    ultimately show ?thesis by (cases q) auto
  qed
  show ?thesis
  proof (cases q)
    case q: (Emit cs)
    show ?thesis using * by (auto simp: implements_def Emit q emit_def)
  qed (use * in \<open>auto simp: implements_def Emit\<close>)
next
  case Refuse
  then show ?thesis using f by (simp add: implements_def refused_andthen)
qed simp

lemma implements_seq':
  "implements f r \<Longrightarrow> implements g q \<Longrightarrow> implements (\<lambda>s w. andthen (f s w) (\<lambda>_. g)) (ecat r q)"
  by (rule implements_seq)

lemma implements_ret: "implements (\<lambda>s w. (Some (), s, w)) (Emit [])"
  by (simp add: implements_def room_def)

lemma implements_error: "msg \<noteq> ''undefined behaviour'' \<Longrightarrow> implements (o_error msg) Refuse"
  by (auto simp: implements_def o_error_def o_set_error_def out_ok_def out_frame_def out_limit_def split: option.splits)

lemma implements_cong: "implements f r \<Longrightarrow> (\<And>s w. out_ok s \<Longrightarrow> g s w = f s w) \<Longrightarrow> implements g r"
  by (cases r) (simp_all add: implements_def)

lemma implements_if:
  "(C \<Longrightarrow> implements f r) \<Longrightarrow> (\<not> C \<Longrightarrow> implements g q) \<Longrightarrow>
     implements (\<lambda>s w. if C then f s w else g s w) (if C then r else q)"
  by (cases C) simp_all

section \<open>The reference encoder\<close>

definition spec_tag :: "pb_field \<Rightarrow> enc_out" where
  "spec_tag field = (case wiretype_of_ltype (ltype field) of
     None \<Rightarrow> Refuse | Some wt \<Rightarrow> Emit (varint_buffer (tag_word wt (field_tag field))))"

definition spec_varint :: "u64 option \<Rightarrow> enc_out" where
  "spec_varint v = (case v of None \<Rightarrow> Refuse | Some x \<Rightarrow> Emit (varint_buffer x))"

definition spec_bytes :: "mem \<Rightarrow> pb_field \<Rightarrow> addr \<Rightarrow> enc_out" where
  "spec_bytes m field a =
     (if a = 0 then delimit (Emit [])
      else if atype field = PB_ATYPE_STATIC \<and> (ucast (data_size field) :: u64) - 4 < ucast (load32 m a) then Refuse
      else delimit (emit (load_bytes m (a + 4) (unat (load32 m a)))))"

definition spec_string :: "mem \<Rightarrow> pb_field \<Rightarrow> addr \<Rightarrow> enc_out" where
  "spec_string m field a =
     delimit (emit (load_bytes m a (unat (if a = 0 then 0 else strnlen_loop m a
       (if atype field = PB_ATYPE_POINTER then - 1 else ucast (data_size field)) 0))))"

text \<open>The value of one item of a field, by wire representation; \<open>msg\<close> encodes a submessage.\<close>

definition spec_value :: "'w pb_enc_env \<Rightarrow> (pb_field list \<Rightarrow> addr \<Rightarrow> enc_out) \<Rightarrow> u8 \<Rightarrow> pb_field \<Rightarrow> addr \<Rightarrow> enc_out" where
  "spec_value env msg t field a =
     (let m = src env in
      if t = PB_LTYPE_BOOL then Emit (varint_buffer (if safe_read_bool m a then 1 else 0))
      else if t = PB_LTYPE_VARINT then spec_varint (read_signed m (data_size field) a)
      else if t = PB_LTYPE_UVARINT then spec_varint (read_unsigned m (data_size field) a)
      else if t = PB_LTYPE_SVARINT then spec_varint (map_option zigzag (read_signed m (data_size field) a))
      else if t = PB_LTYPE_FIXED32 then Emit (le_bytes 4 (load32 m a))
      else if t = PB_LTYPE_FIXED64 then Emit (le_bytes 8 (load64 m a))
      else if t = PB_LTYPE_BYTES then spec_bytes m field a
      else if t = PB_LTYPE_STRING then spec_string m field a
      else if t = PB_LTYPE_SUBMESSAGE then
        if field_ptr field = 0 then Refuse else delimit (msg (fields_at env (field_ptr field)) a)
      else if t = PB_LTYPE_FIXED_LENGTH_BYTES then delimit (emit (load_bytes m a (unat (data_size field))))
      else Unspec)"

fun spec_items :: "(addr \<Rightarrow> enc_out) \<Rightarrow> u64 \<Rightarrow> nat \<Rightarrow> addr \<Rightarrow> enc_out" where
  "spec_items f step 0 p = Emit []"
| "spec_items f step (Suc n) p = ecat (f p) (spec_items f step n (p + step))"

text \<open>A repeated field: packed when the type allows it, otherwise one tagged item after another.\<close>

definition spec_array :: "'w pb_enc_env \<Rightarrow> (pb_field list \<Rightarrow> addr \<Rightarrow> enc_out) \<Rightarrow> pb_field \<Rightarrow> addr \<Rightarrow> u32 \<Rightarrow> enc_out" where
  "spec_array env msg field p count =
     (let val = spec_value env msg (ltype field) field; step = ucast (data_size field) in
      if count = 0 then Emit []
      else if atype field \<noteq> PB_ATYPE_POINTER \<and> array_size field < count then Refuse
      else if ltype field \<le> PB_LTYPE_LAST_PACKABLE then
        ecat (Emit (varint_buffer (tag_word PB_WT_STRING (field_tag field))))
          (delimit (spec_items val step (unat count) p))
      else spec_items (\<lambda>q. ecat (spec_tag field) (val
             (if atype field = PB_ATYPE_POINTER \<and> (ltype field = PB_LTYPE_STRING \<or> ltype field = PB_LTYPE_BYTES)
              then load64 (src env) q else q))) step (unat count) p)"

definition spec_basic :: "'w pb_enc_env \<Rightarrow> (pb_field \<Rightarrow> addr \<Rightarrow> bool option) \<Rightarrow> (pb_field list \<Rightarrow> addr \<Rightarrow> enc_out) \<Rightarrow> pb_field \<Rightarrow> addr \<Rightarrow> enc_out" where
  "spec_basic env dflt msg field d =
     (let m = src env; z = d + scast (size_offset field);
          d' = (if atype field = PB_ATYPE_POINTER then load64 m d else d);
          item = ecat (spec_tag field) (spec_value env msg (ltype field) field d')
      in if htype field = PB_HTYPE_REQUIRED then (if d' = 0 then Refuse else item)
         else if htype field = PB_HTYPE_OPTIONAL then
           if size_offset field \<noteq> 0 then (if safe_read_bool m z then item else Emit [])
           else (case dflt field d of
                   None \<Rightarrow> Unspec
                 | Some zero \<Rightarrow>
                     if (if atype field = PB_ATYPE_POINTER then d' \<noteq> 0 else \<not> zero) then item else Emit [])
         else if htype field = PB_HTYPE_REPEATED then
           spec_array env msg field d' (if size_offset field \<noteq> 0 then load32 m z else array_size field)
         else if size_offset field = 0 then Unspec
         else if load32 m z = field_tag field then item else Emit [])"

text \<open>\<open>cb\<close> and \<open>ext\<close> say what the user's field callbacks and extension encoders write.\<close>

definition spec_field :: "'w pb_enc_env \<Rightarrow> (addr \<Rightarrow> pb_field \<Rightarrow> addr \<Rightarrow> enc_out) \<Rightarrow> (pb_field \<Rightarrow> addr \<Rightarrow> bool option) \<Rightarrow> (pb_field list \<Rightarrow> addr \<Rightarrow> enc_out) \<Rightarrow> pb_field \<Rightarrow> addr \<Rightarrow> enc_out" where
  "spec_field env cb dflt msg field d =
     (if atype field = PB_ATYPE_STATIC \<or> atype field = PB_ATYPE_POINTER then spec_basic env dflt msg field d
      else if atype field = PB_ATYPE_CALLBACK then
        (let f = load64 (src env) d in if f = 0 then Emit [] else cb f field (d + 8))
      else Refuse)"

fun spec_extensions :: "nat \<Rightarrow> 'w pb_enc_env \<Rightarrow> (addr \<Rightarrow> addr \<Rightarrow> enc_out) \<Rightarrow> (pb_field \<Rightarrow> addr \<Rightarrow> enc_out) \<Rightarrow> addr \<Rightarrow> enc_out" where
  "spec_extensions n env ext fld e =
     (if e = 0 then Emit []
      else case n of
        0 \<Rightarrow> Unspec
      | Suc k \<Rightarrow>
          (let m = src env; f = load64 m (load64 m e + 8);
               field = field_at (fields_at env (load64 m (load64 m e + 16))) 0
           in ecat (if f \<noteq> 0 then ext f e
                    else fld field (if atype field = PB_ATYPE_POINTER then e + 8 else load64 m (e + 8)))
                (spec_extensions k env ext fld (load64 m (e + 16)))))"

declare spec_extensions.simps [simp del]

fun ecat_list :: "enc_out list \<Rightarrow> enc_out" where
  "ecat_list [] = Emit []"
| "ecat_list (r # rs) = ecat r (ecat_list rs)"

text \<open>A message is the concatenation of its fields, each at the address its layout gives it.\<close>

fun spec_message :: "nat \<Rightarrow> 'w pb_enc_env \<Rightarrow> (addr \<Rightarrow> pb_field \<Rightarrow> addr \<Rightarrow> enc_out) \<Rightarrow> (addr \<Rightarrow> addr \<Rightarrow> enc_out) \<Rightarrow> pb_field list \<Rightarrow> addr \<Rightarrow> enc_out" where
  "spec_message 0 env cb ext fs a = Unspec"
| "spec_message (Suc n) env cb ext fs a =
     (let fld = spec_field env cb (pb_check_proto3_default_value n env) (spec_message n env cb ext) in
      ecat_list (map (\<lambda>i.
        if ltype (field_at fs i) = PB_LTYPE_EXTENSION
        then spec_extensions n env ext fld (load64 (src env) (data_addr fs a i))
        else fld (field_at fs i) (data_addr fs a i)) [0..<length fs]))"

end
