(* ===== verification/Pb_Encode_Refine.thy ===== *)
theory Pb_Encode_Refine
  imports Pb_Encode_Spec
begin

text \<open>
  The refinement of the stream encoder to the reference encoder: each writer and field
  encoder of \<open>pb_encode.c\<close> implements its reference, and so does \<open>pb_encode\<close>.
\<close>

section \<open>Writers\<close>

lemma pb_write_implements: "implements (pb_write env (WBytes bs)) (emit bs)"
proof (cases "length bs < 2 ^ 63")
  case len: True
  have cnt: "unat (of_nat (length bs) :: u64) = length bs" using len by (simp add: unat_of_nat)
  have "if room s (length bs) then pb_write env (WBytes bs) s w = (Some (), put bs s, w)
        else refused s w (pb_write env (WBytes bs) s w)" if ok: "out_ok s" for s :: pb_ostream and w :: 'a
  proof (cases "o_callback s = OCb_NULL \<or> bs = []")
    case True
    then show ?thesis by (auto simp: pb_write_def put_def room_def)
  next
    case False
    then have cb: "o_callback s = OCb_buf_write" and le: "bytes_written s \<le> max_size s"
      and mx: "unat (max_size s) < 2 ^ 63" and lim: "out_limit s \<le> length (o_buf s)"
      using ok by (simp_all add: out_ok_def)
    have pos: "0 < (of_nat (length bs) :: u64)" using False cnt by (simp add: word_less_nat_alt)
    have sum: "unat (bytes_written s + of_nat (length bs)) = unat (bytes_written s) + length bs"
      using cnt len mx le by (simp add: unat_word_ariths word_le_nat_alt)
    have full: "(bytes_written s + of_nat (length bs) < bytes_written s \<or> max_size s < bytes_written s + of_nat (length bs))
        \<longleftrightarrow> \<not> room s (length bs)"
      using sum le cb by (auto simp: room_def word_less_nat_alt word_le_nat_alt unat_sub)
    show ?thesis
    proof (cases "room s (length bs)")
      case True
      then have "o_pos s + length bs \<le> length (o_buf s)" using lim cb by (simp add: room_def out_limit_def)
      then show ?thesis using True full pos cb by (simp add: pb_write_def buf_write_def put_def)
    next
      case False
      have "implements (o_error ''stream full'' :: pb_ostream \<Rightarrow> 'a \<Rightarrow> 'a eres) Refuse" by (simp add: implements_error)
      then have "refused s w (o_error ''stream full'' s w)" using ok by (simp add: implements_def)
      then show ?thesis using False full pos cb by (simp add: pb_write_def)
    qed
  qed
  then show ?thesis using len by (simp add: implements_def emit_def)
qed (simp add: emit_def)

lemma length_varint_loop: "length (varint_loop v) \<le> (if v = 0 then 0 else 10)"
proof -
  have *: "unat v < 2 ^ (7 * n) \<Longrightarrow> length (varint_loop v) \<le> n" for n
  proof (induction n arbitrary: v)
    case 0
    then have "v = 0" by (simp add: unat_eq_0)
    then show ?case by (simp add: varint_loop.simps)
  next
    case (Suc n)
    have "unat (drop_bit 7 v) < 2 ^ (7 * n)"
      using Suc.prems by (simp only: unat_drop_bit_eq drop_bit_eq_div [where 'a = nat])
        (simp add: div_less_iff_less_mult power_add mult.commute)
    from Suc.IH [OF this] show ?case by (simp add: varint_loop.simps [of v])
  qed
  have "unat v < 2 ^ (7 * 10)" using unsigned_less [of v, where 'a = nat] by simp
  from * [OF this] show ?thesis by (simp add: varint_loop.simps)
qed

lemma length_varint_buffer: "length (varint_buffer v) \<le> 10"
  using length_varint_loop [of v] by (simp add: varint_buffer_def Let_def split: if_splits)

lemma emit_varint [simp]: "emit (varint_buffer v) = Emit (varint_buffer v)"
  using length_varint_buffer [of v] by (simp add: emit_def)

lemma pb_encode_varint_implements: "implements (pb_encode_varint env v) (Emit (varint_buffer v))"
  using pb_write_implements [of env "varint_buffer v"] by (simp add: pb_encode_varint_def [abs_def])

lemma pb_encode_tag_implements:
  "implements (pb_encode_tag env wt n) (Emit (varint_buffer (tag_word wt n)))"
  using pb_encode_varint_implements by (simp add: pb_encode_tag_def [abs_def])

lemma pb_encode_tag_for_field_implements: "implements (pb_encode_tag_for_field env field) (spec_tag field)"
  unfolding pb_encode_tag_for_field_def [abs_def] spec_tag_def
  by (auto intro: implements_error pb_encode_tag_implements split: option.splits)

lemma pb_encode_string_implements: "implements (pb_encode_string env bs) (delimit (emit bs))"
proof (cases "length bs < 2 ^ 63")
  case True
  then have "delimit (emit bs) = ecat (Emit (varint_buffer (of_nat (length bs)))) (emit bs)"
    by (simp add: emit_def)
  then show ?thesis unfolding pb_encode_string_def [abs_def]
    by (simp del: delimit.simps ecat.simps)
      (rule implements_seq', rule pb_encode_varint_implements, rule pb_write_implements)
qed (simp add: emit_def)

section \<open>Values\<close>

lemma ucast_and_FF: "(ucast (x AND 0xFF) :: u8) = ucast (x :: 'a::len word)"
proof -
  have "x AND 0xFF = take_bit 8 x" by (simp add: take_bit_eq_mask mask_eq_exp_minus_1)
  then show ?thesis by (auto intro: bit_word_eqI simp: bit_simps)
qed

lemma fixed32_bytes_le: "fixed32_bytes v = le_bytes 4 v"
  by (simp add: fixed32_bytes_def ucast_and_FF drop_bit_drop_bit numeral_eq_Suc)

lemma fixed64_bytes_le: "fixed64_bytes v = le_bytes 8 v"
  by (simp add: fixed64_bytes_def ucast_and_FF drop_bit_drop_bit numeral_eq_Suc)

lemma emit_le_bytes [simp]: "n \<le> 8 \<Longrightarrow> emit (le_bytes n v) = Emit (le_bytes n v)"
  by (simp add: emit_def)

lemma pb_enc_fixed32_implements: "implements (pb_enc_fixed32 env field a) (Emit (le_bytes 4 (load32 (src env) a)))"
  using pb_write_implements [of env "le_bytes 4 (load32 (src env) a)"]
  by (simp add: pb_enc_fixed32_def [abs_def] pb_encode_fixed32_def fixed32_bytes_le)

lemma pb_enc_fixed64_implements: "implements (pb_enc_fixed64 env field a) (Emit (le_bytes 8 (load64 (src env) a)))"
  using pb_write_implements [of env "le_bytes 8 (load64 (src env) a)"]
  by (simp add: pb_enc_fixed64_def [abs_def] pb_encode_fixed64_def fixed64_bytes_le)

lemma pb_enc_bool_implements:
  "implements (pb_enc_bool env field a) (Emit (varint_buffer (if safe_read_bool (src env) a then 1 else 0)))"
  unfolding pb_enc_bool_def [abs_def] by (rule pb_encode_varint_implements)

lemma pb_enc_varint_implements: "implements (pb_enc_varint env field a) (spec_varint (read_signed (src env) (data_size field) a))"
  unfolding pb_enc_varint_def [abs_def] spec_varint_def
  by (auto intro: implements_error pb_encode_varint_implements split: option.splits)

lemma pb_enc_uvarint_implements: "implements (pb_enc_uvarint env field a) (spec_varint (read_unsigned (src env) (data_size field) a))"
  unfolding pb_enc_uvarint_def [abs_def] spec_varint_def
  by (auto intro: implements_error pb_encode_varint_implements split: option.splits)

lemma pb_enc_svarint_implements:
  "implements (pb_enc_svarint env field a) (spec_varint (map_option zigzag (read_signed (src env) (data_size field) a)))"
  unfolding pb_enc_svarint_def [abs_def] spec_varint_def pb_encode_svarint_def [abs_def]
  by (auto intro: implements_error pb_encode_varint_implements split: option.splits)

lemma pb_enc_bytes_implements: "implements (pb_enc_bytes env field a) (spec_bytes (src env) field a)"
proof -
  have "Emit [] = emit []" by (simp add: emit_def)
  then show ?thesis unfolding pb_enc_bytes_def [abs_def] spec_bytes_def Let_def
    by (auto intro: implements_error pb_encode_string_implements simp del: delimit.simps)
qed

lemma pb_enc_string_implements: "implements (pb_enc_string env field a) (spec_string (src env) field a)"
  unfolding pb_enc_string_def [abs_def] spec_string_def Let_def
  by (rule pb_encode_string_implements)

lemma pb_enc_fixed_length_bytes_implements:
  "implements (pb_enc_fixed_length_bytes env field a) (delimit (emit (load_bytes (src env) a (unat (data_size field)))))"
  unfolding pb_enc_fixed_length_bytes_def [abs_def] by (rule pb_encode_string_implements)

section \<open>Submessages\<close>

lemma sizing_ok [simp]: "out_ok PB_OSTREAM_SIZING"
  by (simp add: out_ok_def PB_OSTREAM_SIZING_def)

lemma sizing_room [simp]: "room PB_OSTREAM_SIZING n"
  by (simp add: room_def PB_OSTREAM_SIZING_def)

lemma sizing_put [simp]: "bytes_written (put bs PB_OSTREAM_SIZING) = of_nat (length bs)"
  by (simp add: put_def PB_OSTREAM_SIZING_def)

lemma sizing_Emit: "implements f (Emit bs) \<Longrightarrow> f PB_OSTREAM_SIZING w = (Some (), put bs PB_OSTREAM_SIZING, w)"
  by (simp add: implements_def)

lemma sizing_Refuse:
  "implements f Refuse \<Longrightarrow> \<exists>s'. f PB_OSTREAM_SIZING w = (None, s', w) \<and> o_errmsg s' \<noteq> Some ''undefined behaviour''"
proof -
  assume "implements f Refuse"
  then have "refused PB_OSTREAM_SIZING w (f PB_OSTREAM_SIZING w)" by (simp add: implements_def)
  then show ?thesis by (auto simp: refused_def)
qed

lemma pb_write_null: "o_callback s = OCb_NULL \<Longrightarrow> pb_write env (WNull (of_nat (length bs))) s w = (Some (), put bs s, w)"
  by (simp add: pb_write_def put_def)

lemma room_sum:
  assumes "out_ok s" and "o_callback s \<noteq> OCb_NULL" and "n < 2 ^ 63"
  shows "max_size s < bytes_written s + of_nat n \<longleftrightarrow> \<not> room s n"
proof -
  have le: "bytes_written s \<le> max_size s" and mx: "unat (max_size s) < 2 ^ 63"
    using assms by (simp_all add: out_ok_def)
  have "unat (bytes_written s + of_nat n) = unat (bytes_written s) + n"
    using assms(3) mx le by (simp add: unat_word_ariths unat_of_nat word_le_nat_alt)
  then show ?thesis using le assms(2) by (auto simp: room_def word_less_nat_alt word_le_nat_alt unat_sub)
qed

text \<open>The second pass: a substream whose window is exactly the size the first pass measured.\<close>

lemma second_pass:
  assumes f: "implements f (Emit bs)" and len: "length bs < 2 ^ 63"
    and ok: "out_ok s" and cb: "o_callback s \<noteq> OCb_NULL" and rm: "room s (length bs)"
  shows "f (s\<lparr>max_size := of_nat (length bs), bytes_written := 0, o_errmsg := None\<rparr>) w =
      (Some (), put bs (s\<lparr>max_size := of_nat (length bs), bytes_written := 0, o_errmsg := None\<rparr>), w)"
proof -
  let ?s = "s\<lparr>max_size := of_nat (length bs), bytes_written := 0, o_errmsg := None\<rparr>"
  have sz: "unat (of_nat (length bs) :: u64) = length bs" using len by (simp add: unat_of_nat)
  have "out_ok ?s" using ok cb rm len sz
    by (auto simp: out_ok_def room_def out_limit_def)
  moreover have "room ?s (length bs)" using sz by (simp add: room_def)
  ultimately show ?thesis using f by (simp add: implements_def)
qed

lemma pb_encode_submessage_implements:
  assumes f: "implements (enc fs a) r"
  shows "implements (pb_encode_submessage env enc fs a) (delimit r)"
proof (cases r)
  case (Emit bs)
  show ?thesis
  proof (cases "length bs < 2 ^ 63")
    case len: True
    let ?rest = "\<lambda>s w. if o_callback s = OCb_NULL then pb_write env (WNull (of_nat (length bs))) s w
            else if max_size s < bytes_written s + of_nat (length bs) then o_error ''stream full'' s w
            else case enc fs a (s\<lparr>max_size := of_nat (length bs), bytes_written := 0, o_errmsg := None\<rparr>) w of
              (status, sub, w) \<Rightarrow>
                (let s' = s\<lparr>bytes_written := bytes_written s + bytes_written sub,
                            o_buf := o_buf sub, o_pos := o_pos sub, o_state := o_state sub,
                            o_errmsg := o_errmsg sub\<rparr>
                 in if bytes_written sub \<noteq> of_nat (length bs) then o_error ''submsg size changed'' s' w
                    else (status, s', w))"
    have rest: "implements ?rest (Emit bs)"
      unfolding implements_def enc_out.case
    proof (intro allI impI)
      fix s :: pb_ostream and w :: 'a assume ok: "out_ok s"
      show "if room s (length bs) then ?rest s w = (Some (), put bs s, w) else refused s w (?rest s w)"
      proof (cases "o_callback s = OCb_NULL")
        case True
        then show ?thesis by (simp add: pb_write_null room_def)
      next
        case cb: False
        note chk = room_sum [OF ok cb len]
        have err: "refused s w (o_error ''stream full'' s w)"
          using implements_error [of "''stream full''", where 'a = 'a] ok by (simp add: implements_def)
        show ?thesis
        proof (cases "room s (length bs)")
          case True
          have "o_errmsg s = None" using ok by (simp add: out_ok_def)
          then show ?thesis using True chk cb second_pass [OF f [unfolded Emit] len ok cb True, of w]
            by (simp add: Let_def put_def)
        qed (use chk cb err in simp)
      qed
    qed
    have eq: "pb_encode_submessage env enc fs a = (\<lambda>s w. andthen (pb_encode_varint env (of_nat (length bs)) s w) (\<lambda>_. ?rest))"
      unfolding pb_encode_submessage_def [abs_def] sizing_Emit [OF f [unfolded Emit]] prod.case option.case
        Let_def sizing_put ..
    have "delimit r = ecat (Emit (varint_buffer (of_nat (length bs)))) (Emit bs)"
      by (simp add: Emit)
    then show ?thesis unfolding eq
      by (simp only:) (rule implements_seq' [OF pb_encode_varint_implements rest])
  qed (simp add: Emit emit_def)
next
  case Refuse
  have "refused s w (pb_encode_submessage env enc fs a s w)" for s :: pb_ostream and w :: 'a
  proof -
    obtain s' where "enc fs a PB_OSTREAM_SIZING w = (None, s', w)" "o_errmsg s' \<noteq> Some ''undefined behaviour''"
      using sizing_Refuse [OF f [unfolded Refuse]] by blast
    then show ?thesis by (simp add: pb_encode_submessage_def out_frame_def)
  qed
  then show ?thesis by (simp add: Refuse implements_def)
qed simp

lemma pb_enc_submessage_implements:
  assumes "\<And>p a. implements (enc (fields_at env p) a) (msg (fields_at env p) a)"
  shows "implements (pb_enc_submessage env enc field a)
    (if field_ptr field = 0 then Refuse else delimit (msg (fields_at env (field_ptr field)) a))"
  unfolding pb_enc_submessage_def [abs_def]
  by (auto intro: implements_error pb_encode_submessage_implements assms)

lemma PB_ENCODERS_implements:
  assumes "\<And>p a. implements (enc (fields_at env p) a) (msg (fields_at env p) a)"
  shows "implements (PB_ENCODERS env enc t field a) (spec_value env msg t field a)"
  unfolding PB_ENCODERS_def spec_value_def Let_def
  using pb_enc_submessage_implements [of enc env msg field a] assms
  by (simp add: pb_enc_bool_implements pb_enc_varint_implements pb_enc_uvarint_implements
      pb_enc_svarint_implements pb_enc_fixed32_implements pb_enc_fixed64_implements
      pb_enc_bytes_implements pb_enc_string_implements pb_enc_fixed_length_bytes_implements del: delimit.simps)

section \<open>Arrays\<close>

lemma implements_assoc: "implements f (ecat a (ecat b c)) \<Longrightarrow> implements f (ecat (ecat a b) c)"
proof -
  assume f: "implements f (ecat a (ecat b c))"
  have "ecat (ecat a b) c = ecat a (ecat b c) \<or> ecat (ecat a b) c = Unspec"
    by (cases a; cases b; cases c) (auto simp: emit_def)
  then show ?thesis using f by auto
qed

lemma packed_items_implements:
  assumes "\<And>p. implements (func field p) (val p)"
  shows "implements (packed_items func field n p) (spec_items val (ucast (data_size field)) n p)"
proof (induction n arbitrary: p)
  case 0
  then show ?case using implements_ret by (simp add: packed_items.simps [abs_def])
next
  case (Suc n)
  show ?case unfolding packed_items.simps [abs_def] spec_items.simps
    by (rule implements_seq' [OF assms Suc.IH])
qed

lemma tagged_items_implements:
  assumes "\<And>p. implements (func field p) (val p)"
  shows "implements (tagged_items env func field n p)
    (spec_items (\<lambda>q. ecat (spec_tag field) (val
       (if atype field = PB_ATYPE_POINTER \<and> (ltype field = PB_LTYPE_STRING \<or> ltype field = PB_LTYPE_BYTES)
        then load64 (src env) q else q))) (ucast (data_size field)) n p)"
proof (induction n arbitrary: p)
  case 0
  then show ?case using implements_ret by (simp add: tagged_items.simps [abs_def])
next
  case (Suc n)
  show ?case unfolding tagged_items.simps [abs_def] spec_items.simps
    by (rule implements_assoc, rule implements_seq' [OF pb_encode_tag_for_field_implements])
      (rule implements_seq' [OF assms Suc.IH])
qed

lemma spec_items_length:
  assumes "\<And>p. \<exists>bs. val p = Emit bs \<and> length bs = k" and "n * k < 2 ^ 63"
  shows "\<exists>bs. spec_items val step n p = Emit bs \<and> length bs = n * k"
  using assms(2)
proof (induction n arbitrary: p)
  case 0
  then show ?case by simp
next
  case (Suc n)
  obtain a where a: "val p = Emit a" "length a = k" using assms(1) by blast
  obtain b where "spec_items val step n (p + step) = Emit b" "length b = n * k"
    using Suc.IH [of "p + step"] Suc.prems by auto
  with a show ?case using Suc.prems by (simp add: emit_def)
qed

text \<open>
  The size computed for a packed array is the length of its items: measured for varints,
  a multiple of the item size otherwise.
\<close>

lemma packed_size_spec:
  assumes val: "\<And>p. implements (func field p) (val p)"
    and f32: "ltype field = PB_LTYPE_FIXED32 \<Longrightarrow> (\<And>p. \<exists>bs. val p = Emit bs \<and> length bs = 4)"
    and f64: "ltype field = PB_LTYPE_FIXED64 \<Longrightarrow> (\<And>p. \<exists>bs. val p = Emit bs \<and> length bs = 8)"
    and cnt: "unat count < 2 ^ 32"
  shows "case spec_items val (ucast (data_size field)) (unat count) p of
      Emit bs \<Rightarrow> packed_size func field p count s w = (Some (of_nat (length bs)), s, w)
    | Refuse \<Rightarrow> packed_size func field p count s w = (None, s, w)
    | Unspec \<Rightarrow> True"
proof -
  have imp: "implements (packed_items func field (unat count) p) (spec_items val (ucast (data_size field)) (unat count) p)"
    using val by (rule packed_items_implements)
  have small: "unat count * 4 < 2 ^ 63" "unat count * 8 < 2 ^ 63" using cnt by simp_all
  consider (a) "ltype field = PB_LTYPE_FIXED32" | (b) "ltype field = PB_LTYPE_FIXED64"
    | (c) "ltype field \<noteq> PB_LTYPE_FIXED32" "ltype field \<noteq> PB_LTYPE_FIXED64" by blast
  then show ?thesis
  proof cases
    case a
    then show ?thesis using spec_items_length [of val 4, OF f32 [OF a] small(1), of "ucast (data_size field)" p]
      by (auto simp: packed_size_def mult.commute)
  next
    case b
    then show ?thesis using spec_items_length [of val 8, OF f64 [OF b] small(2), of "ucast (data_size field)" p]
      by (auto simp: packed_size_def mult.commute)
  next
    case c
    then show ?thesis using imp sizing_Emit [of "packed_items func field (unat count) p"]
        sizing_Refuse [of "packed_items func field (unat count) p" w]
      by (auto simp: packed_size_def split: enc_out.splits)
  qed
qed

lemma encode_array_implements:
  assumes enc: "\<And>p a. implements (enc (fields_at env p) a) (msg (fields_at env p) a)"
  shows "implements (encode_array env field p (ucast count) (PB_ENCODERS env enc (ltype field)))
    (spec_array env msg field p count)"
proof -
  let ?func = "PB_ENCODERS env enc (ltype field)" and ?val = "spec_value env msg (ltype field) field"
  let ?items = "spec_items ?val (ucast (data_size field)) (unat count) p"
  have val: "implements (?func field q) (?val q)" for q using enc by (rule PB_ENCODERS_implements)
  have cnt: "unat (ucast count :: u64) = unat count" "unat count < 2 ^ 32"
    using unsigned_less [of count, where 'a = nat] by (simp_all add: unat_ucast_up)
  have f32: "\<exists>bs. ?val q = Emit bs \<and> length bs = 4" if "ltype field = PB_LTYPE_FIXED32" for q
    using that by (simp add: spec_value_def Let_def)
  have f64: "\<exists>bs. ?val q = Emit bs \<and> length bs = 8" if "ltype field = PB_LTYPE_FIXED64" for q
    using that by (simp add: spec_value_def Let_def)
  have size_ok: "case ?items of
      Emit bs \<Rightarrow> packed_size ?func field p (ucast count) s w = (Some (of_nat (length bs)), s, w)
    | Refuse \<Rightarrow> packed_size ?func field p (ucast count) s w = (None, s, w)
    | Unspec \<Rightarrow> True" for s and w :: 'a
    using packed_size_spec [of ?func field ?val "ucast count" p s w, OF val f32 f64] cnt by simp
  have items: "implements (packed_items ?func field (unat count) p) ?items"
    using val by (rule packed_items_implements)
  have rest: "implements (\<lambda>s w. if o_callback s = OCb_NULL then pb_write env (WNull (of_nat (length bs))) s w
        else packed_items ?func field (unat count) p s w) (Emit bs)" if "?items = Emit bs" for bs
    using items that by (auto simp: implements_def pb_write_null room_def)
  have packed: "implements (\<lambda>s w. andthen (packed_size ?func field p (ucast count) s w) (\<lambda>sz s w.
        andthen (pb_encode_varint env sz s w) (\<lambda>_ s w.
        if o_callback s = OCb_NULL then pb_write env (WNull sz) s w
        else packed_items ?func field (unat count) p s w))) (delimit ?items)"
  proof (cases ?items)
    case (Emit bs)
    have "delimit ?items = ecat (Emit (varint_buffer (of_nat (length bs)))) (Emit bs)" by (simp add: Emit)
    moreover have "implements (\<lambda>s w. andthen (pb_encode_varint env (of_nat (length bs)) s w) (\<lambda>_ s w.
        if o_callback s = OCb_NULL then pb_write env (WNull (of_nat (length bs))) s w
        else packed_items ?func field (unat count) p s w)) \<dots>"
      by (rule implements_seq' [OF pb_encode_varint_implements rest [OF Emit]])
    ultimately show ?thesis using size_ok Emit by simp
  next
    case Refuse
    then show ?thesis using size_ok by (auto simp: implements_def out_ok_def)
  qed simp
  have lt: "(ucast (array_size field) :: u64) < ucast count \<longleftrightarrow> array_size field < count"
    by (simp add: word_less_nat_alt unat_ucast_up)
  have z: "(ucast count :: u64) = 0 \<longleftrightarrow> count = 0" using cnt(1) by (metis unat_0 unat_eq_zero)
  show ?thesis unfolding encode_array_def [abs_def] spec_array_def Let_def cnt lt z
    by (intro implements_if implements_ret implements_error
        implements_seq' [OF pb_encode_tag_implements packed]
        tagged_items_implements [of ?func field ?val env "unat count" p, OF val]) simp
qed

section \<open>Fields\<close>

lemma write_item_implements:
  assumes enc: "\<And>p a. implements (enc (fields_at env p) a) (msg (fields_at env p) a)"
  shows "implements (\<lambda>s w. andthen (pb_encode_tag_for_field env field s w)
      (\<lambda>_ s w. PB_ENCODERS env enc (ltype field) field d s w))
    (ecat (spec_tag field) (spec_value env msg (ltype field) field d))"
  by (rule implements_seq' [OF pb_encode_tag_for_field_implements PB_ENCODERS_implements [of enc env msg, OF enc]])

lemma encode_basic_field_implements:
  assumes enc: "\<And>p a. implements (enc (fields_at env p) a) (msg (fields_at env p) a)"
  shows "implements (encode_basic_field env dflt enc field d) (spec_basic env dflt msg field d)"
proof -
  note item = write_item_implements [of enc env msg field, OF enc]
  note arr = encode_array_implements [of enc env msg field, OF enc]
  show ?thesis
  proof (cases "size_offset field = 0 \<and> htype field = PB_HTYPE_OPTIONAL \<and> dflt field d = None")
    case True
    then show ?thesis by (simp add: spec_basic_def Let_def)
  next
    case False
    show ?thesis
    proof (cases "htype field = PB_HTYPE_REPEATED")
      case True
      then have "encode_basic_field env dflt enc field d = encode_array env field
          (if atype field = PB_ATYPE_POINTER then load64 (src env) d else d)
          (ucast (if size_offset field \<noteq> 0 then load32 (src env) (d + scast (size_offset field)) else array_size field))
          (PB_ENCODERS env enc (ltype field))"
        by (intro ext) (simp add: encode_basic_field_def Let_def)
      then show ?thesis using True arr by (simp add: spec_basic_def Let_def)
    next
      case rep: False
      show ?thesis
        using False rep item [of d] item [of "load64 (src env) d"]
          implements_error [of "''missing required field''", where 'a = 'a] implements_ret [where 'a = 'a]
        unfolding encode_basic_field_def [abs_def] spec_basic_def Let_def
        by (cases "htype field = PB_HTYPE_REQUIRED"; cases "htype field = PB_HTYPE_OPTIONAL";
            cases "size_offset field = 0"; cases "atype field = PB_ATYPE_POINTER")
          (auto simp: comp_def split: option.splits)
    qed
  qed
qed

lemma encode_callback_field_implements:
  assumes cb: "\<And>f field a. implements (user_encode env f field a) (cb f field a)"
  shows "implements (encode_callback_field env field d)
    (let f = load64 (src env) d in if f = 0 then Emit [] else cb f field (d + 8))"
proof (cases "load64 (src env) d = 0")
  case True
  then show ?thesis using implements_ret by (simp add: encode_callback_field_def [abs_def])
next
  case False
  let ?f = "load64 (src env) d"
  have "refused s w (user_encode env ?f field (d + 8) s w) \<Longrightarrow> refused s w (encode_callback_field env field d s w)" for s w
    using False by (auto simp: encode_callback_field_def refused_def o_error_def o_set_error_def out_frame_def
        split: option.splits)
  moreover have "user_encode env ?f field (d + 8) s w = (Some (), s', w') \<Longrightarrow>
      encode_callback_field env field d s w = (Some (), s', w')" for s w s' w'
    using False by (simp add: encode_callback_field_def)
  ultimately show ?thesis using cb [of ?f field "d + 8"] False
    by (simp add: implements_def split: enc_out.splits)
qed

lemma encode_field_implements:
  assumes enc: "\<And>p a. implements (enc (fields_at env p) a) (msg (fields_at env p) a)"
    and cb: "\<And>f field a. implements (user_encode env f field a) (cb f field a)"
  shows "implements (encode_field env dflt enc field d) (spec_field env cb dflt msg field d)"
  unfolding encode_field_def [abs_def] spec_field_def
  by (intro implements_if encode_basic_field_implements encode_callback_field_implements implements_error assms) simp

lemma extension_loop_implements:
  assumes enc: "\<And>p a. implements (enc (fields_at env p) a) (msg (fields_at env p) a)"
    and cb: "\<And>f field a. implements (user_encode env f field a) (cb f field a)"
    and ext: "\<And>f e. implements (ext_encode env f e) (ext f e)"
  shows "implements (extension_loop n env dflt enc e) (spec_extensions n env ext (spec_field env cb dflt msg) e)"
proof (induction n arbitrary: e)
  case 0
  then show ?case using implements_ret
    by (auto simp: extension_loop.simps [abs_def] spec_extensions.simps)
next
  case (Suc n)
  let ?m = "src env"
  let ?fld = "field_at (fields_at env (load64 ?m (load64 ?m e + 16))) 0"
  have fld: "implements (default_extension_encoder env dflt enc e)
      (spec_field env cb dflt msg ?fld (if atype ?fld = PB_ATYPE_POINTER then e + 8 else load64 ?m (e + 8)))"
    using encode_field_implements [of enc env msg cb, OF enc cb]
    by (auto simp: default_extension_encoder_def [abs_def] Let_def)
  have "implements (\<lambda>s w. if load64 ?m (load64 ?m e + 8) \<noteq> 0 then ext_encode env (load64 ?m (load64 ?m e + 8)) e s w
        else default_extension_encoder env dflt enc e s w)
      (if load64 ?m (load64 ?m e + 8) \<noteq> 0 then ext (load64 ?m (load64 ?m e + 8)) e
       else spec_field env cb dflt msg ?fld (if atype ?fld = PB_ATYPE_POINTER then e + 8 else load64 ?m (e + 8)))"
    by (rule implements_if [OF ext fld])
  from implements_seq' [OF this Suc.IH [of "load64 ?m (e + 16)"]] show ?case
    unfolding extension_loop.simps [of "Suc n", abs_def] spec_extensions.simps [of "Suc n"] nat.case Let_def
    by (intro implements_if implements_ret)
qed

section \<open>Messages\<close>

lemma fields_loop_implements:
  assumes body: "\<And>it. iter_ok it \<Longrightarrow> it_start it = fs \<Longrightarrow> dest_struct it = a \<Longrightarrow> it_pos it < length fs \<Longrightarrow>
      implements (body it) (spec (it_pos it))"
    and it: "iter_ok it" "it_start it = fs" "dest_struct it = a" "it_pos it < length fs"
  shows "implements (fields_loop body it) (ecat_list (map spec [it_pos it..<length fs]))"
  using it
proof (induction "length fs - it_pos it" arbitrary: it rule: less_induct)
  case less
  have wf: "wf_fields (it_start it)" using less.prems by (simp add: iter_ok_def)
  let ?rest = "\<lambda>s w. if fst (pb_field_iter_next it) then fields_loop body (snd (pb_field_iter_next it)) s w
          else (Some (), s, w)"
  have upt: "[it_pos it..<length fs] = it_pos it # [Suc (it_pos it)..<length fs]"
    using less.prems(4) by (simp add: upt_conv_Cons)
  have rest: "implements ?rest (ecat_list (map spec [Suc (it_pos it)..<length fs]))"
  proof (cases "Suc (it_pos it) < length fs")
    case True
    let ?it = "snd (pb_field_iter_next it)"
    have "fst (pb_field_iter_next it)" "it_pos ?it = Suc (it_pos it)"
      using True wf less.prems by (simp_all add: iter_next_more iter_next_pos)
    moreover have "iter_ok ?it" using less.prems(1) by (rule iter_next_ok)
    ultimately show ?thesis using less.hyps [of ?it] less.prems True by simp
  next
    case False
    then show ?thesis using wf less.prems implements_ret by (simp add: iter_next_more)
  qed
  have "fields_loop body it = (\<lambda>s w. andthen (body it s w) (\<lambda>_. ?rest))"
    by (intro ext) (simp add: fields_loop.simps [of body it] andthen_def split: prod.splits option.splits)
  then show ?case using implements_seq' [OF body [OF less.prems] rest] by (simp add: upt)
qed

lemma pb_encode_implements:
  assumes wf: "\<And>p. wf_fields (fields_at env p)"
    and cb: "\<And>f field a. implements (user_encode env f field a) (cb f field a)"
    and ext: "\<And>f e. implements (ext_encode env f e) (ext f e)"
  shows "wf_fields fs \<Longrightarrow> implements (pb_encode n env fs a) (spec_message n env cb ext fs a)"
proof (induction n arbitrary: fs a)
  case 0
  then show ?case by simp
next
  case (Suc n)
  let ?dflt = "pb_check_proto3_default_value n env"
  let ?fld = "spec_field env cb ?dflt (spec_message n env cb ext)"
  let ?spec = "\<lambda>i. if ltype (field_at fs i) = PB_LTYPE_EXTENSION
      then spec_extensions n env ext ?fld (load64 (src env) (data_addr fs a i))
      else ?fld (field_at fs i) (data_addr fs a i)"
  have enc: "implements (pb_encode n env (fields_at env p) a) (spec_message n env cb ext (fields_at env p) a)" for p a
    using wf by (rule Suc.IH)
  have body: "implements (encode_one n env (pb_encode n env) it) (?spec (it_pos it))"
    if "iter_ok it" "it_start it = fs" "dest_struct it = a" for it
  proof -
    have d: "pData it = data_addr fs a (it_pos it)" "it_field it = field_at fs (it_pos it)"
      using that by (auto simp: iter_ok_def)
    show ?thesis unfolding encode_one_def [abs_def] encode_extension_field_def [abs_def] d
      by (intro implements_if extension_loop_implements encode_field_implements enc cb ext)
  qed
  show ?case
  proof (cases "fs = []")
    case True
    then show ?thesis using implements_ret iter_begin_nonempty [OF Suc.prems, of a]
      by (cases "pb_field_iter_begin fs a") (simp add: pb_encode.simps [abs_def])
  next
    case False
    let ?it = "snd (pb_field_iter_begin fs a)"
    have "implements (fields_loop (encode_one n env (pb_encode n env)) ?it) (ecat_list (map ?spec [it_pos ?it..<length fs]))"
      using False Suc.prems by (intro fields_loop_implements [where a = a] body) (auto intro: iter_begin_ok)
    then show ?thesis using False iter_begin_nonempty [OF Suc.prems, of a] iter_begin_pos [of fs a]
      by (cases "pb_field_iter_begin fs a") (simp add: pb_encode.simps [abs_def] Let_def)
  qed
qed

end
