(* ===== verification/Pb_Istream.thy ===== *)
theory Pb_Istream
  imports Pb_Common
begin

text \<open>
  nanopb's input streams and primitive readers (the first half of \<open>pb_decode.c\<close>).
  A buffer stream's \<open>state\<close> pointer is the list \<open>i_buf\<close> of the bytes it points at; any other
  callback's \<open>state\<close> is the opaque \<open>i_state\<close>. A successful read yields the bytes it put in
  \<open>buf\<close>. Reading past the end of the input array, which C leaves undefined, is an explicit
  error result. The loops that end only when the input does go on as long as each round
  lowers \<open>bytes_left\<close>; a callback that raises it instead is reported as an error.

  The decoder writes the message into the memory \<open>cmem\<close>; \<open>heap\<close> holds the live blocks of
  the C allocator and \<open>fixed_count_size\<close> the local of the \<open>pb_decode_noinit\<close> call that is
  running.
\<close>

section \<open>Streams and state\<close>

datatype icallback = ICb_buf_read | ICb_user addr

record pb_istream =
  i_callback :: icallback
  i_buf :: "u8 list"
  i_state :: addr
  bytes_left :: u64
  i_errmsg :: "string option"

record cstate =
  cmem :: mem
  heap :: "(addr \<times> u64) list"
  fixed_count_size :: u32

type_synonym 'a dres = "('a, pb_istream, cstate) cres"

record pb_dec_env =
  d_fields_at :: "addr \<Rightarrow> pb_field list"
  user_read :: "addr \<Rightarrow> u64 \<Rightarrow> pb_istream \<Rightarrow> cstate \<Rightarrow> u8 list dres"
  user_decode :: "addr \<Rightarrow> pb_field \<Rightarrow> addr \<Rightarrow> pb_istream \<Rightarrow> cstate \<Rightarrow> unit dres"
  ext_decode :: "addr \<Rightarrow> addr \<Rightarrow> u32 \<Rightarrow> pb_wire_type \<Rightarrow> pb_istream \<Rightarrow> cstate \<Rightarrow> unit dres"
  pick_addr :: "(addr \<times> u64) list \<Rightarrow> u64 \<Rightarrow> addr option"

definition i_error :: "string \<Rightarrow> pb_istream \<Rightarrow> cstate \<Rightarrow> 'a dres" where
  "i_error msg s w = (None, s\<lparr>i_errmsg := (case i_errmsg s of None \<Rightarrow> Some msg | Some e \<Rightarrow> Some e)\<rparr>, w)"

definition i_undefined :: "pb_istream \<Rightarrow> cstate \<Rightarrow> 'a dres" where
  "i_undefined s w = (None, s\<lparr>i_errmsg := Some ''undefined behaviour''\<rparr>, w)"

definition i_no_progress :: "pb_istream \<Rightarrow> cstate \<Rightarrow> 'a dres" where
  "i_no_progress s w = (None, s\<lparr>i_errmsg := Some ''no progress''\<rparr>, w)"

text \<open>
  Where the C code drops a substream together with its error message, the outcomes that
  are the model's own are kept: they must not look like ordinary failures.
\<close>

definition own_outcomes :: "string set" where
  "own_outcomes = {''undefined behaviour'', ''no progress'', ''out of fuel''}"

definition sticky :: "pb_istream \<Rightarrow> pb_istream \<Rightarrow> pb_istream" where
  "sticky sub s =
     (if i_errmsg sub \<in> Some ` own_outcomes
      then s\<lparr>i_errmsg := i_errmsg sub\<rparr> else s)"

definition buf_read :: "u64 \<Rightarrow> pb_istream \<Rightarrow> cstate \<Rightarrow> u8 list dres" where
  "buf_read count s w =
     (if unat count \<le> length (i_buf s)
      then (Some (take (unat count) (i_buf s)), s\<lparr>i_buf := drop (unat count) (i_buf s)\<rparr>, w)
      else i_undefined s w)"

definition run_read :: "pb_dec_env \<Rightarrow> u64 \<Rightarrow> pb_istream \<Rightarrow> cstate \<Rightarrow> u8 list dres" where
  "run_read env count s w =
     (case i_callback s of
        ICb_buf_read \<Rightarrow> buf_read count s w
      | ICb_user f \<Rightarrow> user_read env f count s w)"

text \<open>The body of \<open>pb_read\<close> below its treatment of a \<open>NULL\<close> buffer.\<close>

definition read_direct :: "pb_dec_env \<Rightarrow> u64 \<Rightarrow> pb_istream \<Rightarrow> cstate \<Rightarrow> u8 list dres" where
  "read_direct env count s w =
     (if count = 0 then (Some [], s, w)
      else if bytes_left s < count then i_error ''end-of-stream'' s w
      else case run_read env count s w of
             (None, s', w') \<Rightarrow> i_error ''io error'' s' w'
           | (Some bs, s', w') \<Rightarrow> (Some bs, s'\<lparr>bytes_left := bytes_left s' - count\<rparr>, w'))"

text \<open>Skipping on a stream that is not a buffer: sixteen bytes at a time into \<open>tmp\<close>.\<close>

function skip_loop :: "pb_dec_env \<Rightarrow> u64 \<Rightarrow> pb_istream \<Rightarrow> cstate \<Rightarrow> u8 list dres" where
  "skip_loop env count s w =
     (if 16 < count then
        (case read_direct env 16 s w of
           (None, s', w') \<Rightarrow> (None, s', w')
         | (Some _, s', w') \<Rightarrow> skip_loop env (count - 16) s' w')
      else read_direct env count s w)"
  by pat_completeness auto
termination
  by (relation "measure (\<lambda>(env, count, s, w). unat count)") (auto simp: unat_sub_if' word_less_nat_alt)

declare skip_loop.simps [simp del]

definition pb_read :: "pb_dec_env \<Rightarrow> bool \<Rightarrow> u64 \<Rightarrow> pb_istream \<Rightarrow> cstate \<Rightarrow> u8 list dres" where
  "pb_read env null_buf count s w =
     (if count = 0 then (Some [], s, w)
      else if null_buf \<and> i_callback s \<noteq> ICb_buf_read then skip_loop env count s w
      else read_direct env count s w)"

definition pb_readbyte :: "pb_dec_env \<Rightarrow> pb_istream \<Rightarrow> cstate \<Rightarrow> u8 dres" where
  "pb_readbyte env s w =
     (if bytes_left s = 0 then i_error ''end-of-stream'' s w
      else case run_read env 1 s w of
             (None, s', w') \<Rightarrow> i_error ''io error'' s' w'
           | (Some (b # _), s', w') \<Rightarrow> (Some b, s'\<lparr>bytes_left := bytes_left s' - 1\<rparr>, w')
           | (Some [], s', w') \<Rightarrow> i_undefined s' w')"

definition pb_istream_from_buffer :: "u8 list \<Rightarrow> u64 \<Rightarrow> pb_istream" where
  "pb_istream_from_buffer buf bufsize =
     \<lparr>i_callback = ICb_buf_read, i_buf = buf, i_state = 0, bytes_left = bufsize, i_errmsg = None\<rparr>"

section \<open>Varints\<close>

text \<open>
  The multibyte loop of \<open>pb_decode_varint32_eof\<close>. \<open>bitpos\<close> is a \<open>uint_fast8_t\<close>: eight bits on
  the Darwin targets, so adding 7 wraps around.
\<close>

function varint32_loop :: "pb_dec_env \<Rightarrow> u8 \<Rightarrow> u32 \<Rightarrow> pb_istream \<Rightarrow> cstate \<Rightarrow> u32 dres" where
  "varint32_loop env bitpos result s w =
     (case pb_readbyte env s w of
        (None, s', w') \<Rightarrow> (None, s', w')
      | (Some byte, s', w') \<Rightarrow>
          if 32 \<le> bitpos \<and> byte AND 0x7F \<noteq> 0
             \<and> (drop_bit 31 result = 0 \<or> byte \<noteq> (if bitpos < 63 then 0xFF else 0x01))
          then i_error ''varint overflow'' s' w'
          else
            (let result' = (if 32 \<le> bitpos then result
                            else result OR push_bit (unat bitpos) (ucast (byte AND 0x7F)));
                 bitpos' = bitpos + 7
             in if byte AND 0x80 \<noteq> 0 then
                  (if bytes_left s' < bytes_left s then varint32_loop env bitpos' result' s' w'
                   else i_no_progress s' w')
                else if bitpos' = 35 \<and> byte AND 0x70 \<noteq> 0 then i_error ''varint overflow'' s' w'
                else (Some result', s', w')))"
  by pat_completeness auto
termination
  by (relation "measure (\<lambda>(env, bitpos, result, s, w). unat (bytes_left s))") (auto simp: word_less_nat_alt)

declare varint32_loop.simps [simp del]

text \<open>The flag is \<open>*eof\<close>, which the function sets or leaves alone.\<close>

definition pb_decode_varint32_eof :: "pb_dec_env \<Rightarrow> bool \<Rightarrow> pb_istream \<Rightarrow> cstate \<Rightarrow> bool \<times> u32 dres" where
  "pb_decode_varint32_eof env eof s w =
     (case pb_readbyte env s w of
        (None, s', w') \<Rightarrow> (eof \<or> bytes_left s' = 0, (None, s', w'))
      | (Some byte, s', w') \<Rightarrow>
          (eof, if byte AND 0x80 = 0 then (Some (ucast byte), s', w')
                else varint32_loop env 7 (ucast (byte AND 0x7F)) s' w'))"

definition pb_decode_varint32 :: "pb_dec_env \<Rightarrow> pb_istream \<Rightarrow> cstate \<Rightarrow> u32 dres" where
  "pb_decode_varint32 env s w = snd (pb_decode_varint32_eof env False s w)"

function varint64_loop :: "pb_dec_env \<Rightarrow> u8 \<Rightarrow> u64 \<Rightarrow> pb_istream \<Rightarrow> cstate \<Rightarrow> u64 dres" where
  "varint64_loop env bitpos result s w =
     (if 64 \<le> bitpos then i_error ''varint overflow'' s w
      else case pb_readbyte env s w of
        (None, s', w') \<Rightarrow> (None, s', w')
      | (Some byte, s', w') \<Rightarrow>
          (let result' = result OR push_bit (unat bitpos) (ucast (byte AND 0x7F)) in
           if byte AND 0x80 \<noteq> 0 then varint64_loop env (bitpos + 7) result' s' w'
           else (Some result', s', w')))"
  by pat_completeness auto
termination
proof (relation "measure (\<lambda>(env, bitpos, result, s, w). 71 - unat bitpos)", goal_cases)
  case (2 env bitpos result s w r p b s' w' x)
  then have "unat bitpos < 64" by (simp add: word_le_nat_alt)
  then have "unat (bitpos + 7) = unat bitpos + 7" by (simp add: unat_word_ariths)
  then show ?case using \<open>unat bitpos < 64\<close> by simp
qed simp

declare varint64_loop.simps [simp del]

definition pb_decode_varint :: "pb_dec_env \<Rightarrow> pb_istream \<Rightarrow> cstate \<Rightarrow> u64 dres" where
  "pb_decode_varint env s w = varint64_loop env 0 0 s w"

function pb_skip_varint :: "pb_dec_env \<Rightarrow> pb_istream \<Rightarrow> cstate \<Rightarrow> unit dres" where
  "pb_skip_varint env s w =
     (case pb_read env False 1 s w of
        (None, s', w') \<Rightarrow> (None, s', w')
      | (Some [], s', w') \<Rightarrow> i_undefined s' w'
      | (Some (byte # _), s', w') \<Rightarrow>
          if byte AND 0x80 \<noteq> 0 then
            (if bytes_left s' < bytes_left s then pb_skip_varint env s' w' else i_no_progress s' w')
          else (Some (), s', w'))"
  by pat_completeness auto
termination
  by (relation "measure (\<lambda>(env, s, w). unat (bytes_left s))") (auto simp: word_less_nat_alt)

declare pb_skip_varint.simps [simp del]

section \<open>Tags, skipping and substreams\<close>

definition pb_skip_string :: "pb_dec_env \<Rightarrow> pb_istream \<Rightarrow> cstate \<Rightarrow> unit dres" where
  "pb_skip_string env s w =
     andthen (pb_decode_varint32 env s w) (\<lambda>len s w.
     andthen (pb_read env True (ucast len) s w) (\<lambda>_ s w. (Some (), s, w)))"

definition pb_decode_tag :: "pb_dec_env \<Rightarrow> pb_istream \<Rightarrow> cstate \<Rightarrow> bool \<times> (pb_wire_type \<times> u32) dres" where
  "pb_decode_tag env s w =
     (case pb_decode_varint32_eof env False s w of
        (eof, (None, s', w')) \<Rightarrow> (eof, (None, s', w'))
      | (eof, (Some temp, s', w')) \<Rightarrow>
          if temp = 0 then (True, (None, s', w'))
          else (eof, (Some (wt_of_num (temp AND 7), drop_bit 3 temp), s', w')))"

definition pb_skip_field :: "pb_dec_env \<Rightarrow> pb_wire_type \<Rightarrow> pb_istream \<Rightarrow> cstate \<Rightarrow> unit dres" where
  "pb_skip_field env wt s w =
     (case wt of
        PB_WT_VARINT \<Rightarrow> pb_skip_varint env s w
      | PB_WT_64BIT \<Rightarrow> andthen (pb_read env True 8 s w) (\<lambda>_ s w. (Some (), s, w))
      | PB_WT_STRING \<Rightarrow> pb_skip_string env s w
      | PB_WT_32BIT \<Rightarrow> andthen (pb_read env True 4 s w) (\<lambda>_ s w. (Some (), s, w))
      | PB_WT_other n \<Rightarrow> i_error ''invalid wire_type'' s w)"

text \<open>The varint loop of \<open>read_raw_value\<close>: at most \<open>max_size\<close> more bytes.\<close>

fun raw_varint_loop :: "nat \<Rightarrow> pb_dec_env \<Rightarrow> pb_istream \<Rightarrow> cstate \<Rightarrow> u8 list dres" where
  "raw_varint_loop 0 env s w = (None, s, w)"
| "raw_varint_loop (Suc n) env s w =
     andthen (pb_read env False 1 s w) (\<lambda>bs s w.
       case bs of
         [] \<Rightarrow> i_undefined s w
       | byte # _ \<Rightarrow>
           if byte AND 0x80 \<noteq> 0
           then andthen (raw_varint_loop n env s w) (\<lambda>rest s w. (Some (byte # rest), s, w))
           else (Some [byte], s, w))"

definition read_raw_value :: "pb_dec_env \<Rightarrow> pb_wire_type \<Rightarrow> u64 \<Rightarrow> pb_istream \<Rightarrow> cstate \<Rightarrow> u8 list dres" where
  "read_raw_value env wt max_size s w =
     (case wt of
        PB_WT_VARINT \<Rightarrow> raw_varint_loop (unat max_size) env s w
      | PB_WT_64BIT \<Rightarrow> pb_read env False 8 s w
      | PB_WT_32BIT \<Rightarrow> pb_read env False 4 s w
      | _ \<Rightarrow> i_error ''invalid wire_type'' s w)"

definition pb_make_string_substream :: "pb_dec_env \<Rightarrow> pb_istream \<Rightarrow> cstate \<Rightarrow> pb_istream dres" where
  "pb_make_string_substream env s w =
     andthen (pb_decode_varint32 env s w) (\<lambda>sz s w.
       if bytes_left s < ucast sz then i_error ''parent stream too short'' s w
       else (Some (s\<lparr>bytes_left := ucast sz\<rparr>), s\<lparr>bytes_left := bytes_left s - ucast sz\<rparr>, w))"

definition pb_close_string_substream :: "pb_dec_env \<Rightarrow> pb_istream \<Rightarrow> pb_istream \<Rightarrow> cstate \<Rightarrow> unit dres" where
  "pb_close_string_substream env sub s w =
     (let close = (\<lambda>sub w. (Some (), s\<lparr>i_buf := i_buf sub, i_state := i_state sub, i_errmsg := i_errmsg sub\<rparr>, w)) in
      if bytes_left sub \<noteq> 0 then
        (case pb_read env True (bytes_left sub) sub w of
           (None, sub', w') \<Rightarrow> (None, sticky sub' s, w')
         | (Some _, sub', w') \<Rightarrow> close sub' w')
      else close sub w)"

section \<open>Fixed-width and zigzag values\<close>

definition unzigzag :: "u64 \<Rightarrow> u64" where
  "unzigzag value = (if value AND 1 \<noteq> 0 then NOT (drop_bit 1 value) else drop_bit 1 value)"

definition pb_decode_svarint :: "pb_dec_env \<Rightarrow> pb_istream \<Rightarrow> cstate \<Rightarrow> u64 dres" where
  "pb_decode_svarint env s w =
     andthen (pb_decode_varint env s w) (\<lambda>value s w. (Some (unzigzag value), s, w))"

definition word_of_bytes :: "u8 list \<Rightarrow> 'a::len word" where
  "word_of_bytes bs = foldr (\<lambda>(i, b) acc. push_bit (8 * i) (ucast b) OR acc) (enumerate 0 bs) 0"

definition pb_decode_fixed32 :: "pb_dec_env \<Rightarrow> pb_istream \<Rightarrow> cstate \<Rightarrow> u32 dres" where
  "pb_decode_fixed32 env s w =
     andthen (pb_read env False 4 s w) (\<lambda>bytes s w. (Some (word_of_bytes bytes), s, w))"

definition pb_decode_fixed64 :: "pb_dec_env \<Rightarrow> pb_istream \<Rightarrow> cstate \<Rightarrow> u64 dres" where
  "pb_decode_fixed64 env s w =
     andthen (pb_read env False 8 s w) (\<lambda>bytes s w. (Some (word_of_bytes bytes), s, w))"

end
