(* ===== verification/Pb_Istream_Correct.thy ===== *)
theory Pb_Istream_Correct
  imports Pb_Istream
begin

text \<open>
  What a buffer stream's readers do: they advance the stream inside its window, never
  read past it and leave the rest of the program state alone. \<open>moved\<close> is the accounting
  every reader keeps: the bytes consumed and the decrease of \<open>bytes_left\<close> are the same.
\<close>

section \<open>Accounting\<close>

definition istream_ok :: "pb_istream \<Rightarrow> bool" where
  "istream_ok s \<longleftrightarrow> i_callback s = ICb_buf_read \<and> unat (bytes_left s) \<le> length (i_buf s)"

definition adv :: "nat \<Rightarrow> pb_istream \<Rightarrow> pb_istream" where
  "adv k s = s\<lparr>i_buf := drop k (i_buf s), bytes_left := bytes_left s - of_nat k\<rparr>"

text \<open>No outcome of the model's own has been added.\<close>

definition no_ub :: "pb_istream \<Rightarrow> pb_istream \<Rightarrow> bool" where
  "no_ub s s' \<longleftrightarrow> (\<forall>e \<in> own_outcomes. i_errmsg s' = Some e \<longrightarrow> i_errmsg s = Some e)"

definition moved :: "pb_istream \<Rightarrow> pb_istream \<Rightarrow> bool" where
  "moved s s' \<longleftrightarrow> (\<exists>k \<le> unat (bytes_left s).
      i_buf s' = drop k (i_buf s) \<and> bytes_left s' = bytes_left s - of_nat k)
     \<and> i_callback s' = i_callback s \<and> i_state s' = i_state s \<and> no_ub s s'"

lemma unat_minus_of_nat: "k \<le> unat (x :: u64) \<Longrightarrow> unat (x - of_nat k) = unat x - k"
proof -
  assume k: "k \<le> unat x"
  then have "k < 2 ^ 64" using unsigned_less [of x, where 'a = nat] by simp
  then have "unat (of_nat k :: u64) = k" by (simp add: unat_of_nat)
  with k show ?thesis by (simp add: unat_sub_if')
qed

lemma no_ub_refl [simp]: "no_ub s s"
  by (simp add: no_ub_def)

lemma not_own [simp]:
  "''end-of-stream'' \<notin> own_outcomes" "''io error'' \<notin> own_outcomes" "''varint overflow'' \<notin> own_outcomes"
  "''invalid wire_type'' \<notin> own_outcomes" "''parent stream too short'' \<notin> own_outcomes"
  by (simp_all add: own_outcomes_def)

lemma moved_refl [simp]: "moved s s"
  by (auto simp: moved_def intro: exI [of _ 0])

lemma moved_trans [trans]: "moved s t \<Longrightarrow> moved t u \<Longrightarrow> moved s u"
proof -
  assume "moved s t" "moved t u"
  then obtain k l where k: "k \<le> unat (bytes_left s)" "i_buf t = drop k (i_buf s)" "bytes_left t = bytes_left s - of_nat k"
    and l: "l \<le> unat (bytes_left t)" "i_buf u = drop l (i_buf t)" "bytes_left u = bytes_left t - of_nat l"
    and f: "i_callback u = i_callback s" "i_state u = i_state s" "no_ub s u"
    by (auto simp: moved_def no_ub_def)
  have "k + l \<le> unat (bytes_left s)" using k l by (simp add: unat_minus_of_nat)
  then show ?thesis using k l f by (auto simp: moved_def add.commute intro!: exI [of _ "k + l"])
qed

lemma moved_ok: "istream_ok s \<Longrightarrow> moved s s' \<Longrightarrow> istream_ok s'"
  by (auto simp: istream_ok_def moved_def unat_minus_of_nat)

lemma moved_le: "moved s s' \<Longrightarrow> unat (bytes_left s') \<le> unat (bytes_left s)"
  by (auto simp: moved_def unat_minus_of_nat)

lemma moved_adv: "k \<le> unat (bytes_left s) \<Longrightarrow> moved s (adv k s)"
  by (auto simp: moved_def adv_def no_ub_def)

lemma moved_errmsg: "moved s s' \<Longrightarrow> no_ub s (s'\<lparr>i_errmsg := e\<rparr>) \<Longrightarrow> moved s (s'\<lparr>i_errmsg := e\<rparr>)"
  by (auto simp: moved_def)

lemma moved_error:
  "moved s s' \<Longrightarrow> msg \<notin> own_outcomes \<Longrightarrow>
     moved s (s'\<lparr>i_errmsg := (case i_errmsg s' of None \<Rightarrow> Some msg | Some e \<Rightarrow> Some e)\<rparr>)"
  by (rule moved_errmsg) (auto simp: moved_def no_ub_def split: option.splits)

text \<open>A reader: it moves the stream and changes nothing else.\<close>

definition reads :: "pb_istream \<Rightarrow> cstate \<Rightarrow> 'a dres \<Rightarrow> bool" where
  "reads s w r \<longleftrightarrow> moved s (fst (snd r)) \<and> snd (snd r) = w"

lemma reads_triple [simp]: "reads s w (v, s', w') \<longleftrightarrow> moved s s' \<and> w' = w"
  by (simp add: reads_def)

lemma reads_error:
  "moved s s' \<Longrightarrow> msg \<notin> own_outcomes \<Longrightarrow> reads s w (i_error msg s' w)"
  by (simp add: i_error_def moved_error)

lemma reads_andthen:
  assumes "reads s w r" and "\<And>v s'. r = (Some v, s', w) \<Longrightarrow> moved s s' \<Longrightarrow> reads s' w (k v s' w)"
  shows "reads s w (andthen r k)"
proof (cases r)
  case (fields v s' w')
  then show ?thesis using assms by (cases v) (auto simp: reads_def intro: moved_trans)
qed

section \<open>The readers of a buffer stream\<close>

lemma adv_adv: "k + l \<le> unat (bytes_left s) \<Longrightarrow> adv l (adv k s) = adv (k + l) s"
  by (simp add: adv_def add.commute)

lemma adv_0 [simp]: "adv 0 s = s"
  by (simp add: adv_def)

lemma read_direct_ok:
  assumes "istream_ok s"
  shows "read_direct env count s w =
    (if unat count \<le> unat (bytes_left s) then (Some (take (unat count) (i_buf s)), adv (unat count) s, w)
     else i_error ''end-of-stream'' s w)"
  using assms
  by (auto simp: read_direct_def run_read_def buf_read_def istream_ok_def adv_def word_less_nat_alt not_less
      unat_eq_0)

lemma pb_read_ok:
  assumes "istream_ok s"
  shows "pb_read env nb count s w =
    (if unat count \<le> unat (bytes_left s) then (Some (take (unat count) (i_buf s)), adv (unat count) s, w)
     else i_error ''end-of-stream'' s w)"
proof -
  have "i_callback s = ICb_buf_read" using assms by (simp add: istream_ok_def)
  then show ?thesis using read_direct_ok [OF assms, of env count w] by (auto simp: pb_read_def unat_eq_0)
qed

lemma pb_readbyte_ok:
  assumes "istream_ok s"
  shows "pb_readbyte env s w =
    (if bytes_left s = 0 then i_error ''end-of-stream'' s w else (Some (hd (i_buf s)), adv 1 s, w))"
proof (cases "bytes_left s = 0")
  case False
  then have "0 < unat (bytes_left s)" by (simp add: unat_gt_0)
  then obtain b bs where "i_buf s = b # bs" using assms by (cases "i_buf s") (auto simp: istream_ok_def)
  then show ?thesis using False assms by (simp add: pb_readbyte_def run_read_def buf_read_def istream_ok_def adv_def)
qed (simp add: pb_readbyte_def)

lemma reads_pb_read: "istream_ok s \<Longrightarrow> reads s w (pb_read env nb count s w)"
  by (simp add: pb_read_ok reads_error moved_adv)

lemma reads_pb_readbyte: "istream_ok s \<Longrightarrow> reads s w (pb_readbyte env s w)"
  by (auto simp: pb_readbyte_ok unat_gt_0 Suc_le_eq intro!: reads_error moved_adv)

lemma readbyte_less:
  "istream_ok s \<Longrightarrow> pb_readbyte env s w = (Some b, s', w') \<Longrightarrow> bytes_left s' < bytes_left s"
  by (auto simp: pb_readbyte_ok i_error_def adv_def word_less_nat_alt unat_sub_if' unat_gt_0 Suc_le_eq split: if_splits)

text \<open>After a byte: either the stream is exhausted, or one byte is gone and the stream is still good.\<close>

lemma readbyte_cases:
  assumes ok: "istream_ok s"
  obtains (eof) s' where "pb_readbyte env s w = (None, s', w)" "moved s s'"
  | (byte) b s' where "pb_readbyte env s w = (Some b, s', w)" "moved s s'" "istream_ok s'"
      "bytes_left s' < bytes_left s" "s' = adv 1 s" "b = hd (i_buf s)"
proof (cases "bytes_left s = 0")
  case True
  then show ?thesis using eof reads_pb_readbyte [OF ok, of w env] by (simp add: pb_readbyte_ok [OF ok] i_error_def)
next
  case False
  then have r: "pb_readbyte env s w = (Some (hd (i_buf s)), adv 1 s, w)" by (simp add: pb_readbyte_ok [OF ok])
  moreover have "moved s (adv 1 s)" using False by (simp add: moved_adv unat_gt_0 Suc_le_eq)
  ultimately show ?thesis using byte moved_ok [OF ok] readbyte_less [OF ok r] by blast
qed

lemma reads_varint32_loop: "istream_ok s \<Longrightarrow> reads s w (varint32_loop env bitpos result s w)"
proof (induction "unat (bytes_left s)" arbitrary: s bitpos result rule: less_induct)
  case less
  from less.prems show ?case
  proof (cases rule: readbyte_cases [of s env w])
    case (eof s')
    then show ?thesis by (simp add: varint32_loop.simps [of env bitpos])
  next
    case (byte b s')
    have "reads s' w (varint32_loop env bp r s' w)" for bp r
      using less.hyps [of s' bp r] byte by (simp add: word_less_nat_alt)
    then have "reads s w (varint32_loop env bp r s' w)" for bp r
      using byte(2) by (auto simp: reads_def intro: moved_trans)
    then show ?thesis using byte
      by (auto simp: varint32_loop.simps [of env bitpos] Let_def intro!: reads_error)
  qed
qed

lemma reads_varint64_loop: "istream_ok s \<Longrightarrow> reads s w (varint64_loop env bitpos result s w)"
proof (induction "unat (bytes_left s)" arbitrary: s bitpos result rule: less_induct)
  case less
  from less.prems show ?case
  proof (cases rule: readbyte_cases [of s env w])
    case (eof s')
    then show ?thesis by (auto simp: varint64_loop.simps [of env bitpos] intro!: reads_error)
  next
    case (byte b s')
    have "reads s' w (varint64_loop env bp r s' w)" for bp r
      using less.hyps [of s' bp r] byte by (simp add: word_less_nat_alt)
    then have "reads s w (varint64_loop env bp r s' w)" for bp r
      using byte(2) by (auto simp: reads_def intro: moved_trans)
    then show ?thesis using byte
      by (auto simp: varint64_loop.simps [of env bitpos] Let_def intro!: reads_error)
  qed
qed

lemma pb_read1_readbyte:
  assumes "istream_ok s"
  shows "pb_read env False 1 s w = (case pb_readbyte env s w of (None, s', w') \<Rightarrow> (None, s', w') | (Some b, s', w') \<Rightarrow> (Some [b], s', w'))"
proof (cases "bytes_left s = 0")
  case False
  then have "1 \<le> unat (bytes_left s)" by (simp add: unat_gt_0 Suc_le_eq)
  moreover from this have "take 1 (i_buf s) = [hd (i_buf s)]" using assms
    by (cases "i_buf s") (auto simp: istream_ok_def)
  ultimately show ?thesis using False assms by (simp add: pb_read_ok pb_readbyte_ok)
qed (use assms in \<open>simp add: pb_read_ok pb_readbyte_ok i_error_def\<close>)

lemma reads_pb_skip_varint: "istream_ok s \<Longrightarrow> reads s w (pb_skip_varint env s w)"
proof (induction "unat (bytes_left s)" arbitrary: s rule: less_induct)
  case less
  from less.prems show ?case
  proof (cases rule: readbyte_cases [of s env w])
    case (eof s')
    then show ?thesis using less.prems by (simp add: pb_skip_varint.simps [of env s] pb_read1_readbyte)
  next
    case (byte b s')
    have "reads s' w (pb_skip_varint env s' w)" using less.hyps [of s'] byte by (simp add: word_less_nat_alt)
    then have "reads s w (pb_skip_varint env s' w)" using byte(2) by (auto simp: reads_def intro: moved_trans)
    then show ?thesis using byte less.prems by (simp add: pb_skip_varint.simps [of env s] pb_read1_readbyte)
  qed
qed

lemma reads_varint32_eof: "istream_ok s \<Longrightarrow> reads s w (snd (pb_decode_varint32_eof env eof s w))"
proof -
  assume ok: "istream_ok s"
  then show ?thesis
  proof (cases rule: readbyte_cases [of s env w])
    case (eof s')
    then show ?thesis by (simp add: pb_decode_varint32_eof_def)
  next
    case (byte b s')
    have "reads s' w (varint32_loop env bp r s' w)" for bp r using byte(3) by (rule reads_varint32_loop)
    then have "reads s w (varint32_loop env bp r s' w)" for bp r
      using byte(2) by (auto simp: reads_def intro: moved_trans)
    then show ?thesis using byte by (simp add: pb_decode_varint32_eof_def)
  qed
qed

lemma reads_varint32: "istream_ok s \<Longrightarrow> reads s w (pb_decode_varint32 env s w)"
  by (simp add: pb_decode_varint32_def reads_varint32_eof)

lemma reads_varint: "istream_ok s \<Longrightarrow> reads s w (pb_decode_varint env s w)"
  by (simp add: pb_decode_varint_def reads_varint64_loop)

lemma reads_skip_string: "istream_ok s \<Longrightarrow> reads s w (pb_skip_string env s w)"
  unfolding pb_skip_string_def
  by (auto intro!: reads_andthen reads_varint32 reads_pb_read intro: moved_ok)

lemma reads_skip_field: "istream_ok s \<Longrightarrow> reads s w (pb_skip_field env wt s w)"
  unfolding pb_skip_field_def
  by (auto intro!: reads_andthen reads_pb_read reads_pb_skip_varint reads_skip_string reads_error
      split: pb_wire_type.splits)

end
