(* ===== verification/Wire_Codec.thy ===== *)
theory Wire_Codec
  imports C_Prelude
begin

text \<open>
  The interface of a wire format: an encoder into bytes, and a decoder that takes a value
  off the front of a byte string. What a client may rely on is that decoding an encoding
  gives the value back and leaves exactly what follows it. From that law alone the format
  is unambiguous, and a sequence of encoded values is read back item by item.
  The providers are nanopb's varint, zigzag and fixed-width formats and the integers and
  length-prefixed strings of the CBS/CBB library.
\<close>

fun dec_items :: "(u8 list \<Rightarrow> ('v \<times> u8 list) option) \<Rightarrow> nat \<Rightarrow> u8 list \<Rightarrow> ('v list \<times> u8 list) option" where
  "dec_items dec 0 bs = Some ([], bs)"
| "dec_items dec (Suc n) bs =
     (case dec bs of
        None \<Rightarrow> None
      | Some (v, rest) \<Rightarrow>
          (case dec_items dec n rest of
             None \<Rightarrow> None
           | Some (vs, rest') \<Rightarrow> Some (v # vs, rest')))"

locale wire_codec =
  fixes enc :: "'v \<Rightarrow> u8 list"
    and dec :: "u8 list \<Rightarrow> ('v \<times> u8 list) option"
    and valid :: "'v \<Rightarrow> bool"
  assumes dec_enc: "valid v \<Longrightarrow> length (enc v @ rest) < 2 ^ 64 \<Longrightarrow> dec (enc v @ rest) = Some (v, rest)"
begin

lemma prefix_free:
  assumes "valid v" and "valid v'" and eq: "enc v @ r = enc v' @ r'" and "length (enc v @ r) < 2 ^ 64"
  shows "v = v' \<and> r = r'"
proof -
  have "dec (enc v @ r) = Some (v, r)" using assms(1,4) by (rule dec_enc)
  moreover have "dec (enc v' @ r') = Some (v', r')" using assms(2) assms(4) [unfolded eq] by (rule dec_enc)
  ultimately have "Some (v, r) = Some (v', r')" using eq by (simp only:)
  then show ?thesis by simp
qed

lemma items_roundtrip:
  assumes "\<forall>v \<in> set vs. valid v" and "length (concat (map enc vs) @ rest) < 2 ^ 64"
  shows "dec_items dec (length vs) (concat (map enc vs) @ rest) = Some (vs, rest)"
  using assms
proof (induction vs)
  case Nil
  then show ?case by simp
next
  case (Cons v vs)
  then have "dec (enc v @ (concat (map enc vs) @ rest)) = Some (v, concat (map enc vs) @ rest)"
    by (intro dec_enc) simp_all
  moreover have "dec_items dec (length vs) (concat (map enc vs) @ rest) = Some (vs, rest)"
    using Cons by simp
  ultimately show ?case by simp
qed

end

end
