(* ===== verification/Pb_Varint.thy ===== *)
theory Pb_Varint
  imports Pb_Encode_Refine Pb_Istream_Correct Wire_Codec
begin

text \<open>
  The encoder's and the decoder's primitive formats fit together: varints, zigzag varints,
  fixed-width integers and tags are read back as they were written. The 32-bit varint reader
  agrees with the 64-bit one on every value of 32 bits, but not on every longer encoding.
\<close>

section \<open>Bits of a varint byte\<close>

lemma and_7F: "x AND 0x7F = take_bit 7 (x :: 'a::len word)"
  by (simp add: take_bit_eq_mask mask_eq_exp_minus_1)

lemma bit_80: "bit (0x80 :: int) n \<longleftrightarrow> n = 7"
  using bit_exp_iff [of 7 n, where 'a = int] by auto

lemma drop_bit_0_bit: "drop_bit k (v :: 'a::len word) = 0 \<Longrightarrow> \<not> bit v (k + n)"
proof -
  assume "drop_bit k v = 0"
  then have "\<not> bit (drop_bit k v) n" by simp
  then show ?thesis by (simp add: bit_drop_bit_eq)
qed

lemma and_80: "b AND 0x80 \<noteq> 0 \<longleftrightarrow> bit (b :: u8) 7"
proof -
  have "b AND 0x80 = (if bit b 7 then 0x80 else 0)"
    by (rule bit_word_eqI) (auto simp: bit_simps bit_80)
  then show ?thesis by simp
qed

lemma le_7F: "(v :: u64) \<le> 0x7F \<longleftrightarrow> drop_bit 7 v = 0"
proof -
  have "drop_bit 7 v = 0 \<longleftrightarrow> drop_bit 7 (unat v) = 0"
    by (metis unat_drop_bit_eq unat_eq_0)
  also have "\<dots> \<longleftrightarrow> unat v < 128" by (simp add: drop_bit_eq_div div_eq_0_iff)
  finally show ?thesis by (simp add: word_le_nat_alt less_Suc_eq_le [symmetric])
qed

lemma varint_buffer_rec:
  "varint_buffer v = (if v \<le> 0x7F then [ucast v] else (ucast (v AND 0x7F) OR 0x80) # varint_buffer (drop_bit 7 v))"
proof (cases "v \<le> 0x7F")
  case False
  let ?v = "drop_bit 7 v" and ?b = "ucast (v AND 0x7F) OR 0x80 :: u8"
  have "v \<noteq> 0" "?v \<noteq> 0" using False by (auto simp: le_7F)
  then have loop: "varint_loop v = ?b # varint_loop ?v" "varint_loop ?v \<noteq> []"
    by (simp_all add: varint_loop.simps [of v] varint_loop.simps [of ?v])
  show ?thesis
  proof (cases "?v \<le> 0x7F")
    case True
    then have "varint_loop ?v = [ucast (?v AND 0x7F) OR 0x80]" using \<open>?v \<noteq> 0\<close>
      by (simp add: varint_loop.simps [of ?v] varint_loop.simps [of 0] le_7F)
    moreover have "(ucast (?v AND 0x7F) OR 0x80) AND 0x7F = (ucast ?v :: u8)"
    proof (rule bit_word_eqI)
      fix n assume n: "n < LENGTH(8)"
      have "drop_bit 7 ?v = 0" using True by (simp add: le_7F)
      then have "\<not> bit ?v 7" using drop_bit_0_bit [of 7 ?v 0] by simp
      then show "bit ((ucast (?v AND 0x7F) OR 0x80) AND 0x7F :: u8) n = bit (ucast ?v :: u8) n"
        using n by (cases "n = 7") (auto simp: and_7F bit_simps bit_80)
    qed
    ultimately show ?thesis using False True loop by (simp add: varint_buffer_def [of v] varint_buffer_def [of ?v])
  next
    case f: False
    then have "varint_buffer ?v = (varint_loop ?v)[length (varint_loop ?v) - 1 := last (varint_loop ?v) AND 0x7F]"
      by (simp add: varint_buffer_def Let_def)
    then show ?thesis using False loop
      by (cases "varint_loop ?v") (simp_all add: varint_buffer_def [of v] nth_Cons')
  qed
qed (simp add: varint_buffer_def)

lemma varint_buffer_ne: "varint_buffer v \<noteq> []"
  by (subst varint_buffer_rec) simp

text \<open>A continuation byte carries seven bits and the flag; the last byte only the bits.\<close>

lemma cont_byte: "bit (ucast (v AND 0x7F) OR 0x80 :: u8) 7"
  "(ucast ((ucast (v AND 0x7F) OR 0x80 :: u8) AND 0x7F) :: 'b::len word) = ucast (v AND (0x7F :: 'a::len word))"
  subgoal by (simp add: bit_simps bit_80)
  subgoal
  proof (rule bit_word_eqI)
    fix n assume "n < LENGTH('b)"
    then show "bit (ucast ((ucast (v AND 0x7F) OR 0x80 :: u8) AND 0x7F) :: 'b word) n = bit (ucast (v AND 0x7F) :: 'b word) n"
      by (cases "n < 7") (auto simp: and_7F bit_simps bit_80)
  qed
  done

lemma last_byte: "(v :: u64) \<le> 0x7F \<Longrightarrow> \<not> bit (ucast v :: u8) 7"
  "(v :: u64) \<le> 0x7F \<Longrightarrow> (ucast ((ucast v :: u8) AND 0x7F) :: 'b::len word) = ucast v"
proof -
  assume "v \<le> 0x7F"
  then have "drop_bit 7 v = 0" by (simp add: le_7F)
  then have hi: "\<not> bit v (7 + n)" for n by (rule drop_bit_0_bit)
  show "\<not> bit (ucast v :: u8) 7" using hi [of 0] by (simp add: bit_simps)
  show "(ucast ((ucast v :: u8) AND 0x7F) :: 'b word) = ucast v"
  proof (rule bit_word_eqI)
    fix n assume "n < LENGTH('b)"
    then show "bit (ucast ((ucast v :: u8) AND 0x7F) :: 'b word) n = bit (ucast v :: 'b word) n"
      using hi [of "n - 7"] by (cases "n < 7") (auto simp: and_7F bit_simps)
  qed
qed

lemma split_7: "push_bit k (v AND 0x7F) OR push_bit (k + 7) (drop_bit 7 v) = push_bit k (v :: 'a::len word)"
proof (rule bit_word_eqI)
  fix n
  show "bit (push_bit k (v AND 0x7F) OR push_bit (k + 7) (drop_bit 7 v)) n = bit (push_bit k v) n"
    by (cases "n < k + 7") (auto simp: and_7F bit_simps not_less)
qed

section \<open>Reading back what was written\<close>

text \<open>The stream stands at the encoding of a value and has at least that many bytes left.\<close>

definition at_bytes :: "pb_istream \<Rightarrow> u8 list \<Rightarrow> bool" where
  "at_bytes s bs \<longleftrightarrow> istream_ok s \<and> length bs \<le> unat (bytes_left s) \<and> take (length bs) (i_buf s) = bs"

lemma at_bytes_ok: "at_bytes s bs \<Longrightarrow> istream_ok s"
  by (simp add: at_bytes_def)

lemma at_bytes_append: "at_bytes s (xs @ ys) \<Longrightarrow> at_bytes s xs \<and> at_bytes (adv (length xs) s) ys"
proof -
  assume a: "at_bytes s (xs @ ys)"
  then have t: "take (length xs + length ys) (i_buf s) = xs @ ys" and l: "length xs + length ys \<le> unat (bytes_left s)"
    and ok: "istream_ok s" by (simp_all add: at_bytes_def)
  have "take (length xs) (i_buf s) = xs" using arg_cong [OF t, of "take (length xs)"] by (simp add: min_def)
  moreover have "take (length ys) (drop (length xs) (i_buf s)) = ys"
    using arg_cong [OF t, of "drop (length xs)"] by (simp add: drop_take)
  moreover have "istream_ok (adv (length xs) s)" using ok l by (intro moved_ok [OF ok moved_adv]) simp
  ultimately show ?thesis using ok l
    by (simp add: at_bytes_def) (simp add: adv_def unat_minus_of_nat)
qed

lemma readbyte_at:
  assumes "at_bytes s (b # bs)"
  shows "pb_readbyte env s w = (Some b, adv 1 s, w)" and "at_bytes (adv 1 s) bs"
proof -
  have a: "at_bytes s ([b] @ bs)" using assms by simp
  show "at_bytes (adv 1 s) bs" using at_bytes_append [OF a] by simp
  have "bytes_left s \<noteq> 0" using assms by (auto simp: at_bytes_def)
  moreover have "hd (i_buf s) = b" using assms by (cases "i_buf s") (auto simp: at_bytes_def)
  ultimately show "pb_readbyte env s w = (Some b, adv 1 s, w)"
    using assms by (simp add: pb_readbyte_ok at_bytes_ok)
qed

lemma at_bytes_adv_Suc: "at_bytes s (b # bs) \<Longrightarrow> adv (length bs) (adv 1 s) = adv (length (b # bs)) s"
  by (subst adv_adv) (auto simp: at_bytes_def)

lemma varint64_loop_enc:
  assumes "at_bytes s (varint_buffer v)" and "unat bitpos = 7 * k" and "k \<le> 9" and "unat v < 2 ^ (64 - 7 * k)"
  shows "varint64_loop env bitpos r s w = (Some (r OR push_bit (7 * k) v), adv (length (varint_buffer v)) s, w)"
  using assms
proof (induction "10 - k" arbitrary: v bitpos k r s)
  case 0
  then show ?case by simp
next
  case (Suc m)
  have bp: "\<not> 64 \<le> bitpos" using Suc.prems(2,3) by (simp add: word_le_nat_alt)
  show ?case
  proof (cases "v \<le> 0x7F")
    case True
    then have vb: "varint_buffer v = [ucast v]" by (simp add: varint_buffer_def)
    have "at_bytes s [ucast v]" using Suc.prems(1) vb by simp
    then show ?thesis using bp Suc.prems(2) last_byte(1) [OF True] last_byte(2) [OF True, where 'b = 64]
      by (simp add: varint64_loop.simps [of env bitpos] readbyte_at vb and_80 Let_def)
  next
    case False
    let ?b = "ucast (v AND 0x7F) OR 0x80 :: u8" and ?v = "drop_bit 7 v"
    have vb: "varint_buffer v = ?b # varint_buffer ?v" using False by (simp add: varint_buffer_rec [of v])
    have at: "at_bytes s (?b # varint_buffer ?v)" using Suc.prems(1) vb by simp
    have "128 \<le> unat v" using False by (simp add: word_le_nat_alt)
    then have "(2::nat) ^ 7 < 2 ^ (64 - 7 * k)" using Suc.prems(4) by simp
    then have k: "7 < 64 - 7 * k" by (rule power_less_imp_less_exp [rotated]) simp
    have bp': "unat (bitpos + 7) = 7 * Suc k" using Suc.prems(2) k by (simp add: unat_word_ariths)
    have "unat ?v = unat v div 2 ^ 7" by (simp only: unat_drop_bit_eq drop_bit_eq_div [where 'a = nat])
    moreover have "(2::nat) ^ (64 - 7 * k) = 2 ^ 7 * 2 ^ (64 - 7 * Suc k)"
    proof -
      have "64 - 7 * k = 7 + (64 - 7 * Suc k)" using k by simp
      then show ?thesis by (simp only: power_add)
    qed
    ultimately have small: "unat ?v < 2 ^ (64 - 7 * Suc k)"
      using Suc.prems(4) by (simp add: div_less_iff_less_mult mult.commute)
    have "varint64_loop env (bitpos + 7) r' (adv 1 s) w =
        (Some (r' OR push_bit (7 * Suc k) ?v), adv (length (varint_buffer ?v)) (adv 1 s), w)" for r'
      using Suc.hyps(1) [of "Suc k" "adv 1 s" ?v "bitpos + 7" r'] Suc.hyps(2) readbyte_at(2) [OF at] bp' small k
      by simp
    moreover have "varint64_loop env bitpos r s w =
        varint64_loop env (bitpos + 7) (r OR push_bit (7 * k) (v AND 0x7F)) (adv 1 s) w"
      using bp Suc.prems(2) cont_byte(1) [of v] cont_byte(2) [of v, where 'b = 64]
      by (simp add: varint64_loop.simps [of env bitpos] readbyte_at(1) [OF at] and_80 Let_def)
    ultimately show ?thesis using split_7 [of "7 * k" v] at_bytes_adv_Suc [OF at] vb
      by (simp add: or.assoc add.commute)
  qed
qed

lemma pb_decode_varint_enc:
  "at_bytes s (varint_buffer v) \<Longrightarrow>
     pb_decode_varint env s w = (Some v, adv (length (varint_buffer v)) s, w)"
  using varint64_loop_enc [of s v 0 0 env 0 w] unsigned_less [of v, where 'a = nat]
  by (simp add: pb_decode_varint_def)

lemma less_128_and_70: "unat (v :: u64) < 16 \<Longrightarrow> (ucast v :: u8) AND 0x70 = 0"
proof -
  assume v: "unat v < 16"
  have eq: "(0x70 :: u8) = NOT (mask 4) AND mask 7" by (simp add: mask_eq_exp_minus_1)
  have "drop_bit 4 (unat v) = 0" using v by (simp add: drop_bit_eq_div)
  then have "drop_bit 4 v = 0" by (metis unat_drop_bit_eq unat_eq_0)
  then have hi: "\<not> bit v (4 + n)" for n by (rule drop_bit_0_bit)
  show ?thesis
  proof (rule bit_word_eqI)
    fix n assume "n < LENGTH(8)"
    then show "bit ((ucast v :: u8) AND 0x70) n = bit (0 :: u8) n"
      using hi [of "n - 4"] unfolding eq by (cases "n < 4") (auto simp: bit_simps)
  qed
qed

lemma varint32_loop_enc:
  assumes "at_bytes s (varint_buffer v)" and "unat bitpos = 7 * k" and "k \<le> 4" and "unat v < 2 ^ (32 - 7 * k)"
  shows "varint32_loop env bitpos r s w = (Some (r OR push_bit (7 * k) (ucast v)), adv (length (varint_buffer v)) s, w)"
  using assms
proof (induction "5 - k" arbitrary: v bitpos k r s)
  case 0
  then show ?case by simp
next
  case (Suc m)
  have bp: "\<not> 32 \<le> bitpos" using Suc.prems(2,3) by (simp add: word_le_nat_alt)
  have less: "bytes_left (adv 1 s) < bytes_left s" if "at_bytes s (b # bs)" for b bs
    using readbyte_less [OF at_bytes_ok [OF that] readbyte_at(1) [OF that]] .
  show ?case
  proof (cases "v \<le> 0x7F")
    case True
    then have vb: "varint_buffer v = [ucast v]" by (simp add: varint_buffer_def)
    have at: "at_bytes s [ucast v]" using Suc.prems(1) vb by simp
    have "k = 4" if "bitpos + 7 = 35"
    proof -
      have "unat (bitpos + 7) = 7 * k + 7" using Suc.prems(2,3) by (simp add: unat_word_ariths)
      with that show ?thesis by simp
    qed
    then have "bitpos + 7 = 35 \<longrightarrow> (ucast v :: u8) AND 0x70 = 0"
      using Suc.prems(4) by (auto intro: less_128_and_70)
    then show ?thesis using bp Suc.prems(2) last_byte(1) [OF True] last_byte(2) [OF True, where 'b = 32]
      by (auto simp: varint32_loop.simps [of env bitpos] readbyte_at(1) [OF at] vb and_80 Let_def)
  next
    case False
    let ?b = "ucast (v AND 0x7F) OR 0x80 :: u8" and ?v = "drop_bit 7 v"
    have vb: "varint_buffer v = ?b # varint_buffer ?v" using False by (simp add: varint_buffer_rec [of v])
    have at: "at_bytes s (?b # varint_buffer ?v)" using Suc.prems(1) vb by simp
    have "128 \<le> unat v" using False by (simp add: word_le_nat_alt)
    then have "(2::nat) ^ 7 < 2 ^ (32 - 7 * k)" using Suc.prems(4) by simp
    then have k: "7 < 32 - 7 * k" by (rule power_less_imp_less_exp [rotated]) simp
    have bp': "unat (bitpos + 7) = 7 * Suc k" using Suc.prems(2) k by (simp add: unat_word_ariths)
    have "unat ?v = unat v div 2 ^ 7" by (simp only: unat_drop_bit_eq drop_bit_eq_div [where 'a = nat])
    moreover have "(2::nat) ^ (32 - 7 * k) = 2 ^ 7 * 2 ^ (32 - 7 * Suc k)"
    proof -
      have "32 - 7 * k = 7 + (32 - 7 * Suc k)" using k by simp
      then show ?thesis by (simp only: power_add)
    qed
    ultimately have small: "unat ?v < 2 ^ (32 - 7 * Suc k)"
      using Suc.prems(4) by (simp add: div_less_iff_less_mult mult.commute)
    have "varint32_loop env (bitpos + 7) r' (adv 1 s) w =
        (Some (r' OR push_bit (7 * Suc k) (ucast ?v)), adv (length (varint_buffer ?v)) (adv 1 s), w)" for r'
      using Suc.hyps(1) [of "Suc k" "adv 1 s" ?v "bitpos + 7" r'] Suc.hyps(2) readbyte_at(2) [OF at] bp' small k
      by simp
    moreover have "varint32_loop env bitpos r s w =
        varint32_loop env (bitpos + 7) (r OR push_bit (7 * k) (ucast (v AND 0x7F))) (adv 1 s) w"
      using bp Suc.prems(2) cont_byte(1) [of v] cont_byte(2) [of v, where 'b = 32] less [OF at]
      by (simp add: varint32_loop.simps [of env bitpos] readbyte_at(1) [OF at] and_80 Let_def)
    moreover have "push_bit (7 * k) (ucast (v AND 0x7F)) OR push_bit (7 * k + 7) (ucast ?v) = push_bit (7 * k) (ucast v :: u32)"
    proof (rule bit_word_eqI)
      fix n assume "n < LENGTH(32)"
      then show "bit (push_bit (7 * k) (ucast (v AND 0x7F)) OR push_bit (7 * k + 7) (ucast ?v) :: u32) n
          = bit (push_bit (7 * k) (ucast v :: u32)) n"
        by (cases "n < 7 * k + 7") (auto simp: and_7F bit_simps not_less)
    qed
    ultimately show ?thesis using at_bytes_adv_Suc [OF at] vb
      by (simp add: or.assoc add.commute)
  qed
qed

lemma pb_decode_varint32_eof_enc:
  assumes at: "at_bytes s (varint_buffer v)" and v: "unat v < 2 ^ 32"
  shows "pb_decode_varint32_eof env eof s w = (eof, (Some (ucast v), adv (length (varint_buffer v)) s, w))"
proof (cases "v \<le> 0x7F")
  case True
  then have vb: "varint_buffer v = [ucast v]" by (simp add: varint_buffer_def)
  have at': "at_bytes s [ucast v]" using at vb by simp
  have "(ucast (ucast v :: u8) :: u32) = ucast v"
  proof (rule bit_word_eqI)
    fix n assume "n < LENGTH(32)"
    moreover have "\<not> bit v (7 + (n - 7))" using True by (intro drop_bit_0_bit) (simp add: le_7F)
    ultimately show "bit (ucast (ucast v :: u8) :: u32) n = bit (ucast v :: u32) n"
      by (cases "n < 7") (auto simp: bit_simps)
  qed
  then show ?thesis using last_byte(1) [OF True]
    by (simp add: pb_decode_varint32_eof_def readbyte_at(1) [OF at'] vb and_80 [of "ucast v", symmetric])
next
  case False
  let ?b = "ucast (v AND 0x7F) OR 0x80 :: u8" and ?v = "drop_bit 7 v"
  have vb: "varint_buffer v = ?b # varint_buffer ?v" using False by (simp add: varint_buffer_rec [of v])
  have at': "at_bytes s (?b # varint_buffer ?v)" using at vb by simp
  have "unat ?v = unat v div 2 ^ 7" by (simp only: unat_drop_bit_eq drop_bit_eq_div [where 'a = nat])
  then have "unat ?v < 2 ^ (32 - 7 * 1)" using v by (simp add: div_less_iff_less_mult)
  from varint32_loop_enc [OF readbyte_at(2) [OF at'] _ _ this, of 7 env "ucast (v AND 0x7F)" w]
  have "varint32_loop env 7 (ucast (v AND 0x7F)) (adv 1 s) w =
     (Some (ucast (v AND 0x7F) OR push_bit 7 (ucast ?v)), adv (length (varint_buffer v)) s, w)"
    using at_bytes_adv_Suc [OF at'] vb by simp
  moreover have "ucast (v AND 0x7F) OR push_bit 7 (ucast ?v) = (ucast v :: u32)"
    by (rule bit_word_eqI) (use not_less in \<open>auto simp: and_7F bit_simps\<close>)
  ultimately show ?thesis using cont_byte(1) [of v] cont_byte(2) [of v, where 'b = 32]
    by (simp add: pb_decode_varint32_eof_def readbyte_at(1) [OF at'] and_80 [of ?b])
qed

section \<open>Zigzag, fixed-width values and tags\<close>

lemma unzigzag_zigzag: "unzigzag (zigzag v) = v"
proof -
  have neg: "sint v < 0 \<longleftrightarrow> bit v 63" using bit_last_iff [of v] by simp
  have odd: "(x AND 1 \<noteq> 0) = bit x 0" for x :: u64 by (simp add: and_one_eq bit_0 odd_iff_mod_2_eq_one)
  define p where "p = push_bit 1 v"
  have p: "bit p k \<longleftrightarrow> 1 \<le> k \<and> k < 64 \<and> bit v (k - 1)" for k
    unfolding p_def by (simp only: bit_push_bit_iff) simp
  have d: "bit (drop_bit (Suc 0) x) k = bit x (Suc k)" for x :: u64 and k by (simp add: bit_drop_bit_eq)
  have zz: "zigzag v = (if bit v 63 then NOT p else p)" by (simp only: zigzag_def neg p_def)
  have "bit (zigzag v) 0 = bit v 63" unfolding zz by (simp add: bit_not_iff p)
  then have uz: "unzigzag (zigzag v) = (if bit v 63 then NOT (drop_bit 1 (zigzag v)) else drop_bit 1 (zigzag v))"
    by (simp only: unzigzag_def odd)
  have "\<not> bit x 64" for x :: u64 using bit_imp_le_length [of x 64] by auto
  then have "bit (unzigzag (zigzag v)) n = bit v n" if "n < 64" for n
    unfolding uz using that by (cases "n = 63") (auto simp: zz bit_not_iff d p)
  then show ?thesis by (intro bit_word_eqI) simp
qed

lemma pb_decode_svarint_enc:
  "at_bytes s (varint_buffer (zigzag v)) \<Longrightarrow>
     pb_decode_svarint env s w = (Some v, adv (length (varint_buffer (zigzag v))) s, w)"
  by (simp add: pb_decode_svarint_def pb_decode_varint_enc unzigzag_zigzag)

lemma word_of_bytes_le_word: "word_of_bytes bs = le_word bs"
proof -
  have "foldr (\<lambda>(i, b) acc. push_bit (8 * i) (ucast b) OR acc) (enumerate k bs) 0 = push_bit (8 * k) (le_word bs :: 'a word)" for k
  proof (induction bs arbitrary: k)
    case Nil
    then show ?case by simp
  next
    case (Cons b bs)
    show ?case using Cons.IH [of "Suc k"] by (simp add: push_bit_or push_bit_push_bit add.commute)
  qed
  from this [of 0] show ?thesis by (simp add: word_of_bytes_def)
qed

lemma pb_read_at: "at_bytes s bs \<Longrightarrow> length bs < 2 ^ 64 \<Longrightarrow>
    pb_read env nb (of_nat (length bs)) s w = (Some bs, adv (length bs) s, w)"
  by (simp add: pb_read_ok at_bytes_ok unat_of_nat) (simp add: at_bytes_def)

lemma pb_decode_fixed32_enc:
  "at_bytes s (fixed32_bytes v) \<Longrightarrow> pb_decode_fixed32 env s w = (Some v, adv 4 s, w)"
  using pb_read_at [of s "le_bytes 4 v" env False w] le_word_le_bytes [of 4 v]
  by (simp add: pb_decode_fixed32_def fixed32_bytes_le word_of_bytes_le_word take_bit_word_eq_self)

lemma pb_decode_fixed64_enc:
  "at_bytes s (fixed64_bytes v) \<Longrightarrow> pb_decode_fixed64 env s w = (Some v, adv 8 s, w)"
  using pb_read_at [of s "le_bytes 8 v" env False w] le_word_le_bytes [of 8 v]
  by (simp add: pb_decode_fixed64_def fixed64_bytes_le word_of_bytes_le_word take_bit_word_eq_self)

text \<open>The field numbers of the wire format have 29 bits; four of the wire types are in use.\<close>

fun valid_tag :: "pb_wire_type \<times> u32 \<Rightarrow> bool" where
  "valid_tag (PB_WT_other n, tag) \<longleftrightarrow> False"
| "valid_tag (wt, tag) \<longleftrightarrow> tag \<noteq> 0 \<and> unat tag < 2 ^ 29"

lemma tag_word_fields:
  assumes "unat tag < 2 ^ 29" and "unat n < 8"
  defines "t \<equiv> push_bit 3 (ucast tag) OR ucast (n :: u32) :: u64"
  shows "unat t < 2 ^ 32" "(ucast t :: u32) AND 7 = n" "drop_bit 3 (ucast t :: u32) = tag"
proof -
  have mask: "x AND 7 = take_bit 3 x" for x :: u32 by (simp add: take_bit_eq_mask mask_eq_exp_minus_1)
  have "take_bit 3 (unat n) = unat n" using assms(2) by (simp add: take_bit_nat_eq_self)
  then have "take_bit 3 n = n" by (metis unsigned_take_bit_eq unsigned_word_eqI)
  then have n: "\<not> bit n k" if "3 \<le> k" for k using that by (metis bit_take_bit_iff not_le)
  have "take_bit 29 (unat tag) = unat tag" using assms(1) by (simp add: take_bit_nat_eq_self)
  then have "take_bit 29 tag = tag" by (metis unsigned_take_bit_eq unsigned_word_eqI)
  then have tag: "\<not> bit tag k" if "29 \<le> k" for k using that by (metis bit_take_bit_iff not_le)
  have b: "bit t k \<longleftrightarrow> (3 \<le> k \<and> bit tag (k - 3) \<or> bit n k) \<and> k < 32" for k
  proof (cases "k < 64")
    case True
    have "29 \<le> k - 3" if "\<not> k < 32" using that by simp
    then show ?thesis unfolding t_def using True tag [of "k - 3"] n [of k]
      by (cases "k < 32") (auto simp: bit_simps not_less)
  next
    case False
    then have "\<not> bit t k" using bit_imp_le_length [of t k] by auto
    then show ?thesis using False by simp
  qed
  have "take_bit 32 t = t"
    by (rule bit_word_eqI) (auto simp: bit_take_bit_iff b)
  then have "take_bit 32 (unat t) = unat t" by (metis unsigned_take_bit_eq)
  then show "unat t < 2 ^ 32" by (metis take_bit_nat_less_exp)
  show "(ucast t :: u32) AND 7 = n"
    unfolding mask
  proof (rule bit_word_eqI)
    fix k assume "k < LENGTH(32)"
    then show "bit (take_bit 3 (ucast t :: u32)) k = bit n k"
      using n [of k] by (cases "k < 3") (auto simp: bit_take_bit_iff bit_unsigned_iff b)
  qed
  show "drop_bit 3 (ucast t :: u32) = tag"
  proof (rule bit_word_eqI)
    fix k assume "k < LENGTH(32)"
    show "bit (drop_bit 3 (ucast t :: u32)) k = bit tag k"
      using n [of "3 + k"] tag [of k] by (cases "k < 29") (auto simp: bit_drop_bit_eq bit_unsigned_iff b)
  qed
qed

lemma pb_decode_tag_enc:
  assumes v: "valid_tag (wt, tag)" and at: "at_bytes s (varint_buffer (tag_word wt tag))"
  shows "pb_decode_tag env s w = (False, (Some (wt, tag), adv (length (varint_buffer (tag_word wt tag))) s, w))"
proof -
  have small: "unat (wt_num wt) < 8" "wt_of_num (wt_num wt) = wt" "tag \<noteq> 0" "unat tag < 2 ^ 29"
    using v by (cases wt; simp add: wt_of_num_def)+
  note f = tag_word_fields [OF small(4,1), folded tag_word_def]
  have "ucast (tag_word wt tag) \<noteq> (0 :: u32)" using f(3) small(3) by auto
  then show ?thesis using f small(2)
    by (simp add: pb_decode_tag_def pb_decode_varint32_eof_enc [OF at])
qed

section \<open>The formats as codecs\<close>

text \<open>Reading a value from a buffer that holds a byte string, and what is left of the string.\<close>

definition on_buffer :: "(pb_istream \<Rightarrow> cstate \<Rightarrow> 'v dres) \<Rightarrow> cstate \<Rightarrow> u8 list \<Rightarrow> ('v \<times> u8 list) option" where
  "on_buffer get w bs =
     (case get (pb_istream_from_buffer bs (of_nat (length bs))) w of
        (None, _, _) \<Rightarrow> None
      | (Some v, s, _) \<Rightarrow> Some (v, i_buf s))"

text \<open>
  A stream format: bytes that stand for a value, and a reader that takes a value off a stream
  that stands at them. Every stream format is a wire format on whole buffers.
\<close>

locale stream_codec =
  fixes put :: "'v \<Rightarrow> u8 list"
    and get :: "pb_istream \<Rightarrow> cstate \<Rightarrow> 'v dres"
    and w0 :: cstate
    and valid :: "'v \<Rightarrow> bool"
  assumes get_put: "valid v \<Longrightarrow> at_bytes s (put v) \<Longrightarrow> get s w = (Some v, adv (length (put v)) s, w)"
begin

lemma on_buffer_put:
  assumes "valid v" and "length (put v @ rest) < 2 ^ 64"
  shows "on_buffer get w0 (put v @ rest) = Some (v, rest)"
proof -
  let ?s = "pb_istream_from_buffer (put v @ rest) (of_nat (length (put v @ rest)))"
  have "unat (of_nat (length (put v @ rest)) :: u64) = length (put v @ rest)"
    using assms(2) by (simp add: unat_of_nat del: of_nat_add length_append)
  then have "at_bytes ?s (put v)" by (simp add: at_bytes_def istream_ok_def pb_istream_from_buffer_def)
  then have "get ?s w0 = (Some v, adv (length (put v)) ?s, w0)" using assms(1) by (intro get_put)
  then show ?thesis by (simp add: on_buffer_def adv_def pb_istream_from_buffer_def)
qed

end

sublocale stream_codec \<subseteq> wire_codec put "on_buffer get w0" valid
  by unfold_locales (rule on_buffer_put)

interpretation varint: stream_codec varint_buffer "pb_decode_varint env" w "\<lambda>_. True" for env w
  by unfold_locales (simp add: pb_decode_varint_enc)

interpretation svarint: stream_codec "\<lambda>v. varint_buffer (zigzag v)" "pb_decode_svarint env" w "\<lambda>_. True" for env w
  by unfold_locales (simp add: pb_decode_svarint_enc)

interpretation varint32: stream_codec "\<lambda>v :: u32. varint_buffer (ucast v)" "pb_decode_varint32 env" w "\<lambda>_. True" for env w
proof unfold_locales
  fix v :: u32 and s w
  assume at: "at_bytes s (varint_buffer (ucast v))"
  have "unat (ucast v :: u64) < 2 ^ 32" using unsigned_less [of v, where 'a = nat] by (simp add: unat_ucast_up)
  moreover have "ucast (ucast v :: u64) = v" by (simp add: ucast_up_ucast_id is_up)
  ultimately show "pb_decode_varint32 env s w = (Some v, adv (length (varint_buffer (ucast v))) s, w)"
    using pb_decode_varint32_eof_enc [OF at] by (simp add: pb_decode_varint32_def)
qed

interpretation fixed32: stream_codec fixed32_bytes "pb_decode_fixed32 env" w "\<lambda>_. True" for env w
  by unfold_locales (simp add: pb_decode_fixed32_enc, simp add: fixed32_bytes_le)

interpretation fixed64: stream_codec fixed64_bytes "pb_decode_fixed64 env" w "\<lambda>_. True" for env w
  by unfold_locales (simp add: pb_decode_fixed64_enc, simp add: fixed64_bytes_le)

interpretation tag: stream_codec "\<lambda>(wt, tag). varint_buffer (tag_word wt tag)"
    "\<lambda>s w. snd (pb_decode_tag env s w)" w valid_tag for env w
  by unfold_locales (auto simp: pb_decode_tag_enc simp del: valid_tag.simps)

end
