(* ===== verification/Pb_Properties.thy ===== *)
theory Pb_Properties
  imports Pb_Varint
begin

text \<open>
  The properties of nanopb's encoder, field iterator and primitive readers, each with a
  concrete instance. The example message of the instances has a required \<open>uint32\<close> with
  field number 1 at offset 0 and a proto3 string of up to eight bytes with field number 2.
\<close>

section \<open>An example message\<close>

definition example_fields :: "pb_field list" where
  "example_fields =
     [\<lparr>field_tag = 1, field_type = 0x02, data_offset = 0, size_offset = 0, data_size = 4, array_size = 0, field_ptr = 0\<rparr>,
      \<lparr>field_tag = 2, field_type = 0x17, data_offset = 0, size_offset = 0, data_size = 8, array_size = 0, field_ptr = 0\<rparr>]"

definition example_mem :: mem where
  "example_mem = (\<lambda>_. 0)(0x1000 := 150, 0x1004 := 0x68, 0x1005 := 0x69)"

definition example_env :: "nat pb_enc_env" where
  "example_env = \<lparr>src = example_mem, fields_at = (\<lambda>_. []),
     user_write = (\<lambda>_ _ s w. (Some (), s, w)), user_encode = (\<lambda>_ _ _ s w. (Some (), s, w)),
     ext_encode = (\<lambda>_ _ s w. (Some (), s, w))\<rparr>"

definition example_denv :: pb_dec_env where
  "example_denv = \<lparr>d_fields_at = (\<lambda>_. []), user_read = (\<lambda>_ _ s w. (None, s, w)),
     user_decode = (\<lambda>_ _ _ s w. (None, s, w)), ext_decode = (\<lambda>_ _ _ _ s w. (Some (), s, w)),
     pick_addr = (\<lambda>_ _. None)\<rparr>"

definition example_state :: cstate where
  "example_state = \<lparr>cmem = example_mem, heap = [], fixed_count_size = 0\<rparr>"

definition example_stream :: "u8 list \<Rightarrow> pb_istream" where
  "example_stream bs = pb_istream_from_buffer bs (of_nat (length bs))"

lemmas example_at = at_bytes_def istream_ok_def example_stream_def pb_istream_from_buffer_def
  varint_buffer_def varint_loop.simps

lemma example_hyps:
  "wf_fields (fields_at example_env p)" "wf_fields example_fields"
  "implements (user_encode example_env f field a) (Emit [])"
  "implements (ext_encode example_env f e) (Emit [])"
  using implements_ret by (simp_all add: example_env_def example_fields_def wf_fields_def)


lemmas example_simps = field_span_def in_union_def
  load_bytes_numeral le_bytes_numeral
  spec_field_def spec_basic_def spec_tag_def spec_value_def spec_varint_def spec_string_def
  wiretype_of_ltype_def tag_word_def read_unsigned_def example_env_def example_fields_def example_mem_def
  emit_def Let_def PB_LTYPE_def PB_HTYPE_def PB_ATYPE_def field_at_def upt_rec strnlen_loop.simps
  varint_buffer_def varint_loop.simps load32_def check_default_def singular_is_default_def all_zero_def

lemma example_encoding:
  "spec_message 2 example_env (\<lambda>_ _ _. Emit []) (\<lambda>_ _. Emit []) example_fields 0x1000 =
     Emit [0x08, 0x96, 0x01, 0x12, 0x02, 0x68, 0x69]"
  by (simp add: numeral_2_eq_2) (simp add: example_simps)

section \<open>The encoder\<close>

text \<open>
  C1: \<open>pb_encode\<close>, with all its two-pass submessages and packed arrays, refines the one-pass
  reference encoder: a sizing stream counts exactly the reference's bytes, a buffer stream
  receives exactly them when they fit in its window and the call is refused otherwise; in no
  case is a byte outside the window changed or undefined behaviour reached.
\<close>

theorem pb_encode_refines_reference:
  assumes "\<And>p. wf_fields (fields_at env p)" and "wf_fields fs"
    and "\<And>f field a. implements (user_encode env f field a) (cb f field a)"
    and "\<And>f e. implements (ext_encode env f e) (ext f e)"
  shows "implements (pb_encode n env fs a) (spec_message n env cb ext fs a)"
  using assms by (intro pb_encode_implements)

theorem pb_encode_refines_reference_witness:
  "implements (pb_encode 2 example_env example_fields 0x1000) (Emit [0x08, 0x96, 0x01, 0x12, 0x02, 0x68, 0x69])"
  using pb_encode_refines_reference [of example_env example_fields "\<lambda>_ _ _. Emit []" "\<lambda>_ _. Emit []" 2 "0x1000"]
    example_hyps by (simp add: example_encoding del: spec_message.simps)

text \<open>
  C2: encoding into a caller's array. When the reference encoding fits in \<open>bufsize\<close> bytes,
  \<open>pb_encode\<close> on \<open>pb_ostream_from_buffer(buf, bufsize)\<close> succeeds, the array starts with the
  encoding and is unchanged behind it, and \<open>bytes_written\<close> is the encoding's length.
\<close>

theorem pb_encode_into_buffer:
  assumes "\<And>p. wf_fields (fields_at env p)" and "wf_fields fs"
    and "\<And>f field a. implements (user_encode env f field a) (cb f field a)"
    and "\<And>f e. implements (ext_encode env f e) (ext f e)"
    and enc: "spec_message n env cb ext fs a = Emit bs"
    and fits: "length bs \<le> unat bufsize" and arr: "unat bufsize \<le> length buf" and sz: "unat bufsize < 2 ^ 63"
  shows "\<exists>s'. pb_encode n env fs a (pb_ostream_from_buffer buf bufsize) w = (Some (), s', w)
    \<and> o_buf s' = bs @ drop (length bs) buf \<and> unat (bytes_written s') = length bs \<and> o_errmsg s' = None"
proof -
  let ?s = "pb_ostream_from_buffer buf bufsize"
  have ok: "out_ok ?s" using arr sz by (simp add: out_ok_def pb_ostream_from_buffer_def out_limit_def)
  have rm: "room ?s (length bs)" using fits by (simp add: room_def pb_ostream_from_buffer_def)
  have cb: "o_callback ?s \<noteq> OCb_NULL" by (simp add: pb_ostream_from_buffer_def)
  have "pb_encode n env fs a ?s w = (Some (), put bs ?s, w)"
    using pb_encode_implements [OF assms(1,3,4,2), of n a] ok rm by (simp add: implements_def enc)
  moreover have "unat (bytes_written (put bs ?s)) = length bs"
    using room_add(1) [OF ok cb rm] by (simp add: put_def pb_ostream_from_buffer_def)
  ultimately show ?thesis by (auto simp: put_def pb_ostream_from_buffer_def)
qed

theorem pb_encode_into_buffer_witness:
  "\<exists>s'. pb_encode 2 example_env example_fields 0x1000 (pb_ostream_from_buffer [0xAA, 0xAA, 0xAA, 0xAA, 0xAA, 0xAA, 0xAA, 0xAA, 0xAA] 8) 0 = (Some (), s', 0)
     \<and> o_buf s' = [0x08, 0x96, 0x01, 0x12, 0x02, 0x68, 0x69] @ [0xAA, 0xAA]
     \<and> unat (bytes_written s') = length [0x08, 0x96, 0x01, 0x12, 0x02, 0x68, 0x69 :: u8] \<and> o_errmsg s' = None"
  using pb_encode_into_buffer [of example_env example_fields "\<lambda>_ _ _. Emit []" "\<lambda>_ _. Emit []" 2 "0x1000"
      "[0x08, 0x96, 0x01, 0x12, 0x02, 0x68, 0x69]" 8 "[0xAA, 0xAA, 0xAA, 0xAA, 0xAA, 0xAA, 0xAA, 0xAA, 0xAA]" 0]
    example_hyps by (simp add: example_encoding del: spec_message.simps pb_encode.simps)

text \<open>
  \<open>pb_get_encoded_size\<close> returns the number of bytes \<open>pb_encode\<close> writes, and a buffer of that
  size is enough.
\<close>

theorem pb_get_encoded_size_exact:
  assumes "\<And>p. wf_fields (fields_at env p)" and "wf_fields fs"
    and "\<And>f field a. implements (user_encode env f field a) (cb f field a)"
    and "\<And>f e. implements (ext_encode env f e) (ext f e)"
    and enc: "spec_message n env cb ext fs a = Emit bs"
  shows "pb_get_encoded_size n env fs a w = (Some (of_nat (length bs)), w)"
proof -
  have "out_ok PB_OSTREAM_SIZING" "room PB_OSTREAM_SIZING (length bs)"
    by (simp_all add: out_ok_def room_def PB_OSTREAM_SIZING_def)
  then have "pb_encode n env fs a PB_OSTREAM_SIZING w = (Some (), put bs PB_OSTREAM_SIZING, w)"
    using pb_encode_implements [OF assms(1,3,4,2), of n a] by (simp add: implements_def enc)
  then show ?thesis by (simp add: pb_get_encoded_size_def put_def PB_OSTREAM_SIZING_def)
qed

theorem pb_get_encoded_size_exact_witness:
  "pb_get_encoded_size 2 example_env example_fields 0x1000 0 = (Some 7, 0)"
  using pb_get_encoded_size_exact [of example_env example_fields "\<lambda>_ _ _. Emit []" "\<lambda>_ _. Emit []" 2 "0x1000"
      "[0x08, 0x96, 0x01, 0x12, 0x02, 0x68, 0x69]" 0]
    example_hyps by (simp add: example_encoding del: spec_message.simps)

section \<open>The primitive formats\<close>

text \<open>
  A varint of any 64-bit value has between one and ten bytes, so the local
  \<open>buffer[10]\<close> of \<open>pb_encode_varint\<close> is never overrun.
\<close>

theorem varint_buffer_bounds: "1 \<le> length (varint_buffer v) \<and> length (varint_buffer v) \<le> 10"
  using length_varint_buffer [of v] varint_buffer_ne [of v] by (simp add: Suc_le_eq)

text \<open>
  C3: \<open>pb_decode_varint\<close> reads back what \<open>pb_encode_varint\<close> wrote, for every 64-bit value, on
  every buffer stream that stands at the encoding, and consumes exactly those bytes.
\<close>

theorem varint_roundtrip:
  assumes "at_bytes s (varint_buffer v)"
  shows "pb_decode_varint env s w = (Some v, adv (length (varint_buffer v)) s, w)"
  using assms by (rule pb_decode_varint_enc)

theorem varint_roundtrip_witness:
  "pb_decode_varint example_denv (example_stream (varint_buffer 300 @ [7])) example_state =
     (Some 300, adv (length (varint_buffer 300)) (example_stream (varint_buffer 300 @ [7])), example_state)"
  by (rule varint_roundtrip) (simp add: example_at)

text \<open>
  C4: zigzag varints round-trip for every signed 64-bit value, through a buffer that holds the
  encoding followed by anything.
\<close>

theorem svarint_roundtrip:
  assumes "length (varint_buffer (zigzag v) @ rest) < 2 ^ 64"
  shows "on_buffer (pb_decode_svarint env) w (varint_buffer (zigzag v) @ rest) = Some (v, rest)"
  using assms by (intro svarint.dec_enc) simp_all

theorem svarint_roundtrip_witness:
  "on_buffer (pb_decode_svarint example_denv) example_state (varint_buffer (zigzag (- 2)) @ [5]) = Some (- 2, [5])"
  by (rule svarint_roundtrip) (simp add: zigzag_def varint_buffer_def)

text \<open>
  On the encoding of a value below \<open>2\<^sup>3\<^sup>2\<close> the 32-bit reader, used for tags, lengths and
  booleans, agrees with the 64-bit one and reports no end of input.
\<close>

theorem varint32_agrees:
  assumes "at_bytes s (varint_buffer v)" and "unat v < 2 ^ 32"
  shows "pb_decode_varint32_eof env False s w = (False, (Some (ucast v), adv (length (varint_buffer v)) s, w))
     \<and> snd (snd (pb_decode_varint32_eof env False s w)) = snd (pb_decode_varint env s w)"
  using assms by (simp add: pb_decode_varint32_eof_enc pb_decode_varint_enc)

theorem varint32_agrees_witness:
  "pb_decode_varint32_eof example_denv False (example_stream (varint_buffer 300)) example_state =
     (False, (Some 300, adv (length (varint_buffer 300)) (example_stream (varint_buffer 300)), example_state))"
proof -
  have "at_bytes (example_stream (varint_buffer 300)) (varint_buffer 300)" by (simp add: example_at)
  from varint32_agrees [OF this, of example_denv example_state] show ?thesis by simp
qed

text \<open>
  The four and eight byte little-endian formats round-trip for every value.
\<close>

theorem fixed_roundtrip:
  assumes "length rest < 2 ^ 63"
  shows "on_buffer (pb_decode_fixed32 env) w (fixed32_bytes v @ rest) = Some (v, rest)
     \<and> on_buffer (pb_decode_fixed64 env) w (fixed64_bytes u @ rest) = Some (u, rest)"
proof -
  have "length (fixed32_bytes v @ rest) < 2 ^ 64" "length (fixed64_bytes u @ rest) < 2 ^ 64"
    using assms by (simp_all add: fixed32_bytes_le fixed64_bytes_le)
  then show ?thesis using fixed32.dec_enc [of v rest env w] fixed64.dec_enc [of u rest env w] by simp
qed

theorem fixed_roundtrip_witness:
  "on_buffer (pb_decode_fixed32 example_denv) example_state (fixed32_bytes 0xDEADBEEF @ []) = Some (0xDEADBEEF, [])"
  using fixed_roundtrip [of "[]" example_denv example_state "0xDEADBEEF" 0] by simp

text \<open>
  Field headers. For a field number of 29 bits and one of the wire types in use,
  \<open>pb_decode_tag\<close> returns the wire type and the field number \<open>pb_encode_tag\<close> was given, and does
  not report the end of the input.
\<close>

theorem tag_roundtrip:
  assumes "valid_tag (wt, tag)" and "at_bytes s (varint_buffer (tag_word wt tag))"
  shows "pb_decode_tag env s w = (False, (Some (wt, tag), adv (length (varint_buffer (tag_word wt tag))) s, w))"
  using assms by (rule pb_decode_tag_enc)

theorem tag_roundtrip_witness:
  "pb_decode_tag example_denv (example_stream (varint_buffer (tag_word PB_WT_32BIT 100))) example_state =
     (False, (Some (PB_WT_32BIT, 100), adv (length (varint_buffer (tag_word PB_WT_32BIT 100)))
        (example_stream (varint_buffer (tag_word PB_WT_32BIT 100))), example_state))"
  by (rule tag_roundtrip) (simp_all add: example_at tag_word_def)

text \<open>
  A packed array's contents. The concatenated varints of any list of values are read back
  item by item, and the bytes behind them are left.
\<close>

theorem packed_varints_roundtrip:
  assumes "length (concat (map varint_buffer vs) @ rest) < 2 ^ 64"
  shows "dec_items (on_buffer (pb_decode_varint env) w) (length vs) (concat (map varint_buffer vs) @ rest) = Some (vs, rest)"
  using assms by (intro varint.items_roundtrip) simp_all

theorem packed_varints_roundtrip_witness:
  "dec_items (on_buffer (pb_decode_varint example_denv) example_state) (length [1, 300 :: u64])
     (concat (map varint_buffer [1, 300]) @ [9]) = Some ([1, 300], [9])"
  by (rule packed_varints_roundtrip) (simp add: varint_buffer_def varint_loop.simps)

text \<open>
  Field headers are unambiguous: of two byte strings that start with a header, equal
  strings have equal headers, and equal remainders.
\<close>

theorem tags_prefix_free:
  assumes "valid_tag (wt, tag)" and "valid_tag (wt', tag')"
    and "varint_buffer (tag_word wt tag) @ r = varint_buffer (tag_word wt' tag') @ r'"
    and "length (varint_buffer (tag_word wt tag) @ r) < 2 ^ 64"
  shows "wt = wt' \<and> tag = tag' \<and> r = r'"
  using tag.prefix_free [of "(wt, tag)" "(wt', tag')" r r'] assms by simp

theorem tags_prefix_free_witness:
  "PB_WT_STRING = PB_WT_STRING \<and> (1 :: u32) = 1 \<and> [3 :: u8] = [3]"
  by (rule tags_prefix_free) (simp_all add: varint_buffer_def tag_word_def)

end
