(* ===== verification/Pb_Decode.thy ===== *)
theory Pb_Decode
  imports Pb_Istream Pb_Encode
begin

text \<open>
  nanopb's message decoder (the second half of \<open>pb_decode.c\<close>): the field decoders, static,
  pointer and callback fields, extensions, default values, the message loop and the release
  of what a message owns.

  The C allocator is modelled by its list of live blocks: \<open>realloc\<close> asks \<open>pick_addr\<close> for an
  address for the new block (\<open>None\<close> is \<open>NULL\<close>), copies the old contents and retires the old
  block; \<open>free\<close> and \<open>realloc\<close> of an address that is not a live block are undefined.
  \<open>void\<close> functions return the state, or why they did not return.
  Messages nest, and extensions form linked lists in memory, so the recursion is on fuel.
\<close>

section \<open>Allocator and void functions\<close>

datatype fault = No_fault | Invalid_free | Out_of_fuel

type_synonym vres = "(unit, fault, cstate) cres"

definition vdone :: "cstate \<Rightarrow> vres" where
  "vdone w = (Some (), No_fault, w)"

definition vfault :: "fault \<Rightarrow> cstate \<Rightarrow> vres" where
  "vfault f w = (None, f, w)"

text \<open>A void call made by a function that has a stream. Having run out of fuel before stays visible.\<close>

definition after_void :: "vres \<Rightarrow> pb_istream \<Rightarrow> (pb_istream \<Rightarrow> cstate \<Rightarrow> 'a dres) \<Rightarrow> 'a dres" where
  "after_void r s k =
     (case r of
        (Some _, _, w) \<Rightarrow> k s w
      | (None, f, w) \<Rightarrow>
          (None, if i_errmsg s = Some ''out of fuel'' then s
                 else s\<lparr>i_errmsg := Some (if f = Out_of_fuel then ''out of fuel'' else ''undefined behaviour'')\<rparr>, w))"

definition i_out_of_fuel :: "pb_istream \<Rightarrow> cstate \<Rightarrow> 'a dres" where
  "i_out_of_fuel s w = (None, s\<lparr>i_errmsg := Some ''out of fuel''\<rparr>, w)"

definition upd :: "(mem \<Rightarrow> mem) \<Rightarrow> cstate \<Rightarrow> cstate" where
  "upd f w = w\<lparr>cmem := f (cmem w)\<rparr>"

definition live :: "cstate \<Rightarrow> addr \<Rightarrow> bool" where
  "live w p \<longleftrightarrow> p \<in> fst ` set (heap w)"

definition c_realloc :: "pb_dec_env \<Rightarrow> addr \<Rightarrow> u64 \<Rightarrow> cstate \<Rightarrow> (addr \<times> cstate) option" where
  "c_realloc env p sz w =
     (if p \<noteq> 0 \<and> \<not> live w p then None
      else
        (let others = filter (\<lambda>(b, n). b \<noteq> p) (heap w);
             old = (case map_of (heap w) p of None \<Rightarrow> 0 | Some n \<Rightarrow> n)
         in case pick_addr env others sz of
              None \<Rightarrow> Some (0, w)
            | Some a \<Rightarrow> Some (a, w\<lparr>heap := (a, sz) # others,
                 cmem := store_bytes (cmem w) a (load_bytes (cmem w) p (unat (min old sz)))\<rparr>)))"

definition c_free :: "addr \<Rightarrow> cstate \<Rightarrow> vres" where
  "c_free p w =
     (if p = 0 then vdone w
      else if live w p then vdone (w\<lparr>heap := filter (\<lambda>(b, n). b \<noteq> p) (heap w)\<rparr>)
      else vfault Invalid_free w)"

definition allocate_field :: "pb_dec_env \<Rightarrow> addr \<Rightarrow> u64 \<Rightarrow> u64 \<Rightarrow> pb_istream \<Rightarrow> cstate \<Rightarrow> unit dres" where
  "allocate_field env d sz count s w =
     (if sz = 0 \<or> count = 0 then i_error ''invalid size'' s w
      else if (2 ^ 32 \<le> sz \<or> 2 ^ 32 \<le> count) \<and> (- 1) div count < sz
      then i_error ''size too large'' s w
      else case c_realloc env (load64 (cmem w) d) (count * sz) w of
             None \<Rightarrow> i_undefined s w
           | Some (p, w') \<Rightarrow>
               if p = 0 then i_error ''realloc failed'' s w'
               else (Some (), s, upd (\<lambda>m. store64 m d p) w'))"

section \<open>Counts and has-flags\<close>

definition size_load :: "cstate \<Rightarrow> psize \<Rightarrow> u32" where
  "size_load w z = (case z of SizeAt a \<Rightarrow> load32 (cmem w) a | SizeLocal \<Rightarrow> fixed_count_size w)"

definition size_store :: "psize \<Rightarrow> u32 \<Rightarrow> cstate \<Rightarrow> cstate" where
  "size_store z v w = (case z of SizeAt a \<Rightarrow> upd (\<lambda>m. store32 m a v) w | SizeLocal \<Rightarrow> w\<lparr>fixed_count_size := v\<rparr>)"

definition flag_store :: "psize \<Rightarrow> bool \<Rightarrow> cstate \<Rightarrow> cstate" where
  "flag_store z b w =
     (let v :: u8 = (if b then 1 else 0) in
      case z of
        SizeAt a \<Rightarrow> upd (\<lambda>m. m(a := v)) w
      | SizeLocal \<Rightarrow> w\<lparr>fixed_count_size := (fixed_count_size w AND 0xFFFFFF00) OR ucast v\<rparr>)"

definition zero_bytes :: "addr \<Rightarrow> u32 \<Rightarrow> cstate \<Rightarrow> cstate" where
  "zero_bytes a n w = upd (\<lambda>m. store_bytes m a (replicate (unat n) 0)) w"

section \<open>Default values\<close>

definition iter_from_extension :: "pb_dec_env \<Rightarrow> addr \<Rightarrow> cstate \<Rightarrow> pb_field_iter" where
  "iter_from_extension env ext w =
     (let m = cmem w;
          fs = d_fields_at env (load64 m (load64 m ext + 16));
          it = snd (pb_field_iter_begin fs (load64 m (ext + 8)))
      in it\<lparr>pData := (if atype (field_at fs 0) = PB_ATYPE_POINTER then ext + 8 else load64 m (ext + 8)),
            pSize := SizeAt (ext + 24)\<rparr>)"

fun ext_list_loop :: "nat \<Rightarrow> (addr \<Rightarrow> cstate \<Rightarrow> vres) \<Rightarrow> addr \<Rightarrow> cstate \<Rightarrow> vres" where
  "ext_list_loop n body ext w =
     (if ext = 0 then vdone w
      else case n of
        0 \<Rightarrow> vfault Out_of_fuel w
      | Suc k \<Rightarrow> andthen (body ext w) (\<lambda>_ _ w. ext_list_loop k body (load64 (cmem w) (ext + 16)) w))"

declare ext_list_loop.simps [simp del]

definition set_message_defaults :: "(pb_field_iter \<Rightarrow> cstate \<Rightarrow> vres) \<Rightarrow> pb_field list \<Rightarrow> addr \<Rightarrow> cstate \<Rightarrow> vres" where
  "set_message_defaults field_default fs d w =
     (case pb_field_iter_begin fs d of
        (nonempty, it) \<Rightarrow> if nonempty then fields_loop (\<lambda>it _ w. field_default it w) it No_fault w else vdone w)"

definition set_static_default :: "pb_dec_env \<Rightarrow> (pb_field_iter \<Rightarrow> cstate \<Rightarrow> vres) \<Rightarrow> pb_field_iter \<Rightarrow> cstate \<Rightarrow> vres" where
  "set_static_default env field_default it w =
     (let f = it_field it;
          init_data = (\<lambda>w. if ltype f = PB_LTYPE_SUBMESSAGE
             then set_message_defaults field_default (d_fields_at env (field_ptr f)) (pData it) w
             else if field_ptr f \<noteq> 0
             then vdone (upd (\<lambda>m. store_bytes m (pData it) (load_bytes m (field_ptr f) (unat (data_size f)))) w)
             else vdone (zero_bytes (pData it) (data_size f) w))
      in if htype f = PB_HTYPE_OPTIONAL \<and> pSize it \<noteq> SizeAt (pData it)
         then init_data (flag_store (pSize it) False w)
         else if htype f = PB_HTYPE_REPEATED \<or> htype f = PB_HTYPE_ONEOF
         then vdone (size_store (pSize it) 0 w)
         else init_data w)"

definition set_pointer_default :: "pb_field_iter \<Rightarrow> cstate \<Rightarrow> vres" where
  "set_pointer_default it w =
     (let w' = upd (\<lambda>m. store64 m (pData it) 0) w in
      if htype (it_field it) = PB_HTYPE_REPEATED \<or> htype (it_field it) = PB_HTYPE_ONEOF
      then vdone (size_store (pSize it) 0 w')
      else vdone w')"

fun pb_field_set_to_default :: "nat \<Rightarrow> pb_dec_env \<Rightarrow> pb_field_iter \<Rightarrow> cstate \<Rightarrow> vres" where
  "pb_field_set_to_default 0 env it w = vfault Out_of_fuel w"
| "pb_field_set_to_default (Suc n) env it w =
     (let f = it_field it in
      if ltype f = PB_LTYPE_EXTENSION then
        ext_list_loop n
          (\<lambda>ext w. let w' = upd (\<lambda>m. m(ext + 24 := 0)) w
                   in pb_field_set_to_default n env (iter_from_extension env ext w') w')
          (load64 (cmem w) (pData it)) w
      else if atype f = PB_ATYPE_STATIC then set_static_default env (pb_field_set_to_default n env) it w
      else if atype f = PB_ATYPE_POINTER then set_pointer_default it w
      else vdone w)"

definition pb_message_set_to_defaults :: "nat \<Rightarrow> pb_dec_env \<Rightarrow> pb_field list \<Rightarrow> addr \<Rightarrow> cstate \<Rightarrow> vres" where
  "pb_message_set_to_defaults n env fs d w = set_message_defaults (pb_field_set_to_default n env) fs d w"

section \<open>Releasing what a message owns\<close>

definition release_message :: "(pb_field_iter \<Rightarrow> cstate \<Rightarrow> vres) \<Rightarrow> pb_field list \<Rightarrow> addr \<Rightarrow> cstate \<Rightarrow> vres" where
  "release_message release_field fs d w =
     (if d = 0 then vdone w
      else case pb_field_iter_begin fs d of
        (nonempty, it) \<Rightarrow> if nonempty then fields_loop (\<lambda>it _ w. release_field it w) it No_fault w else vdone w)"

fun release_items :: "(addr \<Rightarrow> cstate \<Rightarrow> vres) \<Rightarrow> u64 \<Rightarrow> nat \<Rightarrow> addr \<Rightarrow> cstate \<Rightarrow> vres" where
  "release_items release step 0 p w = vdone w"
| "release_items release step (Suc k) p w =
     andthen (release p w) (\<lambda>_ _ w. release_items release step k (p + step) w)"

definition free_entry :: "addr \<Rightarrow> cstate \<Rightarrow> vres" where
  "free_entry p w = andthen (c_free (load64 (cmem w) p) w) (\<lambda>_ _ w. vdone (upd (\<lambda>m. store64 m p 0) w))"

definition release_submessages :: "pb_dec_env \<Rightarrow> (pb_field_iter \<Rightarrow> cstate \<Rightarrow> vres) \<Rightarrow> pb_field_iter \<Rightarrow> cstate \<Rightarrow> vres" where
  "release_submessages env release_field it w =
     (let f = it_field it;
          p = (if atype f = PB_ATYPE_POINTER then load64 (cmem w) (pData it) else pData it);
          count0 = (if atype f = PB_ATYPE_STATIC \<and> pSize it = SizeAt (pData it) then array_size f
                    else size_load w (pSize it));
          count = (if htype f \<noteq> PB_HTYPE_REPEATED then 1
                   else if atype f = PB_ATYPE_STATIC \<and> array_size f < count0 then array_size f
                   else count0)
      in if p \<noteq> 0
         then release_items (release_message release_field (d_fields_at env (field_ptr f)))
                (ucast (data_size f)) (unat count) p w
         else vdone w)"

definition release_pointer :: "pb_field_iter \<Rightarrow> cstate \<Rightarrow> vres" where
  "release_pointer it w =
     (let f = it_field it in
      andthen (if htype f = PB_HTYPE_REPEATED \<and> (ltype f = PB_LTYPE_STRING \<or> ltype f = PB_LTYPE_BYTES)
               then release_items free_entry 8 (unat (size_load w (pSize it))) (load64 (cmem w) (pData it)) w
               else vdone w) (\<lambda>_ _ w.
      free_entry (pData it) (if htype f = PB_HTYPE_REPEATED then size_store (pSize it) 0 w else w)))"

fun pb_release_single_field :: "nat \<Rightarrow> pb_dec_env \<Rightarrow> pb_field_iter \<Rightarrow> cstate \<Rightarrow> vres" where
  "pb_release_single_field 0 env it w = vfault Out_of_fuel w"
| "pb_release_single_field (Suc n) env it w =
     (let f = it_field it in
      if htype f = PB_HTYPE_ONEOF \<and> size_load w (pSize it) \<noteq> field_tag f then vdone w
      else
        andthen
          (if ltype f = PB_LTYPE_EXTENSION then
             ext_list_loop n (\<lambda>ext w. pb_release_single_field n env (iter_from_extension env ext w) w)
               (load64 (cmem w) (pData it)) w
           else if ltype f = PB_LTYPE_SUBMESSAGE \<and> atype f \<noteq> PB_ATYPE_CALLBACK
           then release_submessages env (pb_release_single_field n env) it w
           else vdone w)
          (\<lambda>_ _ w. if atype f = PB_ATYPE_POINTER then release_pointer it w else vdone w))"

definition pb_release :: "nat \<Rightarrow> pb_dec_env \<Rightarrow> pb_field list \<Rightarrow> addr \<Rightarrow> cstate \<Rightarrow> vres" where
  "pb_release n env fs d w = release_message (pb_release_single_field n env) fs d w"

definition pb_release_union_field :: "nat \<Rightarrow> pb_dec_env \<Rightarrow> pb_field_iter \<Rightarrow> pb_istream \<Rightarrow> cstate \<Rightarrow> pb_field_iter dres" where
  "pb_release_union_field n env it s w =
     (let old_tag = size_load w (pSize it); new_tag = field_tag (it_field it) in
      if old_tag = 0 \<or> old_tag = new_tag then (Some it, s, w)
      else case pb_field_iter_find it old_tag of
        (False, _) \<Rightarrow> i_error ''invalid union tag'' s w
      | (True, it1) \<Rightarrow>
          after_void (pb_release_single_field n env it1 w) s (\<lambda>s w.
            case pb_field_iter_find it1 new_tag of
              (False, _) \<Rightarrow> i_error ''iterator error'' s w
            | (True, it2) \<Rightarrow>
                (Some it2, s, if atype (it_field it2) = PB_ATYPE_POINTER
                              then upd (\<lambda>m. store64 m (pData it2) 0) w else w)))"

section \<open>Field decoders\<close>

type_synonym decoder = "pb_field \<Rightarrow> addr \<Rightarrow> pb_istream \<Rightarrow> cstate \<Rightarrow> unit dres"
type_synonym msg_decoder = "pb_field list \<Rightarrow> addr \<Rightarrow> pb_istream \<Rightarrow> cstate \<Rightarrow> unit dres"

definition pb_dec_bool :: "pb_dec_env \<Rightarrow> decoder" where
  "pb_dec_bool env field dest s w =
     andthen (pb_decode_varint32 env s w) (\<lambda>value s w.
       (Some (), s, upd (\<lambda>m. m(dest := (if value \<noteq> 0 then 1 else 0))) w))"

definition pb_decode_bool :: "pb_dec_env \<Rightarrow> addr \<Rightarrow> pb_istream \<Rightarrow> cstate \<Rightarrow> unit dres" where
  "pb_decode_bool env dest s w = pb_dec_bool env PB_LAST_FIELD dest s w"

text \<open>
  \<open>clamped = *(intN_t*)dest = (intN_t)value\<close>, with \<open>N\<close> from \<open>data_size\<close>: the low bytes are
  stored, and \<open>clamped\<close> is what they stand for.
\<close>

definition store_clamped :: "(u64 \<Rightarrow> u64) \<Rightarrow> (u64 \<Rightarrow> u64) \<Rightarrow> (u64 \<Rightarrow> u64) \<Rightarrow> u32 \<Rightarrow> addr \<Rightarrow> u64 \<Rightarrow> pb_istream \<Rightarrow> cstate \<Rightarrow> unit dres" where
  "store_clamped c32 c16 c8 sz dest value s w =
     (let put = (\<lambda>n clamped. let w' = upd (\<lambda>m. store_bytes m dest (le_bytes n value)) w in
            if clamped \<noteq> value then i_error ''integer too large'' s w' else (Some (), s, w'))
      in if sz = 8 then put 8 value
         else if sz = 4 then put 4 (c32 value)
         else if sz = 2 then put 2 (c16 value)
         else if sz = 1 then put 1 (c8 value)
         else i_error ''invalid data_size'' s w)"

definition store_signed :: "u32 \<Rightarrow> addr \<Rightarrow> u64 \<Rightarrow> pb_istream \<Rightarrow> cstate \<Rightarrow> unit dres" where
  "store_signed = store_clamped (\<lambda>v. scast (ucast v :: u32)) (\<lambda>v. scast (ucast v :: u16)) (\<lambda>v. scast (ucast v :: u8))"

definition store_unsigned :: "u32 \<Rightarrow> addr \<Rightarrow> u64 \<Rightarrow> pb_istream \<Rightarrow> cstate \<Rightarrow> unit dres" where
  "store_unsigned = store_clamped (\<lambda>v. ucast (ucast v :: u32)) (\<lambda>v. ucast (ucast v :: u16)) (\<lambda>v. ucast (ucast v :: u8))"

definition pb_dec_varint :: "pb_dec_env \<Rightarrow> decoder" where
  "pb_dec_varint env field dest s w =
     andthen (pb_decode_varint env s w) (\<lambda>value s w.
       let svalue = (if data_size field = 8 then value else scast (ucast value :: u32))
       in store_signed (data_size field) dest svalue s w)"

definition pb_dec_uvarint :: "pb_dec_env \<Rightarrow> decoder" where
  "pb_dec_uvarint env field dest s w =
     andthen (pb_decode_varint env s w) (\<lambda>value s w. store_unsigned (data_size field) dest value s w)"

definition pb_dec_svarint :: "pb_dec_env \<Rightarrow> decoder" where
  "pb_dec_svarint env field dest s w =
     andthen (pb_decode_svarint env s w) (\<lambda>value s w. store_signed (data_size field) dest value s w)"

definition pb_dec_fixed32 :: "pb_dec_env \<Rightarrow> decoder" where
  "pb_dec_fixed32 env field dest s w =
     andthen (pb_decode_fixed32 env s w) (\<lambda>value s w. (Some (), s, upd (\<lambda>m. store32 m dest value) w))"

definition pb_dec_fixed64 :: "pb_dec_env \<Rightarrow> decoder" where
  "pb_dec_fixed64 env field dest s w =
     andthen (pb_decode_fixed64 env s w) (\<lambda>value s w. (Some (), s, upd (\<lambda>m. store64 m dest value) w))"

definition pb_dec_bytes :: "pb_dec_env \<Rightarrow> decoder" where
  "pb_dec_bytes env field dest s w =
     andthen (pb_decode_varint32 env s w) (\<lambda>size s w.
       let alloc_size :: u64 = ucast size + 4;
           read = (\<lambda>bdest s w.
             andthen (pb_read env False (ucast size) s (upd (\<lambda>m. store32 m bdest size) w)) (\<lambda>bs s w.
               (Some (), s, upd (\<lambda>m. store_bytes m (bdest + 4) bs) w)))
       in if alloc_size < ucast size then i_error ''size too large'' s w
          else if atype field = PB_ATYPE_POINTER then
            if bytes_left s < ucast size then i_error ''end-of-stream'' s w
            else andthen (allocate_field env dest alloc_size 1 s w) (\<lambda>_ s w. read (load64 (cmem w) dest) s w)
          else if ucast (data_size field) < alloc_size then i_error ''bytes overflow'' s w
          else read dest s w)"

text \<open>\<open>size + 1\<close> is computed in 32 bits before it is widened. The terminator is written even when the read fails.\<close>

definition pb_dec_string :: "pb_dec_env \<Rightarrow> decoder" where
  "pb_dec_string env field dest s w =
     andthen (pb_decode_varint32 env s w) (\<lambda>size s w.
       let alloc_size :: u64 = ucast (size + 1);
           read = (\<lambda>dest s w.
             case pb_read env False (ucast size) s w of
               (None, s, w) \<Rightarrow> (None, s, upd (\<lambda>m. m(dest + ucast size := 0)) w)
             | (Some bs, s, w) \<Rightarrow>
                 (Some (), s, upd (\<lambda>m. (store_bytes m dest bs)(dest + ucast size := 0)) w))
       in if alloc_size < ucast size then i_error ''size too large'' s w
          else if atype field = PB_ATYPE_POINTER then
            if bytes_left s < ucast size then i_error ''end-of-stream'' s w
            else andthen (allocate_field env dest alloc_size 1 s w) (\<lambda>_ s w. read (load64 (cmem w) dest) s w)
          else if ucast (data_size field) < alloc_size then i_error ''string overflow'' s w
          else read dest s w)"

definition pb_dec_fixed_length_bytes :: "pb_dec_env \<Rightarrow> decoder" where
  "pb_dec_fixed_length_bytes env field dest s w =
     andthen (pb_decode_varint32 env s w) (\<lambda>size s w.
       if size = 0 then (Some (), s, zero_bytes dest (data_size field) w)
       else if size \<noteq> data_size field then i_error ''incorrect fixed length bytes size'' s w
       else andthen (pb_read env False (ucast (data_size field)) s w) (\<lambda>bs s w.
              (Some (), s, upd (\<lambda>m. store_bytes m dest bs) w)))"

text \<open>
  \<open>noinit\<close> is \<open>pb_decode_noinit\<close>, one level of nesting down. A message decoded with
  \<open>pb_decode\<close> is set to its defaults first and released when decoding fails.
\<close>

definition decode_message :: "nat \<Rightarrow> pb_dec_env \<Rightarrow> msg_decoder \<Rightarrow> msg_decoder" where
  "decode_message n env noinit fs d s w =
     after_void (pb_message_set_to_defaults n env fs d w) s (\<lambda>s w.
       case noinit fs d s w of
         (None, s, w) \<Rightarrow> after_void (pb_release n env fs d w) s (\<lambda>s w. (None, s, w))
       | (Some _, s, w) \<Rightarrow> (Some (), s, w))"

definition in_substream :: "pb_dec_env \<Rightarrow> (pb_istream \<Rightarrow> cstate \<Rightarrow> unit dres) \<Rightarrow> pb_istream \<Rightarrow> cstate \<Rightarrow> unit dres" where
  "in_substream env body s w =
     andthen (pb_make_string_substream env s w) (\<lambda>sub s w.
       case body sub w of
         (status, sub, w) \<Rightarrow>
           andthen (pb_close_string_substream env sub s w) (\<lambda>_ s w. (status, s, w)))"

definition pb_dec_submessage :: "nat \<Rightarrow> pb_dec_env \<Rightarrow> msg_decoder \<Rightarrow> decoder" where
  "pb_dec_submessage n env noinit field dest s w =
     (let submsg_fields = d_fields_at env (field_ptr field) in
      if field_ptr field = 0 then
        andthen (pb_make_string_substream env s w) (\<lambda>_ s w. i_error ''invalid field descriptor'' s w)
      else in_substream env
        (if htype field = PB_HTYPE_REPEATED then decode_message n env noinit submsg_fields dest
         else noinit submsg_fields dest) s w)"

definition PB_DECODERS :: "nat \<Rightarrow> pb_dec_env \<Rightarrow> msg_decoder \<Rightarrow> u8 \<Rightarrow> decoder" where
  "PB_DECODERS n env noinit t =
     (if t = 0 then pb_dec_bool env
      else if t = 1 then pb_dec_varint env
      else if t = 2 then pb_dec_uvarint env
      else if t = 3 then pb_dec_svarint env
      else if t = 4 then pb_dec_fixed32 env
      else if t = 5 then pb_dec_fixed64 env
      else if t = 6 then pb_dec_bytes env
      else if t = 7 then pb_dec_string env
      else if t = 8 then pb_dec_submessage n env noinit
      else if t = 10 then pb_dec_fixed_length_bytes env
      else (\<lambda>field dest s w. i_undefined s w))"

section \<open>Static, pointer and callback fields\<close>

text \<open>\<open>pData + data_size * (*size)\<close>: the product of two 32-bit numbers wraps around.\<close>

definition item_addr :: "addr \<Rightarrow> pb_field \<Rightarrow> u32 \<Rightarrow> addr" where
  "item_addr base f i = base + ucast (data_size f * i)"

function packed_static_loop :: "decoder \<Rightarrow> pb_field_iter \<Rightarrow> pb_istream \<Rightarrow> cstate \<Rightarrow> unit dres" where
  "packed_static_loop func it sub w =
     (let f = it_field it; i = size_load w (pSize it) in
      if bytes_left sub = 0 \<or> array_size f \<le> i then (Some (), sub, w)
      else case func f (item_addr (pData it) f i) sub w of
             (None, sub', w') \<Rightarrow> (None, sub', w')
           | (Some _, sub', w') \<Rightarrow>
               (let w'' = size_store (pSize it) (size_load w' (pSize it) + 1) w' in
                if bytes_left sub' < bytes_left sub then packed_static_loop func it sub' w''
                else i_no_progress sub' w''))"
  by pat_completeness auto
termination
  by (relation "measure (\<lambda>(func, it, sub, w). unat (bytes_left sub))") (auto simp: word_less_nat_alt)

declare packed_static_loop.simps [simp del]

definition decode_static_repeated :: "pb_dec_env \<Rightarrow> decoder \<Rightarrow> pb_wire_type \<Rightarrow> pb_field_iter \<Rightarrow> pb_istream \<Rightarrow> cstate \<Rightarrow> unit dres" where
  "decode_static_repeated env func wire_type it s w =
     (let f = it_field it in
      if wire_type = PB_WT_STRING \<and> ltype f \<le> PB_LTYPE_LAST_PACKABLE then
        andthen (pb_make_string_substream env s w) (\<lambda>sub s w.
          case packed_static_loop func it sub w of
            (status, sub, w) \<Rightarrow>
              if bytes_left sub \<noteq> 0 then i_error ''array overflow'' (sticky sub s) w
              else andthen (pb_close_string_substream env sub s w) (\<lambda>_ s w. (status, s, w)))
      else
        (let i = size_load w (pSize it); w' = size_store (pSize it) (i + 1) w in
         if array_size f \<le> i then i_error ''array overflow'' s w'
         else func f (item_addr (pData it) f i) s w'))"

definition decode_static_field :: "nat \<Rightarrow> pb_dec_env \<Rightarrow> msg_decoder \<Rightarrow> pb_wire_type \<Rightarrow> pb_field_iter \<Rightarrow> pb_istream \<Rightarrow> cstate \<Rightarrow> unit dres" where
  "decode_static_field n env noinit wire_type it s w =
     (let f = it_field it; func = PB_DECODERS n env noinit (ltype f) in
      if htype f = PB_HTYPE_REQUIRED then func f (pData it) s w
      else if htype f = PB_HTYPE_OPTIONAL then
        func f (pData it) s (if pSize it \<noteq> SizeAt (pData it) then flag_store (pSize it) True w else w)
      else if htype f = PB_HTYPE_REPEATED then decode_static_repeated env func wire_type it s w
      else
        (let store_tag = size_store (pSize it) (field_tag f) in
         if ltype f = PB_LTYPE_SUBMESSAGE \<and> size_load w (pSize it) \<noteq> field_tag f then
           after_void (pb_message_set_to_defaults n env (d_fields_at env (field_ptr f)) (pData it)
                         (zero_bytes (pData it) (data_size f) w)) s
             (\<lambda>s w. func f (pData it) s (store_tag w))
         else func f (pData it) s (store_tag w)))"

definition initialize_pointer_field :: "nat \<Rightarrow> pb_dec_env \<Rightarrow> addr \<Rightarrow> pb_field \<Rightarrow> cstate \<Rightarrow> vres" where
  "initialize_pointer_field n env p f w =
     (if ltype f = PB_LTYPE_STRING \<or> ltype f = PB_LTYPE_BYTES then vdone (upd (\<lambda>m. store64 m p 0) w)
      else if ltype f = PB_LTYPE_SUBMESSAGE
      then pb_message_set_to_defaults n env (d_fields_at env (field_ptr f)) p (zero_bytes p (data_size f) w)
      else vdone w)"

text \<open>
  The loop over a packed array whose storage grows. The state is the substream and the
  parent stream, whose error message the loop may set; the guess of the remaining entries
  divides by \<open>data_size\<close>.
\<close>

definition grow_array :: "pb_dec_env \<Rightarrow> pb_field_iter \<Rightarrow> u64 \<Rightarrow> pb_istream \<Rightarrow> cstate \<Rightarrow> u64 dres" where
  "grow_array env it allocated sub w =
     (let f = it_field it; ds :: u64 = ucast (data_size f) in
      if ucast (size_load w (pSize it)) + 1 \<le> allocated then (Some allocated, sub, w)
      else if ds = 0 then i_undefined sub w
      else
        (let remain = (bytes_left sub - 1) div ds + 1;
             allocated' = (if remain < ucast PB_SIZE_MAX - allocated then allocated + remain else allocated + 1)
         in andthen (allocate_field env (pData it) ds allocated' sub w) (\<lambda>_ sub w. (Some allocated', sub, w))))"

function packed_pointer_loop :: "nat \<Rightarrow> pb_dec_env \<Rightarrow> decoder \<Rightarrow> pb_field_iter \<Rightarrow> u64 \<Rightarrow> pb_istream \<Rightarrow> pb_istream \<Rightarrow> cstate
    \<Rightarrow> (unit, pb_istream \<times> pb_istream, cstate) cres" where
  "packed_pointer_loop n env func it allocated sub s w =
     (let f = it_field it in
      if bytes_left sub = 0 then (Some (), (sub, s), w)
      else if size_load w (pSize it) = PB_SIZE_MAX
      then (None, (sub, s\<lparr>i_errmsg := Some ''too many array entries''\<rparr>), w)
      else case grow_array env it allocated sub w of
        (None, sub', w') \<Rightarrow> (None, (sub', s), w')
      | (Some allocated', sub', w') \<Rightarrow>
         (let p = item_addr (load64 (cmem w') (pData it)) f (size_load w' (pSize it)) in
          if p = 0 then (None, (sub', s), w')
          else case after_void (initialize_pointer_field n env p f w') sub' (func f p) of
            (None, sub'', w'') \<Rightarrow> (None, (sub'', s), w'')
          | (Some _, sub'', w'') \<Rightarrow>
             (let w3 = size_store (pSize it) (size_load w'' (pSize it) + 1) w'' in
              if bytes_left sub'' < bytes_left sub
              then packed_pointer_loop n env func it allocated' sub'' s w3
              else (None, (sub''\<lparr>i_errmsg := Some ''no progress''\<rparr>, s), w3))))"
  by pat_completeness auto
termination
  by (relation "measure (\<lambda>(n, env, func, it, allocated, sub, s, w). unat (bytes_left sub))") (auto simp: word_less_nat_alt)

declare packed_pointer_loop.simps [simp del]

definition decode_pointer_repeated :: "nat \<Rightarrow> pb_dec_env \<Rightarrow> decoder \<Rightarrow> pb_wire_type \<Rightarrow> pb_field_iter \<Rightarrow> pb_istream \<Rightarrow> cstate \<Rightarrow> unit dres" where
  "decode_pointer_repeated n env func wire_type it s w =
     (let f = it_field it in
      if wire_type = PB_WT_STRING \<and> ltype f \<le> PB_LTYPE_LAST_PACKABLE then
        (let allocated = ucast (size_load w (pSize it)) in
         andthen (pb_make_string_substream env s w) (\<lambda>sub s w.
           case packed_pointer_loop n env func it allocated sub s w of
             (status, (sub, s), w) \<Rightarrow>
               andthen (pb_close_string_substream env sub s w) (\<lambda>_ s w. (status, s, w))))
      else
        (let i = size_load w (pSize it) in
         if i = PB_SIZE_MAX then i_error ''too many array entries'' s w
         else andthen (allocate_field env (pData it) (ucast (data_size f)) (ucast (i + 1)) s w) (\<lambda>_ s w.
           let i = size_load w (pSize it);
               p = item_addr (load64 (cmem w) (pData it)) f i
           in after_void (initialize_pointer_field n env p f (size_store (pSize it) (i + 1) w)) s (func f p))))"

definition decode_pointer_field :: "nat \<Rightarrow> pb_dec_env \<Rightarrow> msg_decoder \<Rightarrow> pb_wire_type \<Rightarrow> pb_field_iter \<Rightarrow> pb_istream \<Rightarrow> cstate \<Rightarrow> unit dres" where
  "decode_pointer_field n env noinit wire_type it s w =
     (let f = it_field it; func = PB_DECODERS n env noinit (ltype f) in
      if htype f = PB_HTYPE_REPEATED then decode_pointer_repeated n env func wire_type it s w
      else
        after_void
          (if ltype f = PB_LTYPE_SUBMESSAGE \<and> load64 (cmem w) (pData it) \<noteq> 0
           then pb_release_single_field n env it w else vdone w) s (\<lambda>s w.
        let w' = (if htype f = PB_HTYPE_ONEOF then size_store (pSize it) (field_tag f) w else w) in
        if ltype f = PB_LTYPE_STRING \<or> ltype f = PB_LTYPE_BYTES then func f (pData it) s w'
        else andthen (allocate_field env (pData it) (ucast (data_size f)) 1 s w') (\<lambda>_ s w.
          let p = load64 (cmem w) (pData it)
          in after_void (initialize_pointer_field n env p f w) s (\<lambda>s w. func f (load64 (cmem w) (pData it)) s w))))"

text \<open>\<open>do { decode(&substream, ...) } while (substream.bytes_left)\<close>\<close>

fun callback_loop :: "nat \<Rightarrow> (pb_istream \<Rightarrow> cstate \<Rightarrow> unit dres) \<Rightarrow> pb_istream \<Rightarrow> cstate \<Rightarrow> unit dres" where
  "callback_loop 0 call sub w = i_out_of_fuel sub w"
| "callback_loop (Suc n) call sub w =
     andthen (call sub w) (\<lambda>_ sub w. if bytes_left sub \<noteq> 0 then callback_loop n call sub w else (Some (), sub, w))"

definition decode_callback_field :: "nat \<Rightarrow> pb_dec_env \<Rightarrow> pb_wire_type \<Rightarrow> pb_field_iter \<Rightarrow> pb_istream \<Rightarrow> cstate \<Rightarrow> unit dres" where
  "decode_callback_field n env wire_type it s w =
     (let f = load64 (cmem w) (pData it); call = user_decode env f (it_field it) (pData it + 8) in
      if pData it = 0 \<or> f = 0 then pb_skip_field env wire_type s w
      else if wire_type = PB_WT_STRING then
        andthen (pb_make_string_substream env s w) (\<lambda>sub s w.
          case callback_loop n call sub w of
            (None, sub, w) \<Rightarrow> i_error ''callback failed'' (sticky sub s) w
          | (Some _, sub, w) \<Rightarrow> pb_close_string_substream env sub s w)
      else
        andthen (read_raw_value env wire_type 10 s w) (\<lambda>buffer s w.
          case call (pb_istream_from_buffer buffer (of_nat (length buffer))) w of
            (status, sub, w) \<Rightarrow> (status, sticky sub s, w)))"

text \<open>\<open>decode_field\<close> may move the iterator, so it returns it.\<close>

definition decode_field :: "nat \<Rightarrow> pb_dec_env \<Rightarrow> msg_decoder \<Rightarrow> pb_wire_type \<Rightarrow> pb_field_iter \<Rightarrow> pb_istream \<Rightarrow> cstate \<Rightarrow> pb_field_iter dres" where
  "decode_field n env noinit wire_type it s w =
     andthen (if htype (it_field it) = PB_HTYPE_ONEOF then pb_release_union_field n env it s w else (Some it, s, w))
       (\<lambda>it s w.
         andthen (if atype (it_field it) = PB_ATYPE_STATIC then decode_static_field n env noinit wire_type it s w
                  else if atype (it_field it) = PB_ATYPE_POINTER then decode_pointer_field n env noinit wire_type it s w
                  else if atype (it_field it) = PB_ATYPE_CALLBACK then decode_callback_field n env wire_type it s w
                  else i_error ''invalid field type'' s w)
           (\<lambda>_ s w. (Some it, s, w)))"

section \<open>Extensions\<close>

definition default_extension_decoder :: "nat \<Rightarrow> pb_dec_env \<Rightarrow> msg_decoder \<Rightarrow> addr \<Rightarrow> u32 \<Rightarrow> pb_wire_type \<Rightarrow> pb_istream \<Rightarrow> cstate \<Rightarrow> unit dres" where
  "default_extension_decoder n env noinit ext tag wire_type s w =
     (let m = cmem w; field = field_at (d_fields_at env (load64 m (load64 m ext + 16))) 0 in
      if field_tag field \<noteq> tag then (Some (), s, w)
      else
        (let it = iter_from_extension env ext w; w' = upd (\<lambda>m. m(ext + 24 := 1)) w in
         andthen (decode_field n env noinit wire_type it s w') (\<lambda>_ s w. (Some (), s, w))))"

fun decode_extension_loop :: "nat \<Rightarrow> pb_dec_env \<Rightarrow> msg_decoder \<Rightarrow> u64 \<Rightarrow> addr \<Rightarrow> u32 \<Rightarrow> pb_wire_type \<Rightarrow> nat \<Rightarrow> pb_istream \<Rightarrow> cstate \<Rightarrow> unit dres" where
  "decode_extension_loop k env noinit pos ext tag wire_type n s w =
     (if ext = 0 \<or> pos \<noteq> bytes_left s then (Some (), s, w)
      else case k of
        0 \<Rightarrow> i_out_of_fuel s w
      | Suc k' \<Rightarrow>
          (let f = load64 (cmem w) (load64 (cmem w) ext) in
           andthen (if f \<noteq> 0 then ext_decode env f ext tag wire_type s w
                    else default_extension_decoder n env noinit ext tag wire_type s w)
             (\<lambda>_ s w. decode_extension_loop k' env noinit pos (load64 (cmem w) (ext + 16)) tag wire_type n s w)))"

declare decode_extension_loop.simps [simp del]

definition decode_extension :: "nat \<Rightarrow> pb_dec_env \<Rightarrow> msg_decoder \<Rightarrow> u32 \<Rightarrow> pb_wire_type \<Rightarrow> pb_field_iter \<Rightarrow> pb_istream \<Rightarrow> cstate \<Rightarrow> unit dres" where
  "decode_extension n env noinit tag wire_type it s w =
     decode_extension_loop n env noinit (bytes_left s) (load64 (cmem w) (pData it)) tag wire_type n s w"

definition find_extension_field :: "pb_field_iter \<Rightarrow> bool \<times> pb_field_iter" where
  "find_extension_field it = find_field (\<lambda>f. ltype f = PB_LTYPE_EXTENSION) it"

section \<open>Messages\<close>

text \<open>The locals of \<open>pb_decode_noinit\<close>; \<open>fixed_count_field\<close> is an index into the descriptor array.\<close>

record dec_locals =
  d_iter :: pb_field_iter
  fields_seen :: "u32 list"
  extension_range_start :: u32
  fixed_count_field :: "nat option"

abbreviation (input) PB_MAX_REQUIRED_FIELDS :: u32 where "PB_MAX_REQUIRED_FIELDS \<equiv> 64"

definition unknown_field :: "nat \<Rightarrow> pb_dec_env \<Rightarrow> msg_decoder \<Rightarrow> u32 \<Rightarrow> pb_wire_type \<Rightarrow> dec_locals \<Rightarrow> pb_istream \<Rightarrow> cstate \<Rightarrow> dec_locals dres" where
  "unknown_field n env noinit tag wire_type l s w =
     (let skip = (\<lambda>l s w. andthen (pb_skip_field env wire_type s w) (\<lambda>_ s w. (Some l, s, w))) in
      if tag < extension_range_start l then skip l s w
      else
        (let (found, it) = find_extension_field (d_iter l);
             start = (if found then field_tag (it_field it) else - 1);
             l' = l\<lparr>d_iter := it, extension_range_start := start\<rparr>
         in if tag < start then skip l' s w
            else
              (let pos = bytes_left s in
               andthen (decode_extension n env noinit tag wire_type it s w) (\<lambda>_ s w.
                 if pos \<noteq> bytes_left s then (Some l', s, w) else skip l' s w))))"

definition fixed_count_ok :: "dec_locals \<Rightarrow> cstate \<Rightarrow> bool" where
  "fixed_count_ok l w =
     (case fixed_count_field l of
        None \<Rightarrow> True
      | Some i \<Rightarrow> fixed_count_size w = array_size (field_at (it_start (d_iter l)) i))"

text \<open>
  A repeated field without a count in the struct keeps its count in the local
  \<open>fixed_count_size\<close>, which \<open>pSize\<close> is redirected to.
\<close>

definition track_fixed_count :: "dec_locals \<Rightarrow> pb_istream \<Rightarrow> cstate \<Rightarrow> dec_locals dres" where
  "track_fixed_count l s w =
     (let it = d_iter l in
      if htype (it_field it) = PB_HTYPE_REPEATED \<and> pSize it = SizeAt (pData it) then
        if fixed_count_field l \<noteq> Some (it_pos it) then
          if \<not> fixed_count_ok l w then i_error ''wrong size for fixed count field'' s w
          else (Some (l\<lparr>fixed_count_field := Some (it_pos it), d_iter := it\<lparr>pSize := SizeLocal\<rparr>\<rparr>), s,
                w\<lparr>fixed_count_size := 0\<rparr>)
        else (Some (l\<lparr>d_iter := it\<lparr>pSize := SizeLocal\<rparr>\<rparr>), s, w)
      else (Some l, s, w))"

definition mark_seen :: "pb_field_iter \<Rightarrow> u32 list \<Rightarrow> u32 list" where
  "mark_seen it seen =
     (let i = required_field_index it in
      if htype (it_field it) = PB_HTYPE_REQUIRED \<and> i < PB_MAX_REQUIRED_FIELDS
      then seen[unat (drop_bit 5 i) := seen ! unat (drop_bit 5 i) OR push_bit (unat (i AND 31)) 1]
      else seen)"

definition known_field :: "nat \<Rightarrow> pb_dec_env \<Rightarrow> msg_decoder \<Rightarrow> pb_wire_type \<Rightarrow> dec_locals \<Rightarrow> pb_istream \<Rightarrow> cstate \<Rightarrow> dec_locals dres" where
  "known_field n env noinit wire_type l s w =
     andthen (track_fixed_count l s w) (\<lambda>l s w.
       let l' = l\<lparr>fields_seen := mark_seen (d_iter l) (fields_seen l)\<rparr> in
       andthen (decode_field n env noinit wire_type (d_iter l') s w) (\<lambda>it s w.
         (Some (l'\<lparr>d_iter := it\<rparr>), s, w)))"

text \<open>One round of the loop: the flag says that a zero tag or the end of the input was read.\<close>

definition decode_round :: "nat \<Rightarrow> pb_dec_env \<Rightarrow> msg_decoder \<Rightarrow> dec_locals \<Rightarrow> pb_istream \<Rightarrow> cstate \<Rightarrow> (bool \<times> dec_locals) dres" where
  "decode_round n env noinit l s w =
     (case pb_decode_tag env s w of
        (eof, (None, s, w)) \<Rightarrow> if eof then (Some (True, l), s, w) else (None, s, w)
      | (eof, (Some (wire_type, tag), s, w)) \<Rightarrow>
          (let (found, it) = pb_field_iter_find (d_iter l) tag; l' = l\<lparr>d_iter := it\<rparr> in
           andthen (if found then known_field n env noinit wire_type l' s w
                    else unknown_field n env noinit tag wire_type l' s w)
             (\<lambda>l s w. (Some (False, l), s, w))))"

function decode_loop :: "(dec_locals \<Rightarrow> pb_istream \<Rightarrow> cstate \<Rightarrow> (bool \<times> dec_locals) dres) \<Rightarrow> dec_locals \<Rightarrow> pb_istream \<Rightarrow> cstate \<Rightarrow> dec_locals dres" where
  "decode_loop round l s w =
     (if bytes_left s = 0 then (Some l, s, w)
      else case round l s w of
        (None, s', w') \<Rightarrow> (None, s', w')
      | (Some (stop, l'), s', w') \<Rightarrow>
          if stop then (Some l', s', w')
          else if bytes_left s' < bytes_left s then decode_loop round l' s' w'
          else i_no_progress s' w')"
  by pat_completeness auto
termination
  by (relation "measure (\<lambda>(round, l, s, w). unat (bytes_left s))") (auto simp: word_less_nat_alt)

declare decode_loop.simps [simp del]

text \<open>\<open>do { req_field_count = ...; last_type = ...; } while (pb_field_iter_next(&iter))\<close>\<close>

function seek_end :: "pb_field_iter \<Rightarrow> u32 \<times> u8 \<times> pb_field_iter" where
  "seek_end it =
     (if fst (pb_field_iter_next it) then seek_end (snd (pb_field_iter_next it))
      else (required_field_index it, field_type (it_field it), snd (pb_field_iter_next it)))"
  by pat_completeness auto
termination
  by (relation "measure (\<lambda>it. length (it_start it) - it_pos it)") (use iter_next_step in fastforce)+

declare seek_end.simps [simp del]

definition req_field_count :: "pb_field_iter \<Rightarrow> u32" where
  "req_field_count it =
     (let (count, last_type, it') = seek_end it;
          count' = (if PB_HTYPE last_type = PB_HTYPE_REQUIRED \<and> field_tag (it_field it') \<noteq> 0 then count + 1 else count)
      in min count' PB_MAX_REQUIRED_FIELDS)"

definition all_required_seen :: "u32 \<Rightarrow> u32 list \<Rightarrow> bool" where
  "all_required_seen count seen \<longleftrightarrow>
     (\<forall>i \<in> set [0..<unat (drop_bit 5 count)]. seen ! i = - 1)
     \<and> (count AND 31 = 0 \<or> seen ! unat (drop_bit 5 count) = drop_bit (unat (32 - (count AND 31))) (- 1))"

definition noinit_body :: "nat \<Rightarrow> pb_dec_env \<Rightarrow> msg_decoder \<Rightarrow> msg_decoder" where
  "noinit_body n env noinit fs d s w =
     (let l = \<lparr>d_iter = snd (pb_field_iter_begin fs d), fields_seen = [0, 0],
               extension_range_start = 0, fixed_count_field = None\<rparr>
      in andthen (decode_loop (decode_round n env noinit) l s w) (\<lambda>l s w.
           if \<not> fixed_count_ok l w then i_error ''wrong size for fixed count field'' s w
           else if \<not> all_required_seen (req_field_count (d_iter l)) (fields_seen l)
           then i_error ''missing required field'' s w
           else (Some (), s, w)))"

text \<open>Each call has its own \<open>fixed_count_size\<close>.\<close>

fun pb_decode_noinit :: "nat \<Rightarrow> pb_dec_env \<Rightarrow> msg_decoder" where
  "pb_decode_noinit 0 env fs d s w = i_out_of_fuel s w"
| "pb_decode_noinit (Suc n) env fs d s w =
     (case noinit_body n env (pb_decode_noinit n env) fs d s (w\<lparr>fixed_count_size := 0\<rparr>) of
        (r, s', w') \<Rightarrow> (r, s', w'\<lparr>fixed_count_size := fixed_count_size w\<rparr>))"

definition pb_decode :: "nat \<Rightarrow> pb_dec_env \<Rightarrow> msg_decoder" where
  "pb_decode n env fs d s w = decode_message n env (pb_decode_noinit n env) fs d s w"

definition pb_decode_delimited_noinit :: "nat \<Rightarrow> pb_dec_env \<Rightarrow> msg_decoder" where
  "pb_decode_delimited_noinit n env fs d s w = in_substream env (pb_decode_noinit n env fs d) s w"

definition pb_decode_delimited :: "nat \<Rightarrow> pb_dec_env \<Rightarrow> msg_decoder" where
  "pb_decode_delimited n env fs d s w = in_substream env (pb_decode n env fs d) s w"

definition pb_decode_nullterminated :: "nat \<Rightarrow> pb_dec_env \<Rightarrow> msg_decoder" where
  "pb_decode_nullterminated n env fs d s w = pb_decode n env fs d s w"

end
