(* ===== verification/Pb_Decode_Safe.thy ===== *)
theory Pb_Decode_Safe
  imports Pb_Decode Pb_Istream_Correct
begin

text \<open>
  The decoder stays inside its input. Whatever the input bytes, the descriptors, the memory
  and the allocator do, decoding from a buffer stream never reads outside the window the
  stream was given, nested messages and arrays stay inside theirs, every loop makes
  progress, and a successful call has consumed exactly the bytes it took off the window.
  The user's field callbacks and extension decoders are assumed to do the same.
\<close>

section \<open>Windows\<close>

definition np :: "pb_istream \<Rightarrow> bool" where
  "np s \<longleftrightarrow> i_errmsg s \<noteq> Some ''no progress''"

text \<open>The rest of the window of \<open>s'\<close> lies inside the window of \<open>s\<close>.\<close>

definition within :: "pb_istream \<Rightarrow> pb_istream \<Rightarrow> bool" where
  "within s s' \<longleftrightarrow> i_callback s' = i_callback s \<and> i_state s' = i_state s \<and> (np s \<longrightarrow> np s')
     \<and> (\<exists>k. k + unat (bytes_left s') \<le> unat (bytes_left s) \<and> i_buf s' = drop k (i_buf s))"

text \<open>The stream has moved forward by as many bytes as the window has shrunk.\<close>

definition took :: "pb_istream \<Rightarrow> pb_istream \<Rightarrow> bool" where
  "took s s' \<longleftrightarrow> i_callback s' = i_callback s \<and> i_state s' = i_state s \<and> (np s \<longrightarrow> np s')
     \<and> (\<exists>k. k + unat (bytes_left s') = unat (bytes_left s) \<and> i_buf s' = drop k (i_buf s))"

definition consumes :: "pb_istream \<Rightarrow> ('a, pb_istream, 'w) cres \<Rightarrow> bool" where
  "consumes s r \<longleftrightarrow> within s (fst (snd r)) \<and> (fst r \<noteq> None \<longrightarrow> took s (fst (snd r)))"

lemma consumes_None [simp]: "consumes s (None, s', w) \<longleftrightarrow> within s s'"
  by (simp add: consumes_def)

lemma took_within: "took s s' \<Longrightarrow> within s s'"
  unfolding took_def within_def by (metis order_refl)

lemma consumes_Some [simp]: "consumes s (Some v, s', w) \<longleftrightarrow> took s s'"
  by (auto simp: consumes_def took_within)

lemma took_refl [simp]: "took s s"
  by (auto simp: took_def intro: exI [of _ 0])

lemma within_refl [simp]: "within s s"
  by (simp add: took_within)

lemma within_trans: "within s t \<Longrightarrow> within t u \<Longrightarrow> within s u"
proof -
  assume "within s t" "within t u"
  then obtain k l where "k + unat (bytes_left t) \<le> unat (bytes_left s)" "i_buf t = drop k (i_buf s)"
    "l + unat (bytes_left u) \<le> unat (bytes_left t)" "i_buf u = drop l (i_buf t)"
    "i_callback u = i_callback s" "i_state u = i_state s" "np s \<longrightarrow> np u"
    by (auto simp: within_def)
  then show ?thesis by (auto simp: within_def add.commute intro!: exI [of _ "k + l"])
qed

lemma took_trans: "took s t \<Longrightarrow> took t u \<Longrightarrow> took s u"
proof -
  assume "took s t" "took t u"
  then obtain k l where "k + unat (bytes_left t) = unat (bytes_left s)" "i_buf t = drop k (i_buf s)"
    "l + unat (bytes_left u) = unat (bytes_left t)" "i_buf u = drop l (i_buf t)"
    "i_callback u = i_callback s" "i_state u = i_state s" "np s \<longrightarrow> np u"
    by (auto simp: took_def)
  then show ?thesis by (auto simp: took_def add.commute intro!: exI [of _ "k + l"])
qed

lemma took_trans_within: "took s t \<Longrightarrow> within t u \<Longrightarrow> within s u"
  by (blast intro: within_trans took_within)

lemma within_ok: "istream_ok s \<Longrightarrow> within s s' \<Longrightarrow> istream_ok s'"
  by (auto simp: istream_ok_def within_def)

lemma took_ok: "istream_ok s \<Longrightarrow> took s s' \<Longrightarrow> istream_ok s'"
  by (blast intro: within_ok took_within)

lemma within_le: "within s s' \<Longrightarrow> bytes_left s' \<le> bytes_left s"
  by (auto simp: within_def word_le_nat_alt)

lemma within_errmsg: "within s s' \<Longrightarrow> (np s \<longrightarrow> e \<noteq> Some ''no progress'') \<Longrightarrow> within s (s'\<lparr>i_errmsg := e\<rparr>)"
  by (auto simp: within_def np_def)

lemma took_errmsg: "took s s' \<Longrightarrow> (np s \<longrightarrow> e \<noteq> Some ''no progress'') \<Longrightarrow> took s (s'\<lparr>i_errmsg := e\<rparr>)"
  by (auto simp: took_def np_def)

lemma within_np: "within s s' \<Longrightarrow> np s \<Longrightarrow> i_errmsg s' \<noteq> Some ''no progress''"
  by (auto simp: within_def np_def)

lemma consumes_error:
  "within s s' \<Longrightarrow> msg \<noteq> ''no progress'' \<Longrightarrow> consumes s (i_error msg s' w)"
  by (auto simp: i_error_def within_np intro!: within_errmsg split: option.splits)

lemma consumes_undefined: "within s s' \<Longrightarrow> consumes s (i_undefined s' w)"
  by (auto simp: i_undefined_def intro!: within_errmsg)

lemma consumes_out_of_fuel: "within s s' \<Longrightarrow> consumes s (i_out_of_fuel s' w)"
  by (auto simp: i_out_of_fuel_def intro!: within_errmsg)

lemma consumes_took: "took s t \<Longrightarrow> consumes t r \<Longrightarrow> consumes s r"
  by (auto simp: consumes_def intro: took_trans took_trans_within)

lemma consumes_andthen:
  assumes "consumes s r" and "\<And>v t w. r = (Some v, t, w) \<Longrightarrow> took s t \<Longrightarrow> consumes t (k v t w)"
  shows "consumes s (andthen r k)"
proof (cases r)
  case (fields v t w)
  then show ?thesis using assms by (cases v) (auto intro: consumes_took)
qed

lemma consumes_after_void:
  assumes "within s s'" and "\<And>w. consumes s (k s' w)"
  shows "consumes s (after_void r s' k)"
  using assms by (auto simp: after_void_def intro: within_errmsg split: prod.splits option.splits)

lemma within_sticky: "within s t \<Longrightarrow> np sub \<or> \<not> np s \<Longrightarrow> within s (sticky sub t)"
  by (auto simp: sticky_def np_def intro!: within_errmsg)

section \<open>Primitive readers\<close>

lemma moved_took:
  assumes "moved s s'"
  shows "took s s'"
proof -
  obtain k where "k \<le> unat (bytes_left s)" "i_buf s' = drop k (i_buf s)" "bytes_left s' = bytes_left s - of_nat k"
    using assms by (auto simp: moved_def)
  moreover have "np s \<longrightarrow> np s'" using assms by (auto simp: moved_def no_ub_def np_def own_outcomes_def)
  ultimately show ?thesis using assms by (auto simp: moved_def took_def unat_minus_of_nat intro!: exI [of _ k])
qed

lemma reads_consumes: "reads s w r \<Longrightarrow> consumes s r"
  by (auto simp: reads_def consumes_def moved_took took_within)

lemmas reader_consumes =
  reads_consumes [OF reads_pb_read] reads_consumes [OF reads_varint32] reads_consumes [OF reads_varint]
  reads_consumes [OF reads_skip_field] reads_consumes [OF reads_varint32_eof]

text \<open>A successful read of a value takes at least one byte.\<close>

definition eats :: "pb_istream \<Rightarrow> ('a, pb_istream, 'w) cres \<Rightarrow> bool" where
  "eats s r \<longleftrightarrow> consumes s r \<and> (fst r \<noteq> None \<longrightarrow> bytes_left (fst (snd r)) < bytes_left s)"

lemma eats_andthen:
  assumes "eats s r" and "\<And>v t w. r = (Some v, t, w) \<Longrightarrow> took s t \<Longrightarrow> consumes t (k v t w)"
  shows "eats s (andthen r k)"
proof (cases r)
  case (fields v t w)
  have "consumes s (andthen r k)" using assms by (intro consumes_andthen) (auto simp: eats_def)
  moreover have "bytes_left (fst (snd (k x t w))) < bytes_left s" if "v = Some x" for x
  proof -
    have "consumes t (k x t w)" using assms that fields by (auto simp: eats_def)
    then have "bytes_left (fst (snd (k x t w))) \<le> bytes_left t" by (auto simp: consumes_def intro: within_le)
    moreover have "bytes_left t < bytes_left s" using assms(1) fields that by (auto simp: eats_def)
    ultimately show ?thesis by simp
  qed
  ultimately show ?thesis using fields by (cases v) (auto simp: eats_def)
qed

lemma eats_pb_read: "istream_ok s \<Longrightarrow> count \<noteq> 0 \<Longrightarrow> eats s (pb_read env nb count s w)"
proof -
  assume ok: "istream_ok s" and c: "count \<noteq> 0"
  have "unat count \<le> unat (bytes_left s) \<Longrightarrow> bytes_left s - of_nat (unat count) < bytes_left s"
    using c unat_gt_0 [of count] by (simp add: word_less_nat_alt unat_sub_if')
  moreover have "consumes s (pb_read env nb count s w)" by (rule reads_consumes) (rule reads_pb_read [OF ok])
  ultimately show ?thesis by (auto simp: eats_def pb_read_ok [OF ok] i_error_def adv_def split: if_splits)
qed

lemma eats_readbyte_then:
  assumes ok: "istream_ok s"
    and "\<And>b t. istream_ok t \<Longrightarrow> consumes t (k b t w)"
  shows "eats s (case pb_readbyte env s w of (None, s', w') \<Rightarrow> (None, s', w') | (Some b, s', w') \<Rightarrow> k b s' w')"
proof -
  have "consumes s (pb_readbyte env s w)" by (rule reads_consumes) (rule reads_pb_readbyte [OF ok])
  then have "eats s (pb_readbyte env s w)" using readbyte_less [OF ok, of env w]
    by (cases "pb_readbyte env s w") (auto simp: eats_def)
  then have "eats s (andthen (pb_readbyte env s w) k)"
  proof (rule eats_andthen)
    fix v t w' assume r: "pb_readbyte env s w = (Some v, t, w')" and "took s t"
    moreover have "w' = w" using reads_pb_readbyte [OF ok, of w env] r by simp
    ultimately show "consumes t (k v t w')" using assms took_ok by blast
  qed
  then show ?thesis by (simp add: andthen_def)
qed

lemma eats_varint: "istream_ok s \<Longrightarrow> eats s (pb_decode_varint env s w)"
  unfolding pb_decode_varint_def varint64_loop.simps [of env 0] Let_def
  by (simp, rule eats_readbyte_then) (auto intro: reads_consumes reads_varint64_loop)

lemma eats_varint32_eof: "istream_ok s \<Longrightarrow> eats s (snd (pb_decode_varint32_eof env eof s w))"
proof -
  assume ok: "istream_ok s"
  have "snd (pb_decode_varint32_eof env eof s w) =
     (case pb_readbyte env s w of (None, s', w') \<Rightarrow> (None, s', w')
      | (Some b, s', w') \<Rightarrow> (\<lambda>b s' w'. if b AND 0x80 = 0 then (Some (ucast b), s', w')
                             else varint32_loop env 7 (ucast (b AND 0x7F)) s' w') b s' w')"
    by (simp add: pb_decode_varint32_eof_def split: prod.splits option.splits)
  moreover have "eats s \<dots>" using ok by (rule eats_readbyte_then) (auto intro: reads_consumes reads_varint32_loop)
  ultimately show ?thesis by simp
qed

lemma eats_varint32: "istream_ok s \<Longrightarrow> eats s (pb_decode_varint32 env s w)"
  by (simp add: pb_decode_varint32_def eats_varint32_eof)

lemma eats_tag: "istream_ok s \<Longrightarrow> eats s (snd (pb_decode_tag env s w))"
  using eats_varint32_eof [of s env False w]
  by (auto simp: pb_decode_tag_def eats_def took_within split: prod.splits option.splits)

section \<open>Substreams\<close>

text \<open>\<open>x\<close> is \<open>t\<close> with another number of bytes left.\<close>

definition same_but :: "pb_istream \<Rightarrow> pb_istream \<Rightarrow> bool" where
  "same_but t x \<longleftrightarrow> i_buf x = i_buf t \<and> i_callback x = i_callback t \<and> i_state x = i_state t \<and> i_errmsg x = i_errmsg t"

lemma make_substream:
  assumes ok: "istream_ok s" and mk: "pb_make_string_substream env s w = (Some sub, s1, w1)"
  obtains t where "took s t" "unat (bytes_left t) = unat (bytes_left s1) + unat (bytes_left sub)"
    "same_but t s1" "same_but t sub" "bytes_left t < bytes_left s"
proof -
  from mk obtain sz t where v: "pb_decode_varint32 env s w = (Some sz, t, w1)" "ucast sz \<le> bytes_left t"
    and eq: "sub = t\<lparr>bytes_left := ucast sz\<rparr>" "s1 = t\<lparr>bytes_left := bytes_left t - ucast sz\<rparr>"
    by (auto simp: pb_make_string_substream_def andthen_eq_Some i_error_def split: if_splits)
  then have "took s t" "bytes_left t < bytes_left s" using eats_varint32 [OF ok, of env w] by (auto simp: eats_def)
  moreover have "unat (bytes_left t) = unat (bytes_left s1) + unat (bytes_left sub)"
    using v(2) eq by (simp add: unat_sub_if' word_le_nat_alt)
  ultimately show thesis using eq that [of t] by (simp add: same_but_def)
qed

lemma consumes_make:
  assumes ok: "istream_ok s"
    and body: "\<And>sub s1 w1. pb_make_string_substream env s w = (Some sub, s1, w1) \<Longrightarrow> consumes s (k sub s1 w1)"
  shows "consumes s (andthen (pb_make_string_substream env s w) k)"
proof (cases "pb_make_string_substream env s w")
  case (fields r s1 w1)
  have v: "consumes s (pb_decode_varint32 env s w)" by (rule reads_consumes) (rule reads_varint32 [OF ok])
  have "consumes s (pb_make_string_substream env s w)" if "r = None"
  proof (cases "pb_decode_varint32 env s w")
    case f: (fields r' t w')
    have "consumes s (i_error ''parent stream too short'' t w' :: pb_istream dres)" if "took s t"
      using that by (intro consumes_error took_within) simp_all
    then show ?thesis using v f fields that
      by (cases r') (auto simp: pb_make_string_substream_def split: if_splits)
  qed
  then show ?thesis using body fields by (cases r) auto
qed

lemma substream_window:
  assumes ok: "istream_ok s" and mk: "pb_make_string_substream env s w = (Some sub, s1, w1)"
  shows "within s s1" "within s sub" "istream_ok sub" "np sub \<longleftrightarrow> np s1" "bytes_left sub < bytes_left s"
proof -
  from make_substream [OF assms] obtain t where t: "took s t"
    "unat (bytes_left t) = unat (bytes_left s1) + unat (bytes_left sub)"
    "same_but t s1" "same_but t sub" "bytes_left t < bytes_left s" .
  then have "within t s1" "within t sub" by (auto simp: within_def same_but_def np_def intro!: exI [of _ 0])
  then show w: "within s s1" "within s sub" using t(1) by (blast intro: took_trans_within)+
  show "istream_ok sub" using within_ok [OF ok w(2)] .
  show "np sub \<longleftrightarrow> np s1" using t(3,4) by (simp add: np_def same_but_def)
  show "bytes_left sub < bytes_left s" using t(2,5) by (simp add: word_less_nat_alt)
qed

text \<open>
  Closing the substream puts the parent right behind it when the body succeeded, and leaves it
  inside its window in any case.
\<close>

lemma consumes_close:
  assumes ok: "istream_ok s" and mk: "pb_make_string_substream env s w = (Some sub, s1, w1)"
    and body: "consumes sub (status, sub', w')" and s1': "s1' = s1 \<or> (\<exists>e. s1' = s1\<lparr>i_errmsg := e\<rparr> \<and> e \<noteq> Some ''no progress'')"
  shows "consumes s (andthen (pb_close_string_substream env sub' s1' w') (\<lambda>_ s w. (status, s, w)))"
proof -
  from make_substream [OF ok mk] obtain t where t: "took s t"
    "unat (bytes_left t) = unat (bytes_left s1) + unat (bytes_left sub)"
    "same_but t s1" "same_but t sub" .
  have oks: "istream_ok sub'" using body substream_window(3) [OF ok mk] by (auto simp: consumes_def intro: within_ok)
  let ?n = "unat (bytes_left sub')"
  have "pb_close_string_substream env sub' s1' w' =
      (Some (), s1'\<lparr>i_buf := drop ?n (i_buf sub'), i_state := i_state sub', i_errmsg := i_errmsg sub'\<rparr>, w')"
    using pb_read_ok [OF oks, of env True "bytes_left sub'" w']
    by (simp add: pb_close_string_substream_def Let_def adv_def)
  moreover obtain k where k: "k + ?n \<le> unat (bytes_left sub)" "i_buf sub' = drop k (i_buf sub)"
    "i_state sub' = i_state sub" "np sub \<longrightarrow> np sub'" "status \<noteq> None \<longrightarrow> k + ?n = unat (bytes_left sub)"
  proof (cases "status = None")
    case True
    then show ?thesis using body that by (auto simp: within_def)
  next
    case False
    then show ?thesis using body that by (auto simp: took_def)
  qed
  moreover have "consumes t (status, s1'\<lparr>i_buf := drop ?n (i_buf sub'), i_state := i_state sub', i_errmsg := i_errmsg sub'\<rparr>, w')"
    using k t(2-4) s1'
    by (cases status) (auto simp: within_def took_def same_but_def np_def add.commute intro!: exI [of _ "k + ?n"])
  ultimately show ?thesis using t(1) by (auto intro: consumes_took)
qed

section \<open>Field decoders\<close>

lemma consumes_allocate: "consumes s (allocate_field env d sz count s w)"
  by (auto simp: allocate_field_def intro!: consumes_error consumes_undefined split: option.splits)

lemma consumes_store_clamped: "consumes s (store_clamped c32 c16 c8 sz dest v s w)"
  by (auto simp: store_clamped_def Let_def intro!: consumes_error)

lemma eats_fixed: "istream_ok s \<Longrightarrow> eats s (pb_decode_fixed32 env s w)" "istream_ok s \<Longrightarrow> eats s (pb_decode_fixed64 env s w)"
  unfolding pb_decode_fixed32_def pb_decode_fixed64_def by (auto intro!: eats_andthen eats_pb_read)

lemma eats_svarint: "istream_ok s \<Longrightarrow> eats s (pb_decode_svarint env s w)"
  unfolding pb_decode_svarint_def by (auto intro!: eats_andthen eats_varint)

lemma eats_scalars:
  assumes "istream_ok s"
  shows "eats s (pb_dec_bool env f d s w)" "eats s (pb_dec_varint env f d s w)" "eats s (pb_dec_uvarint env f d s w)"
    "eats s (pb_dec_svarint env f d s w)" "eats s (pb_dec_fixed32 env f d s w)" "eats s (pb_dec_fixed64 env f d s w)"
  unfolding pb_dec_bool_def pb_dec_varint_def pb_dec_uvarint_def pb_dec_svarint_def pb_dec_fixed32_def pb_dec_fixed64_def
    store_signed_def store_unsigned_def Let_def
  using assms by (auto intro!: eats_andthen eats_varint32 eats_varint eats_svarint eats_fixed consumes_store_clamped)

lemma consumes_read: "istream_ok s \<Longrightarrow> consumes s (pb_read env nb count s w)"
  by (rule reads_consumes) (rule reads_pb_read)

lemma consumes_read_then:
  assumes "istream_ok s"
  shows "consumes s (andthen (pb_read env nb count s w) (\<lambda>bs s w. (Some (), s, f bs w)))"
  using consumes_read [OF assms] by (rule consumes_andthen) simp

lemma eats_bytes: "istream_ok s \<Longrightarrow> eats s (pb_dec_bytes env f d s w)"
  unfolding pb_dec_bytes_def Let_def
  by (rule eats_andthen [OF eats_varint32])
    (auto intro!: consumes_error consumes_read_then consumes_andthen [OF consumes_allocate] dest: took_ok)

lemma eats_string: "istream_ok s \<Longrightarrow> eats s (pb_dec_string env f d s w)"
proof -
  assume ok: "istream_ok s"
  have rd: "consumes t (case pb_read env False c t w of (None, s, w) \<Rightarrow> (None, s, g w) | (Some bs, s, w) \<Rightarrow> (Some (), s, h bs w))"
    if "istream_ok t" for t c g h and w :: cstate
    using consumes_read [OF that, of env False c w] by (auto split: prod.splits option.splits)
  show ?thesis unfolding pb_dec_string_def Let_def
    by (rule eats_andthen [OF eats_varint32 [OF ok]])
      (use ok in \<open>auto intro!: consumes_error rd consumes_andthen [OF consumes_allocate] dest: took_ok\<close>)
qed

lemma eats_fixed_length_bytes: "istream_ok s \<Longrightarrow> eats s (pb_dec_fixed_length_bytes env f d s w)"
  unfolding pb_dec_fixed_length_bytes_def
  by (rule eats_andthen [OF eats_varint32]) (auto intro!: consumes_error consumes_read_then dest: took_ok)

lemma consumes_in_substream:
  assumes ok: "istream_ok s" and body: "\<And>sub w. istream_ok sub \<Longrightarrow> consumes sub (body sub w)"
  shows "consumes s (in_substream env body s w)"
  unfolding in_substream_def
proof (rule consumes_make [OF ok])
  fix sub s1 w1 assume mk: "pb_make_string_substream env s w = (Some sub, s1, w1)"
  have "consumes sub (body sub w1)" using substream_window(3) [OF ok mk] by (rule body)
  then show "consumes s (case body sub w1 of (status, sub, w) \<Rightarrow>
      andthen (pb_close_string_substream env sub s1 w) (\<lambda>_ s w. (status, s, w)))"
    by (cases "body sub w1") (simp add: consumes_close [OF ok mk])
qed

text \<open>What the decoder relies on: the messages one level down, and the user's functions.\<close>

definition dec_consumes :: "(pb_istream \<Rightarrow> cstate \<Rightarrow> 'a dres) \<Rightarrow> bool" where
  "dec_consumes f \<longleftrightarrow> (\<forall>s w. istream_ok s \<longrightarrow> consumes s (f s w))"

lemma dec_consumesD: "dec_consumes f \<Longrightarrow> istream_ok s \<Longrightarrow> consumes s (f s w)"
  by (simp add: dec_consumes_def)

definition callbacks_ok :: "pb_dec_env \<Rightarrow> bool" where
  "callbacks_ok env \<longleftrightarrow> (\<forall>f field arg. dec_consumes (user_decode env f field arg))
     \<and> (\<forall>f ext tag wt. dec_consumes (ext_decode env f ext tag wt))"

lemma consumes_decode_message:
  assumes ok: "istream_ok s" and noinit: "dec_consumes (noinit fs d)"
  shows "consumes s (decode_message n env noinit fs d s w)"
  unfolding decode_message_def
proof (rule consumes_after_void)
  fix w
  have "consumes s (noinit fs d s w)" using noinit ok by (rule dec_consumesD)
  then show "consumes s (case noinit fs d s w of (None, s, w) \<Rightarrow> after_void (pb_release n env fs d w) s (\<lambda>s w. (None, s, w))
      | (Some _, s, w) \<Rightarrow> (Some (), s, w))"
    by (cases "noinit fs d s w") (auto intro!: consumes_after_void split: option.splits)
qed simp

lemma consumes_submessage:
  assumes ok: "istream_ok s" and noinit: "\<And>fs d. dec_consumes (noinit fs d)"
  shows "consumes s (pb_dec_submessage n env noinit f d s w)"
proof -
  have "consumes s (andthen (pb_make_string_substream env s w) (\<lambda>_ s w. i_error ''invalid field descriptor'' s w :: unit dres))"
    by (rule consumes_make [OF ok]) (auto intro!: consumes_error dest: substream_window(1) [OF ok])
  then show ?thesis unfolding pb_dec_submessage_def Let_def
    by (auto intro!: consumes_in_substream [OF ok] consumes_decode_message noinit)
      (auto intro: dec_consumesD [OF noinit])
qed

lemma consumes_decoders:
  assumes "istream_ok s" and "\<And>fs d. dec_consumes (noinit fs d)"
  shows "consumes s (PB_DECODERS n env noinit t f d s w)"
  using assms eats_scalars [OF assms(1)] eats_bytes [OF assms(1)] eats_string [OF assms(1)]
    eats_fixed_length_bytes [OF assms(1)] consumes_submessage [OF assms(1), where noinit = noinit]
  by (auto simp: PB_DECODERS_def eats_def intro!: consumes_undefined)

lemma eats_packable:
  assumes "istream_ok s" and "t \<le> PB_LTYPE_LAST_PACKABLE"
  shows "eats s (PB_DECODERS n env noinit t f d s w)"
proof -
  have "t = 0 \<or> t = 1 \<or> t = 2 \<or> t = 3 \<or> t = 4 \<or> t = 5" using assms(2) by unat_arith
  then show ?thesis using eats_scalars [OF assms(1)] by (auto simp: PB_DECODERS_def)
qed

section \<open>Static, pointer and callback fields\<close>

definition dec_eats :: "decoder \<Rightarrow> bool" where
  "dec_eats func \<longleftrightarrow> (\<forall>f d s w. istream_ok s \<longrightarrow> eats s (func f d s w))"

lemma dec_eatsD: "dec_eats func \<Longrightarrow> istream_ok s \<Longrightarrow> eats s (func f d s w)"
  by (simp add: dec_eats_def)

lemma consumes_packed_static:
  assumes "dec_eats func"
  shows "istream_ok sub \<Longrightarrow> consumes sub (packed_static_loop func it sub w)"
proof (induction "unat (bytes_left sub)" arbitrary: sub w rule: less_induct)
  case less
  let ?r = "func (it_field it) (item_addr (pData it) (it_field it) (size_load w (pSize it))) sub w"
  have e: "eats sub ?r" using assms less.prems by (rule dec_eatsD)
  show ?case
  proof (cases ?r)
    case (fields r sub' w')
    have "consumes sub (packed_static_loop func it sub' w'')" if "r = Some ()" for w''
    proof -
      have t: "took sub sub'" "bytes_left sub' < bytes_left sub" using e fields that by (auto simp: eats_def)
      then show ?thesis using less.hyps [of sub' w''] took_ok [OF less.prems t(1)]
        by (auto simp: word_less_nat_alt intro: consumes_took)
    qed
    then show ?thesis using e fields
      by (cases r) (auto simp: packed_static_loop.simps [of func it sub] Let_def eats_def)
  qed
qed

lemma consumes_static_repeated:
  assumes ok: "istream_ok s" and func: "\<And>f d. dec_consumes (func f d)"
    and packable: "ltype (it_field it) \<le> PB_LTYPE_LAST_PACKABLE \<Longrightarrow> dec_eats func"
  shows "consumes s (decode_static_repeated env func wt it s w)"
proof (cases "wt = PB_WT_STRING \<and> ltype (it_field it) \<le> PB_LTYPE_LAST_PACKABLE")
  case True
  have "consumes s (case packed_static_loop func it sub w1 of (status, sub, w) \<Rightarrow>
      if bytes_left sub \<noteq> 0 then i_error ''array overflow'' (sticky sub s1) w
      else andthen (pb_close_string_substream env sub s1 w) (\<lambda>_ s w. (status, s, w)))"
    if mk: "pb_make_string_substream env s w = (Some sub, s1, w1)" for sub s1 w1
  proof -
    note win = substream_window [OF ok mk]
    have body: "consumes sub (packed_static_loop func it sub w1)"
      using packable True win(3) by (intro consumes_packed_static) simp_all
    obtain status sub' w' where r: "packed_static_loop func it sub w1 = (status, sub', w')"
      by (cases "packed_static_loop func it sub w1")
    have "within sub sub'" using body r by (simp add: consumes_def)
    then have "np sub' \<or> \<not> np s" using win(2) by (auto simp: within_def)
    then have "within s (sticky sub' s1)" using win(1) by (intro within_sticky)
    then have "consumes s (i_error ''array overflow'' (sticky sub' s1) w' :: unit dres)" by (rule consumes_error) simp
    moreover have "consumes s (andthen (pb_close_string_substream env sub' s1 w') (\<lambda>_ s w. (status, s, w)))"
      using body r by (intro consumes_close [OF ok mk]) simp_all
    ultimately show ?thesis using r by simp
  qed
  then show ?thesis using True unfolding decode_static_repeated_def Let_def by (auto intro!: consumes_make [OF ok])
next
  case False
  then show ?thesis unfolding decode_static_repeated_def Let_def using ok
    by (auto intro!: consumes_error dec_consumesD [OF func])
qed

lemma decoders_packable: "t \<le> PB_LTYPE_LAST_PACKABLE \<Longrightarrow> dec_eats (PB_DECODERS n env noinit t)"
  by (simp add: dec_eats_def eats_packable)

lemma decoders_consume: "(\<And>fs d. dec_consumes (noinit fs d)) \<Longrightarrow> dec_consumes (PB_DECODERS n env noinit t f d)"
  by (simp add: dec_consumes_def consumes_decoders)

lemma consumes_static_field:
  assumes ok: "istream_ok s" and noinit: "\<And>fs d. dec_consumes (noinit fs d)"
  shows "consumes s (decode_static_field n env noinit wt it s w)"
  unfolding decode_static_field_def Let_def using ok
  by (auto intro!: consumes_after_void consumes_static_repeated decoders_consume decoders_packable noinit
      dec_consumesD [OF decoders_consume])

lemma consumes_grow: "consumes sub (grow_array env it allocated sub w)"
  unfolding grow_array_def Let_def
  by (auto intro!: consumes_undefined consumes_andthen [OF consumes_allocate])

lemma grow_bytes_left: "grow_array env it allocated sub w = (r, sub', w') \<Longrightarrow> bytes_left sub' = bytes_left sub"
  by (auto simp: grow_array_def Let_def allocate_field_def i_error_def i_undefined_def
      split: if_splits option.splits andthen_splits)

lemma consumes_packed_pointer:
  assumes func: "dec_eats func"
  shows "istream_ok sub \<Longrightarrow> packed_pointer_loop n env func it allocated sub s w = (status, (sub', s'), w') \<Longrightarrow>
     consumes sub (status, sub', w') \<and> (s' = s \<or> (\<exists>e. s' = s\<lparr>i_errmsg := e\<rparr> \<and> e \<noteq> Some ''no progress''))"
proof (induction "unat (bytes_left sub)" arbitrary: allocated sub w rule: less_induct)
  case less
  obtain g sub1 w1 where grow: "grow_array env it allocated sub w = (g, sub1, w1)"
    by (cases "grow_array env it allocated sub w")
  have c1: "consumes sub (g, sub1, w1)" using consumes_grow [of sub env it allocated w] grow by simp
  then have ok1: "istream_ok sub1" using less.prems(1) by (auto simp: consumes_def intro: within_ok)
  let ?f = "it_field it" and ?p = "item_addr (load64 (cmem w1) (pData it)) (it_field it) (size_load w1 (pSize it))"
  let ?r = "after_void (initialize_pointer_field n env ?p ?f w1) sub1 (func ?f ?p)"
  have e: "eats sub1 ?r"
    using dec_eatsD [OF func ok1] within_errmsg
    by (auto simp: eats_def after_void_def split: prod.splits option.splits)
  show ?case
  proof (cases ?r)
    case r: (fields r sub2 w2)
    have rec: "consumes sub (status, sub', w') \<and> (s' = s \<or> (\<exists>e. s' = s\<lparr>i_errmsg := e\<rparr> \<and> e \<noteq> Some ''no progress''))"
      if "packed_pointer_loop n env func it al sub2 s w3 = (status, (sub', s'), w')" "g = Some x" "r = Some ()" for al w3 x
    proof -
      have t: "took sub1 sub2" "bytes_left sub2 < bytes_left sub1" using e r that by (auto simp: eats_def)
      moreover have "took sub sub1" using c1 that by simp
      moreover have "bytes_left sub1 = bytes_left sub" using grow by (rule grow_bytes_left)
      ultimately show ?thesis using less.hyps [of sub2 al w3] that(1) took_ok [OF ok1 t(1)]
        by (auto simp: word_less_nat_alt intro: consumes_took took_trans)
    qed
    have b1: "bytes_left sub1 = bytes_left sub" using grow by (rule grow_bytes_left)
    from less.prems(2) c1 e r grow b1 rec show ?thesis
      unfolding packed_pointer_loop.simps [of n env func it allocated]
      by (auto simp: Let_def eats_def intro: took_trans_within split: if_splits option.splits)
  qed
qed

lemma consumes_pointer_repeated:
  assumes ok: "istream_ok s" and func: "\<And>f d. dec_consumes (func f d)"
    and packable: "ltype (it_field it) \<le> PB_LTYPE_LAST_PACKABLE \<Longrightarrow> dec_eats func"
  shows "consumes s (decode_pointer_repeated n env func wt it s w)"
proof (cases "wt = PB_WT_STRING \<and> ltype (it_field it) \<le> PB_LTYPE_LAST_PACKABLE")
  case True
  have "consumes s (case packed_pointer_loop n env func it al sub s1 w1 of (status, (sub, s), w) \<Rightarrow>
      andthen (pb_close_string_substream env sub s w) (\<lambda>_ s w. (status, s, w)))"
    if mk: "pb_make_string_substream env s w = (Some sub, s1, w1)" for sub s1 w1 al
  proof -
    obtain status sub' s' w' where r: "packed_pointer_loop n env func it al sub s1 w1 = (status, (sub', s'), w')"
      by (cases "packed_pointer_loop n env func it al sub s1 w1") auto
    have "consumes sub (status, sub', w') \<and> (s' = s1 \<or> (\<exists>e. s' = s1\<lparr>i_errmsg := e\<rparr> \<and> e \<noteq> Some ''no progress''))"
      using packable True substream_window(3) [OF ok mk] r by (intro consumes_packed_pointer) simp_all
    then show ?thesis using r consumes_close [OF ok mk, of status sub' w' s'] by simp
  qed
  then show ?thesis using True unfolding decode_pointer_repeated_def Let_def by (auto intro!: consumes_make [OF ok])
next
  case False
  have "consumes s (andthen (allocate_field env d sz c s w) (\<lambda>_ s w. after_void (vr w) s (func f (p w))))"
    for d sz c vr f p
  proof (rule consumes_andthen [OF consumes_allocate])
    fix v t w' assume "took s t"
    then show "consumes t (after_void (vr w') t (func f (p w')))"
      using took_ok [OF ok] by (intro consumes_after_void) (auto intro: dec_consumesD [OF func])
  qed
  then show ?thesis using False unfolding decode_pointer_repeated_def Let_def by (auto intro!: consumes_error)
qed

lemma consumes_pointer_field:
  assumes ok: "istream_ok s" and noinit: "\<And>fs d. dec_consumes (noinit fs d)"
  shows "consumes s (decode_pointer_field n env noinit wt it s w)"
proof -
  let ?func = "PB_DECODERS n env noinit"
  have func: "dec_consumes (?func t f d)" for t f d by (rule decoders_consume) (rule noinit)
  have alloc: "consumes s (andthen (allocate_field env d sz c s w) (\<lambda>_ s w. after_void (vr w) s (\<lambda>s w. ?func lt f (p w) s w)))"
    for d sz c vr lt f p w
  proof (rule consumes_andthen [OF consumes_allocate])
    fix v t w' assume "took s t"
    then show "consumes t (after_void (vr w') t (\<lambda>s w. ?func lt f (p w) s w))"
      using took_ok [OF ok] by (intro consumes_after_void) (auto intro: dec_consumesD [OF func])
  qed
  show ?thesis unfolding decode_pointer_field_def Let_def
    by (auto intro!: consumes_after_void alloc consumes_pointer_repeated func decoders_packable dec_consumesD [OF func] ok)
qed

lemma consumes_callback_loop:
  assumes "dec_consumes call"
  shows "istream_ok s \<Longrightarrow> consumes s (callback_loop n call s w)"
proof (induction n arbitrary: s w)
  case 0
  then show ?case by (simp add: consumes_out_of_fuel)
next
  case (Suc n)
  have "consumes s (call s w)" using assms Suc.prems by (rule dec_consumesD)
  then show ?case using Suc.IH took_ok [OF Suc.prems] by (auto intro!: consumes_andthen)
qed

lemma reads_raw_varint: "istream_ok s \<Longrightarrow> reads s w (raw_varint_loop n env s w)"
proof (induction n arbitrary: s)
  case 0
  then show ?case by simp
next
  case (Suc n)
  have "take (unat 1) (i_buf s) \<noteq> []" if "1 \<le> unat (bytes_left s)"
    using Suc.prems that by (cases "i_buf s") (auto simp: istream_ok_def)
  then have ne: "bs \<noteq> []" if "pb_read env False 1 s w = (Some bs, s', w)" for bs s'
    using that by (auto simp: pb_read_ok [OF Suc.prems] i_error_def split: if_splits)
  show ?case unfolding raw_varint_loop.simps
  proof (rule reads_andthen [OF reads_pb_read [OF Suc.prems]])
    fix bs s' assume r: "pb_read env False 1 s w = (Some bs, s', w)" and m: "moved s s'"
    have "reads s' w (raw_varint_loop n env s' w)" using Suc.IH moved_ok [OF Suc.prems m] .
    then have "reads s' w (andthen (raw_varint_loop n env s' w) (\<lambda>rest s w. (Some (b # rest), s, w)))" for b
      by (rule reads_andthen) simp
    then show "reads s' w (case bs of [] \<Rightarrow> i_undefined s' w
        | byte # _ \<Rightarrow> if byte AND 0x80 \<noteq> 0 then andthen (raw_varint_loop n env s' w) (\<lambda>rest s w. (Some (byte # rest), s, w))
                       else (Some [byte], s', w))"
      using ne [OF r] by (cases bs) simp_all
  qed
qed

lemma reads_raw_value: "istream_ok s \<Longrightarrow> reads s w (read_raw_value env wt n s w)"
  by (auto simp: read_raw_value_def intro!: reads_raw_varint reads_pb_read reads_error split: pb_wire_type.splits)

lemma consumes_callback_field:
  assumes ok: "istream_ok s" and cb: "\<And>f field arg. dec_consumes (user_decode env f field arg)"
  shows "consumes s (decode_callback_field n env wt it s w)"
proof -
  let ?call = "user_decode env (load64 (cmem w) (pData it)) (it_field it) (pData it + 8)"
  have str: "consumes s (case callback_loop n ?call sub w1 of (None, sub, w) \<Rightarrow> i_error ''callback failed'' (sticky sub s1) w
      | (Some _, sub, w) \<Rightarrow> pb_close_string_substream env sub s1 w)"
    if mk: "pb_make_string_substream env s w = (Some sub, s1, w1)" for sub s1 w1
  proof -
    note win = substream_window [OF ok mk]
    obtain status sub' w' where r: "callback_loop n ?call sub w1 = (status, sub', w')"
      by (cases "callback_loop n ?call sub w1")
    have body: "consumes sub (status, sub', w')" using consumes_callback_loop [OF cb win(3)] r by metis
    then have "within sub sub'" by (simp add: consumes_def)
    then have "np sub' \<or> \<not> np s" using win(2) by (auto simp: within_def)
    then have "within s (sticky sub' s1)" using win(1) by (intro within_sticky)
    then have "consumes s (i_error ''callback failed'' (sticky sub' s1) w' :: unit dres)" by (rule consumes_error) simp
    moreover have "andthen (pb_close_string_substream env sub' s1 w') (\<lambda>_ s w. (Some (), s, w)) = pb_close_string_substream env sub' s1 w'"
      by (cases "pb_close_string_substream env sub' s1 w'") (auto simp: andthen_def split: option.splits)
    ultimately show ?thesis using r body consumes_close [OF ok mk, of status sub' w' s1] by (cases status) auto
  qed
  have raw: "consumes s (andthen (read_raw_value env wt 10 s w) (\<lambda>buffer s w.
      case ?call (pb_istream_from_buffer buffer (of_nat (length buffer))) w of (status, sub, w) \<Rightarrow> (status, sticky sub s, w)))"
  proof (rule consumes_andthen)
    show "consumes s (read_raw_value env wt 10 s w)" by (rule reads_consumes) (rule reads_raw_value [OF ok])
  next
    fix buffer t w'
    let ?sub = "pb_istream_from_buffer buffer (of_nat (length buffer))"
    have "istream_ok ?sub" by (simp add: istream_ok_def pb_istream_from_buffer_def unsigned_of_nat take_bit_nat_less_eq_self)
    then have "consumes ?sub (?call ?sub w')" by (rule dec_consumesD [OF cb])
    moreover have "np ?sub" by (simp add: np_def pb_istream_from_buffer_def)
    ultimately have "np (fst (snd (?call ?sub w')))" by (auto simp: consumes_def within_def)
    then have "took t (sticky (fst (snd (?call ?sub w'))) t)" by (auto simp: sticky_def np_def intro!: took_errmsg)
    then show "consumes t (case ?call ?sub w' of (status, sub, w) \<Rightarrow> (status, sticky sub t, w))"
      by (auto simp: consumes_def took_within split: prod.splits)
  qed
  have skip: "consumes s (pb_skip_field env wt s w)" by (rule reads_consumes) (rule reads_skip_field [OF ok])
  show ?thesis unfolding decode_callback_field_def Let_def using skip raw by (auto intro!: consumes_make [OF ok] str)
qed

section \<open>Messages\<close>

lemma consumes_union: "consumes s (pb_release_union_field n env it s w)"
  by (auto simp: pb_release_union_field_def Let_def intro!: consumes_after_void consumes_error split: prod.splits bool.splits)

lemma consumes_field:
  assumes ok: "istream_ok s" and noinit: "\<And>fs d. dec_consumes (noinit fs d)"
    and cb: "\<And>f field arg. dec_consumes (user_decode env f field arg)"
  shows "consumes s (decode_field n env noinit wt it s w)"
  unfolding decode_field_def
proof (rule consumes_andthen)
  fix it' t w' assume "took s t"
  then have okt: "istream_ok t" by (rule took_ok [OF ok])
  have "consumes t (if atype (it_field it') = PB_ATYPE_STATIC then decode_static_field n env noinit wt it' t w'
        else if atype (it_field it') = PB_ATYPE_POINTER then decode_pointer_field n env noinit wt it' t w'
        else if atype (it_field it') = PB_ATYPE_CALLBACK then decode_callback_field n env wt it' t w'
        else i_error ''invalid field type'' t w')"
    using okt by (auto intro!: consumes_static_field consumes_pointer_field consumes_callback_field noinit cb consumes_error)
  then show "consumes t (andthen \<dots> (\<lambda>_ s w. (Some it', s, w)))" by (rule consumes_andthen) simp
qed (simp add: consumes_union)

lemma consumes_extension_loop:
  assumes noinit: "\<And>fs d. dec_consumes (noinit fs d)" and env: "callbacks_ok env"
  shows "istream_ok s \<Longrightarrow> consumes s (decode_extension_loop k env noinit pos ext tag wt n s w)"
proof (induction k arbitrary: s w ext)
  case 0
  then show ?case by (simp add: decode_extension_loop.simps [of 0] consumes_out_of_fuel)
next
  case (Suc k)
  have dflt: "consumes s (default_extension_decoder n env noinit ext tag wt s w)"
    using env Suc.prems
    by (auto simp: default_extension_decoder_def Let_def callbacks_ok_def intro!: consumes_andthen consumes_field noinit)
  have "consumes s (ext_decode env f ext tag wt s w)" for f
    using env Suc.prems by (auto simp: callbacks_ok_def intro: dec_consumesD)
  then have "consumes s (andthen (if f \<noteq> 0 then ext_decode env f ext tag wt s w else default_extension_decoder n env noinit ext tag wt s w)
      (\<lambda>_ s w. decode_extension_loop k env noinit pos (load64 (cmem w) (ext + 16)) tag wt n s w))" for f
    using dflt Suc.IH took_ok [OF Suc.prems] by (auto intro!: consumes_andthen)
  from this [of "load64 (cmem w) (load64 (cmem w) ext)"] show ?case
    unfolding decode_extension_loop.simps [of "Suc k"] Let_def by auto
qed

lemma consumes_unknown:
  assumes ok: "istream_ok s" and noinit: "\<And>fs d. dec_consumes (noinit fs d)" and env: "callbacks_ok env"
  shows "consumes s (unknown_field n env noinit tag wt l s w)"
proof -
  have skip: "consumes t (andthen (pb_skip_field env wt t w) (\<lambda>_ s w. (Some l', s, w)))" if "istream_ok t" for t w and l' :: dec_locals
    by (rule consumes_andthen, rule reads_consumes, rule reads_skip_field [OF that]) simp
  have "consumes s (andthen (decode_extension n env noinit tag wt it s w) (\<lambda>_ t w.
      if bytes_left s \<noteq> bytes_left t then (Some l', t, w) else andthen (pb_skip_field env wt t w) (\<lambda>_ s w. (Some l', s, w))))"
    for it and l' :: dec_locals
    unfolding decode_extension_def
    by (rule consumes_andthen [OF consumes_extension_loop [OF noinit env ok]]) (auto intro!: skip took_ok [OF ok])
  then show ?thesis using skip [OF ok] by (auto simp: unknown_field_def Let_def split: prod.splits)
qed

lemma track_stream: "consumes s (track_fixed_count l s w)"
  by (auto simp: track_fixed_count_def Let_def intro!: consumes_error)

lemma consumes_known:
  assumes ok: "istream_ok s" and noinit: "\<And>fs d. dec_consumes (noinit fs d)" and env: "callbacks_ok env"
  shows "consumes s (known_field n env noinit wt l s w)"
  unfolding known_field_def Let_def
proof (rule consumes_andthen)
  show "consumes s (track_fixed_count l s w)" by (rule track_stream)
next
  fix l' t w' assume "took s t"
  then have "istream_ok t" by (rule took_ok [OF ok])
  then show "consumes t (andthen (decode_field n env noinit wt (d_iter (l'\<lparr>fields_seen := mark_seen (d_iter l') (fields_seen l')\<rparr>)) t w')
      (\<lambda>it s w. (Some (l'\<lparr>fields_seen := mark_seen (d_iter l') (fields_seen l'), d_iter := it\<rparr>), s, w)))"
    using env by (auto simp: callbacks_ok_def intro!: consumes_andthen consumes_field noinit)
qed

lemma reads_tag: "istream_ok s \<Longrightarrow> reads s w (snd (pb_decode_tag env s w))"
  using reads_varint32_eof [of s w env False]
  by (auto simp: pb_decode_tag_def split: prod.splits option.splits)

lemma round_progress:
  assumes ok: "istream_ok s" and noinit: "\<And>fs d. dec_consumes (noinit fs d)" and env: "callbacks_ok env"
  shows "consumes s (decode_round n env noinit l s w)"
    and "decode_round n env noinit l s w = (Some (False, l'), s', w') \<Longrightarrow> bytes_left s' < bytes_left s"
proof -
  obtain eof r t w1 where tag: "pb_decode_tag env s w = (eof, (r, t, w1))" by (metis prod_cases4)
  have t: "took s t" using reads_tag [OF ok, of w env] tag by (simp add: moved_took)
  have less: "r \<noteq> None \<Longrightarrow> bytes_left t < bytes_left s" using eats_tag [OF ok, of env w] tag by (auto simp: eats_def)
  have okt: "istream_ok t" using t by (rule took_ok [OF ok])
  let ?rest = "\<lambda>(wt :: pb_wire_type) tg. (let (found, it) = pb_field_iter_find (d_iter l) tg; l' = l\<lparr>d_iter := it\<rparr> in
           andthen (if found then known_field n env noinit wt l' t w1 else unknown_field n env noinit tg wt l' t w1)
             (\<lambda>l s w. (Some (False, l), s, w)))"
  have rest: "consumes t (?rest wt tg)" for wt tg
    by (auto simp: Let_def intro!: consumes_andthen consumes_known consumes_unknown okt noinit env split: prod.splits)
  show "consumes s (decode_round n env noinit l s w)"
    using t took_within [OF t] consumes_took [OF t rest]
    by (cases r) (auto simp: decode_round_def tag simp del: split_paired_All split: prod.splits)
  assume "decode_round n env noinit l s w = (Some (False, l'), s', w')"
  then obtain wt tg where r: "r = Some (wt, tg)" "?rest wt tg = (Some (False, l'), s', w')"
    by (cases r) (auto simp: decode_round_def tag split: if_splits)
  have "bytes_left s' \<le> bytes_left t" using rest [where wt = wt and tg = tg] r(2) by (simp add: within_le took_within)
  then show "bytes_left s' < bytes_left s" using less r(1) by auto
qed

lemma consumes_loop:
  assumes noinit: "\<And>fs d. dec_consumes (noinit fs d)" and env: "callbacks_ok env"
  shows "istream_ok s \<Longrightarrow> consumes s (decode_loop (decode_round n env noinit) l s w)"
proof (induction "unat (bytes_left s)" arbitrary: s l w rule: less_induct)
  case less
  have rp: "consumes s (decode_round n env noinit l s w)"
    "\<And>l' s' w'. decode_round n env noinit l s w = (Some (False, l'), s', w') \<Longrightarrow> bytes_left s' < bytes_left s"
    using round_progress [OF less.prems _ env] noinit by blast+
  show ?case
  proof (cases "decode_round n env noinit l s w")
    case (fields r s' w')
    have "consumes s (decode_loop (decode_round n env noinit) l' s' w')" if "r = Some (False, l')" for l'
    proof -
      have t: "took s s'" "bytes_left s' < bytes_left s" using rp fields that by auto
      then show ?thesis using less.hyps [of s' l' w'] took_ok [OF less.prems t(1)]
        by (auto simp: word_less_nat_alt intro: consumes_took)
    qed
    then show ?thesis using rp fields
      by (cases r) (auto simp: decode_loop.simps [of _ l s])
  qed
qed

theorem noinit_consumes: "callbacks_ok env \<Longrightarrow> dec_consumes (pb_decode_noinit n env fs d)"
proof (induction n arbitrary: fs d)
  case 0
  then show ?case by (simp add: dec_consumes_def consumes_out_of_fuel)
next
  case (Suc n)
  have noinit: "dec_consumes (pb_decode_noinit n env fs d)" for fs d using Suc by simp
  have "consumes s (noinit_body n env (pb_decode_noinit n env) fs d s w)" if "istream_ok s" for s w
    unfolding noinit_body_def Let_def
    by (rule consumes_andthen [OF consumes_loop [OF noinit Suc.prems that]]) (auto intro!: consumes_error)
  moreover have "consumes s (case r of (v, s', w') \<Rightarrow> (v, s', g w'))" if "consumes s r"
    for s and r :: "unit dres" and g :: "cstate \<Rightarrow> cstate"
    using that by (cases r) (simp add: consumes_def)
  ultimately show ?case by (simp add: dec_consumes_def)
qed

lemma decode_consumes: "callbacks_ok env \<Longrightarrow> dec_consumes (pb_decode n env fs d)"
  unfolding dec_consumes_def pb_decode_def by (auto intro!: consumes_decode_message noinit_consumes)

lemma decode_delimited_consumes: "callbacks_ok env \<Longrightarrow> dec_consumes (pb_decode_delimited n env fs d)"
  unfolding dec_consumes_def pb_decode_delimited_def
  by (auto intro!: consumes_in_substream dec_consumesD [OF decode_consumes])

end
