(* ===== verification/Pb_Fields.thy ===== *)
theory Pb_Fields
  imports Pb_Decode_Safe Pb_Varint
begin

text \<open>
  What single field decoders do: skipping consumes exactly one value of the wire type,
  integers are stored at the width of the field or refused, the set of required fields
  seen is exact, and sizes are multiplied without wrapping before memory is asked for.
\<close>

section \<open>Skipping\<close>

datatype wire_value = Varint u64 | Fixed64 u64 | Bytes "u8 list" | Fixed32 u32

fun value_bytes :: "wire_value \<Rightarrow> u8 list" where
  "value_bytes (Varint v) = varint_buffer v"
| "value_bytes (Fixed64 v) = fixed64_bytes v"
| "value_bytes (Bytes bs) = varint_buffer (of_nat (length bs)) @ bs"
| "value_bytes (Fixed32 v) = fixed32_bytes v"

fun value_wt :: "wire_value \<Rightarrow> pb_wire_type" where
  "value_wt (Varint v) = PB_WT_VARINT"
| "value_wt (Fixed64 v) = PB_WT_64BIT"
| "value_wt (Bytes bs) = PB_WT_STRING"
| "value_wt (Fixed32 v) = PB_WT_32BIT"

fun value_ok :: "wire_value \<Rightarrow> bool" where
  "value_ok (Bytes bs) \<longleftrightarrow> length bs < 2 ^ 32"
| "value_ok _ \<longleftrightarrow> True"

lemma pb_read1_at: "at_bytes s (b # bs) \<Longrightarrow> pb_read env False 1 s w = (Some [b], adv 1 s, w)"
  by (simp add: pb_read1_readbyte at_bytes_ok readbyte_at(1))

lemma skip_varint_enc:
  "at_bytes s (varint_buffer v) \<Longrightarrow> pb_skip_varint env s w = (Some (), adv (length (varint_buffer v)) s, w)"
proof (induction "unat v" arbitrary: v s rule: less_induct)
  case less
  show ?case
  proof (cases "v \<le> 0x7F")
    case True
    then have vb: "varint_buffer v = [ucast v]" by (simp add: varint_buffer_def)
    have "at_bytes s [ucast v]" using less.prems vb by simp
    then show ?thesis using last_byte(1) [OF True] by (simp add: pb_skip_varint.simps [of env s] pb_read1_at vb and_80)
  next
    case False
    let ?b = "ucast (v AND 0x7F) OR 0x80 :: u8" and ?v = "drop_bit 7 v"
    have vb: "varint_buffer v = ?b # varint_buffer ?v" using False by (simp add: varint_buffer_rec [of v])
    have at: "at_bytes s (?b # varint_buffer ?v)" using less.prems vb by simp
    have "v \<noteq> 0" using False by (intro notI) simp
    then have "unat ?v < unat v" by (simp add: unat_drop_bit_less)
    then have ih: "pb_skip_varint env (adv 1 s) w = (Some (), adv (length (varint_buffer ?v)) (adv 1 s), w)"
      using readbyte_at(2) [OF at] by (rule less.hyps)
    moreover have "bytes_left (adv 1 s) < bytes_left s"
      using readbyte_less [OF at_bytes_ok [OF at] readbyte_at(1) [OF at]] .
    ultimately show ?thesis using cont_byte(1) [of v] at_bytes_adv_Suc [OF at]
      by (simp add: pb_skip_varint.simps [of env s] pb_read1_at [OF at] and_80 vb)
  qed
qed

lemma skip_read_at:
  "at_bytes s bs \<Longrightarrow> length bs < 2 ^ 64 \<Longrightarrow>
     andthen (pb_read env True (of_nat (length bs)) s w) (\<lambda>_ s w. (Some (), s, w)) = (Some (), adv (length bs) s, w)"
  by (simp add: pb_read_at)

lemma skip_value:
  assumes at: "at_bytes s (value_bytes x)" and ok: "value_ok x"
  shows "pb_skip_field env (value_wt x) s w = (Some (), adv (length (value_bytes x)) s, w)"
proof (cases x)
  case (Varint v)
  then show ?thesis using at by (simp add: pb_skip_field_def skip_varint_enc)
next
  case (Fixed64 v)
  then show ?thesis using at skip_read_at [of s "le_bytes 8 v" env w] by (simp add: pb_skip_field_def fixed64_bytes_le)
next
  case (Fixed32 v)
  then show ?thesis using at skip_read_at [of s "le_bytes 4 v" env w] by (simp add: pb_skip_field_def fixed32_bytes_le)
next
  case (Bytes bs)
  let ?len = "of_nat (length bs) :: u64" and ?p = "varint_buffer (of_nat (length bs))"
  have l: "length bs < 2 ^ 32" using ok Bytes by simp
  then have u: "unat ?len = length bs" by (simp add: unat_of_nat)
  have a: "at_bytes s (?p @ bs)" using at Bytes by simp
  note p = at_bytes_append [OF a]
  have "pb_decode_varint32 env s w = (Some (ucast ?len), adv (length ?p) s, w)"
    using pb_decode_varint32_eof_enc [of s ?len env False w] p u l by (simp add: pb_decode_varint32_def)
  moreover have "ucast (ucast ?len :: u32) = ?len"
    using u l take_bit_small [of ?len 32] by (simp add: word_unat_eq_iff unat_ucast_up unsigned_ucast_eq)
  moreover have "adv (length bs) (adv (length ?p) s) = adv (length ?p + length bs) s"
    using a by (subst adv_adv) (auto simp: at_bytes_def)
  ultimately show ?thesis using skip_read_at [of "adv (length ?p) s" bs env w] p l Bytes
    by (simp add: pb_skip_field_def pb_skip_string_def)
qed

section \<open>Integers\<close>

text \<open>
  A value loaded from a field of the encoder's struct fits in a field of the same size of
  the decoder's: its bytes are stored there.
\<close>

lemma read_bytes:
  assumes "read_unsigned m sz a = Some v \<or> read_signed m sz a = Some v"
  shows "le_bytes (unat sz) v = load_bytes m a (unat sz)"
proof -
  have "le_bytes 1 (m a) = [m a]" "load_bytes m a 1 = [m a]" by simp_all
  then show ?thesis using assms
    by (auto simp: read_unsigned_def read_signed_def load16_def load32_def load64_def le_bytes_ucast le_bytes_scast le_bytes_load
        simp del: One_nat_def split: if_splits)
qed

lemma store_clamped_fits:
  assumes "sz \<in> {1, 2, 4, 8}" and "sz = 4 \<Longrightarrow> c32 v = v" "sz = 2 \<Longrightarrow> c16 v = v" "sz = 1 \<Longrightarrow> c8 v = v"
  shows "store_clamped c32 c16 c8 sz dest v s w = (Some (), s, upd (\<lambda>m. store_bytes m dest (le_bytes (unat sz) v)) w)"
  using assms by (auto simp: store_clamped_def simp del: One_nat_def)

lemma store_unsigned_read:
  assumes "read_unsigned m sz a = Some v"
  shows "store_unsigned sz dest v s w = (Some (), s, upd (\<lambda>m'. store_bytes m' dest (load_bytes m a (unat sz))) w)"
  using assms read_bytes [of m sz a v] unfolding store_unsigned_def
  by (subst store_clamped_fits) (auto simp: read_unsigned_def narrow_widened split: if_splits)

lemma store_signed_read:
  assumes "read_signed m sz a = Some v"
  shows "store_signed sz dest v s w = (Some (), s, upd (\<lambda>m'. store_bytes m' dest (load_bytes m a (unat sz))) w)"
  using assms read_bytes [of m sz a v] unfolding store_signed_def
  by (subst store_clamped_fits) (auto simp: read_signed_def narrow_widened split: if_splits)

text \<open>Hence a varint field of the encoder's struct arrives in the decoder's.\<close>

lemma dec_uvarint_read:
  assumes "read_unsigned m (data_size field) a = Some v" and "at_bytes s (varint_buffer v)"
  shows "pb_dec_uvarint env field dest s w =
    (Some (), adv (length (varint_buffer v)) s, upd (\<lambda>m'. store_bytes m' dest (load_bytes m a (unat (data_size field)))) w)"
  using assms by (simp add: pb_dec_uvarint_def pb_decode_varint_enc store_unsigned_read)

lemma dec_svarint_read:
  assumes "read_signed m (data_size field) a = Some v" and "at_bytes s (varint_buffer (zigzag v))"
  shows "pb_dec_svarint env field dest s w =
    (Some (), adv (length (varint_buffer (zigzag v))) s, upd (\<lambda>m'. store_bytes m' dest (load_bytes m a (unat (data_size field)))) w)"
  using assms by (simp add: pb_dec_svarint_def pb_decode_svarint_enc store_signed_read)

lemma through_int32:
  assumes "LENGTH('c::len) \<le> 32"
  shows "scast (ucast (scast (x :: 'c word) :: u64) :: u32) = (scast x :: u64)"
proof (rule bit_word_eqI)
  fix n assume "n < LENGTH(64)"
  moreover have "min (LENGTH('c) - 1) (min 31 n) = min (LENGTH('c) - 1) n" "min 31 n < 32" "min 31 n < 64"
    using assms by (auto simp: min_def)
  ultimately show "bit (scast (ucast (scast x :: u64) :: u32) :: u64) n = bit (scast x :: u64) n"
    using assms by (simp add: bit_simps)
qed

lemma dec_varint_read:
  assumes r: "read_signed m (data_size field) a = Some v" and at: "at_bytes s (varint_buffer v)"
  shows "pb_dec_varint env field dest s w =
    (Some (), adv (length (varint_buffer v)) s, upd (\<lambda>m'. store_bytes m' dest (load_bytes m a (unat (data_size field)))) w)"
proof -
  have "(if data_size field = 8 then v else scast (ucast v :: u32)) = v"
    using r by (auto simp: read_signed_def through_int32 split: if_splits)
  then show ?thesis using r at by (simp add: pb_dec_varint_def pb_decode_varint_enc store_signed_read Let_def)
qed

section \<open>Required fields\<close>

definition seen :: "u32 list \<Rightarrow> nat \<Rightarrow> bool" where
  "seen ws i \<longleftrightarrow> bit (ws ! (i div 32)) (i mod 32)"

lemma word_index: "unat (drop_bit 5 (x :: u32)) = unat x div 32" "unat (x AND 31) = unat x mod 32"
proof -
  show "unat (drop_bit 5 x) = unat x div 32" using unat_drop_bit_eq [of 5 x] by (simp only: drop_bit_eq_div) simp
  have "x AND 31 = take_bit 5 x" by (simp add: take_bit_eq_mask mask_eq_exp_minus_1)
  then show "unat (x AND 31) = unat x mod 32" by (simp add: unsigned_take_bit_eq) (simp add: take_bit_eq_mod)
qed

lemma mark_seen_spec:
  assumes ws: "length ws = 2" and i: "i < 64"
  shows "seen (mark_seen it ws) i \<longleftrightarrow> seen ws i
    \<or> htype (it_field it) = PB_HTYPE_REQUIRED \<and> unat (required_field_index it) = i"
proof -
  let ?r = "required_field_index it"
  have r: "?r < 64 \<longleftrightarrow> unat ?r < 64" by (simp add: word_less_nat_alt)
  note d = word_index(1) [of ?r] and m = word_index(2) [of ?r]
  show ?thesis
  proof (cases "htype (it_field it) = PB_HTYPE_REQUIRED \<and> unat ?r < 64")
    case False
    then show ?thesis using i r by (auto simp: mark_seen_def Let_def seen_def)
  next
    case True
    let ?w = "ws ! (unat ?r div 32) OR push_bit (unat ?r mod 32) 1"
    have eq: "mark_seen it ws = ws[unat ?r div 32 := ?w]"
      using True r by (simp add: mark_seen_def Let_def d m)
    have "bit ?w (i mod 32) \<longleftrightarrow> bit (ws ! (unat ?r div 32)) (i mod 32) \<or> unat ?r mod 32 = i mod 32"
      by (auto simp: bit_simps)
    moreover have "unat ?r = i \<longleftrightarrow> unat ?r div 32 = i div 32 \<and> unat ?r mod 32 = i mod 32" by (metis div_mult_mod_eq)
    ultimately show ?thesis using True ws i unfolding seen_def eq
      by (cases "unat ?r div 32 = i div 32") auto
  qed
qed

lemma bits_below:
  "(\<forall>i < c. P (i div 32) (i mod 32)) \<longleftrightarrow> (\<forall>k < c div 32. \<forall>j < 32. P k j) \<and> (\<forall>j < c mod 32. P (c div 32) (j :: nat))"
  for c :: nat
proof safe
  fix k j :: nat assume a: "\<forall>i < c. P (i div 32) (i mod 32)" and k: "k < c div 32" "j < 32"
  have "32 * k + j < c" using k by linarith
  then have "P ((32 * k + j) div 32) ((32 * k + j) mod 32)" using a by blast
  then show "P k j" using k(2) by simp
next
  fix j assume a: "\<forall>i < c. P (i div 32) (i mod 32)" and j: "j < c mod 32"
  have "32 * (c div 32) + j < c" using j by presburger
  then have "P ((32 * (c div 32) + j) div 32) ((32 * (c div 32) + j) mod 32)" using a by blast
  moreover have "j < 32" using j by (meson less_trans mod_less_divisor zero_less_numeral)
  ultimately show "P (c div 32) j" by simp
next
  fix i assume a: "\<forall>k < c div 32. \<forall>j < 32. P k j" "\<forall>j < c mod 32. P (c div 32) j" and i: "i < c"
  show "P (i div 32) (i mod 32)"
  proof (cases "i div 32 < c div 32")
    case True
    then show ?thesis using a(1) by simp
  next
    case False
    then have "i div 32 = c div 32" using i div_le_mono [of i c 32] by simp
    moreover from this have "i mod 32 < c mod 32" using i by (metis add_less_cancel_left div_mult_mod_eq)
    ultimately show ?thesis using a(2) by simp
  qed
qed

text \<open>The check at the end of a message: no required field below \<open>count\<close> is missing.\<close>

lemma all_required_seen_spec:
  assumes ws: "length ws = 2" and c: "unat count \<le> 64" and hi: "\<And>i. i < 64 \<Longrightarrow> unat count \<le> i \<Longrightarrow> \<not> seen ws i"
  shows "all_required_seen count ws \<longleftrightarrow> (\<forall>i < unat count. seen ws i)"
proof -
  let ?c = "unat count"
  have full: "ws ! k = - 1 \<longleftrightarrow> (\<forall>j < 32. bit (ws ! k) j)" for k
    by (auto intro!: bit_word_eqI)
  have part: "ws ! (?c div 32) = drop_bit (unat (32 - (count AND 31))) (- 1) \<longleftrightarrow> (\<forall>j < ?c mod 32. bit (ws ! (?c div 32)) j)"
    if "count AND 31 \<noteq> 0"
  proof -
    have m: "?c mod 32 \<noteq> 0" using that word_index(2) [of count] by (metis unat_eq_zero)
    have "unat (32 - (count AND 31)) = 32 - ?c mod 32"
      using word_index(2) [of count] by (simp add: unat_sub_if_size word_le_nat_alt word_size)
    moreover define M :: u32 where "M = drop_bit (unat (32 - (count AND 31))) (- 1)"
    ultimately have b: "bit M j \<longleftrightarrow> j < ?c mod 32" for j by (auto simp: bit_simps)
    have "\<not> bit (ws ! (?c div 32)) j" if j: "j < 32" "?c mod 32 \<le> j" for j
    proof -
      have "?c < 64" using m c by (cases "?c = 64") auto
      then have "?c div 32 < 2" by (simp add: div_less_iff_less_mult)
      then have "32 * (?c div 32) + j < 64" using j(1) by linarith
      moreover have "?c \<le> 32 * (?c div 32) + j" using j(2) by presburger
      ultimately have "\<not> seen ws (32 * (?c div 32) + j)" by (rule hi)
      then show ?thesis using j(1) by (simp add: seen_def)
    qed
    then have "ws ! (?c div 32) = M" if "\<forall>j < ?c mod 32. bit (ws ! (?c div 32)) j"
      using that by (intro bit_word_eqI) (auto simp: b intro: ccontr)
    then have "ws ! (?c div 32) = M \<longleftrightarrow> (\<forall>j < ?c mod 32. bit (ws ! (?c div 32)) j)" using b by auto
    then show ?thesis by (simp only: M_def)
  qed
  have "all_required_seen count ws \<longleftrightarrow> (\<forall>k < ?c div 32. \<forall>j < 32. bit (ws ! k) j) \<and> (\<forall>j < ?c mod 32. bit (ws ! (?c div 32)) j)"
  proof (cases "count AND 31 = 0")
    case True
    then have "?c mod 32 = 0" using word_index(2) [of count] by simp
    then show ?thesis using True by (auto simp: all_required_seen_def word_index(1) full)
  next
    case False
    then show ?thesis using part by (auto simp: all_required_seen_def word_index(1) full)
  qed
  then show ?thesis using bits_below [of ?c "\<lambda>k j. bit (ws ! k) j"] by (simp add: seen_def)
qed

section \<open>Allocation\<close>

text \<open>The size asked for is the product of the two numbers, and not zero.\<close>

lemma allocate_exact:
  assumes "sz \<noteq> 0" "count \<noteq> 0" "\<not> ((2 ^ 32 \<le> sz \<or> 2 ^ 32 \<le> count) \<and> (- 1) div count < (sz :: u64))"
  shows "unat (count * sz) = unat count * unat sz"
proof -
  have "unat count * unat sz < 2 ^ 64"
  proof (cases "2 ^ 32 \<le> sz \<or> 2 ^ 32 \<le> count")
    case True
    then have "sz \<le> (- 1) div count" using assms(3) by (simp add: not_less)
    then have "unat sz \<le> unat (- 1 :: u64) div unat count" by (simp add: word_le_nat_alt unat_div_distrib)
    then have "unat sz * unat count \<le> unat (- 1 :: u64)"
      using assms(2) by (simp add: less_eq_div_iff_mult_less_eq unat_gt_0)
    moreover have "unat (- 1 :: u64) < 2 ^ 64" using unsigned_less [of "- 1 :: u64", where 'a = nat] by simp
    ultimately show ?thesis by (simp add: mult.commute)
  next
    case False
    then have "unat sz < 2 ^ 32" "unat count < 2 ^ 32" by (simp_all add: word_le_nat_alt)
    then have "unat count * unat sz < 2 ^ 32 * 2 ^ 32" by (intro mult_strict_mono) simp_all
    then show ?thesis by simp
  qed
  then show ?thesis by (simp add: unat_word_ariths)
qed

end
