(* ===== verification/Pb_Decode_Properties.thy ===== *)
theory Pb_Decode_Properties
  imports Pb_Fields Pb_Properties
begin

text \<open>
  The properties of nanopb's decoder, each with a concrete instance. The example message is
  the encoder's.
\<close>

section \<open>Safety and termination\<close>

lemma example_callbacks_ok: "callbacks_ok example_denv"
  by (simp add: callbacks_ok_def example_denv_def dec_consumes_def)

lemma example_stream_ok: "length bs < 2 ^ 64 \<Longrightarrow> istream_ok (example_stream bs)"
  by (simp add: istream_ok_def example_stream_def pb_istream_from_buffer_def unat_of_nat)

text \<open>
  C5: decoding stays inside its input. Whatever the bytes, the descriptors, the memory, the
  allocator and the nesting are, \<open>pb_decode\<close> on a buffer stream leaves the stream at a position
  inside the window it was given, with no more bytes left than remain there; when it
  succeeds, the bytes it took off the window are exactly those it moved over. The user's
  callbacks are assumed to treat the substreams they are given in the same way.
\<close>

theorem pb_decode_in_window:
  assumes "callbacks_ok env" and "istream_ok s" and "pb_decode n env fs d s w = (r, s', w')"
  shows "(\<exists>k. k + unat (bytes_left s') \<le> unat (bytes_left s) \<and> i_buf s' = drop k (i_buf s))
    \<and> (r \<noteq> None \<longrightarrow> (\<exists>k. k + unat (bytes_left s') = unat (bytes_left s) \<and> i_buf s' = drop k (i_buf s)))"
  using dec_consumesD [OF decode_consumes [OF assms(1)] assms(2), of n fs d w] assms(3)
  by (auto simp: consumes_def within_def took_def)

theorem pb_decode_in_window_witness:
  "case pb_decode 3 example_denv example_fields 0x2000 (example_stream [0x08, 0x96, 0x01]) example_state of (r, s', w') \<Rightarrow>
     (\<exists>k. k + unat (bytes_left s') \<le> 3 \<and> i_buf s' = drop k [0x08, 0x96, 0x01])
     \<and> (r \<noteq> None \<longrightarrow> (\<exists>k. k + unat (bytes_left s') = 3 \<and> i_buf s' = drop k [0x08, 0x96, 0x01]))"
proof -
  let ?s = "example_stream [0x08, 0x96, 0x01]"
  have ok: "istream_ok ?s" by (rule example_stream_ok) simp
  have "bytes_left ?s = 3" "i_buf ?s = [0x08, 0x96, 0x01]" by (simp_all add: example_stream_def pb_istream_from_buffer_def)
  then show ?thesis using pb_decode_in_window [OF example_callbacks_ok ok, of 3 example_fields "0x2000" example_state]
    by (cases "pb_decode 3 example_denv example_fields 0x2000 ?s example_state") simp
qed



text \<open>
  C7: the search for a field. From any position of a well-formed iterator,
  \<open>pb_field_iter_find\<close> succeeds exactly when a descriptor that is not an extension has the field
  number, and then it stands on such a descriptor with \<open>pData\<close> at the address the
  descriptors give that field; otherwise it is back where it started.
\<close>

theorem pb_field_iter_find_correct:
  assumes ok: "iter_ok it" and ne: "it_start it \<noteq> []" and find: "pb_field_iter_find it tag = (b, it')"
  shows "(b \<longleftrightarrow> (\<exists>f \<in> set (it_start it). field_tag f = tag \<and> ltype f \<noteq> PB_LTYPE_EXTENSION))
    \<and> (b \<longrightarrow> field_tag (it_field it') = tag \<and> pData it' = data_addr (it_start it) (dest_struct it) (it_pos it'))
    \<and> (\<not> b \<longrightarrow> it_pos it' = it_pos it) \<and> iter_ok it'"
proof -
  obtain b2 it2 where 1: "find_field (\<lambda>f. field_tag f = tag \<and> ltype f \<noteq> PB_LTYPE_EXTENSION) it = (b2, it2)" "iter_ok it2"
      "it_start it2 = it_start it" "dest_struct it2 = dest_struct it"
      "b2 \<longleftrightarrow> (\<exists>f \<in> set (it_start it). field_tag f = tag \<and> ltype f \<noteq> PB_LTYPE_EXTENSION)"
      "b2 \<longrightarrow> field_tag (it_field it2) = tag \<and> ltype (it_field it2) \<noteq> PB_LTYPE_EXTENSION" "\<not> b2 \<longrightarrow> it_pos it2 = it_pos it"
    using find_field_spec [OF ok ne, of "\<lambda>f. field_tag f = tag \<and> ltype f \<noteq> PB_LTYPE_EXTENSION"] by blast
  moreover have "b2 = b" "it2 = it'" using 1(1) find by (simp_all add: pb_field_iter_find_def)
  ultimately show ?thesis by (auto simp: iter_ok_def)
qed

theorem pb_field_iter_find_correct_witness:
  "fst (pb_field_iter_find (snd (pb_field_iter_begin example_fields 0x1000)) 2)"
proof -
  let ?it = "snd (pb_field_iter_begin example_fields 0x1000)"
  have "iter_ok ?it" by (rule iter_begin_ok [OF example_hyps(2)])
  moreover have "it_start ?it \<noteq> []" by (simp add: example_fields_def)
  ultimately have "fst (pb_field_iter_find ?it 2) \<longleftrightarrow> (\<exists>f \<in> set (it_start ?it). field_tag f = 2 \<and> ltype f \<noteq> PB_LTYPE_EXTENSION)"
    using pb_field_iter_find_correct [of ?it 2] by (cases "pb_field_iter_find ?it 2") auto
  then show ?thesis by (simp add: example_fields_def PB_LTYPE_def)
qed

section \<open>Required fields\<close>

lemma fold_mark_seen:
  "length ws = 2 \<Longrightarrow> i < 64 \<Longrightarrow> seen (fold mark_seen its ws) i \<longleftrightarrow> seen ws i
     \<or> (\<exists>it \<in> set its. htype (it_field it) = PB_HTYPE_REQUIRED \<and> unat (required_field_index it) = i)"
proof (induction its arbitrary: ws)
  case (Cons it its)
  have "length (mark_seen it ws) = 2" using Cons.prems(1) by (simp add: mark_seen_def Let_def)
  then show ?case using Cons.IH [of "mark_seen it ws"] Cons.prems mark_seen_spec [of ws i it] by auto
qed simp

lemma length_fold_mark_seen: "length (fold mark_seen its ws) = length ws"
  by (induction its arbitrary: ws) (simp_all add: mark_seen_def Let_def)

text \<open>
  C8: missing required fields are detected, and only those. After the fields at the
  positions \<open>its\<close> were decoded, the check at the end of \<open>pb_decode_noinit\<close> passes exactly when
  every required field below \<open>count\<close> is among them, for up to 64 required fields.
\<close>

theorem required_fields_checked:
  assumes "unat count \<le> 64"
    and "\<forall>it \<in> set its. htype (it_field it) = PB_HTYPE_REQUIRED \<longrightarrow> unat (required_field_index it) < unat count"
  shows "all_required_seen count (fold mark_seen its [0, 0]) \<longleftrightarrow>
    (\<forall>i < unat count. \<exists>it \<in> set its. htype (it_field it) = PB_HTYPE_REQUIRED \<and> unat (required_field_index it) = i)"
proof -
  let ?ws = "fold mark_seen its [0, 0]"
  have none: "\<not> seen [0, 0] i" if "i < 64" for i
  proof -
    have "i div 32 < 2" using that by (simp add: div_less_iff_less_mult)
    then show ?thesis by (cases "i div 32 = 0") (auto simp: seen_def less_2_cases_iff)
  qed
  have s: "seen ?ws i \<longleftrightarrow> (\<exists>it \<in> set its. htype (it_field it) = PB_HTYPE_REQUIRED \<and> unat (required_field_index it) = i)"
    if "i < 64" for i using fold_mark_seen [of "[0, 0]" i its] none [OF that] that by simp
  have "all_required_seen count ?ws \<longleftrightarrow> (\<forall>i < unat count. seen ?ws i)"
    using assms s by (intro all_required_seen_spec) (auto simp: length_fold_mark_seen)
  then show ?thesis using s assms(1) by auto
qed

theorem required_fields_checked_witness:
  "all_required_seen 1 (fold mark_seen [snd (pb_field_iter_begin example_fields 0x1000)] [0, 0])"
  using required_fields_checked [of 1 "[snd (pb_field_iter_begin example_fields 0x1000)]"]
  by (simp add: pb_field_iter_begin_def example_fields_def field_at_def PB_HTYPE_def Let_def)

section \<open>Allocation\<close>

text \<open>
  The check for multiplication overflow in \<open>allocate_field\<close> is exact. When it succeeds,
  the field points to a block of \<open>array_size * data_size\<close> bytes, and that product is the
  mathematical one.
\<close>

theorem allocate_field_size:
  assumes "allocate_field env d sz count s w = (Some (), s', w')"
  shows "\<exists>p. p \<noteq> 0 \<and> load64 (cmem w') d = p \<and> (p, count * sz) \<in> set (heap w')
    \<and> unat (count * sz) = unat count * unat sz \<and> count * sz \<noteq> 0"
proof -
  have nz: "sz \<noteq> 0" "count \<noteq> 0" and chk: "\<not> ((2 ^ 32 \<le> sz \<or> 2 ^ 32 \<le> count) \<and> (- 1) div count < sz)"
    using assms by (auto simp: allocate_field_def i_error_def split: if_splits)
  obtain p w1 where r: "c_realloc env (load64 (cmem w) d) (count * sz) w = Some (p, w1)" "p \<noteq> 0"
      "w' = upd (\<lambda>m. store64 m d p) w1"
    using assms nz chk by (auto simp: allocate_field_def i_error_def i_undefined_def split: option.splits if_splits)
  have "(p, count * sz) \<in> set (heap w1)" using r(1,2) by (auto simp: c_realloc_def Let_def split: if_splits option.splits)
  moreover have "load64 (cmem w') d = p"
    using load_store_bytes [of "le_bytes 8 p" "cmem w1" d] le_word_le_bytes [of 8 p]
    by (simp add: r(3) upd_def load64_def store64_def take_bit_word_eq_self)
  moreover have "unat (count * sz) = unat count * unat sz" using nz chk by (rule allocate_exact)
  moreover from this have "count * sz \<noteq> 0" using nz by (metis mult_eq_0_iff unat_eq_zero)
  ultimately show ?thesis using r(2,3) by (auto simp: upd_def)
qed

definition example_alloc :: pb_dec_env where
  "example_alloc = example_denv\<lparr>pick_addr := (\<lambda>_ _. Some 0x9000)\<rparr>"

theorem allocate_field_size_witness:
  "\<exists>p. p \<noteq> 0 \<and> load64 (cmem (snd (snd (allocate_field example_alloc 0x3000 12 5 (example_stream []) example_state)))) 0x3000 = p
     \<and> (p, 60) \<in> set (heap (snd (snd (allocate_field example_alloc 0x3000 12 5 (example_stream []) example_state))))"
proof -
  have "load64 (cmem example_state) 0x3000 = 0"
    by (simp add: load64_def load_bytes_numeral example_state_def example_mem_def)
  then have "fst (allocate_field example_alloc 0x3000 12 5 (example_stream []) example_state) = Some ()"
    by (simp add: allocate_field_def c_realloc_def example_alloc_def example_denv_def example_state_def Let_def)
  then show ?thesis
    using allocate_field_size [of example_alloc "0x3000" 12 5 "example_stream []" example_state]
    by (cases "allocate_field example_alloc 0x3000 12 5 (example_stream []) example_state") fastforce
qed

section \<open>Fields\<close>

text \<open>
  An unknown field is skipped exactly. On a stream that stands at a value of any of the
  four wire types, \<open>pb_skip_field\<close> succeeds and consumes that value and nothing else.
\<close>

theorem pb_skip_field_exact:
  assumes "at_bytes s (value_bytes x)" and "value_ok x"
  shows "pb_skip_field env (value_wt x) s w = (Some (), adv (length (value_bytes x)) s, w)"
  using assms by (rule skip_value)

theorem pb_skip_field_exact_witness:
  "pb_skip_field example_denv (value_wt (Bytes [0x68, 0x69])) (example_stream [2, 0x68, 0x69, 7]) example_state =
     (Some (), adv (length (value_bytes (Bytes [0x68, 0x69]))) (example_stream [2, 0x68, 0x69, 7]), example_state)"
  by (rule pb_skip_field_exact) (simp_all add: example_at)

text \<open>
  An unsigned integer field of one, two, four or eight bytes arrives unchanged: decoding
  the varint that \<open>pb_enc_uvarint\<close> writes for it stores the same bytes in a field of the same
  size.
\<close>

theorem unsigned_field_roundtrip:
  assumes "read_unsigned m (data_size field) a = Some v" and "at_bytes s (varint_buffer v)"
    and "pb_dec_uvarint env field dest s w = (r, s', w')"
  shows "r = Some () \<and> s' = adv (length (varint_buffer v)) s
    \<and> load_bytes (cmem w') dest (unat (data_size field)) = load_bytes m a (unat (data_size field))"
proof -
  have "unat (data_size field) < 2 ^ 64" using unsigned_less [of "data_size field", where 'a = nat] by simp
  then show ?thesis using assms dec_uvarint_read [OF assms(1,2), of env dest w]
      load_store_bytes [of "load_bytes m a (unat (data_size field))" "cmem w" dest] by (auto simp: upd_def)
qed

theorem unsigned_field_roundtrip_witness:
  "load_bytes (cmem (snd (snd (pb_dec_uvarint example_denv (hd example_fields) 0x3000 (example_stream (varint_buffer 150)) example_state)))) 0x3000 4
     = [150, 0, 0, 0]"
proof -
  have "read_unsigned example_mem (data_size (hd example_fields)) 0x1000 = Some 150"
    by (simp add: read_unsigned_def example_fields_def load32_def load_bytes_numeral example_mem_def)
  moreover have "at_bytes (example_stream (varint_buffer 150)) (varint_buffer 150)" by (simp add: example_at)
  moreover have "load_bytes example_mem 0x1000 4 = [150, 0, 0, 0]" by (simp add: load_bytes_numeral example_mem_def)
  moreover have "unat (data_size (hd example_fields)) = 4" by (simp add: example_fields_def)
  ultimately show ?thesis
    using unsigned_field_roundtrip [of example_mem "hd example_fields" "0x1000" 150 "example_stream (varint_buffer 150)" example_denv "0x3000" example_state]
    by (cases "pb_dec_uvarint example_denv (hd example_fields) 0x3000 (example_stream (varint_buffer 150)) example_state") simp
qed

text \<open>
  C9: signed integer fields arrive unchanged, in the plain format, where narrow fields are
  cast through \<open>int32_t\<close> on the way in, and in the zigzag format.
\<close>

theorem signed_field_roundtrip:
  assumes "read_signed m (data_size field) a = Some v" and "at_bytes s (varint_buffer v)" and "at_bytes z (varint_buffer (zigzag v))"
    and "pb_dec_varint env field dest s w = (r, s', w')" and "pb_dec_svarint env field dest z w = (q, z', u')"
  shows "r = Some () \<and> q = Some () \<and> load_bytes (cmem w') dest (unat (data_size field)) = load_bytes m a (unat (data_size field))
    \<and> cmem u' = cmem w'"
proof -
  have "unat (data_size field) < 2 ^ 64" using unsigned_less [of "data_size field", where 'a = nat] by simp
  then show ?thesis using assms dec_varint_read [OF assms(1,2), of env dest w] dec_svarint_read [OF assms(1,3), of env dest w]
      load_store_bytes [of "load_bytes m a (unat (data_size field))" "cmem w" dest] by (auto simp: upd_def)
qed

theorem signed_field_roundtrip_witness:
  "load_bytes (cmem (snd (snd (pb_dec_varint example_denv (hd example_fields) 0x3000 (example_stream (varint_buffer 150)) example_state)))) 0x3000 4
     = [150, 0, 0, 0]"
proof -
  let ?f = "hd example_fields" and ?s = "example_stream (varint_buffer 150)" and ?z = "example_stream (varint_buffer (zigzag 150))"
  have r: "read_signed example_mem (data_size ?f) 0x1000 = Some 150"
    by (simp add: read_signed_def example_fields_def load32_def load_bytes_numeral example_mem_def)
  have s: "at_bytes ?s (varint_buffer 150)" by (simp add: example_at)
  have z: "at_bytes ?z (varint_buffer (zigzag 150))" by (simp add: example_at zigzag_def)
  have e: "load_bytes example_mem 0x1000 4 = [150, 0, 0, 0]" "unat (data_size ?f) = 4"
    by (simp_all add: load_bytes_numeral example_mem_def example_fields_def)
  obtain a b c a' b' c' where "pb_dec_varint example_denv ?f 0x3000 ?s example_state = (a, b, c)"
      "pb_dec_svarint example_denv ?f 0x3000 ?z example_state = (a', b', c')" by (metis prod_cases3)
  from this(1) signed_field_roundtrip [OF r s z this] show ?thesis by (simp only: e fst_conv snd_conv simp_thms)
qed

section \<open>Overlong varints\<close>



lemma varint32_padding:
  "at_bytes s (replicate m 0x80 @ bs) \<Longrightarrow>
     varint32_loop env bp r s w = varint32_loop env (bp + of_nat (7 * m)) r (adv m s) w \<and> at_bytes (adv m s) bs"
proof (induction m arbitrary: s bp)
  case (Suc m)
  then have at: "at_bytes s (0x80 # replicate m 0x80 @ bs)" by simp
  have "bytes_left (adv 1 s) < bytes_left s"
    using readbyte_less [OF at_bytes_ok [OF at] readbyte_at(1) [OF at]] .
  then have "varint32_loop env bp r s w = varint32_loop env (bp + 7) r (adv 1 s) w"
    by (simp add: varint32_loop.simps [of env bp] readbyte_at(1) [OF at])
  moreover have "adv m (adv 1 s) = adv (Suc m) s" using Suc.prems by (subst adv_adv) (auto simp: at_bytes_def)
  ultimately show ?case using Suc.IH [OF readbyte_at(2) [OF at], of "bp + 7"] by (simp add: add.assoc)
qed (simp add: adv_0)

lemma varint64_padding:
  "at_bytes s (replicate m 0x80 @ bs) \<Longrightarrow> unat bp + 7 * m < 71 \<Longrightarrow>
     varint64_loop env bp r s w = varint64_loop env (bp + of_nat (7 * m)) r (adv m s) w"
proof (induction m arbitrary: s bp)
  case (Suc m)
  then have at: "at_bytes s (0x80 # replicate m 0x80 @ bs)" by simp
  have bp: "unat (bp + 7) = unat bp + 7" "\<not> 64 \<le> bp" using Suc.prems(2) by (simp_all add: unat_word_ariths word_le_nat_alt)
  then have "varint64_loop env bp r s w = varint64_loop env (bp + 7) r (adv 1 s) w"
    by (simp add: varint64_loop.simps [of env bp] readbyte_at(1) [OF at])
  moreover have "adv m (adv 1 s) = adv (Suc m) s" using Suc.prems(1) by (subst adv_adv) (auto simp: at_bytes_def)
  ultimately show ?case using Suc.IH [OF readbyte_at(2) [OF at], of "bp + 7"] Suc.prems(2) bp(1) by (simp add: add.assoc)
qed (simp add: adv_0)

text \<open>
  \<open>bitpos\<close> is a \<open>uint_fast8_t\<close>. After 36 bytes of padding it has wrapped around to 3, and a
  later byte is accepted into the value, where the 64-bit reader reports an overflow.
\<close>

theorem varint32_bitpos_wraps:
  "fst (pb_decode_varint32 env (example_stream (0x81 # replicate 36 0x80 @ [0x01])) w) = Some 9
   \<and> fst (pb_decode_varint env (example_stream (0x81 # replicate 36 0x80 @ [0x01])) w) = None"
proof -
  let ?bs = "0x81 # replicate 36 0x80 @ [0x01] :: u8 list"
  have at: "at_bytes (example_stream ?bs) ?bs" by (simp add: at_bytes_def istream_ok_def example_stream_def pb_istream_from_buffer_def)
  define s where "s = adv 1 (example_stream ?bs)"
  note b = readbyte_at [OF at, folded s_def]
  have wrap: "(259 :: u8) = 3" by (simp add: word_unat_eq_iff unat_word_ariths)
  have last: "at_bytes (adv 36 s) [0x01]" using varint32_padding [OF b(2)] by blast
  have "varint32_loop env 7 1 s w = varint32_loop env 3 1 (adv 36 s) w" using varint32_padding [OF b(2), of env 7 1 w] wrap by simp
  also have "\<dots> = (Some 9, adv 1 (adv 36 s), w)" by (simp add: varint32_loop.simps [of env 3] readbyte_at(1) [OF last])
  finally have 1: "fst (pb_decode_varint32 env (example_stream ?bs) w) = Some 9"
    by (simp add: pb_decode_varint32_def pb_decode_varint32_eof_def b(1))
  have "at_bytes s (replicate 9 0x80 @ replicate 27 0x80 @ [0x01])" using b(2) by (simp flip: append_assoc replicate_add)
  from varint64_padding [OF this, of 7 env 1 w] have "varint64_loop env 7 1 s w = varint64_loop env 70 1 (adv 9 s) w" by simp
  then have "fst (varint64_loop env 7 1 s w) = None" by (simp add: varint64_loop.simps [of env 70] i_error_def)
  then have "fst (pb_decode_varint env (example_stream ?bs) w) = None"
    by (simp add: pb_decode_varint_def varint64_loop.simps [of env 0] b(1))
  then show ?thesis using 1 by simp
qed

text \<open>
  An empty message type has only the terminator, whose number is 0. The search for field
  number 0 stops there, so such a field, which no message has, is not skipped.
\<close>

lemma empty_message_finds_zero: "fst (pb_field_iter_find (snd (pb_field_iter_begin [] d)) 0)"
  by (simp add: pb_field_iter_find_def pb_field_iter_begin_def find_field_def PB_LTYPE_def field_at_def PB_LAST_FIELD_def Let_def)

end
