(* ===== verification/Cbs.thy ===== *)
theory Cbs
  imports C_Prelude
begin

text \<open>
  BoringSSL's byte-string parser (\<open>crypto/bytestring/cbs.c\<close>). A \<open>CBS\<close> is a window on bytes
  that something else owns: here the list of the bytes in the window. A function that may
  fail returns its output, or \<open>None\<close>, and the window it leaves, which is the old one unless
  the C function moves it before failing. Outputs of a failed call are not modelled.
\<close>

section \<open>Windows\<close>

type_synonym cbs = "u8 list"
type_synonym 'a parse = "'a option \<times> cbs"

definition CBS_len :: "cbs \<Rightarrow> u64" where
  "CBS_len cbs = of_nat (length cbs)"

definition CBS_init :: "u8 list \<Rightarrow> u64 \<Rightarrow> cbs" where
  "CBS_init data len = take (unat len) data"

definition cbs_get :: "cbs \<Rightarrow> u64 \<Rightarrow> u8 list parse" where
  "cbs_get cbs n = (if CBS_len cbs < n then (None, cbs) else (Some (take (unat n) cbs), drop (unat n) cbs))"

definition CBS_skip :: "cbs \<Rightarrow> u64 \<Rightarrow> unit parse" where
  "CBS_skip cbs len = pthen (cbs_get cbs len) (\<lambda>_ c. (Some (), c))"

text \<open>\<open>alloc\<close> is whether the allocator serves the call. The inner option is the new \<open>*out_ptr\<close>.\<close>

definition CBS_stow :: "bool \<Rightarrow> cbs \<Rightarrow> u8 list option option" where
  "CBS_stow alloc cbs = (if cbs = [] then Some None else if alloc then Some (Some cbs) else None)"

definition CBS_strdup :: "bool \<Rightarrow> cbs \<Rightarrow> u8 list option" where
  "CBS_strdup alloc cbs = (if alloc then Some (takeWhile (\<lambda>b. b \<noteq> 0) cbs @ [0]) else None)"

definition CBS_contains_zero_byte :: "cbs \<Rightarrow> bool" where
  "CBS_contains_zero_byte cbs \<longleftrightarrow> list_ex (\<lambda>b. b = 0) cbs"

definition CBS_mem_equal :: "cbs \<Rightarrow> u8 list \<Rightarrow> bool" where
  "CBS_mem_equal cbs data \<longleftrightarrow> length data = length cbs \<and> cbs = data"

section \<open>Integers and strings\<close>

definition cbs_get_u :: "cbs \<Rightarrow> u64 \<Rightarrow> u64 parse" where
  "cbs_get_u cbs len = pthen (cbs_get cbs len) (\<lambda>data c. (Some (be_word data), c))"

definition CBS_get_u8 :: "cbs \<Rightarrow> u8 parse" where
  "CBS_get_u8 cbs = pthen (cbs_get cbs 1) (\<lambda>v c. (Some (hd v), c))"

definition CBS_get_u16 :: "cbs \<Rightarrow> u16 parse" where
  "CBS_get_u16 cbs = pthen (cbs_get_u cbs 2) (\<lambda>v c. (Some (ucast v), c))"

definition CRYPTO_bswap2 :: "u16 \<Rightarrow> u16" where "CRYPTO_bswap2 x = le_word (rev (le_bytes 2 x))"
definition CRYPTO_bswap4 :: "u32 \<Rightarrow> u32" where "CRYPTO_bswap4 x = le_word (rev (le_bytes 4 x))"
definition CRYPTO_bswap8 :: "u64 \<Rightarrow> u64" where "CRYPTO_bswap8 x = le_word (rev (le_bytes 8 x))"

definition CBS_get_u16le :: "cbs \<Rightarrow> u16 parse" where
  "CBS_get_u16le cbs = pthen (CBS_get_u16 cbs) (\<lambda>v c. (Some (CRYPTO_bswap2 v), c))"

definition CBS_get_u24 :: "cbs \<Rightarrow> u32 parse" where
  "CBS_get_u24 cbs = pthen (cbs_get_u cbs 3) (\<lambda>v c. (Some (ucast v), c))"

definition CBS_get_u32 :: "cbs \<Rightarrow> u32 parse" where
  "CBS_get_u32 cbs = pthen (cbs_get_u cbs 4) (\<lambda>v c. (Some (ucast v), c))"

definition CBS_get_u32le :: "cbs \<Rightarrow> u32 parse" where
  "CBS_get_u32le cbs = pthen (CBS_get_u32 cbs) (\<lambda>v c. (Some (CRYPTO_bswap4 v), c))"

definition CBS_get_u64 :: "cbs \<Rightarrow> u64 parse" where
  "CBS_get_u64 cbs = cbs_get_u cbs 8"

definition CBS_get_u64le :: "cbs \<Rightarrow> u64 parse" where
  "CBS_get_u64le cbs = pthen (cbs_get_u cbs 8) (\<lambda>v c. (Some (CRYPTO_bswap8 v), c))"

definition CBS_get_last_u8 :: "cbs \<Rightarrow> u8 parse" where
  "CBS_get_last_u8 cbs = (if cbs = [] then (None, cbs) else (Some (last cbs), butlast cbs))"

definition CBS_get_bytes :: "cbs \<Rightarrow> u64 \<Rightarrow> cbs parse" where
  "CBS_get_bytes cbs len = cbs_get cbs len"

definition CBS_copy_bytes :: "cbs \<Rightarrow> u64 \<Rightarrow> u8 list parse" where
  "CBS_copy_bytes cbs len = cbs_get cbs len"

definition cbs_get_length_prefixed :: "cbs \<Rightarrow> u64 \<Rightarrow> cbs parse" where
  "cbs_get_length_prefixed cbs len_len = pthen (cbs_get_u cbs len_len) (\<lambda>len c. CBS_get_bytes c len)"

definition CBS_get_u8_length_prefixed :: "cbs \<Rightarrow> cbs parse" where
  "CBS_get_u8_length_prefixed cbs = cbs_get_length_prefixed cbs 1"

definition CBS_get_u16_length_prefixed :: "cbs \<Rightarrow> cbs parse" where
  "CBS_get_u16_length_prefixed cbs = cbs_get_length_prefixed cbs 2"

definition CBS_get_u24_length_prefixed :: "cbs \<Rightarrow> cbs parse" where
  "CBS_get_u24_length_prefixed cbs = cbs_get_length_prefixed cbs 3"

definition CBS_get_until_first :: "cbs \<Rightarrow> u8 \<Rightarrow> cbs parse" where
  "CBS_get_until_first cbs c =
     (if list_ex (\<lambda>b. b = c) cbs then CBS_get_bytes cbs (of_nat (length (takeWhile (\<lambda>b. b \<noteq> c) cbs)))
      else (None, cbs))"

section \<open>ASN.1 tags and elements\<close>

fun base128_loop :: "u64 \<Rightarrow> cbs \<Rightarrow> u64 parse" where
  "base128_loop v [] = (None, [])"
| "base128_loop v (b # cbs) =
     (if drop_bit 57 v \<noteq> 0 \<or> (v = 0 \<and> b = 0x80) then (None, cbs)
      else let v' = push_bit 7 v OR ucast (b AND 0x7F)
           in if b AND 0x80 \<noteq> 0 then base128_loop v' cbs else (Some v', cbs))"

definition parse_base128_integer :: "cbs \<Rightarrow> u64 parse" where
  "parse_base128_integer cbs = base128_loop 0 cbs"

abbreviation (input) CBS_ASN1_CONSTRUCTED :: u32 where "CBS_ASN1_CONSTRUCTED \<equiv> 0x20000000"
abbreviation (input) CBS_ASN1_TAG_NUMBER_MASK :: u32 where "CBS_ASN1_TAG_NUMBER_MASK \<equiv> 0x1FFFFFFF"
abbreviation (input) CBS_ASN1_BOOLEAN :: u32 where "CBS_ASN1_BOOLEAN \<equiv> 1"
abbreviation (input) CBS_ASN1_INTEGER :: u32 where "CBS_ASN1_INTEGER \<equiv> 2"
abbreviation (input) CBS_ASN1_OCTETSTRING :: u32 where "CBS_ASN1_OCTETSTRING \<equiv> 4"

definition parse_asn1_tag :: "cbs \<Rightarrow> u32 parse" where
  "parse_asn1_tag cbs =
     pthen (CBS_get_u8 cbs) (\<lambda>tag_byte c.
       let tag = push_bit 24 (ucast tag_byte AND 0xE0 :: u32);
           tag_number :: u32 = ucast (tag_byte AND 0x1F)
       in if tag_number = 0x1F then
            pthen (parse_base128_integer c) (\<lambda>v c.
              if ucast CBS_ASN1_TAG_NUMBER_MASK < v \<or> v < 0x1F then (None, c)
              else (Some (tag OR ucast v), c))
          else (Some (tag OR tag_number), c))"

text \<open>An element's bytes, its tag, the length of its header and whether it is BER but not DER.\<close>

type_synonym element = "cbs \<times> u32 \<times> u64 \<times> bool"

definition element_bytes :: "cbs \<Rightarrow> u32 \<Rightarrow> u64 \<Rightarrow> u64 \<Rightarrow> bool \<Rightarrow> element parse" where
  "element_bytes cbs tag len header_len ber_found =
     pthen (CBS_get_bytes cbs len) (\<lambda>out c. (Some (out, tag, header_len, ber_found), c))"

definition cbs_get_any_asn1_element :: "bool \<Rightarrow> cbs \<Rightarrow> element parse" where
  "cbs_get_any_asn1_element ber_ok cbs =
     (case parse_asn1_tag cbs of
        (None, _) \<Rightarrow> (None, cbs)
      | (Some tag, header) \<Rightarrow>
     (case CBS_get_u8 header of
        (None, _) \<Rightarrow> (None, cbs)
      | (Some length_byte, header) \<Rightarrow>
     (let header_len = CBS_len cbs - CBS_len header in
      if length_byte AND 0x80 = 0 then
        element_bytes cbs tag (ucast length_byte + header_len) header_len False
      else
        (let num_bytes :: u64 = ucast (length_byte AND 0x7F) in
         if ber_ok \<and> tag AND CBS_ASN1_CONSTRUCTED \<noteq> 0 \<and> num_bytes = 0 then
           element_bytes cbs tag header_len header_len True
         else if num_bytes = 0 \<or> 4 < num_bytes then (None, cbs)
         else case cbs_get_u header num_bytes of
           (None, _) \<Rightarrow> (None, cbs)
         | (Some len64, header) \<Rightarrow>
             (let ber_found = (len64 < 128 \<or> drop_bit (unat ((num_bytes - 1) * 8)) len64 = 0) in
              if ber_found \<and> \<not> ber_ok then (None, cbs)
              else if len64 + header_len + num_bytes < len64 then (None, cbs)
              else element_bytes cbs tag (len64 + (header_len + num_bytes)) (header_len + num_bytes) ber_found)))))"

definition CBS_get_any_asn1_element :: "cbs \<Rightarrow> element parse" where
  "CBS_get_any_asn1_element cbs = cbs_get_any_asn1_element False cbs"

definition CBS_get_any_ber_asn1_element :: "cbs \<Rightarrow> element parse" where
  "CBS_get_any_ber_asn1_element cbs = cbs_get_any_asn1_element True cbs"

definition CBS_get_any_asn1 :: "cbs \<Rightarrow> (cbs \<times> u32) parse" where
  "CBS_get_any_asn1 cbs =
     pthen (CBS_get_any_asn1_element cbs) (\<lambda>(out, tag, header_len, _) c.
       case CBS_skip out header_len of
         (None, _) \<Rightarrow> (None, c)
       | (Some _, out) \<Rightarrow> (Some (out, tag), c))"

text \<open>An element with the wrong tag is consumed all the same.\<close>

definition cbs_get_asn1 :: "cbs \<Rightarrow> u32 \<Rightarrow> bool \<Rightarrow> cbs parse" where
  "cbs_get_asn1 cbs tag_value skip_header =
     pthen (CBS_get_any_asn1_element cbs) (\<lambda>(out, tag, header_len, _) c.
       if tag \<noteq> tag_value then (None, c)
       else if skip_header then
         (case CBS_skip out header_len of (None, _) \<Rightarrow> (None, c) | (Some _, out) \<Rightarrow> (Some out, c))
       else (Some out, c))"

definition CBS_get_asn1 :: "cbs \<Rightarrow> u32 \<Rightarrow> cbs parse" where
  "CBS_get_asn1 cbs tag_value = cbs_get_asn1 cbs tag_value True"

definition CBS_get_asn1_element :: "cbs \<Rightarrow> u32 \<Rightarrow> cbs parse" where
  "CBS_get_asn1_element cbs tag_value = cbs_get_asn1 cbs tag_value False"

definition CBS_peek_asn1_tag :: "cbs \<Rightarrow> u32 \<Rightarrow> bool" where
  "CBS_peek_asn1_tag cbs tag_value \<longleftrightarrow> CBS_len cbs \<ge> 1 \<and> fst (parse_asn1_tag cbs) = Some tag_value"

section \<open>ASN.1 values\<close>

text \<open>\<open>Some neg\<close>: a minimal two's complement integer with that sign.\<close>

definition CBS_is_valid_asn1_integer :: "cbs \<Rightarrow> bool option" where
  "CBS_is_valid_asn1_integer cbs =
     (case CBS_get_u8 cbs of
        (None, _) \<Rightarrow> None
      | (Some first_byte, copy) \<Rightarrow>
          (case CBS_get_u8 copy of
             (None, _) \<Rightarrow> Some (first_byte AND 0x80 \<noteq> 0)
           | (Some second_byte, _) \<Rightarrow>
               if (first_byte = 0 \<and> second_byte AND 0x80 = 0) \<or> (first_byte = 0xFF \<and> second_byte AND 0x80 \<noteq> 0)
               then None else Some (first_byte AND 0x80 \<noteq> 0)))"

definition CBS_is_unsigned_asn1_integer :: "cbs \<Rightarrow> bool" where
  "CBS_is_unsigned_asn1_integer cbs \<longleftrightarrow> CBS_is_valid_asn1_integer cbs = Some False"

fun uint64_loop :: "u64 \<Rightarrow> u8 list \<Rightarrow> u64 option" where
  "uint64_loop out [] = Some out"
| "uint64_loop out (b # data) =
     (if drop_bit 56 out \<noteq> 0 then None else uint64_loop (push_bit 8 out OR ucast b) data)"

definition CBS_get_asn1_uint64 :: "cbs \<Rightarrow> u64 parse" where
  "CBS_get_asn1_uint64 cbs =
     pthen (CBS_get_asn1 cbs CBS_ASN1_INTEGER) (\<lambda>bytes c.
       if \<not> CBS_is_unsigned_asn1_integer bytes then (None, c) else (uint64_loop 0 bytes, c))"

text \<open>The union of an \<open>int64_t\<close> and its bytes, on a little-endian machine.\<close>

definition CBS_get_asn1_int64 :: "cbs \<Rightarrow> u64 parse" where
  "CBS_get_asn1_int64 cbs =
     pthen (CBS_get_asn1 cbs CBS_ASN1_INTEGER) (\<lambda>bytes c.
       case CBS_is_valid_asn1_integer bytes of
         None \<Rightarrow> (None, c)
       | Some is_negative \<Rightarrow>
           if 8 < CBS_len bytes then (None, c)
           else (Some (le_word (rev bytes @ replicate (8 - length bytes) (if is_negative then 0xFF else 0))), c))"

definition CBS_get_asn1_bool :: "cbs \<Rightarrow> bool parse" where
  "CBS_get_asn1_bool cbs =
     pthen (CBS_get_asn1 cbs CBS_ASN1_BOOLEAN) (\<lambda>bytes c.
       if CBS_len bytes \<noteq> 1 then (None, c)
       else if hd bytes \<noteq> 0 \<and> hd bytes \<noteq> 0xFF then (None, c)
       else (Some (hd bytes \<noteq> 0), c))"

definition CBS_get_optional_asn1 :: "cbs \<Rightarrow> u32 \<Rightarrow> cbs option parse" where
  "CBS_get_optional_asn1 cbs tag =
     (if CBS_peek_asn1_tag cbs tag then pthen (CBS_get_asn1 cbs tag) (\<lambda>out c. (Some (Some out), c))
      else (Some None, cbs))"

definition CBS_get_optional_asn1_octet_string :: "cbs \<Rightarrow> u32 \<Rightarrow> (cbs \<times> bool) parse" where
  "CBS_get_optional_asn1_octet_string cbs tag =
     pthen (CBS_get_optional_asn1 cbs tag) (\<lambda>child c.
       case child of
         None \<Rightarrow> (Some ([], False), c)
       | Some child \<Rightarrow>
           (case CBS_get_asn1 child CBS_ASN1_OCTETSTRING of
              (None, _) \<Rightarrow> (None, c)
            | (Some out, child) \<Rightarrow> if CBS_len child \<noteq> 0 then (None, c) else (Some (out, True), c)))"

definition CBS_get_optional_asn1_uint64 :: "cbs \<Rightarrow> u32 \<Rightarrow> u64 \<Rightarrow> u64 parse" where
  "CBS_get_optional_asn1_uint64 cbs tag default_value =
     pthen (CBS_get_optional_asn1 cbs tag) (\<lambda>child c.
       case child of
         None \<Rightarrow> (Some default_value, c)
       | Some child \<Rightarrow>
           (case CBS_get_asn1_uint64 child of
              (None, _) \<Rightarrow> (None, c)
            | (Some out, child) \<Rightarrow> if CBS_len child \<noteq> 0 then (None, c) else (Some out, c)))"

definition CBS_get_optional_asn1_bool :: "cbs \<Rightarrow> u32 \<Rightarrow> bool \<Rightarrow> bool parse" where
  "CBS_get_optional_asn1_bool cbs tag default_value =
     pthen (CBS_get_optional_asn1 cbs tag) (\<lambda>child c.
       case child of
         None \<Rightarrow> (Some default_value, c)
       | Some child \<Rightarrow>
           (case CBS_get_asn1 child CBS_ASN1_BOOLEAN of
              (None, _) \<Rightarrow> (None, c)
            | (Some child2, child) \<Rightarrow>
                if CBS_len child2 \<noteq> 1 \<or> CBS_len child \<noteq> 0 then (None, c)
                else if hd child2 = 0 then (Some False, c)
                else if hd child2 = 0xFF then (Some True, c)
                else (None, c)))"

definition CBS_is_valid_asn1_bitstring :: "cbs \<Rightarrow> bool" where
  "CBS_is_valid_asn1_bitstring cbs =
     (case CBS_get_u8 cbs of
        (None, _) \<Rightarrow> False
      | (Some num_unused_bits, rest) \<Rightarrow>
          if 7 < num_unused_bits then False
          else if num_unused_bits = 0 then True
          else (case CBS_get_last_u8 rest of
                  (None, _) \<Rightarrow> False
                | (Some last_byte, _) \<Rightarrow> last_byte AND (push_bit (unat num_unused_bits) 1 - 1) = 0))"

definition CBS_asn1_bitstring_has_bit :: "cbs \<Rightarrow> u32 \<Rightarrow> bool" where
  "CBS_asn1_bitstring_has_bit cbs i =
     (CBS_is_valid_asn1_bitstring cbs \<and>
      (let byte_num = drop_bit 3 i + 1; bit_num = 7 - (i AND 7) in
       ucast byte_num < CBS_len cbs \<and> (cbs ! unat byte_num) AND push_bit (unat bit_num) 1 \<noteq> 0))"

end
