(* ===== verification/Cbb.thy ===== *)
theory Cbb
  imports Cbs
begin

text \<open>
  BoringSSL's byte-string builder (\<open>crypto/bytestring/cbb.c\<close>). A tree of \<open>CBB\<close> objects
  shares one growing buffer; an object with a pending length prefix is the child of another.
  The objects live at addresses, as the caller's local variables do, and point to each
  other, so the state is a store of objects together with the buffer.

  The allocator is a parameter: whether it serves a request, and what fresh memory holds.
  An access outside the buffer, which C leaves undefined, sets the flag \<open>b_undef\<close>. The
  recursion of \<open>CBB_flush\<close> follows the chain of children; it is on fuel, and running out
  of it sets the same flag.
\<close>

section \<open>State\<close>

record cbb_buffer =
  b_buf :: "u8 list"
  b_len :: u64
  b_cap :: u64
  can_resize :: bool
  b_error :: bool
  b_undef :: bool

record cbb =
  c_base :: bool
  c_child :: addr
  c_offset :: u64
  c_pending_len_len :: u8
  c_pending_is_asn1 :: bool
  c_is_child :: bool

record cbb_state =
  cbbs :: "addr \<Rightarrow> cbb"
  cbase :: cbb_buffer

record cbb_env =
  may_alloc :: "u64 \<Rightarrow> bool"
  fresh_byte :: "nat \<Rightarrow> u8"

type_synonym 'a build = "'a option \<times> cbb_state"

definition CBB_zero :: cbb where
  "CBB_zero = \<lparr>c_base = False, c_child = 0, c_offset = 0, c_pending_len_len = 0, c_pending_is_asn1 = False, c_is_child = False\<rparr>"

definition cbb_upd :: "addr \<Rightarrow> (cbb \<Rightarrow> cbb) \<Rightarrow> cbb_state \<Rightarrow> cbb_state" where
  "cbb_upd p f st = st\<lparr>cbbs := (cbbs st)(p := f (cbbs st p))\<rparr>"

definition set_error :: "cbb_state \<Rightarrow> cbb_state" where
  "set_error st = st\<lparr>cbase := (cbase st)\<lparr>b_error := True\<rparr>\<rparr>"

definition set_undef :: "cbb_state \<Rightarrow> cbb_state" where
  "set_undef st = st\<lparr>cbase := (cbase st)\<lparr>b_undef := True\<rparr>\<rparr>"

text \<open>\<open>buf\<close> has \<open>cap\<close> bytes; \<open>can\<close> is whether the base structure could be allocated.\<close>

definition cbb_init :: "bool \<Rightarrow> addr \<Rightarrow> u8 list \<Rightarrow> u64 \<Rightarrow> cbb_state \<Rightarrow> unit build" where
  "cbb_init can p buf cap st =
     (if can then
        (Some (), cbb_upd p (\<lambda>c. c\<lparr>c_base := True, c_is_child := False\<rparr>)
           (st\<lparr>cbase := \<lparr>b_buf = buf, b_len = 0, b_cap = cap, can_resize = True, b_error = False, b_undef = False\<rparr>\<rparr>))
      else (None, st))"

definition CBB_init :: "cbb_env \<Rightarrow> bool \<Rightarrow> addr \<Rightarrow> u64 \<Rightarrow> cbb_state \<Rightarrow> unit build" where
  "CBB_init env can p initial_capacity st =
     (let st = cbb_upd p (\<lambda>_. CBB_zero) st in
      if 0 < initial_capacity \<and> \<not> may_alloc env initial_capacity then (None, st)
      else cbb_init can p (map (fresh_byte env) [0..<unat initial_capacity]) initial_capacity st)"

definition CBB_init_fixed :: "bool \<Rightarrow> addr \<Rightarrow> u8 list \<Rightarrow> u64 \<Rightarrow> cbb_state \<Rightarrow> unit build" where
  "CBB_init_fixed can p buf len st =
     pthen (cbb_init can p buf len (cbb_upd p (\<lambda>_. CBB_zero) st))
       (\<lambda>_ st. (Some (), st\<lparr>cbase := (cbase st)\<lparr>can_resize := False\<rparr>\<rparr>))"

definition CBB_cleanup :: "addr \<Rightarrow> cbb_state \<Rightarrow> cbb_state" where
  "CBB_cleanup p st = (if c_is_child (cbbs st p) then st else cbb_upd p (\<lambda>c. c\<lparr>c_base := False\<rparr>) st)"

section \<open>The buffer\<close>

definition poke :: "nat \<Rightarrow> u8 list \<Rightarrow> cbb_buffer \<Rightarrow> cbb_buffer" where
  "poke off bs b =
     (if off + length bs \<le> length (b_buf b)
      then b\<lparr>b_buf := take off (b_buf b) @ bs @ drop (off + length bs) (b_buf b)\<rparr>
      else b\<lparr>b_undef := True\<rparr>)"

text \<open>The value is the offset \<open>*out\<close> points to.\<close>

definition cbb_buffer_reserve :: "cbb_env \<Rightarrow> u64 \<Rightarrow> cbb_buffer \<Rightarrow> u64 option \<times> cbb_buffer" where
  "cbb_buffer_reserve env len b =
     (let newlen = b_len b + len; err = (None, b\<lparr>b_error := True\<rparr>) in
      if newlen < b_len b then err
      else if newlen > b_cap b then
        (let newcap = b_cap b * 2;
             newcap = (if newcap < b_cap b \<or> newcap < newlen then newlen else newcap)
         in if \<not> can_resize b \<or> \<not> may_alloc env newcap then err
            else (Some (b_len b), b\<lparr>b_buf := take (unat newcap) (b_buf b) @ map (fresh_byte env) [unat (b_cap b)..<unat newcap],
                     b_cap := newcap\<rparr>))
      else (Some (b_len b), b))"

definition cbb_buffer_add :: "cbb_env \<Rightarrow> u64 \<Rightarrow> cbb_buffer \<Rightarrow> u64 option \<times> cbb_buffer" where
  "cbb_buffer_add env len b =
     pthen (cbb_buffer_reserve env len b) (\<lambda>out b. (Some out, b\<lparr>b_len := b_len b + len\<rparr>))"

text \<open>\<open>for (i = len_len - 1; i < len_len; i--) { buf[i] = v; v >>= 8; }\<close> leaves the big-endian bytes of \<open>v\<close>.\<close>

definition cbb_buffer_add_u :: "cbb_env \<Rightarrow> u64 \<Rightarrow> nat \<Rightarrow> cbb_buffer \<Rightarrow> unit option \<times> cbb_buffer" where
  "cbb_buffer_add_u env v len_len b =
     (if len_len = 0 then (Some (), b)
      else pthen (cbb_buffer_add env (of_nat len_len) b) (\<lambda>out b.
        let b' = poke (unat out) (be_bytes len_len v) b in
        if drop_bit (8 * len_len) v \<noteq> 0 then (None, b'\<lparr>b_error := True\<rparr>) else (Some (), b')))"

definition on_base :: "(cbb_buffer \<Rightarrow> 'a option \<times> cbb_buffer) \<Rightarrow> cbb_state \<Rightarrow> 'a build" where
  "on_base f st = (case f (cbase st) of (r, b) \<Rightarrow> (r, st\<lparr>cbase := b\<rparr>))"

section \<open>Flushing\<close>

text \<open>The DER length of \<open>len\<close> bytes: how many octets, and the first of them.\<close>

definition der_len_len :: "u64 \<Rightarrow> nat \<times> u8" where
  "der_len_len len =
     (if len > 0xFFFFFF then (5, 0x84)
      else if len > 0xFFFF then (4, 0x83)
      else if len > 0xFF then (3, 0x82)
      else if len > 0x7F then (2, 0x81)
      else (1, ucast len))"

text \<open>
  Writing the pending length prefix of the child \<open>q\<close> of \<open>p\<close>, whose contents start at
  \<open>child_start\<close> and reach to the end of the buffer.
\<close>

definition write_prefix :: "addr \<Rightarrow> addr \<Rightarrow> u64 \<Rightarrow> cbb_state \<Rightarrow> unit build" where
  "write_prefix p q len st =
     (let ch = cbbs st q; n = unat (c_pending_len_len ch);
          st = st\<lparr>cbase := poke (unat (c_offset ch)) (be_bytes n len) (cbase st)\<rparr>
      in if drop_bit (8 * n) len \<noteq> 0 then (None, set_error st)
         else (Some (), cbb_upd p (\<lambda>c. c\<lparr>c_child := 0\<rparr>) (cbb_upd q (\<lambda>c. c\<lparr>c_base := False\<rparr>) st)))"

definition flush_child :: "cbb_env \<Rightarrow> addr \<Rightarrow> addr \<Rightarrow> u64 \<Rightarrow> cbb_state \<Rightarrow> unit build" where
  "flush_child env p q child_start st =
     (let len = b_len (cbase st) - child_start in
      if c_pending_is_asn1 (cbbs st q) then
        if len > 0xFFFFFFFE then (None, set_error st)
        else
          (let (len_len, initial_length_byte) = der_len_len len;
               extra = len_len - 1;
               header = (\<lambda>st. write_prefix p q (if len_len = 1 then 0 else len)
                 (cbb_upd q (\<lambda>c. c\<lparr>c_offset := c_offset c + 1, c_pending_len_len := of_nat extra\<rparr>)
                   (st\<lparr>cbase := poke (unat (c_offset (cbbs st q))) [initial_length_byte] (cbase st)\<rparr>)))
           in if len_len = 1 then header st
              else case cbb_buffer_add env (of_nat extra) (cbase st) of
                (None, b) \<Rightarrow> (None, set_error (st\<lparr>cbase := b\<rparr>))
              | (Some _, b) \<Rightarrow>
                  header (st\<lparr>cbase := poke (unat child_start + extra) (take (unat len) (drop (unat child_start) (b_buf b))) b\<rparr>))
      else write_prefix p q len st)"

fun CBB_flush :: "nat \<Rightarrow> cbb_env \<Rightarrow> addr \<Rightarrow> cbb_state \<Rightarrow> unit build" where
  "CBB_flush 0 env p st = (None, set_undef st)"
| "CBB_flush (Suc n) env p st =
     (if \<not> c_base (cbbs st p) \<or> b_error (cbase st) then (None, st)
      else
        (let q = c_child (cbbs st p) in
         if q = 0 \<or> c_pending_len_len (cbbs st q) = 0 then (Some (), st)
         else
           (let offset = c_offset (cbbs st q);
                child_start = offset + ucast (c_pending_len_len (cbbs st q))
            in case CBB_flush n env q st of
                 (None, st) \<Rightarrow> (None, set_error st)
               | (Some _, st) \<Rightarrow>
                   if child_start < offset \<or> b_len (cbase st) < child_start then (None, set_error st)
                   else flush_child env p q child_start st)))"

text \<open>The output is the buffer's contents; the base is released, so the object is dead.\<close>

definition CBB_finish :: "nat \<Rightarrow> cbb_env \<Rightarrow> addr \<Rightarrow> bool \<Rightarrow> cbb_state \<Rightarrow> u8 list build" where
  "CBB_finish n env p want_output st =
     (if c_is_child (cbbs st p) then (None, st)
      else pthen (CBB_flush n env p st) (\<lambda>_ st.
        if can_resize (cbase st) \<and> \<not> want_output then (None, st)
        else (Some (take (unat (b_len (cbase st))) (b_buf (cbase st))), CBB_cleanup p st)))"

definition CBB_len :: "addr \<Rightarrow> cbb_state \<Rightarrow> u64" where
  "CBB_len p st = b_len (cbase st) - c_offset (cbbs st p) - ucast (c_pending_len_len (cbbs st p))"

definition CBB_data :: "addr \<Rightarrow> cbb_state \<Rightarrow> u8 list" where
  "CBB_data p st =
     drop (unat (c_offset (cbbs st p) + ucast (c_pending_len_len (cbbs st p)))) (take (unat (b_len (cbase st))) (b_buf (cbase st)))"

section \<open>Children\<close>

definition new_child :: "addr \<Rightarrow> addr \<Rightarrow> u64 \<Rightarrow> u8 \<Rightarrow> bool \<Rightarrow> cbb_state \<Rightarrow> cbb_state" where
  "new_child p q offset len_len is_asn1 st =
     cbb_upd p (\<lambda>c. c\<lparr>c_child := q\<rparr>)
       (cbb_upd q (\<lambda>_. \<lparr>c_base = True, c_child = 0, c_offset = offset, c_pending_len_len = len_len,
                        c_pending_is_asn1 = is_asn1, c_is_child = True\<rparr>) st)"

definition cbb_add_length_prefixed :: "nat \<Rightarrow> cbb_env \<Rightarrow> addr \<Rightarrow> addr \<Rightarrow> u8 \<Rightarrow> cbb_state \<Rightarrow> unit build" where
  "cbb_add_length_prefixed n env p q len_len st =
     pthen (CBB_flush n env p st) (\<lambda>_ st.
     pthen (on_base (cbb_buffer_add env (ucast len_len)) st) (\<lambda>offset st.
       (Some (), new_child p q offset len_len False
          (st\<lparr>cbase := poke (unat offset) (replicate (unat len_len) 0) (cbase st)\<rparr>))))"

definition CBB_add_u8_length_prefixed :: "nat \<Rightarrow> cbb_env \<Rightarrow> addr \<Rightarrow> addr \<Rightarrow> cbb_state \<Rightarrow> unit build" where
  "CBB_add_u8_length_prefixed n env p q st = cbb_add_length_prefixed n env p q 1 st"

definition CBB_add_u16_length_prefixed :: "nat \<Rightarrow> cbb_env \<Rightarrow> addr \<Rightarrow> addr \<Rightarrow> cbb_state \<Rightarrow> unit build" where
  "CBB_add_u16_length_prefixed n env p q st = cbb_add_length_prefixed n env p q 2 st"

definition CBB_add_u24_length_prefixed :: "nat \<Rightarrow> cbb_env \<Rightarrow> addr \<Rightarrow> addr \<Rightarrow> cbb_state \<Rightarrow> unit build" where
  "CBB_add_u24_length_prefixed n env p q st = cbb_add_length_prefixed n env p q 3 st"

section \<open>Adding integers and bytes\<close>

definition add_u :: "nat \<Rightarrow> cbb_env \<Rightarrow> addr \<Rightarrow> u64 \<Rightarrow> nat \<Rightarrow> cbb_state \<Rightarrow> unit build" where
  "add_u n env p v len_len st = pthen (CBB_flush n env p st) (\<lambda>_ st. on_base (cbb_buffer_add_u env v len_len) st)"

definition CBB_add_u8 :: "nat \<Rightarrow> cbb_env \<Rightarrow> addr \<Rightarrow> u8 \<Rightarrow> cbb_state \<Rightarrow> unit build" where
  "CBB_add_u8 n env p v st = add_u n env p (ucast v) 1 st"

definition CBB_add_u16 :: "nat \<Rightarrow> cbb_env \<Rightarrow> addr \<Rightarrow> u16 \<Rightarrow> cbb_state \<Rightarrow> unit build" where
  "CBB_add_u16 n env p v st = add_u n env p (ucast v) 2 st"

definition CBB_add_u16le :: "nat \<Rightarrow> cbb_env \<Rightarrow> addr \<Rightarrow> u16 \<Rightarrow> cbb_state \<Rightarrow> unit build" where
  "CBB_add_u16le n env p v st = CBB_add_u16 n env p (CRYPTO_bswap2 v) st"

definition CBB_add_u24 :: "nat \<Rightarrow> cbb_env \<Rightarrow> addr \<Rightarrow> u32 \<Rightarrow> cbb_state \<Rightarrow> unit build" where
  "CBB_add_u24 n env p v st = add_u n env p (ucast v) 3 st"

definition CBB_add_u32 :: "nat \<Rightarrow> cbb_env \<Rightarrow> addr \<Rightarrow> u32 \<Rightarrow> cbb_state \<Rightarrow> unit build" where
  "CBB_add_u32 n env p v st = add_u n env p (ucast v) 4 st"

definition CBB_add_u32le :: "nat \<Rightarrow> cbb_env \<Rightarrow> addr \<Rightarrow> u32 \<Rightarrow> cbb_state \<Rightarrow> unit build" where
  "CBB_add_u32le n env p v st = CBB_add_u32 n env p (CRYPTO_bswap4 v) st"

definition CBB_add_u64 :: "nat \<Rightarrow> cbb_env \<Rightarrow> addr \<Rightarrow> u64 \<Rightarrow> cbb_state \<Rightarrow> unit build" where
  "CBB_add_u64 n env p v st = add_u n env p v 8 st"

definition CBB_add_u64le :: "nat \<Rightarrow> cbb_env \<Rightarrow> addr \<Rightarrow> u64 \<Rightarrow> cbb_state \<Rightarrow> unit build" where
  "CBB_add_u64le n env p v st = CBB_add_u64 n env p (CRYPTO_bswap8 v) st"

definition CBB_add_space :: "nat \<Rightarrow> cbb_env \<Rightarrow> addr \<Rightarrow> u64 \<Rightarrow> cbb_state \<Rightarrow> u64 build" where
  "CBB_add_space n env p len st = pthen (CBB_flush n env p st) (\<lambda>_ st. on_base (cbb_buffer_add env len) st)"

definition CBB_add_bytes :: "nat \<Rightarrow> cbb_env \<Rightarrow> addr \<Rightarrow> u8 list \<Rightarrow> cbb_state \<Rightarrow> unit build" where
  "CBB_add_bytes n env p data st =
     pthen (CBB_flush n env p st) (\<lambda>_ st.
     pthen (on_base (cbb_buffer_add env (of_nat (length data))) st) (\<lambda>dest st.
       (Some (), st\<lparr>cbase := poke (unat dest) data (cbase st)\<rparr>)))"

definition CBB_add_zeros :: "nat \<Rightarrow> cbb_env \<Rightarrow> addr \<Rightarrow> u64 \<Rightarrow> cbb_state \<Rightarrow> unit build" where
  "CBB_add_zeros n env p len st =
     pthen (CBB_add_space n env p len st) (\<lambda>out st.
       (Some (), st\<lparr>cbase := poke (unat out) (replicate (unat len) 0) (cbase st)\<rparr>))"

definition CBB_reserve :: "nat \<Rightarrow> cbb_env \<Rightarrow> addr \<Rightarrow> u64 \<Rightarrow> cbb_state \<Rightarrow> u64 build" where
  "CBB_reserve n env p len st = pthen (CBB_flush n env p st) (\<lambda>_ st. on_base (cbb_buffer_reserve env len) st)"

text \<open>Reading \<open>cbb->base->len\<close> of a dead object is undefined.\<close>

definition CBB_did_write :: "addr \<Rightarrow> u64 \<Rightarrow> cbb_state \<Rightarrow> unit build" where
  "CBB_did_write p len st =
     (if \<not> c_base (cbbs st p) then (None, set_undef st)
      else
        (let newlen = b_len (cbase st) + len in
         if c_child (cbbs st p) \<noteq> 0 \<or> newlen < b_len (cbase st) \<or> newlen > b_cap (cbase st) then (None, st)
         else (Some (), st\<lparr>cbase := (cbase st)\<lparr>b_len := newlen\<rparr>\<rparr>)))"

definition CBB_discard_child :: "addr \<Rightarrow> cbb_state \<Rightarrow> cbb_state" where
  "CBB_discard_child p st =
     (let q = c_child (cbbs st p) in
      if q = 0 then st
      else if \<not> c_base (cbbs st p) then set_undef st
      else cbb_upd p (\<lambda>c. c\<lparr>c_child := 0\<rparr>) (cbb_upd q (\<lambda>c. c\<lparr>c_base := False\<rparr>)
             (st\<lparr>cbase := (cbase st)\<lparr>b_len := c_offset (cbbs st q)\<rparr>\<rparr>)))"

section \<open>ASN.1\<close>

function base128_len :: "u64 \<Rightarrow> nat" where
  "base128_len copy = (if copy = 0 then 0 else Suc (base128_len (drop_bit 7 copy)))"
  by pat_completeness auto
termination
  by (relation "measure unat") (auto simp only: in_measure wf_measure intro: unat_drop_bit_less)

declare base128_len.simps [simp del]

text \<open>The bytes for \<open>i = k - 1\<close> down to 0.\<close>

fun add_base128_loop :: "nat \<Rightarrow> cbb_env \<Rightarrow> addr \<Rightarrow> u64 \<Rightarrow> nat \<Rightarrow> cbb_state \<Rightarrow> unit build" where
  "add_base128_loop n env p v 0 st = (Some (), st)"
| "add_base128_loop n env p v (Suc i) st =
     (let byte :: u8 = ucast (drop_bit (7 * i) v AND 0x7F);
          byte = (if i \<noteq> 0 then byte OR 0x80 else byte)
      in pthen (CBB_add_u8 n env p byte st) (\<lambda>_ st. add_base128_loop n env p v i st))"

definition add_base128_integer :: "nat \<Rightarrow> cbb_env \<Rightarrow> addr \<Rightarrow> u64 \<Rightarrow> cbb_state \<Rightarrow> unit build" where
  "add_base128_integer n env p v st =
     (let len_len = base128_len v in add_base128_loop n env p v (if len_len = 0 then 1 else len_len) st)"

definition CBB_add_asn1 :: "nat \<Rightarrow> cbb_env \<Rightarrow> addr \<Rightarrow> addr \<Rightarrow> u32 \<Rightarrow> cbb_state \<Rightarrow> unit build" where
  "CBB_add_asn1 n env p q tag st =
     pthen (CBB_flush n env p st) (\<lambda>_ st.
       let tag_bits :: u8 = ucast (drop_bit 24 tag AND 0xE0);
           tag_number = tag AND CBS_ASN1_TAG_NUMBER_MASK
       in pthen (if 0x1F \<le> tag_number
                 then pthen (CBB_add_u8 n env p (tag_bits OR 0x1F) st) (\<lambda>_ st. add_base128_integer n env p (ucast tag_number) st)
                 else CBB_add_u8 n env p (tag_bits OR ucast tag_number) st) (\<lambda>_ st.
          let offset = b_len (cbase st) in
          pthen (CBB_add_u8 n env p 0 st) (\<lambda>_ st. (Some (), new_child p q offset 1 True st))))"

text \<open>The loop over the bytes of \<open>value\<close>, most significant first; the flag is \<open>started\<close>.\<close>

fun uint64_bytes_loop :: "nat \<Rightarrow> cbb_env \<Rightarrow> addr \<Rightarrow> bool \<Rightarrow> u8 list \<Rightarrow> cbb_state \<Rightarrow> bool build" where
  "uint64_bytes_loop n env q started [] st = (Some started, st)"
| "uint64_bytes_loop n env q started (byte # bytes) st =
     (if \<not> started \<and> byte = 0 then uint64_bytes_loop n env q started bytes st
      else pthen (if \<not> started \<and> byte AND 0x80 \<noteq> 0 then CBB_add_u8 n env q 0 st else (Some (), st)) (\<lambda>_ st.
           pthen (CBB_add_u8 n env q byte st) (\<lambda>_ st. uint64_bytes_loop n env q True bytes st)))"

text \<open>\<open>q\<close> is the address of the local \<open>child\<close>.\<close>

definition CBB_add_asn1_uint64 :: "nat \<Rightarrow> cbb_env \<Rightarrow> addr \<Rightarrow> addr \<Rightarrow> u64 \<Rightarrow> cbb_state \<Rightarrow> unit build" where
  "CBB_add_asn1_uint64 n env p q value st =
     pthen (CBB_add_asn1 n env p q CBS_ASN1_INTEGER st) (\<lambda>_ st.
     pthen (uint64_bytes_loop n env q False (be_bytes 8 value) st) (\<lambda>started st.
     pthen (if \<not> started then CBB_add_u8 n env q 0 st else (Some (), st)) (\<lambda>_ st.
     CBB_flush n env p st)))"

fun add_bytes_loop :: "nat \<Rightarrow> cbb_env \<Rightarrow> addr \<Rightarrow> u8 list \<Rightarrow> cbb_state \<Rightarrow> unit build" where
  "add_bytes_loop n env q [] st = (Some (), st)"
| "add_bytes_loop n env q (b # bs) st = pthen (CBB_add_u8 n env q b st) (\<lambda>_ st. add_bytes_loop n env q bs st)"

text \<open>Dropping sign-extension bytes from the front of the big-endian representation.\<close>

fun skip_sign :: "u8 list \<Rightarrow> u8 list" where
  "skip_sign (a # b # bs) = (if a = 0xFF \<and> b AND 0x80 \<noteq> 0 then skip_sign (b # bs) else a # b # bs)"
| "skip_sign bs = bs"

definition CBB_add_asn1_int64 :: "nat \<Rightarrow> cbb_env \<Rightarrow> addr \<Rightarrow> addr \<Rightarrow> u64 \<Rightarrow> cbb_state \<Rightarrow> unit build" where
  "CBB_add_asn1_int64 n env p q value st =
     (if 0 \<le> sint value then CBB_add_asn1_uint64 n env p q value st
      else pthen (CBB_add_asn1 n env p q CBS_ASN1_INTEGER st) (\<lambda>_ st.
           pthen (add_bytes_loop n env q (skip_sign (be_bytes 8 value)) st) (\<lambda>_ st.
           CBB_flush n env p st)))"

definition CBB_add_asn1_octet_string :: "nat \<Rightarrow> cbb_env \<Rightarrow> addr \<Rightarrow> addr \<Rightarrow> u8 list \<Rightarrow> cbb_state \<Rightarrow> unit build" where
  "CBB_add_asn1_octet_string n env p q data st =
     pthen (CBB_add_asn1 n env p q CBS_ASN1_OCTETSTRING st) (\<lambda>_ st.
     pthen (CBB_add_bytes n env q data st) (\<lambda>_ st. CBB_flush n env p st))"

definition CBB_add_asn1_bool :: "nat \<Rightarrow> cbb_env \<Rightarrow> addr \<Rightarrow> addr \<Rightarrow> bool \<Rightarrow> cbb_state \<Rightarrow> unit build" where
  "CBB_add_asn1_bool n env p q value st =
     pthen (CBB_add_asn1 n env p q CBS_ASN1_BOOLEAN st) (\<lambda>_ st.
     pthen (CBB_add_u8 n env q (if value then 0xFF else 0) st) (\<lambda>_ st. CBB_flush n env p st))"

section \<open>Object identifiers as text\<close>

fun dotted_loop :: "u64 \<Rightarrow> bool \<Rightarrow> cbs \<Rightarrow> u64 parse" where
  "dotted_loop out seen_digit [] = (if seen_digit then Some out else None, [])"
| "dotted_loop out seen_digit (u # cbs) =
     (if u = 0x2E \<and> CBS_len cbs > 0 then (if seen_digit then Some out else None, cbs)
      else if u < 0x30 \<or> u > 0x39 \<or> (seen_digit \<and> out = 0) \<or> out > (- 1) div 10
              \<or> out * 10 > - 1 - ucast (u - 0x30)
      then (None, cbs)
      else dotted_loop (out * 10 + ucast (u - 0x30)) True cbs)"

definition parse_dotted_decimal :: "cbs \<Rightarrow> u64 parse" where
  "parse_dotted_decimal cbs = dotted_loop 0 False cbs"

lemma dotted_length: "length (snd (dotted_loop out seen cbs)) \<le> length cbs - 1"
  by (induction out seen cbs rule: dotted_loop.induct) (auto simp: Let_def neq_Nil_conv)

function oid_components :: "nat \<Rightarrow> cbb_env \<Rightarrow> addr \<Rightarrow> cbs \<Rightarrow> cbb_state \<Rightarrow> unit build" where
  "oid_components n env p cbs st =
     (if cbs = [] then (Some (), st)
      else case parse_dotted_decimal cbs of
        (None, _) \<Rightarrow> (None, st)
      | (Some a, cbs') \<Rightarrow> pthen (add_base128_integer n env p a st) (\<lambda>_ st. oid_components n env p cbs' st))"
  by pat_completeness auto
termination
proof (relation "measure (\<lambda>(n, env, p, cbs, st). length cbs)", goal_cases)
  case (2 n env p cbs st x1 cbs' x2 a b)
  then have "length cbs' \<le> length cbs - 1" using dotted_length [of 0 False cbs]
    by (metis parse_dotted_decimal_def snd_conv)
  then show ?case using 2(1) by (cases cbs) auto
qed simp

declare oid_components.simps [simp del]

definition CBB_add_asn1_oid_from_text :: "nat \<Rightarrow> cbb_env \<Rightarrow> addr \<Rightarrow> u8 list \<Rightarrow> cbb_state \<Rightarrow> unit build" where
  "CBB_add_asn1_oid_from_text n env p text st =
     pthen (CBB_flush n env p st) (\<lambda>_ st.
       case parse_dotted_decimal text of
         (None, _) \<Rightarrow> (None, st)
       | (Some a, cbs) \<Rightarrow>
           (case parse_dotted_decimal cbs of
              (None, _) \<Rightarrow> (None, st)
            | (Some b, cbs) \<Rightarrow>
                if a > 2 \<or> (a < 2 \<and> b > 39) \<or> b > - 1 - 80 then (None, st)
                else pthen (add_base128_integer n env p (40 * a + b) st) (\<lambda>_ st. oid_components n env p cbs st)))"

text \<open>\<open>snprintf("%" PRIu64)\<close>\<close>

fun decimal :: "nat \<Rightarrow> u8 list" where
  "decimal v = (if v < 10 then [of_nat (48 + v)] else decimal (v div 10) @ [of_nat (48 + v mod 10)])"

declare decimal.simps [simp del]

definition add_decimal :: "nat \<Rightarrow> cbb_env \<Rightarrow> addr \<Rightarrow> u64 \<Rightarrow> cbb_state \<Rightarrow> unit build" where
  "add_decimal n env p v st = CBB_add_bytes n env p (decimal (unat v)) st"

lemma base128_length: "length (snd (base128_loop v cbs)) \<le> length cbs - 1"
  by (induction v cbs rule: base128_loop.induct) (auto simp: Let_def)

function oid_text_loop :: "nat \<Rightarrow> cbb_env \<Rightarrow> addr \<Rightarrow> cbs \<Rightarrow> cbb_state \<Rightarrow> unit build" where
  "oid_text_loop n env p cbs st =
     (if cbs = [] then (Some (), st)
      else case parse_base128_integer cbs of
        (None, _) \<Rightarrow> (None, st)
      | (Some v, cbs') \<Rightarrow>
          pthen (CBB_add_u8 n env p 0x2E st) (\<lambda>_ st.
          pthen (add_decimal n env p v st) (\<lambda>_ st. oid_text_loop n env p cbs' st)))"
  by pat_completeness auto
termination
proof (relation "measure (\<lambda>(n, env, p, cbs, st). length cbs)", goal_cases)
  case (2 n env p cbs st x1 cbs' x2 a b c d)
  then have "length cbs' \<le> length cbs - 1" using base128_length [of 0 cbs]
    by (metis parse_base128_integer_def snd_conv)
  then show ?case using 2(1) by (cases cbs) auto
qed simp

declare oid_text_loop.simps [simp del]

text \<open>\<open>p\<close> is the address of the local \<open>cbb\<close>. The returned string ends with a zero byte.\<close>

definition CBS_asn1_oid_to_text :: "nat \<Rightarrow> cbb_env \<Rightarrow> bool \<Rightarrow> addr \<Rightarrow> cbs \<Rightarrow> cbb_state \<Rightarrow> u8 list option" where
  "CBS_asn1_oid_to_text n env can p cbs st =
     fst (pthen (CBB_init env can p 32 st) (\<lambda>_ st.
       case parse_base128_integer cbs of
         (None, _) \<Rightarrow> (None, st)
       | (Some v, copy) \<Rightarrow>
           pthen (if v \<ge> 80
                  then pthen (CBB_add_bytes n env p [0x32, 0x2E] st) (\<lambda>_ st. add_decimal n env p (v - 80) st)
                  else pthen (add_decimal n env p (v div 40) st) (\<lambda>_ st.
                       pthen (CBB_add_u8 n env p 0x2E st) (\<lambda>_ st. add_decimal n env p (v mod 40) st))) (\<lambda>_ st.
           pthen (oid_text_loop n env p copy st) (\<lambda>_ st.
           pthen (CBB_add_u8 n env p 0 st) (\<lambda>_ st. CBB_finish n env p True st)))))"

section \<open>Sets\<close>

fun memcmp :: "u8 list \<Rightarrow> u8 list \<Rightarrow> int" where
  "memcmp (a # as) (b # bs) = (if a = b then memcmp as bs else if a < b then - 1 else 1)"
| "memcmp _ _ = 0"

definition compare_set_of_element :: "cbs \<Rightarrow> cbs \<Rightarrow> int" where
  "compare_set_of_element a b =
     (let ret = memcmp a b in
      if ret \<noteq> 0 then ret
      else if length a = length b then 0
      else if length a < length b then - 1 else 1)"

text \<open>\<open>qsort\<close>: elements that compare equal are equal, so any correct sort gives this list.\<close>

fun insert_by :: "('a \<Rightarrow> 'a \<Rightarrow> int) \<Rightarrow> 'a \<Rightarrow> 'a list \<Rightarrow> 'a list" where
  "insert_by cmp x [] = [x]"
| "insert_by cmp x (y # ys) = (if cmp x y \<le> 0 then x # y # ys else y # insert_by cmp x ys)"

definition qsort :: "('a \<Rightarrow> 'a \<Rightarrow> int) \<Rightarrow> 'a list \<Rightarrow> 'a list" where
  "qsort cmp xs = foldr (insert_by cmp) xs []"

text \<open>The elements of a window, as long as they parse; \<open>None\<close> when one does not.\<close>

fun set_children :: "nat \<Rightarrow> cbs \<Rightarrow> cbs list option" where
  "set_children 0 cbs = (if cbs = [] then Some [] else None)"
| "set_children (Suc k) cbs =
     (if cbs = [] then Some []
      else case CBS_get_any_asn1_element cbs of
        (None, _) \<Rightarrow> None
      | (Some (out, _), rest) \<Rightarrow> map_option (\<lambda>cs. out # cs) (set_children k rest))"

fun add_children :: "nat \<Rightarrow> cbb_env \<Rightarrow> addr \<Rightarrow> cbs list \<Rightarrow> cbb_state \<Rightarrow> unit build" where
  "add_children n env p [] st = (Some (), st)"
| "add_children n env p (c # cs) st = pthen (CBB_add_bytes n env p c st) (\<lambda>_ st. add_children n env p cs st)"

text \<open>\<open>alloc\<close>: whether the copies can be allocated.\<close>

definition CBB_flush_asn1_set_of :: "nat \<Rightarrow> cbb_env \<Rightarrow> bool \<Rightarrow> addr \<Rightarrow> cbb_state \<Rightarrow> unit build" where
  "CBB_flush_asn1_set_of n env alloc p st =
     pthen (CBB_flush n env p st) (\<lambda>_ st.
       let cbs = CBB_data p st in
       case set_children (length cbs) cbs of
         None \<Rightarrow> (None, st)
       | Some children \<Rightarrow>
           if length children < 2 then (Some (), st)
           else if of_nat (length children) > (- 1 :: u64) div 16 \<or> \<not> alloc then (None, st)
           else add_children n env p (qsort compare_set_of_element children)
                  (st\<lparr>cbase := (cbase st)\<lparr>b_len := c_offset (cbbs st p) + ucast (c_pending_len_len (cbbs st p))\<rparr>\<rparr>))"

end
