(* ===== verification/Cbs_Correct.thy ===== *)
theory Cbs_Correct
  imports Cbb Wire_Codec
begin

text \<open>
  The formats the parser reads: big- and little-endian integers, length-prefixed strings,
  base-128 integers and DER elements, each with the encoding it accepts. An element that
  parses is the one DER encoding of its tag and contents, and every such encoding parses.
\<close>

section \<open>Windows\<close>

lemma cbs_get_nat:
  assumes "length cbs < 2 ^ 64"
  shows "cbs_get cbs n = (if length cbs < unat n then (None, cbs) else (Some (take (unat n) cbs), drop (unat n) cbs))"
proof -
  have "unat (CBS_len cbs) = length cbs" using assms by (simp add: CBS_len_def unat_of_nat)
  then show ?thesis by (simp add: cbs_get_def word_less_nat_alt)
qed

text \<open>What a successful read returns and what it leaves are the window, whatever its length.\<close>

lemma cbs_get_parts: "cbs_get cbs n = (Some out, rest) \<Longrightarrow> cbs = out @ rest"
  by (auto simp: cbs_get_def split: if_splits)

lemma CBS_get_u8_Cons: "length (b # cbs) < 2 ^ 64 \<Longrightarrow> CBS_get_u8 (b # cbs) = (Some b, cbs)"
  by (simp add: CBS_get_u8_def cbs_get_nat)

lemma CBS_get_u8_Nil: "CBS_get_u8 [] = (None, [])"
  by (simp add: CBS_get_u8_def cbs_get_def CBS_len_def)

lemma CBS_get_u8_Some: "CBS_get_u8 cbs = (Some b, rest) \<Longrightarrow> length cbs < 2 ^ 64 \<Longrightarrow> cbs = b # rest"
  by (cases cbs) (auto simp: CBS_get_u8_Cons CBS_get_u8_Nil)

lemma cbs_get_u_append:
  assumes "length (be_bytes k v @ rest) < 2 ^ 64"
  shows "cbs_get_u (be_bytes k v @ rest) (of_nat k) = (Some (be_word (be_bytes k v)), rest)"
proof -
  have "k < 2 ^ 64" using assms by simp
  then have "unat (of_nat k :: u64) = k" by (simp add: unat_of_nat)
  then show ?thesis using assms by (simp add: cbs_get_u_def cbs_get_nat)
qed

section \<open>Fixed-width integers\<close>

text \<open>A parser as a decoder: the value and what is left.\<close>

definition as_dec :: "(cbs \<Rightarrow> 'a parse) \<Rightarrow> cbs \<Rightarrow> ('a \<times> cbs) option" where
  "as_dec f cbs = (case f cbs of (None, _) \<Rightarrow> None | (Some v, rest) \<Rightarrow> Some (v, rest))"

lemma be_word_u64:
  assumes "LENGTH('a::len) = 8 * k" and "k \<le> 8"
  shows "ucast (be_word (be_bytes k (v :: 'a word)) :: u64) = v"
proof (rule bit_word_eqI)
  fix i assume i: "i < LENGTH('a)"
  have "be_word (be_bytes k v) = (le_word (le_bytes k v) :: u64)" by (simp add: be_word_le_word be_bytes_def)
  moreover have "i div 8 < k" "8 * (i div 8) + i mod 8 = i" "i < 64" using i assms by simp_all
  ultimately show "bit (ucast (be_word (be_bytes k v) :: u64) :: 'a word) i = bit v i"
    using i by (auto simp: bit_simps bit_le_word nth_le_bytes)
qed

lemma get_be:
  assumes "LENGTH('a::len) = 8 * k" and "k \<le> 8" and "length (be_bytes k (v :: 'a word) @ rest) < 2 ^ 64"
  shows "pthen (cbs_get_u (be_bytes k v @ rest) (of_nat k)) (\<lambda>v c. (Some (ucast v :: 'a word), c)) = (Some v, rest)"
  using cbs_get_u_append [OF assms(3)] be_word_u64 [OF assms(1,2)] by simp

interpretation cbs_u8: wire_codec "be_bytes 1" "as_dec CBS_get_u8" "\<lambda>_. True"
  by unfold_locales (simp add: as_dec_def be_bytes_def CBS_get_u8_Cons)

interpretation cbs_u16: wire_codec "be_bytes 2" "as_dec CBS_get_u16" "\<lambda>_. True"
  using get_be [of 2, where 'a = 16] by unfold_locales (simp add: as_dec_def CBS_get_u16_def)

interpretation cbs_u32: wire_codec "be_bytes 4" "as_dec CBS_get_u32" "\<lambda>_. True"
  using get_be [of 4, where 'a = 32] by unfold_locales (simp add: as_dec_def CBS_get_u32_def)

interpretation cbs_u64: wire_codec "be_bytes 8" "as_dec CBS_get_u64" "\<lambda>_. True"
proof unfold_locales
  fix v :: u64 and rest :: "u8 list" assume l: "length (be_bytes 8 v @ rest) < 2 ^ 64"
  have "be_word (be_bytes 8 v) = v" using be_word_be_bytes [of 8 v] by (simp add: take_bit_word_eq_self)
  then show "as_dec CBS_get_u64 (be_bytes 8 v @ rest) = Some (v, rest)"
    using cbs_get_u_append [OF l] by (simp add: as_dec_def CBS_get_u64_def)
qed

text \<open>Reading little-endian is reading big-endian and swapping the bytes.\<close>

lemma bswap_be_bytes:
  "le_bytes 2 v = be_bytes 2 (CRYPTO_bswap2 v)" "le_bytes 4 u = be_bytes 4 (CRYPTO_bswap4 u)"
  "le_bytes 8 x = be_bytes 8 (CRYPTO_bswap8 x)"
proof -
  have *: "le_bytes k w = be_bytes k (le_word (rev (le_bytes k w)) :: 'a word)"
    if "8 * k = LENGTH('a)" for k and w :: "'a::len word"
    using le_bytes_le_word [of "rev (le_bytes k w)", where 'a = 'a] that by (simp add: be_bytes_def)
  show "le_bytes 2 v = be_bytes 2 (CRYPTO_bswap2 v)" unfolding CRYPTO_bswap2_def by (rule *) simp
  show "le_bytes 4 u = be_bytes 4 (CRYPTO_bswap4 u)" unfolding CRYPTO_bswap4_def by (rule *) simp
  show "le_bytes 8 x = be_bytes 8 (CRYPTO_bswap8 x)" unfolding CRYPTO_bswap8_def by (rule *) simp
qed

lemma bswap_bswap:
  "CRYPTO_bswap2 (CRYPTO_bswap2 v) = v" "CRYPTO_bswap4 (CRYPTO_bswap4 u) = u" "CRYPTO_bswap8 (CRYPTO_bswap8 x) = x"
proof -
  have *: "le_word (rev (le_bytes k (le_word (rev (le_bytes k w)) :: 'a word))) = w"
    if "8 * k = LENGTH('a)" for k and w :: "'a::len word"
    using le_bytes_le_word [of "rev (le_bytes k w)", where 'a = 'a] le_word_le_bytes [of k w] that
    by (simp add: take_bit_word_eq_self)
  show "CRYPTO_bswap2 (CRYPTO_bswap2 v) = v" unfolding CRYPTO_bswap2_def by (rule *) simp
  show "CRYPTO_bswap4 (CRYPTO_bswap4 u) = u" unfolding CRYPTO_bswap4_def by (rule *) simp
  show "CRYPTO_bswap8 (CRYPTO_bswap8 x) = x" unfolding CRYPTO_bswap8_def by (rule *) simp
qed

interpretation cbs_u32le: wire_codec "le_bytes 4" "as_dec CBS_get_u32le" "\<lambda>_. True"
proof unfold_locales
  fix v :: u32 and rest :: "u8 list" assume l: "length (le_bytes 4 v @ rest) < 2 ^ 64"
  have "as_dec CBS_get_u32 (be_bytes 4 (CRYPTO_bswap4 v) @ rest) = Some (CRYPTO_bswap4 v, rest)"
    using l by (intro cbs_u32.dec_enc) simp_all
  then show "as_dec CBS_get_u32le (le_bytes 4 v @ rest) = Some (v, rest)"
    by (auto simp: as_dec_def CBS_get_u32le_def bswap_be_bytes bswap_bswap split: prod.splits option.splits)
qed

interpretation cbs_u64le: wire_codec "le_bytes 8" "as_dec CBS_get_u64le" "\<lambda>_. True"
proof unfold_locales
  fix v :: u64 and rest :: "u8 list" assume l: "length (le_bytes 8 v @ rest) < 2 ^ 64"
  have "as_dec CBS_get_u64 (be_bytes 8 (CRYPTO_bswap8 v) @ rest) = Some (CRYPTO_bswap8 v, rest)"
    using l by (intro cbs_u64.dec_enc) simp_all
  then show "as_dec CBS_get_u64le (le_bytes 8 v @ rest) = Some (v, rest)"
    by (auto simp: as_dec_def CBS_get_u64le_def CBS_get_u64_def bswap_be_bytes bswap_bswap split: prod.splits option.splits)
qed

section \<open>Length-prefixed strings\<close>

definition prefixed :: "nat \<Rightarrow> u8 list \<Rightarrow> u8 list" where
  "prefixed k bs = be_bytes k (of_nat (length bs) :: u64) @ bs"

lemma get_prefixed:
  assumes "length bs < 2 ^ (8 * k)" and "k \<le> 8" and "length (prefixed k bs @ rest) < 2 ^ 64"
  shows "cbs_get_length_prefixed (prefixed k bs @ rest) (of_nat k) = (Some bs, rest)"
proof -
  let ?n = "of_nat (length bs) :: u64"
  have "length (be_bytes k ?n @ (bs @ rest)) < 2 ^ 64" using assms(3) by (simp add: prefixed_def)
  from cbs_get_u_append [OF this]
  have "cbs_get_u (prefixed k bs @ rest) (of_nat k) = (Some (take_bit (8 * k) ?n), bs @ rest)"
    by (simp add: prefixed_def be_word_be_bytes)
  moreover have n: "unat ?n = length bs" using assms(3) by (simp add: unat_of_nat prefixed_def)
  moreover have "take_bit (8 * k) ?n = ?n"
    using assms(1) n by (intro take_bit_small) simp
  ultimately show ?thesis using assms(3)
    by (simp add: cbs_get_length_prefixed_def CBS_get_bytes_def cbs_get_nat prefixed_def)
qed

section \<open>Base-128 integers\<close>

text \<open>The low \<open>k\<close> base-128 digits of \<open>v\<close>, most significant first, with continuation bits.\<close>

fun digits128 :: "u64 \<Rightarrow> nat \<Rightarrow> u8 list" where
  "digits128 v 0 = []"
| "digits128 v (Suc i) =
     (let byte :: u8 = ucast (drop_bit (7 * i) v AND 0x7F)
      in (if i \<noteq> 0 then byte OR 0x80 else byte) # digits128 v i)"

definition base128_bytes :: "u64 \<Rightarrow> u8 list" where
  "base128_bytes v = digits128 v (if base128_len v = 0 then 1 else base128_len v)"

lemma length_digits128 [simp]: "length (digits128 v k) = k"
  by (induction k) (auto simp: Let_def)

lemma drop_base128_len: "drop_bit (7 * base128_len v) v = 0"
proof (induction v rule: base128_len.induct)
  case (1 v)
  then show ?case
    by (subst base128_len.simps) (auto simp: drop_bit_drop_bit add.commute)
qed

lemma base128_len_top: "v \<noteq> 0 \<Longrightarrow> drop_bit (7 * (base128_len v - 1)) v \<noteq> 0"
proof (induction v rule: base128_len.induct)
  case (1 v)
  show ?case
  proof (cases "drop_bit 7 v = 0")
    case True
    then show ?thesis using 1(2) by (simp add: base128_len.simps [of v] base128_len.simps [of 0])
  next
    case False
    then have "drop_bit (7 * (base128_len (drop_bit 7 v) - 1)) (drop_bit 7 v) \<noteq> 0" using 1 by simp
    moreover have "0 < base128_len (drop_bit 7 v)" using False by (simp add: base128_len.simps [of "drop_bit 7 v"])
    then have "7 * (base128_len v - 1) = 7 * (base128_len (drop_bit 7 v) - 1) + 7"
      using 1(2) by (simp add: base128_len.simps [of v])
    ultimately show ?thesis by (simp add: drop_bit_drop_bit)
  qed
qed

lemma base128_len_unique:
  assumes "drop_bit (7 * k) v = 0" and "k = 1 \<or> drop_bit (7 * (k - 1)) v \<noteq> 0" and "0 < k"
  shows "k = (if base128_len v = 0 then 1 else base128_len v)"
proof (cases "v = 0")
  case True
  then show ?thesis using assms by (simp add: base128_len.simps [of 0])
next
  case False
  let ?l = "base128_len v"
  have l: "0 < ?l" using False by (simp add: base128_len.simps [of v])
  have up: "drop_bit (7 * b) v = 0" if "drop_bit (7 * a) v = 0" "a \<le> b" for a b
  proof -
    have "drop_bit (7 * b) v = drop_bit (7 * (b - a)) (drop_bit (7 * a) v)"
      using that(2) by (simp add: drop_bit_drop_bit flip: distrib_left)
    then show ?thesis using that by simp
  qed
  have "\<not> k < ?l"
  proof
    assume "k < ?l"
    then have "drop_bit (7 * (?l - 1)) v = 0" using up [OF assms(1)] by simp
    then show False using base128_len_top [OF False] by simp
  qed
  moreover have "\<not> ?l < k"
  proof
    assume "?l < k"
    then have "drop_bit (7 * (k - 1)) v = 0" using up [OF drop_base128_len, of "k - 1"] by simp
    then show False using assms(2) \<open>?l < k\<close> l by auto
  qed
  ultimately show ?thesis using l by simp
qed

lemma and_7F_take: "x AND 0x7F = take_bit 7 (x :: 'a::len word)"
  by (simp add: take_bit_eq_mask mask_eq_exp_minus_1)

lemma bit_80_int: "bit (0x80 :: int) n \<longleftrightarrow> n = 7"
  using bit_exp_iff [of 7 n, where 'a = int] by auto

lemma and_80_bit: "b AND 0x80 \<noteq> 0 \<longleftrightarrow> bit (b :: u8) 7"
proof -
  have "b AND 0x80 = (if bit b 7 then 0x80 else 0)" by (rule bit_word_eqI) (auto simp: bit_simps bit_80_int)
  then show ?thesis by simp
qed

lemma digit_bits:
  fixes x :: u64
  defines "byte \<equiv> ucast (x AND 0x7F) :: u8"
  shows "(byte OR 0x80) AND 0x80 \<noteq> 0" "byte AND 0x80 = 0"
    "(ucast ((byte OR 0x80) AND 0x7F) :: u64) = take_bit 7 x" "(ucast (byte AND 0x7F) :: u64) = take_bit 7 x"
proof -
  have b: "bit byte n \<longleftrightarrow> n < 7 \<and> bit x n" for n
    unfolding byte_def and_7F_take by (auto simp: bit_simps)
  show "(byte OR 0x80) AND 0x80 \<noteq> 0" by (simp only: and_80_bit) (simp add: bit_or_iff bit_80_int)
  show "byte AND 0x80 = 0" using and_80_bit [of byte] b [of 7] by simp
  show "(ucast ((byte OR 0x80) AND 0x7F) :: u64) = take_bit 7 x"
    unfolding and_7F_take by (rule bit_word_eqI) (auto simp: bit_simps bit_80_int b)
  show "(ucast (byte AND 0x7F) :: u64) = take_bit 7 x"
    unfolding and_7F_take by (rule bit_word_eqI) (auto simp: bit_simps b)
qed

lemma push_digit: "push_bit 7 (drop_bit (7 * Suc i) v) OR take_bit 7 (drop_bit (7 * i) v) = drop_bit (7 * i) (v :: u64)"
proof (rule bit_word_eqI)
  fix n assume "n < LENGTH(64)"
  show "bit (push_bit 7 (drop_bit (7 * Suc i) v) OR take_bit 7 (drop_bit (7 * i) v)) n = bit (drop_bit (7 * i) v) n"
    using \<open>n < LENGTH(64)\<close> by (cases "n < 7") (auto simp: bit_simps not_less)
qed

lemma drop_57: "drop_bit 57 (drop_bit (7 * Suc i) (v :: u64)) = 0"
proof (rule bit_word_eqI)
  fix n
  have "\<not> bit v (57 + (7 * Suc i) + n)" using bit_imp_le_length [of v "57 + (7 * Suc i) + n"] by auto
  then show "bit (drop_bit 57 (drop_bit (7 * Suc i) v)) n = bit (0 :: u64) n"
    by (simp only: bit_drop_bit_eq comp_apply bit_0_eq bot_apply) (simp add: add.assoc add.commute add.left_commute)
qed

lemma base128_loop_digits:
  assumes "0 < k" and "drop_bit (7 * (k - 1)) v \<noteq> 0 \<or> k = 1"
  shows "base128_loop (drop_bit (7 * k) v) (digits128 v k @ rest) = (Some v, rest)"
  using assms
proof (induction k)
  case 0
  then show ?case by simp
next
  case (Suc i)
  let ?x = "drop_bit (7 * i) v"
  let ?byte = "ucast (?x AND 0x7F) :: u8"
  note d = digit_bits [of ?x]
  show ?case
  proof (cases "i = 0")
    case True
    have "?byte \<noteq> 0x80" using d(2) by auto
    then show ?thesis using d(2,4) True push_digit [of 0 v] drop_57 [of 0 v]
      by (simp add: Let_def)
  next
    case False
    have x: "?x \<noteq> 0" using Suc.prems False by simp
    have "\<not> (drop_bit (7 * Suc i) v = 0 \<and> ?byte OR 0x80 = 0x80)"
    proof
      assume a: "drop_bit (7 * Suc i) v = 0 \<and> ?byte OR 0x80 = 0x80"
      then have "take_bit 7 ?x = 0" using d(3) by (simp add: and_7F_take take_bit_eq_mod)
      then show False using a push_digit [of i v] x by simp
    qed
    moreover have "drop_bit (7 * (i - 1)) v \<noteq> 0 \<or> i = 1"
    proof -
      have "drop_bit 7 (drop_bit (7 * (i - 1)) v) = ?x"
        using False by (cases i) (simp_all add: drop_bit_drop_bit add.commute)
      then show ?thesis using x by (metis drop_bit_of_0)
    qed
    then have "base128_loop ?x (digits128 v i @ rest) = (Some v, rest)" using Suc.IH False by simp
    ultimately show ?thesis using d(1,3) False push_digit [of i v] drop_57 [of i v] by (simp add: Let_def)
  qed
qed

lemma parse_base128_bytes: "parse_base128_integer (base128_bytes v @ rest) = (Some v, rest)"
proof -
  let ?k = "if base128_len v = 0 then 1 else base128_len v"
  have "drop_bit (7 * ?k) v = 0"
    using drop_base128_len [of v] by (auto simp: base128_len.simps [of v] split: if_splits)
  moreover have "drop_bit (7 * (?k - 1)) v \<noteq> 0 \<or> ?k = 1"
    using base128_len_top [of v] by (cases "v = 0") (auto simp: base128_len.simps [of 0])
  ultimately show ?thesis using base128_loop_digits [of ?k v rest] by (simp add: parse_base128_integer_def base128_bytes_def)
qed

text \<open>Conversely, a base-128 integer that parses is the only encoding of its value.\<close>

lemma base128_step:
  fixes acc :: u64 and b :: u8
  assumes "drop_bit 57 acc = 0"
  defines "v \<equiv> push_bit 7 acc OR ucast (b AND 0x7F)"
  shows "drop_bit 7 v = acc" "ucast (v AND 0x7F) = b AND 0x7F"
proof -
  have hi: "\<not> bit acc (57 + n)" for n
  proof -
    have "\<not> bit (drop_bit 57 acc) n" using assms(1) by simp
    then show ?thesis by (simp add: bit_drop_bit_eq)
  qed
  have b7: "bit (b AND 0x7F) n \<longleftrightarrow> n < 7 \<and> bit b n" for n unfolding and_7F_take by (auto simp: bit_simps)
  show "drop_bit 7 v = acc"
  proof (rule bit_word_eqI)
    fix n assume "n < LENGTH(64)"
    have "\<not> bit acc n" if "57 \<le> n" using hi [of "n - 57"] that by simp
    then show "bit (drop_bit 7 v) n = bit acc n"
      unfolding v_def by (cases "n < 57") (auto simp: bit_drop_bit_eq bit_or_iff bit_push_bit_iff bit_unsigned_iff b7 not_less)
  qed
  show "ucast (v AND 0x7F) = b AND 0x7F"
  proof (rule bit_word_eqI)
    fix n assume "n < LENGTH(8)"
    then show "bit (ucast (v AND 0x7F) :: u8) n = bit (b AND 0x7F) n"
      unfolding v_def and_7F_take by (auto simp: bit_simps)
  qed
qed

lemma byte_split: "b AND 0x80 \<noteq> 0 \<Longrightarrow> (b AND 0x7F) OR 0x80 = (b :: u8)" "b AND 0x80 = 0 \<Longrightarrow> b AND 0x7F = b"
proof -
  have b7: "bit (b AND 0x7F) n \<longleftrightarrow> n < 7 \<and> bit b n" for n unfolding and_7F_take by (auto simp: bit_simps)
  have le: "n < 8 \<Longrightarrow> n \<noteq> 7 \<Longrightarrow> n < 7" for n :: nat by simp
  show "(b AND 0x7F) OR 0x80 = b" if "b AND 0x80 \<noteq> 0"
    using that unfolding and_80_bit by (intro bit_word_eqI) (auto simp: bit_or_iff b7 bit_80_int intro: le)
  show "b AND 0x7F = b" if "b AND 0x80 = 0"
  proof (rule bit_word_eqI)
    fix n assume "n < LENGTH(8)"
    moreover have "\<not> bit b 7" using that and_80_bit [of b] by simp
    ultimately show "bit (b AND 0x7F) n = bit b n" using le [of n] by (cases "n = 7") (auto simp: b7)
  qed
qed

lemma base128_loop_canonical:
  "base128_loop acc bs = (Some v, rest) \<Longrightarrow>
     \<exists>k > 0. bs = digits128 v k @ rest \<and> drop_bit (7 * k) v = acc \<and> (acc = 0 \<longrightarrow> k = 1 \<or> drop_bit (7 * (k - 1)) v \<noteq> 0)"
proof (induction bs arbitrary: acc)
  case Nil
  then show ?case by simp
next
  case (Cons b bs)
  define v' where "v' = (push_bit 7 acc OR ucast (b AND 0x7F) :: u64)"
  have "\<not> (drop_bit 57 acc \<noteq> 0 \<or> acc = 0 \<and> b = 0x80)"
  proof
    assume "drop_bit 57 acc \<noteq> 0 \<or> acc = 0 \<and> b = 0x80"
    then have "base128_loop acc (b # bs) = (None, bs)" by (simp only: base128_loop.simps if_True)
    then show False using Cons.prems by (simp only: prod.inject) simp
  qed
  then have acc: "drop_bit 57 acc = 0" and nz: "\<not> (acc = 0 \<and> b = 0x80)" by blast+
  have step: "base128_loop acc (b # bs) = (if b AND 0x80 \<noteq> 0 then base128_loop v' bs else (Some v', bs))"
    using acc nz by (simp only: base128_loop.simps Let_def v'_def) simp
  note st = base128_step [OF acc, of b, folded v'_def]
  show ?case
  proof (cases "b AND 0x80 = 0")
    case True
    then have "v = v'" "bs = rest" using Cons.prems unfolding step by simp_all
    moreover have "digits128 v' 1 = [b]"
    proof -
      have "digits128 v' 1 = [ucast (v' AND 0x7F)]" by (simp add: Let_def)
      then show ?thesis by (simp only: st(2) byte_split(2) [OF True])
    qed
    ultimately have "0 < (1 :: nat) \<and> b # bs = digits128 v 1 @ rest \<and> drop_bit (7 * 1) v = acc" using st(1) by simp
    then show ?thesis by blast
  next
    case False
    then have "base128_loop v' bs = (Some v, rest)" using Cons.prems unfolding step by simp
    from Cons.IH [OF this] obtain k where k: "0 < k" "bs = digits128 v k @ rest" "drop_bit (7 * k) v = v'"
      by (elim exE conjE) (rule that)
    have "v' \<noteq> 0" if "acc = 0"
    proof
      assume "v' = 0"
      then have "b AND 0x7F = 0" using st(2) by simp
      then have "b = 0x80" using byte_split(1) [OF False] by simp
      then show False using nz that by simp
    qed
    moreover have "drop_bit (7 * Suc k) v = acc"
      using st(1) k(3) by (metis drop_bit_drop_bit mult_Suc_right)
    moreover have "b # bs = digits128 v (Suc k) @ rest"
      using k st(2) byte_split(1) [OF False] by (simp add: Let_def)
    ultimately show ?thesis using k(3) by (intro exI [of _ "Suc k"]) simp
  qed
qed

lemma parse_base128_canonical:
  assumes "parse_base128_integer bs = (Some v, rest)"
  shows "bs = base128_bytes v @ rest"
proof -
  obtain k where k: "0 < k" "bs = digits128 v k @ rest" "drop_bit (7 * k) v = 0" "k = 1 \<or> drop_bit (7 * (k - 1)) v \<noteq> 0"
    using base128_loop_canonical [of 0 bs v rest] assms by (auto simp: parse_base128_integer_def)
  then show ?thesis using base128_len_unique [OF k(3,4,1)] by (simp add: base128_bytes_def)
qed

section \<open>Tags\<close>

definition der_tag :: "u32 \<Rightarrow> u8 list" where
  "der_tag tag =
     (let tag_bits :: u8 = ucast (drop_bit 24 tag AND 0xE0); tag_number = tag AND CBS_ASN1_TAG_NUMBER_MASK
      in if 0x1F \<le> tag_number then (tag_bits OR 0x1F) # base128_bytes (ucast tag_number)
         else [tag_bits OR ucast tag_number])"

lemma bit_consts:
  "bit (0xE0 :: int) n \<longleftrightarrow> 5 \<le> n \<and> n < 8" "bit (0x1F :: int) n \<longleftrightarrow> n < 5" "bit (0x1FFFFFFF :: int) n \<longleftrightarrow> n < 29"
proof -
  have e: "(0xE0 :: int) = mask 8 AND NOT (mask 5)" "(0x1F :: int) = mask 5" "(0x1FFFFFFF :: int) = mask 29"
    by (simp_all add: mask_eq_exp_minus_1)
  show "bit (0xE0 :: int) n \<longleftrightarrow> 5 \<le> n \<and> n < 8"
    unfolding e(1) by (simp only: bit_and_iff bit_not_iff bit_mask_iff) auto
  show "bit (0x1F :: int) n \<longleftrightarrow> n < 5" unfolding e(2) by (simp only: bit_mask_iff) simp
  show "bit (0x1FFFFFFF :: int) n \<longleftrightarrow> n < 29" unfolding e(3) by (simp only: bit_mask_iff) simp
qed

lemma number_small: "unat (x :: u32) < 0x1F \<Longrightarrow> \<not> bit x (5 + n)"
proof -
  assume "unat x < 0x1F"
  then have "take_bit 5 x = x" by (intro take_bit_small) simp
  then show ?thesis by (metis bit_take_bit_iff not_add_less1)
qed

lemma parse_tag_high:
  assumes "(ucast (x AND 0x1F) :: u32) = 0x1F" and "0x1F \<le> v" and "v \<le> 0x1FFFFFFF"
    and "length (x # base128_bytes v @ rest) < 2 ^ 64"
  shows "parse_asn1_tag (x # base128_bytes v @ rest) = (Some (push_bit 24 (ucast x AND 0xE0) OR ucast v), rest)"
proof -
  have "\<not> (ucast (0x1FFFFFFF :: u32) < v \<or> v < 0x1F)" using assms(2,3) by (simp add: not_less)
  then show ?thesis unfolding parse_asn1_tag_def CBS_get_u8_Cons [OF assms(4)] pthen_simps Let_def assms(1)
    by (simp only: parse_base128_bytes pthen_simps if_True if_False simp_thms)
qed

lemma parse_tag_low:
  assumes "(ucast (x AND 0x1F) :: u32) \<noteq> 0x1F" and "length (x # rest) < 2 ^ 64"
  shows "parse_asn1_tag (x # rest) = (Some (push_bit 24 (ucast x AND 0xE0) OR ucast (x AND 0x1F)), rest)"
  unfolding parse_asn1_tag_def CBS_get_u8_Cons [OF assms(2)] pthen_simps Let_def using assms(1) by (simp only: if_False)

lemma parse_der_tag:
  assumes "length (der_tag tag @ rest) < 2 ^ 64"
  shows "parse_asn1_tag (der_tag tag @ rest) = (Some tag, rest)"
proof -
  let ?bits = "ucast (drop_bit 24 tag AND 0xE0) :: u8" and ?num = "tag AND 0x1FFFFFFF"
  have bits: "bit ?bits n \<longleftrightarrow> 5 \<le> n \<and> n < 8 \<and> bit tag (24 + n)" for n by (auto simp: bit_simps bit_consts)
  have num: "bit ?num n \<longleftrightarrow> n < 29 \<and> bit tag n" for n by (auto simp: bit_simps bit_consts)
  have whole: "push_bit 24 (ucast x AND 0xE0) OR ?num = tag" if *: "\<And>n. 5 \<le> n \<Longrightarrow> n < 8 \<Longrightarrow> bit x n = bit tag (24 + n)" for x :: u8
  proof (rule bit_word_eqI)
    fix n assume n: "n < LENGTH(32)"
    have "bit (push_bit 24 (ucast x AND 0xE0) :: u32) n \<longleftrightarrow> 29 \<le> n \<and> bit x (n - 24)"
      unfolding bit_push_bit_iff bit_and_iff bit_unsigned_iff using n bit_imp_le_length [of x "n - 24"]
      by (auto simp: bit_consts)
    moreover have "bit x (n - 24) = bit tag n" if "29 \<le> n" using that n *[of "n - 24"] by simp
    ultimately show "bit (push_bit 24 (ucast x AND 0xE0) OR ?num) n = bit tag n"
      using num [of n] by (cases "n < 29") (simp_all only: bit_or_iff, auto)
  qed
  show ?thesis
  proof (cases "0x1F \<le> ?num")
    case True
    let ?x = "?bits OR 0x1F"
    have "?x AND 0x1F = 0x1F" by (rule bit_word_eqI) (auto simp: bit_simps bit_consts)
    then have x: "(ucast (?x AND 0x1F) :: u32) = 0x1F" by simp
    have dt: "der_tag tag = ?x # base128_bytes (ucast ?num)" using True by (simp add: der_tag_def Let_def)
    have "unat ?num \<le> 0x1FFFFFFF"
      using word_and_le1 [of tag "0x1FFFFFFF"] by (simp add: word_le_nat_alt)
    then have "\<not> (0x1FFFFFFF < (ucast ?num :: u64))" "\<not> (ucast ?num :: u64) < 0x1F"
      using True by (simp_all add: word_less_nat_alt word_le_nat_alt unat_ucast_up)
    moreover have "push_bit 24 (ucast ?x AND 0xE0) OR ?num = tag" by (rule whole) (simp add: bit_or_iff bits bit_consts)
    moreover have "(ucast (ucast ?num :: u64) :: u32) = ?num" by (simp add: ucast_up_ucast_id is_up)
    moreover have "length (?x # base128_bytes (ucast ?num) @ rest) < 2 ^ 64" using assms by (simp only: dt append_Cons)
    ultimately show ?thesis using parse_tag_high [OF x, of "ucast ?num" rest]
      by (simp only: dt append_Cons not_less True_implies_equals)
  next
    case False
    let ?x = "?bits OR ucast ?num :: u8"
    have small: "\<not> bit ?num (5 + n)" for n using False by (intro number_small) (simp add: word_le_nat_alt)
    have x: "(ucast (?x AND 0x1F) :: u32) = ?num"
    proof (rule bit_word_eqI)
      fix n assume "n < LENGTH(32)"
      then show "bit (ucast (?x AND 0x1F) :: u32) n = bit ?num n"
        using small [of "n - 5"] by (cases "n < 5") (auto simp: bit_unsigned_iff bit_and_iff bit_or_iff bits bit_consts)
    qed
    moreover have "push_bit 24 (ucast ?x AND 0xE0) OR ?num = tag"
    proof (rule whole)
      fix n :: nat assume "5 \<le> n" "n < 8"
      then show "bit ?x n = bit tag (24 + n)" using small [of "n - 5"]
        by (simp only: bit_or_iff bits) (simp add: bit_unsigned_iff)
    qed
    moreover have dt: "der_tag tag = [?x]" using False by (simp only: der_tag_def Let_def if_False)
    moreover have "length (?x # rest) < 2 ^ 64" using assms by (simp only: dt append_Cons append_Nil)
    moreover have "?num \<noteq> 0x1F" using False by (metis order_refl)
    ultimately show ?thesis using parse_tag_low [of ?x rest] by (simp only: append_Cons append_Nil not_False_eq_True True_implies_equals)
  qed
qed

lemma tag_fields:
  fixes x :: u8 and num :: u32
  assumes "unat num < 2 ^ 29"
  defines "tag \<equiv> push_bit 24 (ucast x AND 0xE0) OR num"
  shows "tag AND 0x1FFFFFFF = num" "(ucast (drop_bit 24 tag AND 0xE0) :: u8) = x AND 0xE0"
proof -
  have "take_bit 29 num = num" using assms(1) by (rule take_bit_small)
  then have num: "bit num n \<Longrightarrow> n < 29" for n by (metis bit_take_bit_iff)
  have tag: "bit tag n \<longleftrightarrow> (29 \<le> n \<and> n < 32 \<and> bit x (n - 24)) \<or> bit num n" for n
    unfolding tag_def bit_or_iff bit_push_bit_iff bit_and_iff bit_unsigned_iff
    using bit_imp_le_length [of x "n - 24"] by (auto simp: bit_consts)
  show "tag AND 0x1FFFFFFF = num"
  proof (rule bit_word_eqI)
    fix n assume "n < LENGTH(32)"
    then show "bit (tag AND 0x1FFFFFFF) n = bit num n"
      using num [of n] by (auto simp: bit_and_iff tag bit_consts)
  qed
  show "(ucast (drop_bit 24 tag AND 0xE0) :: u8) = x AND 0xE0"
  proof (rule bit_word_eqI)
    fix n assume "n < LENGTH(8)"
    then show "bit (ucast (drop_bit 24 tag AND 0xE0) :: u8) n = bit (x AND 0xE0) n"
      unfolding bit_unsigned_iff bit_and_iff bit_drop_bit_eq comp_apply tag
      using num [of "24 + n"] by (auto simp: bit_consts)
  qed
qed

lemma split_tag_byte: "(x AND 0xE0) OR (x AND 0x1F) = (x :: u8)"
proof (rule bit_word_eqI)
  fix n assume "n < LENGTH(8)"
  then show "bit ((x AND 0xE0) OR (x AND 0x1F)) n = bit x n"
    by (simp only: bit_or_iff bit_and_iff) (auto simp: bit_consts)
qed

lemma parse_tag_canonical:
  assumes "parse_asn1_tag cbs = (Some tag, rest)" and "length cbs < 2 ^ 64"
  shows "cbs = der_tag tag @ rest"
proof -
  obtain x c where cbs: "cbs = x # c" using assms by (cases cbs) (auto simp: parse_asn1_tag_def CBS_get_u8_Nil)
  have l: "length (x # c) < 2 ^ 64" using assms(2) cbs by simp
  have le: "x AND 0x1F \<le> 0x1F" using word_and_le1 [of x "0x1F"] by simp
  have up: "(ucast (x AND 0x1F) :: u32) = 0x1F \<longleftrightarrow> x AND 0x1F = 0x1F"
    by (simp add: word_unat_eq_iff unat_ucast_up)
  show ?thesis
  proof (cases "x AND 0x1F = 0x1F")
    case True
    then have x31: "(ucast (x AND 0x1F) :: u32) = 0x1F" using up by simp
    have P: "parse_asn1_tag cbs = pthen (parse_base128_integer c) (\<lambda>v c.
        if ucast (0x1FFFFFFF :: u32) < v \<or> v < 0x1F then (None, c)
        else (Some (push_bit 24 (ucast x AND 0xE0) OR ucast v), c))"
      unfolding cbs parse_asn1_tag_def CBS_get_u8_Cons [OF l] pthen_simps Let_def x31 by (simp only: if_True refl)
    from assms(1) [unfolded P] obtain v where v: "parse_base128_integer c = (Some v, rest)"
        "\<not> (ucast (0x1FFFFFFF :: u32) < v \<or> v < 0x1F)"
      and tag: "tag = push_bit 24 (ucast x AND 0xE0) OR ucast v"
      by (auto simp only: pthen_eq_Some prod.inject option.inject option.simps split: if_splits)
    have small: "unat v \<le> 0x1FFFFFFF" "0x1F \<le> unat v"
      using v(2) by (simp_all add: word_less_nat_alt word_le_nat_alt not_less)
    then have uv: "unat (ucast v :: u32) = unat v" by (simp add: unsigned_ucast_eq take_bit_nat_eq_self)
    have f: "tag AND 0x1FFFFFFF = ucast v" "(ucast (drop_bit 24 tag AND 0xE0) :: u8) = x AND 0xE0"
      using tag_fields [of "ucast v" x] uv small(1) unfolding tag by simp_all
    have "(ucast (ucast v :: u32) :: u64) = v" using uv by (simp add: word_unat_eq_iff unat_ucast_up)
    moreover have "0x1F \<le> (ucast v :: u32)" using uv small(2) by (simp add: word_le_nat_alt)
    ultimately have "der_tag tag = x # base128_bytes v"
      unfolding der_tag_def Let_def f using split_tag_byte [of x] True by (simp only: if_True)
    then show ?thesis using parse_base128_canonical [OF v(1)] cbs by (simp only: append_Cons)
  next
    case False
    then have x31: "(ucast (x AND 0x1F) :: u32) \<noteq> 0x1F" using up by simp
    have tag: "tag = push_bit 24 (ucast x AND 0xE0) OR ucast (x AND 0x1F)" "rest = c"
      using assms(1) parse_tag_low [OF x31 l] cbs by simp_all
    have lt: "unat (x AND 0x1F) < 0x1F"
      using le_neq_trans [OF le False] by (simp add: word_less_nat_alt)
    then have f: "tag AND 0x1FFFFFFF = ucast (x AND 0x1F)" "(ucast (drop_bit 24 tag AND 0xE0) :: u8) = x AND 0xE0"
      using tag_fields [of "ucast (x AND 0x1F)" x] unfolding tag by (simp_all add: unat_ucast_up)
    have "\<not> 0x1F \<le> (ucast (x AND 0x1F) :: u32)" using lt by (simp add: word_le_nat_alt unat_ucast_up)
    moreover have "(ucast (ucast (x AND 0x1F) :: u32) :: u8) = x AND 0x1F" by (simp add: ucast_up_ucast_id is_up)
    ultimately have "der_tag tag = [x]"
      unfolding der_tag_def Let_def f using split_tag_byte [of x] by (simp only: if_False)
    then show ?thesis using cbs tag(2) by simp
  qed
qed

section \<open>Elements\<close>

text \<open>
  X.690: a length below 128 is one octet; a longer one is the number of its octets, with the
  high bit set, and then its octets, of which there are as few as possible.
\<close>

fun octets :: "nat \<Rightarrow> nat" where
  "octets n = (if n = 0 then 0 else Suc (octets (n div 256)))"

declare octets.simps [simp del]

definition der_length :: "nat \<Rightarrow> u8 list" where
  "der_length n =
     (if n < 128 then [of_nat n] else (0x80 OR of_nat (octets n)) # be_bytes (octets n) (of_nat n :: u64))"

definition der_element :: "u32 \<Rightarrow> u8 list \<Rightarrow> u8 list" where
  "der_element tag contents = der_tag tag @ der_length (length contents) @ contents"

lemma octets_unique: "2 ^ (8 * k) \<le> n \<Longrightarrow> n < 2 ^ (8 * Suc k) \<Longrightarrow> octets n = Suc k"
proof (induction k arbitrary: n)
  case 0
  then show ?case by (simp add: octets.simps [of n] octets.simps [of 0])
next
  case (Suc k)
  have "2 ^ (8 * k) \<le> n div 256" "n div 256 < 2 ^ (8 * Suc k)"
    using Suc.prems by (simp_all add: less_eq_div_iff_mult_less_eq div_less_iff_less_mult power_add mult.commute)
  then have "octets (n div 256) = Suc k" by (rule Suc.IH)
  moreover have "n \<noteq> 0" using Suc.prems(1) by (intro notI) simp
  ultimately show ?case by (simp add: octets.simps [of n])
qed

lemma octets_range:
  assumes "128 \<le> n" "n < 2 ^ 32"
  obtains m where "m \<in> {1, 2, 3, 4}" "octets n = m" "n < 2 ^ (8 * m)" "2 ^ (8 * (m - 1)) \<le> n"
proof -
  consider "n < 2 ^ 8" | "2 ^ 8 \<le> n" "n < 2 ^ 16" | "2 ^ 16 \<le> n" "n < 2 ^ 24" | "2 ^ 24 \<le> n" by linarith
  then show thesis
  proof cases
    case 1
    then show ?thesis using assms octets_unique [of 0 n] by (intro that [of 1]) simp_all
  next
    case 2
    then show ?thesis using octets_unique [of 1 n] by (intro that [of 2]) simp_all
  next
    case 3
    then show ?thesis using octets_unique [of 2 n] by (intro that [of 3]) simp_all
  next
    case 4
    then show ?thesis using assms octets_unique [of 3 n] by (intro that [of 4]) simp_all
  qed
qed

lemma der_length_cases:
  assumes "n < 2 ^ 32"
  obtains (short) "n \<le> 0x7F" "der_length n = [of_nat n]"
  | (long) m where "m \<in> {1, 2, 3, 4}" "der_length n = (0x80 OR of_nat m) # be_bytes m (of_nat n :: u64)"
      "128 \<le> n" "n < 2 ^ (8 * m)" "2 ^ (8 * (m - 1)) \<le> n"
proof (cases "n < 128")
  case True
  then show thesis by (intro short) (simp_all add: der_length_def)
next
  case False
  then show thesis using octets_range [of n] assms by (metis long der_length_def not_less)
qed

text \<open>The builder computes the same octets.\<close>

lemma der_len_len_spec:
  assumes "n < 2 ^ 32"
  shows "der_len_len (of_nat n) = (length (der_length n), hd (der_length n))"
    "tl (der_length n) = be_bytes (length (der_length n) - 1) (of_nat n :: u64)"
proof -
  have u: "unat (of_nat n :: u64) = n" using assms by (simp add: unat_of_nat)
  have c: "ucast (of_nat n :: u64) = (of_nat n :: u8)" by (simp add: ucast_of_nat_down)
  have "der_len_len (of_nat n) = (length (der_length n), hd (der_length n))
    \<and> tl (der_length n) = be_bytes (length (der_length n) - 1) (of_nat n :: u64)"
    using assms
  proof (cases rule: der_length_cases)
    case short
    then show ?thesis using u c by (simp add: der_len_len_def word_less_nat_alt be_bytes_def)
  next
    case (long m)
    then show ?thesis using u by (auto simp: der_len_len_def word_less_nat_alt)
  qed
  then show "der_len_len (of_nat n) = (length (der_length n), hd (der_length n))"
    "tl (der_length n) = be_bytes (length (der_length n) - 1) (of_nat n :: u64)" by auto
qed

lemma header_len: "CBS_len (xs @ ys) - CBS_len ys = of_nat (length xs)"
  by (simp add: CBS_len_def)

lemma element_bytes_nat:
  assumes "length cbs < 2 ^ 64" and "k \<le> length cbs" and "len = of_nat k"
  shows "element_bytes cbs tag len hl ber = (Some (take k cbs, tag, hl, ber), drop k cbs)"
proof -
  have "unat len = k" using assms by (simp add: unat_of_nat)
  then show ?thesis using assms by (simp add: element_bytes_def CBS_get_bytes_def cbs_get_nat)
qed

lemma element_short:
  assumes "parse_asn1_tag cbs = (Some tag, lb # r)" and "length (lb # r) < 2 ^ 64" and "lb AND 0x80 = 0"
  shows "cbs_get_any_asn1_element ber_ok cbs =
    element_bytes cbs tag (ucast lb + (CBS_len cbs - CBS_len r)) (CBS_len cbs - CBS_len r) False"
  unfolding cbs_get_any_asn1_element_def assms(1) prod.case option.case CBS_get_u8_Cons [OF assms(2)] Let_def assms(3)
  by (simp only: if_True refl)

lemma element_long:
  assumes "parse_asn1_tag cbs = (Some tag, lb # r)" and "length (lb # r) < 2 ^ 64" and "lb AND 0x80 \<noteq> 0"
    and m: "m = ucast (lb AND 0x7F)" "m \<noteq> 0" "m \<le> 4" and "cbs_get_u r m = (Some len64, r')"
    and "\<not> (len64 < 128 \<or> drop_bit (unat ((m - 1) * 8)) len64 = 0)"
    and "\<not> len64 + (CBS_len cbs - CBS_len r) + m < len64"
  shows "cbs_get_any_asn1_element ber_ok cbs =
    element_bytes cbs tag (len64 + (CBS_len cbs - CBS_len r + m)) (CBS_len cbs - CBS_len r + m) False"
proof -
  have "\<not> (m = 0 \<or> 4 < m)" "\<not> (ber_ok \<and> tag AND 0x20000000 \<noteq> 0 \<and> m = 0)" using m by (simp_all add: not_less)
  then show ?thesis
    unfolding cbs_get_any_asn1_element_def assms(1) prod.case option.case CBS_get_u8_Cons [OF assms(2)] Let_def
      m(1) [symmetric] assms(7)
    using assms(3,8,9) by (simp only: if_False simp_thms prod.case option.case Let_def)
qed

lemma get_element_der:
  assumes c: "length contents < 2 ^ 32" and l: "length (der_element tag contents @ rest) < 2 ^ 64"
  shows "cbs_get_any_asn1_element ber_ok (der_element tag contents @ rest) =
    (Some (der_element tag contents, tag, of_nat (length (der_element tag contents) - length contents), False), rest)"
proof -
  let ?n = "length contents" and ?cbs = "der_element tag contents @ rest" and ?t = "length (der_tag tag)"
  have cbs: "?cbs = der_tag tag @ der_length ?n @ contents @ rest" by (simp add: der_element_def)
  have pt: "parse_asn1_tag ?cbs = (Some tag, der_length ?n @ contents @ rest)"
    unfolding cbs using l by (intro parse_der_tag) (simp add: der_element_def)
  have el: "element_bytes ?cbs tag len hl False = (Some (der_element tag contents, tag, hl, False), rest)"
    if "len = of_nat (length (der_element tag contents))" for len hl
    using element_bytes_nat [OF l _ that] by simp
  show ?thesis using c
  proof (cases rule: der_length_cases)
    case short
    let ?lb = "of_nat ?n :: u8"
    have pt': "parse_asn1_tag ?cbs = (Some tag, ?lb # contents @ rest)" using pt short(2) by simp
    have l': "length (?lb # contents @ rest) < 2 ^ 64" using l short(2) by (simp add: der_element_def)
    have ulb: "unat ?lb = ?n" using short(1) by (simp add: unat_of_nat)
    have "take_bit 7 ?lb = ?lb" using short(1) ulb by (intro take_bit_small) simp
    then have "\<not> bit ?lb 7" by (metis bit_take_bit_iff less_irrefl)
    then have lb0: "?lb AND 0x80 = 0" using and_80_bit [of ?lb] by simp
    have hl: "CBS_len ?cbs - CBS_len (contents @ rest) = of_nat (?t + 1)"
      using header_len [of "der_tag tag @ der_length ?n" "contents @ rest"] short(2) by (simp add: cbs)
    have len: "(ucast ?lb :: u64) + of_nat (?t + 1) = of_nat (length (der_element tag contents))"
      using ucast_up_of_nat [OF _ ulb, where 'b = 64] short(2) by (simp add: der_element_def)
    have "length (der_element tag contents) - ?n = ?t + 1" using short(2) by (simp add: der_element_def)
    then show ?thesis unfolding element_short [OF pt' l' lb0] hl by (simp only: el [OF len])
  next
    case (long m)
    let ?lb = "0x80 OR of_nat m :: u8" and ?m = "of_nat m :: u64" and ?len = "of_nat ?n :: u64"
      and ?r = "be_bytes m (of_nat ?n :: u64) @ contents @ rest"
    have pt': "parse_asn1_tag ?cbs = (Some tag, ?lb # ?r)" using pt long(2) by simp
    have l': "length (?lb # ?r) < 2 ^ 64" using l long(2) by (simp add: der_element_def)
    have lb: "?lb AND 0x80 \<noteq> 0" "?m = ucast (?lb AND 0x7F)" "?m \<noteq> 0" "?m \<le> 4" "unat ?m = m"
      using long(1) by auto
    have un: "unat ?len = ?n" using c by (simp add: unat_of_nat)
    have "take_bit (8 * m) ?len = ?len" using long(4) un by (intro take_bit_small) simp
    then have get: "cbs_get_u ?r ?m = (Some ?len, contents @ rest)"
      using cbs_get_u_append [of m ?len "contents @ rest"] l' by (simp add: be_word_be_bytes)
    have sh: "unat ((?m - 1) * 8) = 8 * (m - 1)" using long(1) by auto
    have "drop_bit (8 * (m - 1)) ?n \<noteq> 0"
      using long(5) by (simp add: drop_bit_eq_div div_eq_0_iff)
    then have "unat (drop_bit (8 * (m - 1)) ?len) \<noteq> 0" by (simp add: unat_drop_bit_eq un)
    then have nm: "\<not> (?len < 128 \<or> drop_bit (unat ((?m - 1) * 8)) ?len = 0)"
      using long(3) un sh by (auto simp: word_less_nat_alt)
    have hl: "CBS_len ?cbs - CBS_len ?r = of_nat (?t + 1)"
      using header_len [of "der_tag tag @ [?lb]" ?r] long(2) by (simp add: cbs)
    have tot: "?len + of_nat (?t + 1) + ?m = of_nat (length (der_element tag contents))"
      using long(2) by (simp add: der_element_def)
    have "unat (of_nat (length (der_element tag contents)) :: u64) = length (der_element tag contents)"
      using l by (simp add: unat_of_nat)
    then have ov: "\<not> ?len + (CBS_len ?cbs - CBS_len ?r) + ?m < ?len"
      unfolding hl tot by (simp add: word_less_nat_alt un der_element_def)
    have "length (der_element tag contents) - ?n = ?t + 1 + m" using long(2) by (simp add: der_element_def)
    moreover have "?len + (of_nat (?t + 1) + ?m) = of_nat (length (der_element tag contents))" using tot by (simp only: add.assoc)
    ultimately show ?thesis unfolding element_long [OF pt' l' lb(1-4) get nm ov] hl by (simp add: el)
  qed
qed

lemma der_length_long:
  assumes m: "m \<in> {1, 2, 3, 4}" and n: "128 \<le> n" "n < 2 ^ (8 * m)" "2 ^ (8 * (m - 1)) \<le> n"
  shows "der_length n = (0x80 OR of_nat m) # be_bytes m (of_nat n :: u64)"
proof -
  have "n < 2 ^ 32" using m n(2) by auto
  then show ?thesis
  proof (cases rule: der_length_cases)
    case short
    then show ?thesis using n(1) by simp
  next
    case (long m')
    have "m' = m" using m n(2,3) long(1,4,5) by auto
    then show ?thesis using long(2) by simp
  qed
qed

lemma element_bytes_Some:
  assumes "element_bytes cbs tag len hl ber = (Some (out, tag', hl', ber'), rest)" and "length cbs < 2 ^ 64"
  shows "out = take (unat len) cbs" "rest = drop (unat len) cbs" "unat len \<le> length cbs" "tag' = tag" "hl' = hl" "ber' = ber"
  using assms by (auto simp: element_bytes_def CBS_get_bytes_def cbs_get_nat split: if_splits)

lemma long_form_byte:
  assumes "lb AND 0x80 \<noteq> 0" and "unat (lb AND 0x7F :: u8) = m"
  shows "lb = 0x80 OR of_nat m"
proof -
  have "lb AND 0x7F = of_nat m" using assms(2) by (metis of_nat_unat ucast_id)
  then show ?thesis using byte_split(1) [OF assms(1)] by (simp add: or.commute)
qed

lemma length_base128_bytes: "length (base128_bytes v) \<le> 10"
proof (cases "v = 0")
  case False
  have "7 * (base128_len v - 1) < 64"
  proof (rule ccontr)
    assume a: "\<not> 7 * (base128_len v - 1) < 64"
    have "drop_bit (7 * (base128_len v - 1)) v = 0"
      using a by (intro bit_word_eqI) (auto simp: bit_drop_bit_eq dest: bit_imp_le_length)
    then show False using base128_len_top [OF False] by simp
  qed
  then have "base128_len v - 1 < 10" by simp
  then show ?thesis by (simp add: base128_bytes_def) linarith
qed (simp add: base128_bytes_def base128_len.simps [of 0])

lemma length_der_tag: "length (der_tag tag) \<le> 11"
  using length_base128_bytes by (simp add: der_tag_def Let_def le_Suc_eq)

text \<open>An element that parses is the DER encoding of its tag and contents, at the front of the window.\<close>

lemma get_element_canonical:
  assumes e: "CBS_get_any_asn1_element cbs = (Some (out, tag, hl, ber), rest)" and l: "length cbs < 2 ^ 64"
  shows "\<exists>contents. cbs = der_element tag contents @ rest \<and> out = der_element tag contents \<and> \<not> ber
    \<and> length contents < 2 ^ 32 \<and> unat hl = length out - length contents"
proof -
  obtain tag0 header where pt: "parse_asn1_tag cbs = (Some tag0, header)"
    using e by (auto simp: CBS_get_any_asn1_element_def cbs_get_any_asn1_element_def split: prod.splits option.splits)
  have hd: "cbs = der_tag tag0 @ header" using parse_tag_canonical [OF pt l] .
  obtain lb r where header: "header = lb # r"
    using e pt by (cases header) (auto simp: CBS_get_any_asn1_element_def cbs_get_any_asn1_element_def CBS_get_u8_Nil)
  have lr: "length (lb # r) < 2 ^ 64" using l hd header by simp
  note pt' = pt [unfolded header]
  let ?t = "length (der_tag tag0)"
  have hl0: "CBS_len cbs - CBS_len r = of_nat (?t + 1)" using header_len [of "der_tag tag0 @ [lb]" r] hd header by simp
  have u: "unat (of_nat (?t + 1 + k) :: u64) = ?t + 1 + k" if "k < 2 ^ 63" for k
    using that length_der_tag [of tag0] by (simp add: unat_of_nat del: of_nat_add of_nat_Suc)
  have fin: ?thesis
    if b: "element_bytes cbs tag0 (of_nat (?t + 1 + k + n)) (of_nat (?t + 1 + k)) False = (Some (out, tag, hl, ber), rest)"
      and len: "der_length n = lb # bytes" "length bytes = k" and r: "r = bytes @ r'" and n: "n < 2 ^ 32" "k \<le> 4" for k n bytes r'
  proof -
    have un: "unat (of_nat (?t + 1 + k + n) :: u64) = ?t + 1 + k + n" using u [of "k + n"] n by (simp only: add.assoc) simp
    note s = element_bytes_Some [OF b l, unfolded un]
    have cbs: "cbs = der_tag tag0 @ der_length n @ r'" using hd header r len(1) by simp
    have "n \<le> length r'" using s(3) cbs len by simp
    then have c: "length (take n r') = n" by simp
    moreover have "out = der_element tag0 (take n r')" "rest = drop n r'"
      using s(1,2) cbs len c by (simp_all add: der_element_def add.assoc)
    moreover have "cbs = der_element tag0 (take n r') @ drop n r'" using cbs c by (simp add: der_element_def)
    moreover have "unat hl = length (der_element tag0 (take n r')) - n"
      using s(5) u [of k] n(2) len c by (simp add: der_element_def)
    ultimately show ?thesis using s(4,6) n(1) by (intro exI [of _ "take n r'"]) simp
  qed
  show ?thesis
  proof (cases "lb AND 0x80 = 0")
    case True
    have eb: "element_bytes cbs tag0 (ucast lb + of_nat (?t + 1)) (of_nat (?t + 1)) False = (Some (out, tag, hl, ber), rest)"
      using e unfolding CBS_get_any_asn1_element_def element_short [OF pt' lr True] hl0 .
    have "lb AND 0x7F = lb" using byte_split(2) [OF True] .
    then have "lb \<le> 0x7F" by (metis word_and_le1)
    then have n: "unat lb \<le> 0x7F" by (simp add: word_le_nat_alt)
    have eq: "(ucast lb :: u64) + of_nat (?t + 1) = of_nat (?t + 1 + 0 + unat lb)"
      using ucast_up_of_nat [OF _ refl, of lb, where 'b = 64] by simp
    have "der_length (unat lb) = [lb]"
    proof -
      have "unat lb < 2 ^ 32" using n by simp
      then show ?thesis by (cases rule: der_length_cases) (use n in simp_all)
    qed
    then show ?thesis using eb [unfolded eq] n by (intro fin [of 0 "unat lb" "[]" r]) simp_all
  next
    case False
    let ?m = "ucast (lb AND 0x7F) :: u64"
    define m where "m = unat (lb AND 0x7F)"
    have um: "unat ?m = m" "?m = of_nat m" by (simp_all add: m_def unat_ucast_up)
    have e': "(if ?m = 0 \<or> 4 < ?m then (None, cbs)
         else case cbs_get_u r ?m of
           (None, _) \<Rightarrow> (None, cbs)
         | (Some len64, header) \<Rightarrow>
             (if len64 < 128 \<or> drop_bit (unat ((?m - 1) * 8)) len64 = 0 then (None, cbs)
              else if len64 + of_nat (?t + 1) + ?m < len64 then (None, cbs)
              else element_bytes cbs tag0 (len64 + (of_nat (?t + 1) + ?m)) (of_nat (?t + 1) + ?m) False))
       = (Some (out, tag, hl, ber), rest)"
      using e False unfolding CBS_get_any_asn1_element_def cbs_get_any_asn1_element_def pt' prod.case option.case
        CBS_get_u8_Cons [OF lr] Let_def hl0
      by (auto simp only: if_False simp_thms split: if_splits prod.splits option.splits)
    then obtain len64 r' where g: "cbs_get_u r ?m = (Some len64, r')" and m4: "?m \<noteq> 0" "?m \<le> 4"
      and nm: "\<not> len64 < 128" "drop_bit (unat ((?m - 1) * 8)) len64 \<noteq> 0"
      and eb: "element_bytes cbs tag0 (len64 + (of_nat (?t + 1) + ?m)) (of_nat (?t + 1) + ?m) False = (Some (out, tag, hl, ber), rest)"
      by (auto simp only: not_less de_Morgan_disj prod.inject option.simps split: if_splits prod.splits option.splits)
    let ?n = "unat len64" and ?bytes = "take m r"
    have m: "m \<in> {1, 2, 3, 4}" using m4 um by (auto simp: word_le_nat_alt word_unat_eq_iff)
    have "m \<le> length r" and r: "r = ?bytes @ r'" and len64: "len64 = be_word ?bytes"
      using g lr um(1) by (auto simp: cbs_get_u_def cbs_get_nat pthen_def split: if_splits prod.splits option.splits)
    then have lb: "length ?bytes = m" by simp
    have bytes: "?bytes = be_bytes m len64"
      using be_bytes_be_word [of ?bytes, where 'a = 64] lb m unfolding len64 by auto
    have n: "?n < 2 ^ (8 * m)"
      using be_word_be_bytes [of m len64] bytes len64 by (metis unsigned_take_bit_eq take_bit_nat_less_exp)
    have sh: "unat ((?m - 1) * 8) = 8 * (m - 1)" using m um(2) by auto
    have "drop_bit (8 * (m - 1)) ?n \<noteq> 0" using nm(2) unfolding sh by (metis unat_drop_bit_eq unat_eq_0)
    then have "2 ^ (8 * (m - 1)) \<le> ?n" by (simp add: drop_bit_eq_div div_eq_0_iff not_less)
    moreover have "128 \<le> ?n" using nm(1) by (simp add: word_less_nat_alt)
    ultimately have "der_length ?n = (0x80 OR of_nat m) # be_bytes m len64" using der_length_long [OF m _ n] by simp
    then have "der_length ?n = lb # ?bytes" using long_form_byte [OF False m_def [symmetric]] bytes by simp
    then show ?thesis
    proof (rule fin [rotated])
      have eq: "of_nat (?t + 1) + ?m = of_nat (?t + 1 + m)" "len64 + of_nat (?t + 1 + m) = of_nat (?t + 1 + m + ?n)"
        unfolding um(2) by simp_all
      show "element_bytes cbs tag0 (of_nat (?t + 1 + m + ?n)) (of_nat (?t + 1 + m)) False = (Some (out, tag, hl, ber), rest)"
        using eb unfolding eq .
      show "?n < 2 ^ 32" "m \<le> 4" using m n by auto
    qed (rule lb r)+
  qed
qed

end
