(* ===== verification/Cbs_Values.thy ===== *)
theory Cbs_Values
  imports Cbs_Correct
begin

text \<open>
  ASN.1 values: what the typed readers of the parser return on the DER encodings of
  integers, booleans and strings. Every such encoding is a wire format, so that sequences
  of values are read back item by item and no encoding is the beginning of another.
\<close>

section \<open>Contents of an element\<close>

lemma header_split: "der_element tag c = take (length (der_element tag c) - length c) (der_element tag c) @ c"
  by (simp add: der_element_def)

lemma skip_header:
  assumes "length (der_element tag c) < 2 ^ 64"
  shows "CBS_skip (der_element tag c) (of_nat (length (der_element tag c) - length c)) = (Some (), c)"
proof -
  have "unat (of_nat (length (der_element tag c) - length c) :: u64) = length (der_element tag c) - length c"
    using assms by (simp add: unat_of_nat)
  then show ?thesis using assms by (simp add: CBS_skip_def cbs_get_nat) (simp add: der_element_def)
qed

lemma get_asn1_der:
  assumes "length c < 2 ^ 32" and l: "length (der_element tag c @ rest) < 2 ^ 64"
  shows "CBS_get_asn1 (der_element tag c @ rest) tag = (Some c, rest)"
    "CBS_get_asn1_element (der_element tag c @ rest) tag = (Some (der_element tag c), rest)"
    "CBS_get_any_asn1 (der_element tag c @ rest) = (Some (c, tag), rest)"
    "tag' \<noteq> tag \<Longrightarrow> CBS_get_asn1 (der_element tag c @ rest) tag' = (None, rest)"
  using get_element_der [OF assms] skip_header [of tag c] l
  by (simp_all add: CBS_get_asn1_def CBS_get_asn1_element_def CBS_get_any_asn1_def cbs_get_asn1_def CBS_get_any_asn1_element_def)

interpretation cbs_element: wire_codec "\<lambda>(c, tag). der_element tag c" "as_dec CBS_get_any_asn1" "\<lambda>(c, tag). length c < 2 ^ 32"
  by unfold_locales (auto simp: as_dec_def get_asn1_der)

lemma peek_der:
  assumes "length (der_element tag c @ rest) < 2 ^ 64"
  shows "CBS_peek_asn1_tag (der_element tag c @ rest) tag' \<longleftrightarrow> tag' = tag"
proof -
  have "parse_asn1_tag (der_element tag c @ rest) = (Some tag, der_length (length c) @ c @ rest)"
    using parse_der_tag [of tag "der_length (length c) @ c @ rest"] assms by (simp add: der_element_def)
  moreover have "0 < length (der_element tag c @ rest)" by (simp add: der_element_def der_tag_def Let_def)
  then have "1 \<le> unat (CBS_len (der_element tag c @ rest))"
    using assms unfolding CBS_len_def by (simp only: unat_of_nat) (simp add: Suc_le_eq)
  then have "1 \<le> CBS_len (der_element tag c @ rest)" by (simp add: word_le_nat_alt)
  ultimately show ?thesis by (auto simp: CBS_peek_asn1_tag_def)
qed

section \<open>Integers\<close>

text \<open>The shortest two's complement encodings.\<close>

definition uint_contents :: "u64 \<Rightarrow> u8 list" where
  "uint_contents v =
     (case dropWhile (\<lambda>b. b = 0) (be_bytes 8 v) of
        [] \<Rightarrow> [0]
      | b # bs \<Rightarrow> if b AND 0x80 \<noteq> 0 then 0 # b # bs else b # bs)"

definition int_contents :: "u64 \<Rightarrow> u8 list" where
  "int_contents v = (if 0 \<le> sint v then uint_contents v else skip_sign (be_bytes 8 v))"

lemma uint_contents_cases:
  obtains "dropWhile (\<lambda>b. b = 0) (be_bytes 8 v) = []" "uint_contents v = [0]"
  | b bs where "dropWhile (\<lambda>b. b = 0) (be_bytes 8 v) = b # bs" "b \<noteq> 0" "length bs < 8"
      "uint_contents v = (if b AND 0x80 \<noteq> 0 then 0 # b # bs else b # bs)"
proof (cases "dropWhile (\<lambda>b. b = 0) (be_bytes 8 v)")
  case Nil
  then show thesis using that(1) unfolding uint_contents_def by (simp only: list.case)
next
  case (Cons b bs)
  moreover have "b \<noteq> 0" using hd_dropWhile [of "\<lambda>b. b = 0" "be_bytes 8 v"] Cons by simp
  moreover have "length bs < 8" using length_dropWhile_le [of "\<lambda>b. b = 0" "be_bytes 8 v"] Cons by simp
  ultimately show thesis using that(2) unfolding uint_contents_def by simp
qed

lemma be_step_0_0 [simp]: "be_step 0 0 = 0"
  by (simp add: be_step_def)

lemma be_word_Cons_0: "be_word (0 # bs) = be_word bs"
  by (simp add: be_word_def)

lemma be_word_dropWhile: "be_word (dropWhile (\<lambda>b. b = 0) bs) = be_word bs"
  by (induction bs) (auto simp: be_word_Cons_0)

lemma be_word_uint_contents: "be_word (uint_contents v) = v"
proof -
  have "be_word (dropWhile (\<lambda>b. b = 0) (be_bytes 8 v)) = v"
    by (simp add: be_word_dropWhile be_word_be_bytes take_bit_word_eq_self)
  then show ?thesis by (cases rule: uint_contents_cases [of v]) (simp_all add: be_word_Cons_0)
qed

lemma length_uint_contents: "0 < length (uint_contents v)" "length (uint_contents v) \<le> 9"
  by (cases rule: uint_contents_cases [of v]; simp)+

lemma is_valid_Cons:
  assumes "length (a # b # bs) < 2 ^ 64"
  shows "CBS_is_valid_asn1_integer (a # b # bs) =
    (if (a = 0 \<and> b AND 0x80 = 0) \<or> (a = 0xFF \<and> b AND 0x80 \<noteq> 0) then None else Some (a AND 0x80 \<noteq> 0))"
proof -
  have "length (b # bs) < 2 ^ 64" using assms by simp
  then show ?thesis using assms unfolding CBS_is_valid_asn1_integer_def by (simp only: CBS_get_u8_Cons prod.case option.case)
qed

lemma is_valid_single: "CBS_is_valid_asn1_integer [a] = Some (a AND 0x80 \<noteq> 0)"
  by (simp add: CBS_is_valid_asn1_integer_def CBS_get_u8_Cons CBS_get_u8_Nil)

lemma valid_uint_contents: "CBS_is_valid_asn1_integer (uint_contents v) = Some False"
proof (cases rule: uint_contents_cases [of v])
  case 1
  then show ?thesis by (simp add: is_valid_single)
next
  case (2 b bs)
  show ?thesis
  proof (cases "b AND 0x80 = 0")
    case False
    then show ?thesis using 2 by (simp add: is_valid_Cons)
  next
    case True
    then have "b \<noteq> 0xFF" by (intro notI) simp
    then show ?thesis using True 2 by (cases bs) (simp_all add: is_valid_Cons is_valid_single)
  qed
qed

lemma uint64_loop_be:
  "unat acc < 2 ^ (8 * k) \<Longrightarrow> k + length bs \<le> 8 \<Longrightarrow> uint64_loop acc bs = Some (foldl be_step acc bs)"
proof (induction bs arbitrary: acc k)
  case Nil
  then show ?case by simp
next
  case (Cons b bs)
  have "k \<le> 7" using Cons.prems(2) by simp
  then have "(2::nat) ^ (8 * k) \<le> 2 ^ 56" by (intro power_increasing) simp_all
  then have small: "unat acc < 2 ^ 56" using Cons.prems(1) by linarith
  then have "drop_bit 56 acc = 0" by (metis unat_drop_bit_eq drop_bit_eq_div div_less unat_eq_zero)
  moreover have "take_bit (8 * Suc k) (be_step acc b) = be_step acc b"
  proof (rule bit_word_eqI)
    fix i
    have "take_bit (8 * k) acc = acc" using Cons.prems(1) by (rule take_bit_small)
    then have "bit acc (i - 8) \<Longrightarrow> i - 8 < 8 * k" by (metis bit_take_bit_iff)
    moreover have "bit b i \<Longrightarrow> i < 8" using bit_imp_le_length [of b i] by simp
    ultimately show "bit (take_bit (8 * Suc k) (be_step acc b)) i = bit (be_step acc b) i"
      by (auto simp: be_step_def bit_simps)
  qed
  then have "unat (be_step acc b) < 2 ^ (8 * Suc k)"
    by (metis unsigned_take_bit_eq take_bit_nat_less_exp)
  then have "uint64_loop (be_step acc b) bs = Some (foldl be_step (be_step acc b) bs)"
    using Cons.prems(2) by (intro Cons.IH [of _ "Suc k"]) simp_all
  ultimately show ?case by (simp add: be_step_def [of acc b])
qed

lemma uint64_loop_contents: "uint64_loop 0 (uint_contents v) = Some v"
proof -
  have "uint64_loop 0 bs = Some (be_word bs)" if "length bs \<le> 8" for bs
    using uint64_loop_be [of 0 0 bs] that by (simp add: be_word_def)
  moreover have "uint64_loop 0 (0 # bs) = uint64_loop 0 bs" for bs by simp
  ultimately show ?thesis using be_word_uint_contents [of v]
    by (cases rule: uint_contents_cases [of v]) (auto simp: be_word_Cons_0 simp del: uint64_loop.simps split: if_splits)
qed

interpretation cbs_uint64: wire_codec "\<lambda>v. der_element 2 (uint_contents v)" "as_dec CBS_get_asn1_uint64" "\<lambda>_. True"
proof unfold_locales
  fix v rest assume l: "length (der_element 2 (uint_contents v) @ rest) < 2 ^ 64"
  have "length (uint_contents v) < 2 ^ 32" using length_uint_contents(2) [of v] by simp
  then have "CBS_get_asn1 (der_element 2 (uint_contents v) @ rest) 2 = (Some (uint_contents v), rest)"
    using l by (rule get_asn1_der)
  then show "as_dec CBS_get_asn1_uint64 (der_element 2 (uint_contents v) @ rest) = Some (v, rest)"
    by (simp add: as_dec_def CBS_get_asn1_uint64_def CBS_is_unsigned_asn1_integer_def valid_uint_contents uint64_loop_contents)
qed

section \<open>Signed integers\<close>

lemma skip_sign_nonempty: "bs \<noteq> [] \<Longrightarrow> skip_sign bs \<noteq> []"
  by (induction bs rule: skip_sign.induct) auto

lemma length_skip_sign: "length (skip_sign bs) \<le> length bs"
  by (induction bs rule: skip_sign.induct) auto

lemma skip_sign_pad: "replicate (length bs - length (skip_sign bs)) 0xFF @ skip_sign bs = bs"
proof (induction bs rule: skip_sign.induct)
  case (1 a b bs)
  then show ?case using length_skip_sign [of "b # bs"] by (auto simp: Suc_diff_le)
qed simp_all

lemma valid_skip_sign:
  "bs \<noteq> [] \<Longrightarrow> hd bs AND 0x80 \<noteq> 0 \<Longrightarrow> length bs < 2 ^ 64 \<Longrightarrow> CBS_is_valid_asn1_integer (skip_sign bs) = Some True"
proof (induction bs rule: skip_sign.induct)
  case (1 a b bs)
  have "a \<noteq> 0" using 1(3) by auto
  then show ?case using 1 by (simp add: is_valid_Cons)
qed (simp_all add: is_valid_single)

lemma le_word_zeros: "le_word (bs @ replicate k 0) = le_word bs"
  by (induction bs) (simp, induction k, simp_all)

lemma hd_be_bytes: "hd (be_bytes 8 v) AND 0x80 \<noteq> 0 \<longleftrightarrow> sint (v :: u64) < 0"
proof -
  have "hd (be_bytes 8 v) = ucast (drop_bit 56 v)"
    using nth_le_bytes [of 7 8 v] by (simp add: be_bytes_def hd_rev last_conv_nth flip: length_0_conv)
  then have "hd (be_bytes 8 v) AND 0x80 \<noteq> 0 \<longleftrightarrow> bit v 63" by (simp only: and_80_bit) (simp add: bit_simps)
  then show ?thesis using bit_last_iff [of v] by simp
qed

lemma int_contents_value:
  defines "fill neg bs \<equiv> rev bs @ replicate (8 - length bs) (if neg then 0xFF else (0 :: u8))"
  shows "CBS_is_valid_asn1_integer (int_contents v) = Some (sint v < 0)"
    "0 < length (int_contents v) \<and> length (int_contents v) \<le> 8"
    "le_word (fill (sint v < 0) (int_contents v)) = v"
proof -
  have "CBS_is_valid_asn1_integer (int_contents v) = Some (sint v < 0)
    \<and> (0 < length (int_contents v) \<and> length (int_contents v) \<le> 8)
    \<and> le_word (fill (sint v < 0) (int_contents v)) = v"
  proof (cases "sint v < 0")
    case False
    have "length (uint_contents v) \<le> 8"
    proof (cases rule: uint_contents_cases [of v])
      case (2 b bs)
      have "takeWhile (\<lambda>b. b = 0) (be_bytes 8 v) @ b # bs = be_bytes 8 v" using 2(1) by (metis takeWhile_dropWhile_id)
      moreover from this have "length (takeWhile (\<lambda>b. b = 0) (be_bytes 8 v)) + Suc (length bs) = 8"
        using length_append [of "takeWhile (\<lambda>b. b = 0) (be_bytes 8 v)" "b # bs"] by simp
      ultimately have "b # bs = be_bytes 8 v" if "length bs = 7" using that by auto
      then have "b AND 0x80 = 0" if "length bs = 7"
        using that hd_be_bytes [of v] False by (metis list.sel(1))
      then show ?thesis using 2 by (cases "length bs = 7") auto
    qed simp
    then show ?thesis using False valid_uint_contents [of v] length_uint_contents(1) [of v] be_word_uint_contents [of v]
      by (simp add: int_contents_def fill_def le_word_zeros be_word_le_word)
  next
    case True
    let ?s = "skip_sign (be_bytes 8 v)"
    have ne: "be_bytes 8 v \<noteq> []" by (metis length_be_bytes list.size(3) zero_neq_numeral)
    have s: "length ?s \<le> 8" using length_skip_sign [of "be_bytes 8 v"] by simp
    have "rev ?s @ replicate (8 - length ?s) 0xFF = rev (replicate (8 - length ?s) 0xFF @ ?s)" by simp
    also have "\<dots> = le_bytes 8 v" using skip_sign_pad [of "be_bytes 8 v"] by (simp add: be_bytes_def)
    finally have "le_word (fill True ?s) = v"
      by (simp add: fill_def le_word_le_bytes take_bit_word_eq_self)
    moreover have "CBS_is_valid_asn1_integer ?s = Some True"
      using True hd_be_bytes [of v] ne by (intro valid_skip_sign) simp_all
    moreover have "0 < length ?s" using skip_sign_nonempty [OF ne] by simp
    ultimately show ?thesis using True s by (simp add: int_contents_def)
  qed
  then show "CBS_is_valid_asn1_integer (int_contents v) = Some (sint v < 0)"
    "0 < length (int_contents v) \<and> length (int_contents v) \<le> 8"
    "le_word (fill (sint v < 0) (int_contents v)) = v" by auto
qed

interpretation cbs_int64: wire_codec "\<lambda>v. der_element 2 (int_contents v)" "as_dec CBS_get_asn1_int64" "\<lambda>_. True"
proof unfold_locales
  fix v rest assume l: "length (der_element 2 (int_contents v) @ rest) < 2 ^ 64"
  note v = int_contents_value [of v]
  have len: "\<not> 8 < CBS_len (int_contents v)" using v(2) by (simp add: CBS_len_def word_less_nat_alt unat_of_nat)
  have "length (int_contents v) < 2 ^ 32" using v(2) by simp
  then have "CBS_get_asn1 (der_element 2 (int_contents v) @ rest) 2 = (Some (int_contents v), rest)"
    using l by (rule get_asn1_der)
  then show "as_dec CBS_get_asn1_int64 (der_element 2 (int_contents v) @ rest) = Some (v, rest)"
    using v(1,3) len by (simp add: as_dec_def CBS_get_asn1_int64_def)
qed

section \<open>Booleans\<close>

definition bool_contents :: "bool \<Rightarrow> u8 list" where
  "bool_contents b = [if b then 0xFF else 0]"

interpretation cbs_bool: wire_codec "\<lambda>b. der_element 1 (bool_contents b)" "as_dec CBS_get_asn1_bool" "\<lambda>_. True"
proof unfold_locales
  fix b rest assume l: "length (der_element 1 (bool_contents b) @ rest) < 2 ^ 64"
  have "CBS_get_asn1 (der_element 1 (bool_contents b) @ rest) 1 = (Some (bool_contents b), rest)"
    using l by (intro get_asn1_der) (simp_all add: bool_contents_def)
  then show "as_dec CBS_get_asn1_bool (der_element 1 (bool_contents b) @ rest) = Some (b, rest)"
    by (simp add: as_dec_def CBS_get_asn1_bool_def bool_contents_def CBS_len_def)
qed

interpretation cbs_octets: wire_codec "der_element 4" "as_dec (\<lambda>cbs. CBS_get_asn1 cbs 4)" "\<lambda>c. length c < 2 ^ 32"
  by unfold_locales (simp add: as_dec_def get_asn1_der)

section \<open>Optional fields\<close>

text \<open>An optional element is found when its tag comes next, and only then.\<close>

lemma optional_der:
  assumes "length c < 2 ^ 32" and "length (der_element tag c @ rest) < 2 ^ 64"
  shows "CBS_get_optional_asn1 (der_element tag c @ rest) tag = (Some (Some c), rest)"
    "tag' \<noteq> tag \<Longrightarrow> CBS_get_optional_asn1 (der_element tag c @ rest) tag' = (Some None, der_element tag c @ rest)"
  using get_asn1_der(1) [OF assms] peek_der [OF assms(2)] by (simp_all add: CBS_get_optional_asn1_def)

end
