(* ===== verification/Cbb_Correct.thy ===== *)
theory Cbb_Correct
  imports Cbs_Values
begin

text \<open>
  The builder against its specification. Abstractly a builder holds the bytes written so
  far and a stack of open children, each with the kind of its length prefix and its
  contents; flushing closes the children from the inside out. The buffer with the tree of
  \<open>CBB\<close> objects implements this: every operation either does what the abstract builder
  does, or fails with the sticky error flag set, and no operation leaves the buffer.
\<close>

section \<open>The buffer\<close>

definition buf_ok :: "cbb_buffer \<Rightarrow> bool" where
  "buf_ok b \<longleftrightarrow> length (b_buf b) = unat (b_cap b) \<and> b_len b \<le> b_cap b \<and> \<not> b_undef b"

definition contents :: "cbb_buffer \<Rightarrow> u8 list" where
  "contents b = take (unat (b_len b)) (b_buf b)"

lemma length_contents: "buf_ok b \<Longrightarrow> length (contents b) = unat (b_len b)"
  by (auto simp: buf_ok_def contents_def word_le_nat_alt)

lemma contents_bound: "buf_ok b \<Longrightarrow> length (contents b) < 2 ^ 64"
  using unsigned_less [of "b_len b", where 'a = nat] by (simp add: length_contents)

definition always_serves :: "cbb_env \<Rightarrow> cbb_buffer \<Rightarrow> bool" where
  "always_serves env b \<longleftrightarrow> can_resize b \<and> (\<forall>n. may_alloc env n)"

lemma poke_inside:
  assumes "buf_ok b" and "off + length bs \<le> length (contents b)"
  shows "buf_ok (poke off bs b)"
    "contents (poke off bs b) = take off (contents b) @ bs @ drop (off + length bs) (contents b)"
    "b_len (poke off bs b) = b_len b" "b_error (poke off bs b) = b_error b" "can_resize (poke off bs b) = can_resize b"
proof -
  have "unat (b_len b) \<le> length (b_buf b)" using assms(1) by (simp add: buf_ok_def word_le_nat_alt)
  then have off: "off + length bs \<le> length (b_buf b)" "off + length bs \<le> unat (b_len b)"
    using assms length_contents by simp_all
  show "buf_ok (poke off bs b)" using assms(1) off by (simp add: poke_def buf_ok_def)
  show "contents (poke off bs b) = take off (contents b) @ bs @ drop (off + length bs) (contents b)"
    using off by (simp add: poke_def contents_def take_drop min_absorb1 min_absorb2)
  show "b_len (poke off bs b) = b_len b" "b_error (poke off bs b) = b_error b" "can_resize (poke off bs b) = can_resize b"
    by (simp_all add: poke_def)
qed

lemma reserve_cases:
  assumes ok: "buf_ok b"
  obtains (fail) "cbb_buffer_reserve env len b = (None, b\<lparr>b_error := True\<rparr>)"
      "\<not> (always_serves env b \<and> length (contents b) + unat len < 2 ^ 64)"
  | (success) b' where "cbb_buffer_reserve env len b = (Some (b_len b), b')" "buf_ok b'" "b_len b' = b_len b"
      "contents b' = contents b" "unat (b_len b) + unat len \<le> unat (b_cap b')"
      "b_error b' = b_error b" "can_resize b' = can_resize b"
proof (cases "b_len b + len < b_len b")
  case True
  have "\<not> unat (b_len b) + unat len < 2 ^ 64"
  proof
    assume "unat (b_len b) + unat len < 2 ^ 64"
    then have "unat (b_len b + len) = unat (b_len b) + unat len" by (simp add: unat_word_ariths)
    then show False using True by (simp add: word_less_nat_alt)
  qed
  then show thesis using True length_contents [OF ok] by (intro fail) (simp_all add: cbb_buffer_reserve_def)
next
  case False
  have sum: "unat (b_len b + len) = unat (b_len b) + unat len"
    using False by (simp add: not_less no_olen_add_nat flip: unat_add_lem)
  show thesis
  proof (cases "b_len b + len > b_cap b")
    case small: False
    then show ?thesis using False sum ok
      by (intro success [of b]) (simp_all add: cbb_buffer_reserve_def word_less_nat_alt)
  next
    case True
    define newcap where "newcap = (if b_cap b * 2 < b_cap b \<or> b_cap b * 2 < b_len b + len then b_len b + len else b_cap b * 2)"
    have cap: "b_cap b \<le> newcap" "b_len b + len \<le> newcap" using True by (auto simp: newcap_def)
    have eq: "cbb_buffer_reserve env len b = (if \<not> can_resize b \<or> \<not> may_alloc env newcap then (None, b\<lparr>b_error := True\<rparr>)
       else (Some (b_len b), b\<lparr>b_buf := take (unat newcap) (b_buf b) @ map (fresh_byte env) [unat (b_cap b)..<unat newcap], b_cap := newcap\<rparr>))"
      using False True by (simp add: cbb_buffer_reserve_def newcap_def Let_def)
    show ?thesis
    proof (cases "can_resize b \<and> may_alloc env newcap")
      case False
      then show ?thesis using eq by (intro fail) (auto simp: always_serves_def)
    next
      case alloc: True
      let ?b = "b\<lparr>b_buf := take (unat newcap) (b_buf b) @ map (fresh_byte env) [unat (b_cap b)..<unat newcap], b_cap := newcap\<rparr>"
      have "unat (b_cap b) \<le> unat newcap" "unat (b_len b) \<le> unat (b_cap b)" "unat (b_len b) + unat len \<le> unat newcap"
        using cap ok sum by (simp_all add: word_le_nat_alt buf_ok_def)
      then show ?thesis using eq alloc ok
        by (intro success [of ?b]) (simp_all add: buf_ok_def contents_def word_le_nat_alt min_def)
    qed
  qed
qed

lemma add_cases:
  assumes ok: "buf_ok b"
  obtains (fail) "cbb_buffer_add env len b = (None, b\<lparr>b_error := True\<rparr>)"
      "\<not> (always_serves env b \<and> length (contents b) + unat len < 2 ^ 64)"
  | (success) b' where "cbb_buffer_add env len b = (Some (b_len b), b')" "buf_ok b'"
      "length (contents b') = length (contents b) + unat len" "take (length (contents b)) (contents b') = contents b"
      "b_error b' = b_error b" "can_resize b' = can_resize b"
proof (cases rule: reserve_cases [OF ok, of env len])
  case 1
  then show ?thesis by (intro fail) (simp_all add: cbb_buffer_add_def)
next
  case (2 b')
  let ?b = "b'\<lparr>b_len := b_len b' + len\<rparr>"
  have "unat (b_len b) + unat len < 2 ^ 64"
    using 2(5) unsigned_less [of "b_cap b'", where 'a = nat] by simp
  then have u: "unat (b_len b' + len) = unat (b_len b) + unat len" using 2(3) by (simp add: unat_word_ariths)
  have ok': "buf_ok ?b" using 2(2,5) u by (simp add: buf_ok_def word_le_nat_alt)
  have "take (unat (b_len b)) (contents ?b) = contents b'" using u 2(3) by (simp add: contents_def)
  then show ?thesis using 2 u ok' length_contents [OF ok'] length_contents [OF ok]
    by (intro success [of ?b]) (simp_all add: cbb_buffer_add_def)
qed

text \<open>Functions on the buffer that append given bytes, or fail and say so.\<close>

definition appends :: "cbb_env \<Rightarrow> bool \<Rightarrow> (cbb_buffer \<Rightarrow> 'a option \<times> cbb_buffer) \<Rightarrow> u8 list \<Rightarrow> bool" where
  "appends env ok f bs \<longleftrightarrow>
     (\<forall>b. buf_ok b \<and> \<not> b_error b \<longrightarrow>
       (case f b of
          (None, b') \<Rightarrow> b_error b' \<and> \<not> b_undef b'
            \<and> \<not> (ok \<and> always_serves env b \<and> length (contents b) + length bs < 2 ^ 64)
        | (Some _, b') \<Rightarrow> buf_ok b' \<and> \<not> b_error b' \<and> can_resize b' = can_resize b \<and> contents b' = contents b @ bs))"

definition put :: "cbb_env \<Rightarrow> u8 list \<Rightarrow> cbb_buffer \<Rightarrow> unit option \<times> cbb_buffer" where
  "put env bs b = pthen (cbb_buffer_add env (of_nat (length bs)) b) (\<lambda>out b. (Some (), poke (unat out) bs b))"

lemma put_appends:
  assumes "length bs < 2 ^ 64"
  shows "appends env True (put env bs) bs"
  unfolding appends_def
proof (intro allI impI, elim conjE)
  fix b assume b: "buf_ok b" "\<not> b_error b"
  have u: "unat (of_nat (length bs) :: u64) = length bs" using assms by (simp add: unat_of_nat)
  show "case put env bs b of
      (None, b') \<Rightarrow> b_error b' \<and> \<not> b_undef b' \<and> \<not> (True \<and> always_serves env b \<and> length (contents b) + length bs < 2 ^ 64)
    | (Some _, b') \<Rightarrow> buf_ok b' \<and> \<not> b_error b' \<and> can_resize b' = can_resize b \<and> contents b' = contents b @ bs"
  proof (cases rule: add_cases [OF b(1), of env "of_nat (length bs)"])
    case 1
    then show ?thesis using b u by (simp add: put_def buf_ok_def)
  next
    case (2 b')
    have l: "length (contents b') = length (contents b) + length bs" using 2(3) u by simp
    then have "length (contents b) + length bs \<le> length (contents b')" by simp
    note p = poke_inside [OF 2(2) this]
    have "unat (b_len b) = length (contents b)" using b(1) by (simp add: length_contents)
    then show ?thesis using 2 b p l by (simp add: put_def)
  qed
qed

lemma add_u_appends:
  assumes "0 < k" "k \<le> 8"
  shows "appends env (unat v < 2 ^ (8 * k)) (cbb_buffer_add_u env v k) (be_bytes k v)"
  unfolding appends_def
proof (intro allI impI, elim conjE)
  fix b assume b: "buf_ok b" "\<not> b_error b"
  have v: "drop_bit (8 * k) v \<noteq> 0 \<longleftrightarrow> \<not> unat v < 2 ^ (8 * k)"
    by (metis drop_bit_eq_div div_eq_0_iff not_less power_not_zero unat_drop_bit_eq unat_eq_zero zero_neq_numeral)
  have eq: "cbb_buffer_add_u env v k b = pthen (put env (be_bytes k v) b)
      (\<lambda>_ b. if drop_bit (8 * k) v \<noteq> 0 then (None, b\<lparr>b_error := True\<rparr>) else (Some (), b))"
    using assms(1) by (cases "cbb_buffer_add env (of_nat k) b"; cases "fst (cbb_buffer_add env (of_nat k) b)")
      (auto simp: cbb_buffer_add_u_def put_def Let_def)
  have "appends env True (put env (be_bytes k v)) (be_bytes k v)" using assms(2) by (intro put_appends) simp
  then show "case cbb_buffer_add_u env v k b of
      (None, b') \<Rightarrow> b_error b' \<and> \<not> b_undef b'
        \<and> \<not> (unat v < 2 ^ (8 * k) \<and> always_serves env b \<and> length (contents b) + length (be_bytes k v) < 2 ^ 64)
    | (Some _, b') \<Rightarrow> buf_ok b' \<and> \<not> b_error b' \<and> can_resize b' = can_resize b \<and> contents b' = contents b @ be_bytes k v"
    unfolding eq v using b by (auto simp: appends_def pthen_def buf_ok_def split: prod.splits option.splits)
qed

section \<open>The abstract builder\<close>

text \<open>The kind of a child's length prefix: big-endian in a fixed number of octets, or a DER length.\<close>

datatype prefix_kind = Fixed nat | Der

type_synonym frames = "(prefix_kind \<times> u8 list) list"

fun placeholder :: "prefix_kind \<Rightarrow> nat" where
  "placeholder (Fixed k) = k"
| "placeholder Der = 1"

fun kind_ok :: "prefix_kind \<Rightarrow> bool" where
  "kind_ok (Fixed k) \<longleftrightarrow> 0 < k \<and> k \<le> 8"
| "kind_ok Der \<longleftrightarrow> True"

fun close_child :: "prefix_kind \<Rightarrow> u8 list \<Rightarrow> u8 list option" where
  "close_child (Fixed k) c = (if length c < 2 ^ (8 * k) then Some (prefixed k c) else None)"
| "close_child Der c = (if length c \<le> 0xFFFFFFFE then Some (der_length (length c) @ c) else None)"

fun collapse :: "frames \<Rightarrow> u8 list option" where
  "collapse [] = Some []"
| "collapse ((k, c) # fs) = (case collapse fs of None \<Rightarrow> None | Some x \<Rightarrow> close_child k (c @ x))"

lemma placeholder_pos: "kind_ok k \<Longrightarrow> 0 < placeholder k"
  by (cases k) auto

lemma placeholder_le: "kind_ok k \<Longrightarrow> placeholder k \<le> 8"
  by (cases k) auto

lemma close_child_length: "close_child k c = Some x \<Longrightarrow> placeholder k + length c \<le> length x"
  by (cases k) (auto simp: prefixed_def der_length_def split: if_splits)

section \<open>Flushing a child\<close>

definition failed :: "cbb_state \<Rightarrow> bool" where
  "failed st \<longleftrightarrow> b_error (cbase st) \<and> \<not> b_undef (cbase st)"

lemma cbase_simps [simp]:
  "cbase (cbb_upd p f st) = cbase st" "cbbs (cbb_upd p f st) = (cbbs st)(p := f (cbbs st p))"
  "cbase (set_error st) = (cbase st)\<lparr>b_error := True\<rparr>" "cbbs (set_error st) = cbbs st"
  by (simp_all add: cbb_upd_def set_error_def)

lemma failed_set_error: "\<not> b_undef (cbase st) \<Longrightarrow> failed (set_error st)"
  by (simp add: failed_def)

text \<open>The state after the length of a child \<open>q\<close> of \<open>p\<close> is in place.\<close>

definition closed :: "addr \<Rightarrow> addr \<Rightarrow> u8 list \<Rightarrow> cbb_state \<Rightarrow> cbb_state \<Rightarrow> bool" where
  "closed p q bs st st' \<longleftrightarrow>
     buf_ok (cbase st') \<and> b_error (cbase st') = b_error (cbase st) \<and> can_resize (cbase st') = can_resize (cbase st)
     \<and> contents (cbase st') = bs \<and> cbbs st' p = (cbbs st p)\<lparr>c_child := 0\<rparr> \<and> (\<forall>a. a \<noteq> p \<and> a \<noteq> q \<longrightarrow> cbbs st' a = cbbs st a)"

lemma write_prefix_closed:
  assumes b: "buf_ok (cbase st)" and c: "contents (cbase st) = d @ ph @ body"
    and "unat (c_offset (cbbs st q)) = length d" and n: "unat (c_pending_len_len (cbbs st q)) = length ph" and "p \<noteq> q"
  shows "if drop_bit (8 * length ph) len \<noteq> 0 then fst (write_prefix p q len st) = None \<and> failed (snd (write_prefix p q len st))
    else fst (write_prefix p q len st) = Some () \<and> closed p q (d @ be_bytes (length ph) len @ body) st (snd (write_prefix p q len st))"
proof -
  have "length d + length (be_bytes (length ph) len) \<le> length (contents (cbase st))" by (simp add: c)
  note poke = poke_inside [OF b this]
  show ?thesis using assms poke by (auto simp: write_prefix_def Let_def closed_def failed_def buf_ok_def)
qed

lemma drop_bit_of_nat_0: "n < 2 ^ 64 \<Longrightarrow> drop_bit k (of_nat n :: u64) = 0 \<longleftrightarrow> n < 2 ^ k"
proof -
  assume "n < 2 ^ 64"
  then have "unat (of_nat n :: u64) = n" by (simp add: unat_of_nat)
  then have "unat (drop_bit k (of_nat n :: u64)) = n div 2 ^ k" by (metis unat_drop_bit_eq drop_bit_eq_div)
  then show ?thesis by (metis div_eq_0_iff power_not_zero unat_eq_zero zero_neq_numeral)
qed

text \<open>Making room for the long form of a DER length moves the contents along.\<close>

lemma make_room:
  assumes b: "buf_ok b" and c: "contents b = d @ ph # body" and "cbb_buffer_add env (of_nat k) b = (Some out, b')" and "k \<le> 4"
  defines "b2 \<equiv> poke (Suc (length d) + k) (take (length body) (drop (Suc (length d)) (b_buf b'))) b'"
  shows "buf_ok b2" "\<exists>gap. length gap = k \<and> contents b2 = d @ ph # gap @ body" "b_error b2 = b_error b" "can_resize b2 = can_resize b"
proof -
  have u: "unat (of_nat k :: u64) = k" using assms(4) by (simp add: unat_of_nat)
  obtain "buf_ok b'" and l: "length (contents b') = length (contents b) + k"
      and t: "take (length (contents b)) (contents b') = contents b"
      and m: "b_error b' = b_error b" "can_resize b' = can_resize b"
    using assms(3) u by (cases rule: add_cases [OF b, of env "of_nat k"]) simp_all
  define gap where "gap = drop (length (contents b)) (contents b')"
  have "contents b' = contents b @ gap" unfolding gap_def using t by (metis append_take_drop_id)
  then have c': "contents b' = d @ ph # body @ gap" by (simp add: c)
  have le: "Suc (length body + length d) \<le> unat (b_len b')" using l length_contents [OF \<open>buf_ok b'\<close>] by (simp add: c)
  have "take (length body) (drop (Suc (length d)) (b_buf b')) = take (length body) (drop (Suc (length d)) (contents b'))"
    using le by (simp add: contents_def take_drop min_absorb1)
  then have body: "take (length body) (drop (Suc (length d)) (b_buf b')) = body" by (simp add: c')
  have "length gap = k" using l c by (simp add: gap_def)
  then have "Suc (length d) + k + length body \<le> length (contents b')" by (simp add: c')
  note p = poke_inside [OF \<open>buf_ok b'\<close> this]
  show "buf_ok b2" "b_error b2 = b_error b" "can_resize b2 = can_resize b"
    using p m unfolding b2_def body by simp_all
  have "contents b2 = d @ ph # take k (body @ gap) @ body"
    using p(2) \<open>length gap = k\<close> unfolding b2_def body c' by simp
  then show "\<exists>gap. length gap = k \<and> contents b2 = d @ ph # gap @ body"
    using \<open>length gap = k\<close> by (intro exI [of _ "take k (body @ gap)"]) simp
qed

text \<open>Writing the octets of a DER length over the placeholder and the gap.\<close>

lemma der_header:
  fixes lb :: u8
  assumes b: "buf_ok (cbase st)" and c: "contents (cbase st) = d @ ph # gap @ body"
    and off: "unat (c_offset (cbbs st q)) = length d" and "p \<noteq> q" and "length gap < 256"
    and len: "drop_bit (8 * length gap) len = 0"
  defines "st1 \<equiv> cbb_upd q (\<lambda>c. c\<lparr>c_offset := c_offset c + 1, c_pending_len_len := of_nat (length gap)\<rparr>)
    (st\<lparr>cbase := poke (unat (c_offset (cbbs st q))) [lb] (cbase st)\<rparr>)"
  shows "fst (write_prefix p q len st1) = Some ()"
    "closed p q (d @ lb # be_bytes (length gap) len @ body) st (snd (write_prefix p q len st1))"
proof -
  have bound: "length d + 1 < 2 ^ 64" using contents_bound [OF b] c by simp
  have "length d + length [lb] \<le> length (contents (cbase st))" by (simp add: c)
  note p = poke_inside [OF b this]
  have ok: "buf_ok (cbase st1)" and c1: "contents (cbase st1) = (d @ [lb]) @ gap @ body"
    using p c off by (simp_all add: st1_def)
  have "unat (c_offset (cbbs st q) + 1) = length d + 1" using off bound by (simp add: unat_word_ariths)
  then have "unat (c_offset (cbbs st1 q)) = length (d @ [lb])" by (simp add: st1_def)
  moreover have "unat (c_pending_len_len (cbbs st1 q)) = length gap" using assms(5) by (simp add: st1_def unat_of_nat)
  ultimately have w: "fst (write_prefix p q len st1) = Some ()
    \<and> closed p q ((d @ [lb]) @ be_bytes (length gap) len @ body) st1 (snd (write_prefix p q len st1))"
    using write_prefix_closed [OF ok c1 _ _ \<open>p \<noteq> q\<close>, of len] len by simp
  then show "fst (write_prefix p q len st1) = Some ()" by simp
  show "closed p q (d @ lb # be_bytes (length gap) len @ body) st (snd (write_prefix p q len st1))"
    using w p(4,5) off \<open>p \<noteq> q\<close> by (auto simp: closed_def st1_def)
qed

lemma der_length_facts:
  assumes "n < 2 ^ 32"
  shows "length (der_length n) \<le> 5" "der_length n = hd (der_length n) # be_bytes (length (der_length n) - 1) (of_nat n :: u64)"
    "length (der_length n) \<noteq> 1 \<Longrightarrow> drop_bit (8 * (length (der_length n) - 1)) (of_nat n :: u64) = 0"
proof -
  have ne: "der_length n \<noteq> []" by (simp add: der_length_def)
  show "length (der_length n) \<le> 5" using assms by (cases rule: der_length_cases) auto
  show "der_length n = hd (der_length n) # be_bytes (length (der_length n) - 1) (of_nat n :: u64)"
    using der_len_len_spec(2) [OF assms] ne by (metis list.collapse)
  have n: "n < 2 ^ 64" using assms by simp
  show "length (der_length n) \<noteq> 1 \<Longrightarrow> drop_bit (8 * (length (der_length n) - 1)) (of_nat n :: u64) = 0"
    using assms by (cases rule: der_length_cases) (simp_all add: drop_bit_of_nat_0 [OF n])
qed

lemma flush_child_der:
  assumes b: "buf_ok (cbase st)" and c: "contents (cbase st) = d @ ph # body" and n: "length body \<le> 0xFFFFFFFE"
    and off: "unat (c_offset (cbbs st q)) = length d" and asn1: "c_pending_is_asn1 (cbbs st q)"
    and start: "unat child_start = Suc (length d)" and "p \<noteq> q"
    and len: "b_len (cbase st) - child_start = of_nat (length body)"
  shows "case flush_child env p q child_start st of
      (None, st') \<Rightarrow> failed st' \<and> \<not> (always_serves env (cbase st) \<and> length d + length (der_length (length body) @ body) < 2 ^ 64)
    | (Some _, st') \<Rightarrow> closed p q (d @ der_length (length body) @ body) st st'"
proof -
  let ?n = "length body" and ?L = "der_length (length body)"
  define k where "k = length ?L - 1"
  have Lk: "length ?L = Suc k" by (simp add: k_def der_length_def)
  define hdr where "hdr s = cbb_upd q (\<lambda>c. c\<lparr>c_offset := c_offset c + 1, c_pending_len_len := of_nat k\<rparr>)
    (s\<lparr>cbase := poke (unat (c_offset (cbbs s q))) [hd ?L] (cbase s)\<rparr>)" for s
  have n32: "?n < 2 ^ 32" using n by simp
  note L = der_length_facts [OF n32, unfolded k_def [symmetric]]
  have small: "\<not> of_nat ?n > (0xFFFFFFFE :: u64)" using n by (simp add: word_less_nat_alt unat_of_nat)
  have un: "unat (of_nat ?n :: u64) = ?n" using n by (simp add: unat_of_nat)
  have eq: "flush_child env p q child_start st =
    (if length ?L = 1 then write_prefix p q 0 (hdr st)
     else case cbb_buffer_add env (of_nat k) (cbase st) of
        (None, b) \<Rightarrow> (None, set_error (st\<lparr>cbase := b\<rparr>))
      | (Some _, b) \<Rightarrow> write_prefix p q (of_nat ?n) (hdr (st\<lparr>cbase := poke (Suc (length d) + k) (take ?n (drop (Suc (length d)) (b_buf b))) b\<rparr>)))"
    using small by (auto simp: flush_child_def len asn1 der_len_len_spec(1) [OF n32] Lk Let_def start un hdr_def split: option.splits prod.splits)
  show ?thesis
  proof (cases "length ?L = 1")
    case True
    have c0: "contents (cbase st) = d @ ph # [] @ body" using c by simp
    obtain lb where lb: "?L = [lb]" using True by (cases ?L) auto
    show ?thesis using der_header [OF b c0 off \<open>p \<noteq> q\<close>, of 0 lb]
      by (cases "write_prefix p q 0 (hdr st)") (auto simp: eq hdr_def lb k_def be_bytes_def split: option.splits prod.splits)
  next
    case False
    show ?thesis
    proof (cases "cbb_buffer_add env (of_nat k) (cbase st)")
      case (Pair r b')
      show ?thesis
      proof (cases r)
        case None
        have "unat (of_nat k :: u64) = k" using L(1) Lk by (simp add: unat_of_nat)
        then show ?thesis using Pair None False c b by (cases rule: add_cases [OF b, of env "of_nat k"])
          (auto simp: eq failed_def buf_ok_def Lk)
      next
        case (Some out)
        let ?b = "poke (Suc (length d) + k) (take ?n (drop (Suc (length d)) (b_buf b'))) b'"
        have "k \<le> 4" using L(1) Lk by simp
        note room = make_room [OF b c Pair [unfolded Some] this]
        obtain gap where gap: "length gap = k" "contents ?b = d @ ph # gap @ body" using room(2) by blast
        let ?s = "st\<lparr>cbase := ?b\<rparr>"
        have "fst (write_prefix p q (of_nat ?n) (hdr ?s)) = Some ()
          \<and> closed p q (d @ hd ?L # be_bytes k (of_nat ?n :: u64) @ body) ?s (snd (write_prefix p q (of_nat ?n) (hdr ?s)))"
          using der_header [of ?s d ph gap body q p "of_nat ?n" "hd ?L"] gap room(1) off \<open>p \<noteq> q\<close> L(1) Lk L(3) [OF False]
          by (simp add: hdr_def)
        moreover have "d @ hd ?L # be_bytes k (of_nat ?n :: u64) @ body = d @ ?L @ body" by (metis L(2) append_Cons)
        ultimately show ?thesis using room(3,4) Pair Some False
          by (cases "write_prefix p q (of_nat ?n) (hdr ?s)") (auto simp: eq closed_def split: option.splits)
      qed
    qed
  qed
qed

text \<open>Closing a child, whatever its kind.\<close>

lemma flush_child_closed:
  assumes b: "buf_ok (cbase st)" and c: "contents (cbase st) = d @ ph @ body" and k: "kind_ok k" "length ph = placeholder k"
    and q: "unat (c_offset (cbbs st q)) = length d" "unat (c_pending_len_len (cbbs st q)) = placeholder k"
      "c_pending_is_asn1 (cbbs st q) \<longleftrightarrow> k = Der" and start: "unat child_start = length d + placeholder k" and "p \<noteq> q"
  shows "case flush_child env p q child_start st of
      (None, st') \<Rightarrow> failed st' \<and> \<not> (always_serves env (cbase st) \<and> (\<exists>x. close_child k body = Some x \<and> length d + length x < 2 ^ 64))
    | (Some _, st') \<Rightarrow> \<exists>x. close_child k body = Some x \<and> closed p q (d @ x) st st'"
proof -
  let ?n = "length body"
  have n: "?n < 2 ^ 64" using contents_bound [OF b] c by simp
  have "b_len (cbase st) = of_nat (length d + placeholder k + ?n)"
    using length_contents [OF b] c k(2) by (metis append_assoc length_append of_nat_unat ucast_id)
  moreover have "child_start = of_nat (length d + placeholder k)" using start by (metis of_nat_unat ucast_id)
  ultimately have len: "b_len (cbase st) - child_start = of_nat ?n" by simp
  show ?thesis
  proof (cases k)
    case (Fixed w)
    then have "flush_child env p q child_start st = write_prefix p q (of_nat ?n) st"
      using q(3) by (simp add: flush_child_def len)
    then show ?thesis
      using write_prefix_closed [OF b c q(1) _ \<open>p \<noteq> q\<close>, of "of_nat ?n"] q(2) k Fixed n
      by (cases "write_prefix p q (of_nat ?n) st") (auto simp: drop_bit_of_nat_0 prefixed_def split: if_splits option.splits)
  next
    case Der
    show ?thesis
    proof (cases "?n \<le> 0xFFFFFFFE")
      case False
      then have "flush_child env p q child_start st = (None, set_error st)"
        using q(3) Der n by (simp add: flush_child_def len word_less_nat_alt unat_of_nat)
      then show ?thesis using False b Der by (simp add: failed_set_error buf_ok_def)
    next
      case True
      obtain x where ph: "ph = [x]" using k(2) Der by (cases ph) auto
      show ?thesis
        using flush_child_der [OF b _ True q(1) _ _ \<open>p \<noteq> q\<close> len, of x env] c ph q(3) start Der True
        by (cases "flush_child env p q child_start st") (auto split: option.splits)
    qed
  qed
qed

end
