(* ===== verification/Cbb_Builder.thy ===== *)
theory Cbb_Builder
  imports Cbb_Correct
begin

text \<open>
  The tree of \<open>CBB\<close> objects as an abstract builder. An object with open children below it
  stands for the bytes before them and the stack of their frames. The contract of an
  operation says what it does to the object it is called on, whatever is above it; a
  separate lemma carries it to a builder in which that object is itself a child.
\<close>

section \<open>Chains of open children\<close>

definition is_child_of :: "(addr \<Rightarrow> cbb) \<Rightarrow> nat \<Rightarrow> addr \<Rightarrow> addr \<Rightarrow> prefix_kind \<Rightarrow> bool" where
  "is_child_of m off p q k \<longleftrightarrow>
     c_base (m p) \<and> c_child (m p) = q \<and> q \<noteq> 0 \<and> kind_ok k \<and> unat (c_offset (m q)) = off
     \<and> unat (c_pending_len_len (m q)) = placeholder k \<and> (c_pending_is_asn1 (m q) \<longleftrightarrow> k = Der)"

text \<open>The bytes \<open>bs\<close> from offset \<open>off\<close> on belong to the chain below \<open>p\<close>.\<close>

fun linked :: "(addr \<Rightarrow> cbb) \<Rightarrow> nat \<Rightarrow> addr \<Rightarrow> addr list \<Rightarrow> frames \<Rightarrow> u8 list \<Rightarrow> bool" where
  "linked m off p [] [] bs \<longleftrightarrow> c_base (m p) \<and> c_child (m p) = 0 \<and> bs = []"
| "linked m off p (q # qs) ((k, c) # fs) bs \<longleftrightarrow>
     is_child_of m off p q k
     \<and> (\<exists>ph rest. bs = ph @ c @ rest \<and> length ph = placeholder k \<and> linked m (off + placeholder k + length c) q qs fs rest)"
| "linked m off p _ _ bs \<longleftrightarrow> False"

definition builder :: "cbb_state \<Rightarrow> addr \<Rightarrow> addr list \<Rightarrow> u8 list \<Rightarrow> frames \<Rightarrow> bool" where
  "builder st r qs d fs \<longleftrightarrow>
     buf_ok (cbase st) \<and> \<not> b_error (cbase st) \<and> distinct (r # qs)
     \<and> (\<exists>bs. contents (cbase st) = d @ bs \<and> linked (cbbs st) (length d) r qs fs bs)"

lemma linked_cong:
  "(\<And>a. a \<in> set (p # qs) \<Longrightarrow> m' a = m a) \<Longrightarrow> linked m' off p qs fs bs = linked m off p qs fs bs"
proof (induction m off p qs fs bs rule: linked.induct)
  case (2 m off p q qs k c fs bs)
  then have "linked m' (off + placeholder k + length c) q qs fs rest = linked m (off + placeholder k + length c) q qs fs rest" for rest
    by simp
  then show ?case using 2(2) by (simp add: is_child_of_def)
qed simp_all

text \<open>What an operation on \<open>p\<close> leaves alone.\<close>

definition kept :: "addr set \<Rightarrow> addr \<Rightarrow> addr \<Rightarrow> cbb_state \<Rightarrow> cbb_state \<Rightarrow> bool" where
  "kept A p child st st' \<longleftrightarrow>
     can_resize (cbase st') = can_resize (cbase st) \<and> cbbs st' p = (cbbs st p)\<lparr>c_child := child\<rparr>
     \<and> (\<forall>a. a \<noteq> p \<and> a \<notin> A \<longrightarrow> cbbs st' a = cbbs st a)"

section \<open>Flushing\<close>

lemma flush_linked:
  assumes "linked (cbbs st) (length d) p qs fs bs" and "buf_ok (cbase st)" and "\<not> b_error (cbase st)"
    and "contents (cbase st) = d @ bs" and "distinct (p # qs)" and "length qs < n"
  shows "case CBB_flush n env p st of
      (None, st') \<Rightarrow> failed st' \<and> \<not> (always_serves env (cbase st) \<and> (\<exists>x. collapse fs = Some x \<and> length d + length x < 2 ^ 64))
    | (Some _, st') \<Rightarrow> \<exists>x. collapse fs = Some x \<and> buf_ok (cbase st') \<and> \<not> b_error (cbase st')
        \<and> contents (cbase st') = d @ x \<and> kept (set qs) p 0 st st'"
  using assms
proof (induction qs arbitrary: st d p fs bs n)
  case Nil
  then obtain "fs = []" "bs = []" and c: "c_base (cbbs st p)" "c_child (cbbs st p) = 0"
    by (cases fs) auto
  obtain n' where "n = Suc n'" using Nil.prems(6) by (cases n) auto
  then show ?case using c Nil.prems \<open>fs = []\<close> \<open>bs = []\<close> by (simp add: kept_def)
next
  case (Cons q qs)
  obtain k c fs' where fs: "fs = (k, c) # fs'" using Cons.prems(1) by (cases fs) auto
  obtain ph rest where q: "is_child_of (cbbs st) (length d) p q k" and bs: "bs = ph @ c @ rest" "length ph = placeholder k"
    and lk: "linked (cbbs st) (length (d @ ph @ c)) q qs fs' rest"
    using Cons.prems(1) unfolding fs by (auto simp: add.assoc)
  obtain n' where n: "n = Suc n'" "length qs < n'" using Cons.prems(6) by (cases n) auto
  note q' = q [unfolded is_child_of_def]
  have pend: "c_pending_len_len (cbbs st q) \<noteq> 0" using q' placeholder_pos [of k] by (auto simp: word_unat_eq_iff)
  define start where "start = c_offset (cbbs st q) + ucast (c_pending_len_len (cbbs st q))"
  have "length d + placeholder k < 2 ^ 64" using contents_bound [OF Cons.prems(2)] Cons.prems(4) bs by simp
  then have start: "unat start = length d + placeholder k"
    using q' by (simp add: start_def unat_word_ariths unat_ucast_up)
  define after where "after = (\<lambda>r :: unit build. case r of
      (None, st') \<Rightarrow> (None, set_error st')
    | (Some _, st') \<Rightarrow> if start < c_offset (cbbs st q) \<or> b_len (cbase st') < start then (None, set_error st')
        else flush_child env p q start st')"
  have fl: "CBB_flush n env p st = after (CBB_flush n' env q st)"
    using q' pend Cons.prems(3) unfolding n(1) after_def start_def by (simp add: Let_def)
  have ih: "case CBB_flush n' env q st of
      (None, st') \<Rightarrow> failed st' \<and> \<not> (always_serves env (cbase st) \<and> (\<exists>x. collapse fs' = Some x \<and> length (d @ ph @ c) + length x < 2 ^ 64))
    | (Some _, st') \<Rightarrow> \<exists>x. collapse fs' = Some x \<and> buf_ok (cbase st') \<and> \<not> b_error (cbase st')
        \<and> contents (cbase st') = (d @ ph @ c) @ x \<and> kept (set qs) q 0 st st'"
    using Cons.prems bs n(2) by (intro Cons.IH [OF lk]) simp_all
  show ?case
  proof (cases "CBB_flush n' env q st")
    case (Pair r st1)
    show ?thesis
    proof (cases r)
      case None
      then have "failed (set_error st1)" using ih Pair by (simp add: failed_def)
      moreover have "length (d @ ph @ c) + length y < 2 ^ 64" if "collapse fs = Some x" "collapse fs' = Some y" "length d + length x < 2 ^ 64" for x y
        using that close_child_length [of k "c @ y" x] bs(2) by (simp add: fs)
      ultimately show ?thesis using ih Pair None unfolding fl after_def
        by (auto simp: fs split: option.splits)
    next
      case (Some u)
      obtain x where x: "collapse fs' = Some x" and st1: "buf_ok (cbase st1)" "\<not> b_error (cbase st1)"
          "contents (cbase st1) = d @ ph @ c @ x" "kept (set qs) q 0 st st1"
        using ih Pair Some by auto
      have p1: "cbbs st1 p = cbbs st p" using st1(4) Cons.prems(5) by (auto simp: kept_def)
      have q1: "cbbs st1 q = (cbbs st q)\<lparr>c_child := 0\<rparr>" using st1(4) by (simp add: kept_def)
      have "\<not> start < c_offset (cbbs st q)" using start q' by (simp add: word_less_nat_alt)
      moreover have "unat start \<le> unat (b_len (cbase st1))" using st1(1,3) start bs(2) by (simp flip: length_contents)
      then have "\<not> b_len (cbase st1) < start" by (simp add: word_less_nat_alt)
      ultimately have eq: "CBB_flush n env p st = flush_child env p q start st1"
        using Pair Some by (simp add: fl after_def)
      have "p \<noteq> q" using Cons.prems(5) by auto
      then have fc: "case flush_child env p q start st1 of
          (None, st') \<Rightarrow> failed st' \<and> \<not> (always_serves env (cbase st1) \<and> (\<exists>y. close_child k (c @ x) = Some y \<and> length d + length y < 2 ^ 64))
        | (Some _, st') \<Rightarrow> \<exists>y. close_child k (c @ x) = Some y \<and> closed p q (d @ y) st1 st'"
        using q' st1 q1 bs(2) start by (intro flush_child_closed [of st1 d ph "c @ x" k q start p env]) simp_all
      have "always_serves env (cbase st1) = always_serves env (cbase st)"
        using st1(4) by (simp add: always_serves_def kept_def)
      moreover have "kept (set (q # qs)) p 0 st st'" if "closed p q (d @ y) st1 st'" for y st'
        using that st1(4) p1 by (auto simp: kept_def closed_def)
      ultimately show ?thesis using fc st1(2) x unfolding eq
        by (cases "flush_child env p q start st1") (auto simp: fs closed_def split: option.splits)
    qed
  qed
qed

section \<open>Contracts\<close>

type_synonym 'a op = "nat \<Rightarrow> cbb_env \<Rightarrow> addr \<Rightarrow> cbb_state \<Rightarrow> 'a build"

definition total :: "frames \<Rightarrow> nat" where
  "total fs = sum_list (map (\<lambda>(k, c). placeholder k + length c) fs)"

text \<open>
  The operation closes the open children of its object, appends \<open>e\<close> and opens the children
  \<open>qs'\<close>; it may overwrite the objects in \<open>T\<close>. It fails only when \<open>ok\<close> does not hold, when a
  length does not fit, or when memory runs out.
\<close>

definition does :: "addr set \<Rightarrow> bool \<Rightarrow> 'a op \<Rightarrow> u8 list \<Rightarrow> addr list \<Rightarrow> frames \<Rightarrow> bool" where
  "does T ok op e qs' fs' \<longleftrightarrow>
     (\<forall>n env p qs d fs st. builder st p qs d fs \<longrightarrow> Suc (length qs) < n \<longrightarrow> T \<inter> set (p # qs) = {} \<longrightarrow>
       (case op n env p st of
          (None, st') \<Rightarrow> failed st' \<and> \<not> (ok \<and> always_serves env (cbase st)
            \<and> (\<exists>x. collapse fs = Some x \<and> length d + length x + length e + total fs' < 2 ^ 64))
        | (Some _, st') \<Rightarrow> \<exists>x. collapse fs = Some x \<and> builder st' p qs' (d @ x @ e) fs' \<and> kept (T \<union> set qs) p (hd (qs' @ [0])) st st'))"

abbreviation (input) emits :: "addr set \<Rightarrow> bool \<Rightarrow> 'a op \<Rightarrow> u8 list \<Rightarrow> bool" where
  "emits T ok op e \<equiv> does T ok op e [] []"

lemma doesD:
  assumes "does T ok op e qs' fs'" and "builder st p qs d fs" and "Suc (length qs) < n" and "T \<inter> set (p # qs) = {}"
  obtains st' where "op n env p st = (None, st')" "failed st'"
      "ok \<Longrightarrow> always_serves env (cbase st) \<Longrightarrow> collapse fs = Some x \<Longrightarrow> length d + length x + length e + total fs' < 2 ^ 64 \<Longrightarrow> False"
  | v st' y where "op n env p st = (Some v, st')" "collapse fs = Some y" "builder st' p qs' (d @ y @ e) fs'"
      "kept (T \<union> set qs) p (hd (qs' @ [0])) st st'"
proof -
  have "case op n env p st of
          (None, st') \<Rightarrow> failed st' \<and> \<not> (ok \<and> always_serves env (cbase st)
            \<and> (\<exists>x. collapse fs = Some x \<and> length d + length x + length e + total fs' < 2 ^ 64))
        | (Some _, st') \<Rightarrow> \<exists>x. collapse fs = Some x \<and> builder st' p qs' (d @ x @ e) fs' \<and> kept (T \<union> set qs) p (hd (qs' @ [0])) st st'"
    using assms(1) [unfolded does_def, rule_format, OF assms(2-4), of env] .
  then show thesis using that by (cases "op n env p st"; cases "fst (op n env p st)") auto
qed

lemma flush_builder:
  assumes b: "builder st p qs d fs" and n: "length qs < n"
  obtains st' where "CBB_flush n env p st = (None, st')" "failed st'"
      "always_serves env (cbase st) \<Longrightarrow> collapse fs = Some x \<Longrightarrow> length d + length x < 2 ^ 64 \<Longrightarrow> False"
  | st' y where "CBB_flush n env p st = (Some (), st')" "collapse fs = Some y" "builder st' p [] (d @ y) []" "kept (set qs) p 0 st st'"
proof -
  obtain bs where bs: "contents (cbase st) = d @ bs" "linked (cbbs st) (length d) p qs fs bs" using b by (auto simp: builder_def)
  have c: "c_base (cbbs st p)" using bs(2) by (cases qs; cases fs) (auto simp: is_child_of_def)
  have "case CBB_flush n env p st of
      (None, st') \<Rightarrow> failed st' \<and> \<not> (always_serves env (cbase st) \<and> (\<exists>x. collapse fs = Some x \<and> length d + length x < 2 ^ 64))
    | (Some _, st') \<Rightarrow> \<exists>x. collapse fs = Some x \<and> buf_ok (cbase st') \<and> \<not> b_error (cbase st')
        \<and> contents (cbase st') = d @ x \<and> kept (set qs) p 0 st st'"
    using b n by (intro flush_linked [OF bs(2) _ _ bs(1)]) (auto simp: builder_def)
  then show thesis using that c
    by (cases "CBB_flush n env p st"; cases "fst (CBB_flush n env p st)") (auto simp: builder_def kept_def)
qed

lemma does_flush: "emits T True CBB_flush []"
  unfolding does_def
proof (intro allI impI, goal_cases)
  case (1 n env p qs d fs st)
  have n: "length qs < n" using 1(2) by simp
  show ?case by (cases rule: flush_builder [OF 1(1) n, where env = env and x = "the (collapse fs)"]) (auto simp: total_def kept_def)
qed

lemma kept_trans: "kept (T \<union> A) p x st st1 \<Longrightarrow> kept T p y st1 st2 \<Longrightarrow> kept (T \<union> A) p y st st2"
  by (auto simp: kept_def)

lemma kept_serves: "kept A p x st st' \<Longrightarrow> always_serves env (cbase st') = always_serves env (cbase st)"
  by (simp add: kept_def always_serves_def)

text \<open>The same for an operation that relies on its object having no open child.\<close>

definition does_flat :: "addr set \<Rightarrow> bool \<Rightarrow> 'a op \<Rightarrow> u8 list \<Rightarrow> addr list \<Rightarrow> frames \<Rightarrow> bool" where
  "does_flat T ok op e qs' fs' \<longleftrightarrow>
     (\<forall>n env p d st. builder st p [] d [] \<longrightarrow> 1 < n \<longrightarrow> p \<notin> T \<longrightarrow>
       (case op n env p st of
          (None, st') \<Rightarrow> failed st' \<and> \<not> (ok \<and> always_serves env (cbase st) \<and> length d + length e + total fs' < 2 ^ 64)
        | (Some _, st') \<Rightarrow> builder st' p qs' (d @ e) fs' \<and> kept T p (hd (qs' @ [0])) st st'))"

lemma does_does_flat: "does T ok op e qs' fs' \<Longrightarrow> does_flat T ok op e qs' fs'"
proof -
  assume does: "does T ok op e qs' fs'"
  show ?thesis
    unfolding does_flat_def
  proof (intro allI impI, goal_cases)
    case (1 n env p d st)
    have n: "Suc (length ([] :: addr list)) < n" and t: "T \<inter> set [p] = {}" using 1 by auto
    show ?case by (cases rule: doesD [OF does 1(1) n t, where env = env and x = "[]"]) auto
  qed
qed

lemma does_flatD:
  assumes "does_flat T ok op e qs' fs'" and "builder st p [] d []" and "1 < n" and "p \<notin> T"
  obtains st' where "op n env p st = (None, st')" "failed st'"
      "ok \<Longrightarrow> always_serves env (cbase st) \<Longrightarrow> length d + length e + total fs' < 2 ^ 64 \<Longrightarrow> False"
  | v st' where "op n env p st = (Some v, st')" "builder st' p qs' (d @ e) fs'" "kept T p (hd (qs' @ [0])) st st'"
  using assms(1) [unfolded does_flat_def, rule_format, OF assms(2-4), of env]
  by (cases "op n env p st"; cases "fst (op n env p st)") auto

lemma does_seq:
  assumes 1: "emits T ok1 op1 e1" and 2: "\<And>v. does_flat T ok2 (op2 v) e2 qs' fs'"
  shows "does T (ok1 \<and> ok2) (\<lambda>n env p st. pthen (op1 n env p st) (\<lambda>v st. op2 v n env p st)) (e1 @ e2) qs' fs'"
  unfolding does_def
proof (intro allI impI)
  fix n env p qs d fs st
  assume b: "builder st p qs d fs" and n: "Suc (length qs) < n" and t: "T \<inter> set (p # qs) = {}"
  show "case pthen (op1 n env p st) (\<lambda>v st. op2 v n env p st) of
      (None, st') \<Rightarrow> failed st' \<and> \<not> ((ok1 \<and> ok2) \<and> always_serves env (cbase st)
        \<and> (\<exists>x. collapse fs = Some x \<and> length d + length x + length (e1 @ e2) + total fs' < 2 ^ 64))
    | (Some _, st') \<Rightarrow> \<exists>x. collapse fs = Some x \<and> builder st' p qs' (d @ x @ e1 @ e2) fs' \<and> kept (T \<union> set qs) p (hd (qs' @ [0])) st st'"
  proof (cases rule: doesD [OF 1 b n t, where env = env and x = "the (collapse fs)", case_names fail step])
    case (fail st')
    then show ?thesis by (auto simp: total_def)
  next
    case (step v st1 y)
    have n1: "1 < n" and t1: "p \<notin> T" using n t by auto
    show ?thesis
    proof (cases rule: does_flatD [OF 2 step(3) n1 t1, where env = env, of v, case_names fail step2])
      case (fail st')
      then show ?thesis using step kept_serves [OF step(4)] by auto
    next
      case (step2 v' st2)
      have "kept (T \<union> set qs) p (hd (qs' @ [0])) st st2"
        using step(4) step2(3) by (auto intro: kept_trans)
      then show ?thesis using step step2 by simp
    qed
  qed
qed

text \<open>An operation that flushes and then appends to the buffer.\<close>

lemma flat_on_base:
  assumes "\<And>env. appends env ok (f env) e"
  shows "does_flat T ok (\<lambda>n env p st. on_base (f env) st) e [] []"
  unfolding does_flat_def
proof (intro allI impI, goal_cases)
  case (1 n env p d st)
  have b: "buf_ok (cbase st)" "\<not> b_error (cbase st)" and c: "contents (cbase st) = d" "c_base (cbbs st p)" "c_child (cbbs st p) = 0"
    using 1(1) by (auto simp: builder_def)
  show ?case using assms [of env, unfolded appends_def, rule_format, OF conjI, OF b] c
    by (cases "f env (cbase st)") (auto simp: on_base_def failed_def builder_def kept_def total_def split: option.splits)
qed

lemma emits_on_base:
  assumes "\<And>env. appends env ok (f env) e"
  shows "emits T ok (\<lambda>n env p st. pthen (CBB_flush n env p st) (\<lambda>_ st. on_base (f env) st)) e"
  using does_seq [OF does_flush, of T ok "\<lambda>_ n env p st. on_base (f env) st" e "[]" "[]"] flat_on_base [OF assms] by simp

section \<open>Opening a child\<close>

lemma flat_open:
  assumes op: "does_flat T True op ph [] []" and k: "length ph = placeholder k" "kind_ok k" and q: "q \<in> T" "q \<noteq> 0"
  shows "does_flat T True (\<lambda>n env p st. pthen (op n env p st) (\<lambda>_ st'.
    (Some (), new_child p q (b_len (cbase st)) (of_nat (placeholder k)) (k = Der) st'))) [] [q] [(k, [])]"
  unfolding does_flat_def
proof (intro allI impI)
  fix n :: nat and env p d st
  assume b: "builder st p [] d []" and n: "1 < n" and p: "p \<notin> T"
  have "unat (b_len (cbase st)) = length d" using b by (auto simp: builder_def simp flip: length_contents)
  moreover have "unat (of_nat (placeholder k) :: u8) = placeholder k" using placeholder_le [OF k(2)] by (simp add: unat_of_nat)
  moreover have "p \<noteq> q" using p q by auto
  ultimately show "case pthen (op n env p st) (\<lambda>_ st'. (Some (), new_child p q (b_len (cbase st)) (of_nat (placeholder k)) (k = Der) st')) of
      (None, st') \<Rightarrow> failed st' \<and> \<not> (True \<and> always_serves env (cbase st) \<and> length d + length [] + total [(k, [])] < 2 ^ 64)
    | (Some _, st') \<Rightarrow> builder st' p [q] (d @ []) [(k, [])] \<and> kept T p (hd ([q] @ [0])) st st'"
    using k q by (cases rule: does_flatD [OF op b n p, where env = env])
      (auto simp: total_def builder_def new_child_def is_child_of_def kept_def)
qed

lemma add_out: "cbb_buffer_add env len b = (Some out, b') \<Longrightarrow> out = b_len b"
  by (auto simp: cbb_buffer_add_def cbb_buffer_reserve_def Let_def split: if_splits)

lemma does_length_prefixed:
  assumes "0 < len_len" "len_len \<le> 8" and q: "q \<in> T" "q \<noteq> 0"
  shows "does T True (\<lambda>n env p st. cbb_add_length_prefixed n env p q len_len st) [] [q] [(Fixed (unat len_len), [])]"
proof -
  let ?k = "unat len_len"
  have k: "0 < ?k" "?k \<le> 8" using assms(1,2) by (auto simp: word_less_nat_alt word_le_nat_alt)
  have len: "of_nat (length (replicate ?k (0 :: u8))) = (ucast len_len :: u64)"
    using ucast_up_of_nat [OF _ refl, of len_len, where 'b = 64] by simp
  have "does_flat T True (\<lambda>n env p st. on_base (put env (replicate ?k 0)) st) (replicate ?k 0) [] []"
    using k by (intro flat_on_base put_appends) simp
  from flat_open [OF this _ _ q, of "Fixed ?k"] k
  have "does_flat T True (\<lambda>n env p st. pthen (on_base (put env (replicate ?k 0)) st) (\<lambda>_ st'.
    (Some (), new_child p q (b_len (cbase st)) (of_nat (placeholder (Fixed ?k))) (Fixed ?k = Der) st'))) [] [q] [(Fixed ?k, [])]"
    by simp
  from does_seq [OF does_flush this]
  have "does T True (\<lambda>n env p st. pthen (CBB_flush n env p st) (\<lambda>v st. pthen (on_base (put env (replicate ?k 0)) st) (\<lambda>_ st'.
    (Some (), new_child p q (b_len (cbase st)) (of_nat (placeholder (Fixed ?k))) (Fixed ?k = Der) st')))) [] [q] [(Fixed ?k, [])]"
    by simp
  moreover have "pthen (on_base (put env (replicate ?k 0)) st) (\<lambda>_ st'.
      (Some (), new_child p q (b_len (cbase st)) (of_nat (placeholder (Fixed ?k))) (Fixed ?k = Der) st')) =
    pthen (on_base (cbb_buffer_add env (ucast len_len)) st) (\<lambda>offset st. (Some (), new_child p q offset len_len False
      (st\<lparr>cbase := poke (unat offset) (replicate ?k 0) (cbase st)\<rparr>)))" for env p st
    unfolding put_def len
    by (cases "cbb_buffer_add env (ucast len_len) (cbase st)"; cases "fst (cbb_buffer_add env (ucast len_len) (cbase st))")
      (auto simp: on_base_def dest: add_out)
  ultimately show ?thesis by (simp add: cbb_add_length_prefixed_def)
qed

section \<open>Objects inside a builder\<close>

fun path :: "(addr \<Rightarrow> cbb) \<Rightarrow> nat \<Rightarrow> addr \<Rightarrow> addr list \<Rightarrow> frames \<Rightarrow> u8 list \<Rightarrow> bool" where
  "path m off r [] [] bs \<longleftrightarrow> bs = []"
| "path m off r (q # qs) ((k, c) # fs) bs \<longleftrightarrow>
     is_child_of m off r q k
     \<and> (\<exists>ph rest. bs = ph @ c @ rest \<and> length ph = placeholder k \<and> path m (off + placeholder k + length c) q qs fs rest)"
| "path m off r _ _ bs \<longleftrightarrow> False"

lemma linked_length: "linked m off r qs fs bs \<Longrightarrow> length qs = length fs"
  by (induction m off r qs fs bs rule: linked.induct) auto

lemma path_length: "path m off r qs fs bs \<Longrightarrow> length bs = total fs"
  by (induction m off r qs fs bs rule: path.induct) (auto simp: total_def)

lemma path_lengths: "path m off r qs fs bs \<Longrightarrow> length qs = length fs"
  by (induction m off r qs fs bs rule: path.induct) auto

lemma linked_split:
  assumes "length qs1 = length fs1"
  shows "linked m off r (qs1 @ qs2) (fs1 @ fs2) bs \<longleftrightarrow>
    (\<exists>bs1 bs2. bs = bs1 @ bs2 \<and> path m off r qs1 fs1 bs1 \<and> linked m (off + length bs1) (last (r # qs1)) qs2 fs2 bs2)"
  using assms
proof (induction qs1 fs1 arbitrary: off r bs rule: list_induct2)
  case Nil
  then show ?case by simp
next
  case (Cons q qs f fs)
  obtain k c where f: "f = (k, c)" by (cases f)
  show ?case
  proof
    assume "linked m off r ((q # qs) @ qs2) ((f # fs) @ fs2) bs"
    then obtain ph rest where 1: "is_child_of m off r q k" "bs = ph @ c @ rest" "length ph = placeholder k"
        "linked m (off + placeholder k + length c) q (qs @ qs2) (fs @ fs2) rest" by (auto simp: f)
    then obtain bs1 bs2 where "rest = bs1 @ bs2" "path m (off + placeholder k + length c) q qs fs bs1"
        "linked m (off + placeholder k + length c + length bs1) (last (q # qs)) qs2 fs2 bs2"
      using Cons.IH by blast
    then show "\<exists>bs1 bs2. bs = bs1 @ bs2 \<and> path m off r (q # qs) (f # fs) bs1 \<and> linked m (off + length bs1) (last (r # q # qs)) qs2 fs2 bs2"
      using 1 by (intro exI [of _ "ph @ c @ bs1"] exI [of _ bs2]) (auto simp: f add.assoc)
  next
    assume "\<exists>bs1 bs2. bs = bs1 @ bs2 \<and> path m off r (q # qs) (f # fs) bs1 \<and> linked m (off + length bs1) (last (r # q # qs)) qs2 fs2 bs2"
    then obtain ph rest bs2 where 1: "is_child_of m off r q k" "bs = (ph @ c @ rest) @ bs2" "length ph = placeholder k"
        "path m (off + placeholder k + length c) q qs fs rest" "linked m (off + length (ph @ c @ rest)) (last (q # qs)) qs2 fs2 bs2"
      by (auto simp: f)
    have "linked m (off + placeholder k + length c) q (qs @ qs2) (fs @ fs2) (rest @ bs2)"
      by (intro iffD2 [OF Cons.IH] exI conjI, rule refl, rule 1(4)) (use 1(3,5) in \<open>simp add: add.assoc\<close>)
    then show "linked m off r ((q # qs) @ qs2) ((f # fs) @ fs2) bs" using 1 by (auto simp: f)
  qed
qed

text \<open>Only the last object of a path may get a new child without the path changing.\<close>

lemma path_cong:
  assumes "path m off r qs fs bs" and "distinct (r # qs)"
    and "\<And>a. a \<in> set (r # qs) \<Longrightarrow> a \<noteq> last (r # qs) \<Longrightarrow> m' a = m a"
    and "m' (last (r # qs)) = (m (last (r # qs)))\<lparr>c_child := x\<rparr>"
  shows "path m' off r qs fs bs"
  using assms
proof (induction m off r qs fs bs rule: path.induct)
  case (2 m off r q qs k c fs bs)
  obtain ph rest where 3: "is_child_of m off r q k" "bs = ph @ c @ rest" "length ph = placeholder k"
      "path m (off + placeholder k + length c) q qs fs rest" using 2(2) by auto
  have "path m' (off + placeholder k + length c) q qs fs rest"
  proof (rule 2(1) [OF 3(4)])
    show "distinct (q # qs)" using 2(3) by simp
    show "m' (last (q # qs)) = (m (last (q # qs)))\<lparr>c_child := x\<rparr>" using 2(5) by simp
    show "m' a = m a" if "a \<in> set (q # qs)" "a \<noteq> last (q # qs)" for a using that by (intro 2(4)) simp_all
  qed
  moreover have "m' r = m r"
  proof (rule 2(4))
    have "last (q # qs) \<in> set (q # qs)" by (rule last_in_set) simp
    then show "r \<noteq> last (r # q # qs)" using 2(3) by (auto simp del: last.simps simp: last_ConsR)
  qed simp
  moreover have "\<exists>y. m' q = (m q)\<lparr>c_child := y\<rparr>"
  proof (cases "q = last (q # qs)")
    case True
    then show ?thesis using 2(5) by auto
  next
    case False
    then have "m' q = (m q)\<lparr>c_child := c_child (m q)\<rparr>" using 2(4) [of q] by (simp split: if_splits)
    then show ?thesis ..
  qed
  ultimately show ?case using 3 by (auto simp: is_child_of_def)
qed auto

definition extend :: "u8 list \<times> frames \<Rightarrow> u8 list \<Rightarrow> u8 list \<times> frames" where
  "extend a e = (case a of (d, fs) \<Rightarrow>
     if fs = [] then (d @ e, []) else (d, butlast fs @ [(fst (last fs), snd (last fs) @ e)]))"

lemma path_extend:
  "path m off r qs fs bs \<Longrightarrow> fs \<noteq> [] \<Longrightarrow> path m off r qs (butlast fs @ [(fst (last fs), snd (last fs) @ e)]) (bs @ e)"
proof (induction m off r qs fs bs rule: path.induct)
  case (2 m off r q qs k c fs bs)
  then obtain ph rest where 3: "is_child_of m off r q k" "bs = ph @ c @ rest" "length ph = placeholder k"
      "path m (off + placeholder k + length c) q qs fs rest" by auto
  show ?case
  proof (cases "fs = []")
    case True
    then have "qs = []" "rest = []" using 3(4) by (cases qs; simp)+
    then show ?thesis using 3 True by auto
  next
    case False
    then show ?thesis using 3 2(1) [OF 3(4)] by auto
  qed
qed auto

lemma builder_length: "builder st r qs d fs \<Longrightarrow> length qs = length fs"
  by (auto simp: builder_def dest: linked_length)

text \<open>A builder seen from one of its objects.\<close>

lemma builder_at:
  assumes b: "builder st r qs d fs" and j: "j \<le> length qs"
  obtains bs1 where "path (cbbs st) (length d) r (take j qs) (take j fs) bs1"
    "builder st ((r # qs) ! j) (drop j qs) (d @ bs1) (drop j fs)" "last (r # take j qs) = (r # qs) ! j"
proof -
  obtain bs where bs: "contents (cbase st) = d @ bs" "linked (cbbs st) (length d) r (take j qs @ drop j qs) (take j fs @ drop j fs) bs"
    using b by (auto simp: builder_def)
  have l: "length (take j qs) = length (take j fs)" using builder_length [OF b] by simp
  have last: "last (r # take j qs) = (r # qs) ! j"
    using j by (cases j) (auto simp: last_conv_nth take_Suc_conv_app_nth)
  obtain bs1 bs2 where 1: "bs = bs1 @ bs2" "path (cbbs st) (length d) r (take j qs) (take j fs) bs1"
      "linked (cbbs st) (length (d @ bs1)) ((r # qs) ! j) (drop j qs) (drop j fs) bs2"
    using bs(2) unfolding linked_split [OF l] last by auto
  moreover have "distinct ((r # qs) ! j # drop j qs)"
  proof -
    have "(r # qs) ! j # drop j qs = drop j (r # qs)"
      using j Cons_nth_drop_Suc [of j "r # qs"] by simp
    then show ?thesis using b by (metis builder_def distinct_drop)
  qed
  ultimately show thesis using that [OF 1(2) _ last] b bs(1) by (auto simp: builder_def)
qed

lemma builder_extend:
  assumes p: "path (cbbs st) (length d) r qs fs bs1" and b: "builder st (last (r # qs)) qs' (d @ bs1 @ e) fs'"
    and dist: "distinct (r # qs @ qs')"
  shows "case extend (d, fs) e of (d', fs0) \<Rightarrow> builder st r (qs @ qs') d' (fs0 @ fs')"
proof -
  obtain bs2 where bs2: "contents (cbase st) = (d @ bs1 @ e) @ bs2" "linked (cbbs st) (length (d @ bs1 @ e)) (last (r # qs)) qs' fs' bs2"
    using b by (auto simp: builder_def)
  have len: "length qs = length fs" using p by (rule path_lengths)
  show ?thesis
  proof (cases "fs = []")
    case True
    then have "qs = []" "bs1 = []" using p len by auto
    then show ?thesis using True b dist by (auto simp: extend_def builder_def)
  next
    case False
    let ?fs = "butlast fs @ [(fst (last fs), snd (last fs) @ e)]"
    have l: "length qs = length ?fs" using len False by simp
    have "linked (cbbs st) (length d) r (qs @ qs') (?fs @ fs') ((bs1 @ e) @ bs2)"
      using path_extend [OF p False, of e] bs2(2) unfolding linked_split [OF l]
      by (intro exI [of _ "bs1 @ e"] exI [of _ bs2]) (simp add: add.assoc)
    then show ?thesis using False b bs2(1) dist by (auto simp: extend_def builder_def)
  qed
qed

text \<open>An operation on the object at depth \<open>j\<close> of a builder.\<close>

lemma does_nested:
  assumes op: "does T ok op e qs' fs'" and b: "builder st r qs d fs" and j: "j \<le> length qs" and n: "Suc (length (drop j qs)) < n"
    and T: "T \<inter> set (r # qs) = {}" "set qs' \<subseteq> T" "distinct qs'"
  shows "case op n env ((r # qs) ! j) st of
      (None, st') \<Rightarrow> failed st' \<and> \<not> (ok \<and> always_serves env (cbase st)
        \<and> (\<exists>x. collapse (drop j fs) = Some x \<and> length d + total (take j fs) + length x + length e + total fs' < 2 ^ 64))
    | (Some _, st') \<Rightarrow> \<exists>x. collapse (drop j fs) = Some x
        \<and> (case extend (d, take j fs) (x @ e) of (d', fs0) \<Rightarrow> builder st' r (take j qs @ qs') d' (fs0 @ fs'))
        \<and> kept (T \<union> set (drop j qs)) ((r # qs) ! j) (hd (qs' @ [0])) st st'"
proof -
  obtain bs1 where 1: "path (cbbs st) (length d) r (take j qs) (take j fs) bs1"
      "builder st ((r # qs) ! j) (drop j qs) (d @ bs1) (drop j fs)" and last: "last (r # take j qs) = (r # qs) ! j"
    using builder_at [OF b j] .
  let ?p = "(r # qs) ! j"
  have dist: "distinct (r # qs)" using b by (simp add: builder_def)
  have pin: "?p \<in> set (r # qs)" using j by (intro nth_mem) simp
  have T': "T \<inter> set (?p # drop j qs) = {}" using T(1) pin set_drop_subset [of j qs] by auto
  show ?thesis
  proof (cases rule: doesD [OF op 1(2) n T', where env = env and x = "the (collapse (drop j fs))", case_names fail step])
    case (fail st')
    then show ?thesis using path_length [OF 1(1)] by auto
  next
    case (step v st' y)
    have "path (cbbs st') (length d) r (take j qs) (take j fs) bs1"
    proof (rule path_cong [OF 1(1)])
      show "distinct (r # take j qs)" using dist by (auto dest: in_set_takeD)
      show "cbbs st' (last (r # take j qs)) = (cbbs st (last (r # take j qs)))\<lparr>c_child := hd (qs' @ [0])\<rparr>"
        using step(4) by (simp only: last kept_def)
      show "cbbs st' a = cbbs st a" if "a \<in> set (r # take j qs)" "a \<noteq> last (r # take j qs)" for a
      proof -
        have "a \<in> set (r # qs)" using that(1) by (auto dest: in_set_takeD)
        moreover have "a \<notin> set (drop j qs)" using that(1) dist set_take_disj_set_drop_if_distinct [of qs j j]
          by (auto dest: in_set_dropD)
        moreover have "a \<noteq> ?p" using that(2) by (simp only: last not_False_eq_True)
        ultimately show ?thesis using step(4) T(1) by (auto simp: kept_def)
      qed
    qed
    moreover have "builder st' (last (r # take j qs)) qs' (d @ bs1 @ y @ e) fs'" using step(3) by (simp only: last append_assoc)
    moreover have "distinct (r # take j qs @ qs')" using dist T by (auto dest: in_set_takeD)
    ultimately have "case extend (d, take j fs) (y @ e) of (d', fs0) \<Rightarrow> builder st' r (take j qs @ qs') d' (fs0 @ fs')"
      by (rule builder_extend)
    then show ?thesis using step by simp
  qed
qed

text \<open>Opening a child, filling it and closing it again. It fails when the contents do not fit the prefix.\<close>

lemma does_child:
  assumes 1: "does T ok1 op1 hdr [q] [(k, [])]" and 2: "does_flat T2 ok2 op2 body [] []"
    and T: "T2 \<subseteq> T" "q \<in> T" "q \<notin> T2"
    and e: "\<And>y. close_child k body = Some y \<Longrightarrow> e = hdr @ y"
  shows "emits T (ok1 \<and> ok2 \<and> close_child k body \<noteq> None) (\<lambda>n env p st. pthen (op1 n env p st) (\<lambda>_ st.
    pthen (op2 n env q st) (\<lambda>_ st. CBB_flush n env p st))) e"
  unfolding does_def
proof (intro allI impI)
  fix n env p qs d fs st
  let ?run = "pthen (op1 n env p st) (\<lambda>_ st. pthen (op2 n env q st) (\<lambda>_ st. CBB_flush n env p st))"
  assume b: "builder st p qs d fs" and n: "Suc (length qs) < n" and t: "T \<inter> set (p # qs) = {}"
  have len: "length hdr + (placeholder k + length body) \<le> length e" if "close_child k body = Some y" for y
    using close_child_length [OF that] e [OF that] by simp
  show "case ?run of
      (None, st') \<Rightarrow> failed st' \<and> \<not> ((ok1 \<and> ok2 \<and> close_child k body \<noteq> None) \<and> always_serves env (cbase st)
        \<and> (\<exists>x. collapse fs = Some x \<and> length d + length x + length e + total [] < 2 ^ 64))
    | (Some _, st') \<Rightarrow> \<exists>x. collapse fs = Some x \<and> builder st' p [] (d @ x @ e) [] \<and> kept (T \<union> set qs) p (hd ([] @ [0])) st st'"
  proof (cases rule: doesD [OF 1 b n t, where env = env and x = "the (collapse fs)", case_names fail step])
    case (fail st')
    then show ?thesis using len by (auto simp: total_def)
  next
    case (step v st1 x)
    have n1: "Suc (length (drop 1 [q])) < n" "length [q] < n" using n by simp_all
    have q: "p \<noteq> q" "T2 \<inter> set [p, q] = {}" using T t by auto
    have at: "([p, q] ! 1) = q" "1 \<le> length [q]" by simp_all
    have em2: "emits T2 ok2 (\<lambda>n env p st. pthen (CBB_flush n env p st) (\<lambda>_ st. op2 n env p st)) body"
      using does_seq [OF does_flush 2] by simp
    have "CBB_flush n env q st1 = (Some (), st1)" using step(3) n by (cases n) (auto simp: builder_def)
    then have nested: "case op2 n env q st1 of
        (None, st') \<Rightarrow> failed st' \<and> \<not> (ok2 \<and> always_serves env (cbase st1)
          \<and> length (d @ x @ hdr) + placeholder k + length body < 2 ^ 64)
      | (Some _, st') \<Rightarrow> builder st' p [q] (d @ x @ hdr) [(k, body)] \<and> kept T2 q 0 st1 st'"
      using does_nested [OF em2 step(3) at(2) n1(1) q(2), of env] unfolding at(1)
      by (cases "op2 n env q st1") (auto simp: extend_def total_def split: option.splits)
    show ?thesis
    proof (cases "op2 n env q st1")
      case (Pair res st2)
      show ?thesis
      proof (cases res)
        case None
        then show ?thesis using nested Pair step kept_serves [OF step(4)] len by (auto simp: total_def)
      next
        case (Some u)
        have b2: "builder st2 p [q] (d @ x @ hdr) [(k, body)]" and k2: "kept T2 q 0 st1 st2" using nested Pair Some by simp_all
        have serves: "always_serves env (cbase st2) = always_serves env (cbase st)"
          using kept_serves [OF step(4)] kept_serves [OF k2] by simp
        have k3: "kept (T \<union> set qs) p 0 st st3" if "kept (set [q]) p 0 st2 st3" for st3
        proof -
          have p2: "cbbs st2 p = cbbs st1 p" using k2 q by (simp add: kept_def)
          have out: "a \<noteq> q \<and> a \<notin> T2" if "a \<notin> T \<union> set qs" for a using that T by auto
          show ?thesis using that k2 step(4) p2 out by (simp add: kept_def)
        qed
        show ?thesis
          by (cases rule: flush_builder [OF b2 n1(2), where env = env and x = "the (close_child k body)"])
            (use step(1,2) Pair Some serves k3 e in \<open>auto simp: total_def\<close>)
      qed
    qed
  qed
qed

end
