(* ===== verification/Cbb_Ops.thy ===== *)
theory Cbb_Ops
  imports Cbb_Builder
begin

text \<open>
  The contract of every writer of the builder: which bytes it appends. Writers with a
  matching reader of the parser are paired with it, and what one builds the other reads.
\<close>

section \<open>Integers and bytes\<close>

lemma be_bytes_ucast:
  assumes "8 * k \<le> LENGTH('a::len)" "LENGTH('a) \<le> LENGTH('b::len)"
  shows "be_bytes k (ucast (v :: 'a word) :: 'b word) = be_bytes k v"
  using assms by (simp add: be_bytes_def le_bytes_ucast)

lemma emits_add_u:
  assumes "0 < k" "k \<le> 8"
  shows "emits T (unat v < 2 ^ (8 * k)) (\<lambda>n env p st. add_u n env p v k st) (be_bytes k v)"
  unfolding add_u_def using assms by (intro emits_on_base add_u_appends)

lemma emits_u8: "emits T True (\<lambda>n env p st. CBB_add_u8 n env p v st) [v]"
  using emits_add_u [of 1 T "ucast v"] unsigned_less [of v, where 'a = nat]
  by (simp add: CBB_add_u8_def unat_ucast_up be_bytes_ucast) (simp add: be_bytes_def)

lemma emits_u16: "emits T True (\<lambda>n env p st. CBB_add_u16 n env p v st) (be_bytes 2 v)"
  using emits_add_u [of 2 T "ucast v"] unsigned_less [of v, where 'a = nat]
  by (simp add: CBB_add_u16_def unat_ucast_up be_bytes_ucast)

lemma emits_u24: "emits T (unat v < 2 ^ 24) (\<lambda>n env p st. CBB_add_u24 n env p v st) (be_bytes 3 v)"
  using emits_add_u [of 3 T "ucast v"] by (simp add: CBB_add_u24_def unat_ucast_up be_bytes_ucast)

lemma emits_u32: "emits T True (\<lambda>n env p st. CBB_add_u32 n env p v st) (be_bytes 4 v)"
  using emits_add_u [of 4 T "ucast v"] unsigned_less [of v, where 'a = nat]
  by (simp add: CBB_add_u32_def unat_ucast_up be_bytes_ucast)

lemma emits_u64: "emits T True (\<lambda>n env p st. CBB_add_u64 n env p v st) (be_bytes 8 v)"
  using emits_add_u [of 8 T v] unsigned_less [of v, where 'a = nat] by (simp add: CBB_add_u64_def)

lemma emits_le:
  "emits T True (\<lambda>n env p st. CBB_add_u16le n env p v st) (le_bytes 2 v)"
  "emits T True (\<lambda>n env p st. CBB_add_u32le n env p u st) (le_bytes 4 u)"
  "emits T True (\<lambda>n env p st. CBB_add_u64le n env p x st) (le_bytes 8 x)"
  unfolding CBB_add_u16le_def CBB_add_u32le_def CBB_add_u64le_def bswap_be_bytes
  by (rule emits_u16 emits_u32 emits_u64)+

lemma emits_bytes:
  assumes "length data < 2 ^ 64"
  shows "emits T True (\<lambda>n env p st. CBB_add_bytes n env p data st) data"
proof -
  have "pthen (on_base (cbb_buffer_add env (of_nat (length data))) st) (\<lambda>dest st. (Some (), st\<lparr>cbase := poke (unat dest) data (cbase st)\<rparr>))
      = on_base (put env data) st" for env st
    by (cases "cbb_buffer_add env (of_nat (length data)) (cbase st)"; cases "fst (cbb_buffer_add env (of_nat (length data)) (cbase st))")
      (auto simp: on_base_def put_def)
  then show ?thesis unfolding CBB_add_bytes_def using put_appends [OF assms] by (simp add: emits_on_base)
qed

lemma add_zeros_bytes: "CBB_add_zeros n env p len st = CBB_add_bytes n env p (replicate (unat len) 0) st"
  by (cases "CBB_flush n env p st"; cases "fst (CBB_flush n env p st)")
    (auto simp: CBB_add_zeros_def CBB_add_space_def CBB_add_bytes_def)

section \<open>Base-128 integers and elements\<close>

lemma flat_nothing: "does_flat T True (\<lambda>n env p st. (Some (), st)) [] [] []"
  by (auto simp: does_flat_def kept_def builder_def)

lemma add_bytes_loop_Nil [simp]: "add_bytes_loop n env p [] = Pair (Some ())"
  by (rule ext) simp

lemma add_bytes_loop_Cons [simp]:
  "add_bytes_loop n env p (b # bs) = (\<lambda>st. pthen (CBB_add_u8 n env p b st) (\<lambda>_ st. add_bytes_loop n env p bs st))"
  by (rule ext) simp

lemma does_ok: "does T ok op e qs fs \<Longrightarrow> (ok' \<Longrightarrow> ok) \<Longrightarrow> does T ok' op e qs fs"
  unfolding does_def by (fastforce split: option.splits prod.splits)

lemma emits_add_bytes_loop: "emits T True (\<lambda>n env p st. add_bytes_loop n env p (b # bs) st) (b # bs)"
proof (induction bs arbitrary: b)
  case Nil
  show ?case using does_seq [OF emits_u8 flat_nothing, of T b] by simp
next
  case (Cons c bs)
  show ?case using does_seq [OF emits_u8 does_does_flat [OF Cons.IH [of c]], of b] by simp
qed

lemma flat_add_bytes_loop: "does_flat T True (\<lambda>n env p st. add_bytes_loop n env p bs st) bs [] []"
proof (cases bs)
  case Nil
  then show ?thesis using flat_nothing [of T] by simp
next
  case (Cons b bs')
  then show ?thesis using does_does_flat [OF emits_add_bytes_loop] by simp
qed

lemma add_base128_loop_bytes: "add_base128_loop n env p v k st = add_bytes_loop n env p (digits128 v k) st"
  by (induction k arbitrary: st) (simp_all add: Let_def pthen_def split: prod.splits option.splits)

lemma add_base128_bytes: "add_base128_integer n env p v st = add_bytes_loop n env p (base128_bytes v) st"
  by (simp add: add_base128_integer_def add_base128_loop_bytes base128_bytes_def)

lemma pthen_assoc: "pthen (pthen r f) g = pthen r (\<lambda>v s. pthen (f v s) g)"
  by (cases r; cases "fst r") (auto simp: pthen_def)

lemma pthen_unit: "pthen r (\<lambda>_ s. (Some (), s)) = (r :: unit option \<times> 's)"
  by (cases r; cases "fst r") (auto simp: pthen_def)

lemma add_asn1_tag:
  "CBB_add_asn1 n env p q tag st = pthen (pthen (CBB_flush n env p st) (\<lambda>_ st. add_bytes_loop n env p (der_tag tag) st)) (\<lambda>_ st.
     pthen (CBB_add_u8 n env p 0 st) (\<lambda>_ st'. (Some (), new_child p q (b_len (cbase st)) 1 True st')))"
  by (simp add: CBB_add_asn1_def add_base128_bytes der_tag_def Let_def pthen_assoc pthen_unit)

lemma does_asn1:
  assumes "q \<in> T" "q \<noteq> 0"
  shows "does T True (\<lambda>n env p st. CBB_add_asn1 n env p q tag st) (der_tag tag) [q] [(Der, [])]"
proof -
  have tag: "emits T True (\<lambda>n env p st. pthen (CBB_flush n env p st) (\<lambda>_ st. add_bytes_loop n env p (der_tag tag) st)) (der_tag tag)"
    using does_seq [OF does_flush flat_add_bytes_loop, of T "der_tag tag"] by simp
  have "does_flat T True (\<lambda>n env p st. pthen (CBB_add_u8 n env p 0 st) (\<lambda>_ st'. (Some (), new_child p q (b_len (cbase st)) 1 True st'))) [] [q] [(Der, [])]"
    using flat_open [OF does_does_flat [OF emits_u8], where k = Der and q = q] assms by simp
  from does_seq [OF tag this] show ?thesis by (simp add: add_asn1_tag)
qed

text \<open>The writers of whole elements open a child, fill it and close it.\<close>

lemma emits_element:
  assumes body: "emits T2 ok op body" and "length body \<le> 0xFFFFFFFE" and "T2 \<subseteq> T" "q \<in> T" "q \<notin> T2" "q \<noteq> 0"
  shows "emits T ok (\<lambda>n env p st. pthen (CBB_add_asn1 n env p q tag st) (\<lambda>_ st.
    pthen (op n env q st) (\<lambda>_ st. CBB_flush n env p st))) (der_element tag body)"
  using does_child [OF does_asn1 [of q T tag] does_does_flat [OF body], of "der_element tag body"] assms by (simp add: der_element_def)

lemma uint64_loop_started: "uint64_bytes_loop n env q True bs = (\<lambda>st. pthen (add_bytes_loop n env q bs st) (\<lambda>_ st. (Some True, st)))"
  by (induction bs; rule ext) (simp_all add: pthen_assoc)

lemma uint64_loop_skip: "uint64_bytes_loop n env q False bs st = uint64_bytes_loop n env q False (dropWhile (\<lambda>b. b = 0) bs) st"
  by (induction bs) simp_all

lemma uint64_loop_writes:
  "pthen (uint64_bytes_loop n env q False (be_bytes 8 v) st) (\<lambda>started st. if \<not> started then CBB_add_u8 n env q 0 st else (Some (), st))
   = add_bytes_loop n env q (uint_contents v) st"
proof (cases rule: uint_contents_cases [of v])
  case 1
  then show ?thesis by (subst uint64_loop_skip) (simp add: pthen_unit del: dropWhile_eq_Nil_conv)
next
  case (2 b bs)
  then show ?thesis by (subst uint64_loop_skip) (simp add: uint64_loop_started pthen_assoc pthen_unit)
qed

lemma emits_uint64:
  assumes "q \<noteq> 0"
  shows "emits {q} True (\<lambda>n env p st. CBB_add_asn1_uint64 n env p q v st) (der_element 2 (uint_contents v))"
proof -
  obtain b bs where c: "uint_contents v = b # bs" using length_uint_contents(1) [of v] by (cases "uint_contents v") auto
  have "length (uint_contents v) \<le> 0xFFFFFFFE" using length_uint_contents(2) [of v] by simp
  then have "emits {q} True (\<lambda>n env p st. pthen (CBB_add_asn1 n env p q 2 st) (\<lambda>_ st.
      pthen (add_bytes_loop n env q (uint_contents v) st) (\<lambda>_ st. CBB_flush n env p st))) (der_element 2 (uint_contents v))"
    using assms emits_add_bytes_loop [of "{}" b bs] by (intro emits_element [of "{}"]) (simp_all add: c)
  then show ?thesis unfolding CBB_add_asn1_uint64_def by (simp add: uint64_loop_writes flip: pthen_assoc)
qed

lemma emits_int64:
  assumes "q \<noteq> 0"
  shows "emits {q} True (\<lambda>n env p st. CBB_add_asn1_int64 n env p q v st) (der_element 2 (int_contents v))"
proof (cases "0 \<le> sint v")
  case True
  then show ?thesis using emits_uint64 [OF assms, of v] by (simp add: CBB_add_asn1_int64_def int_contents_def)
next
  case False
  then have c: "int_contents v = skip_sign (be_bytes 8 v)" by (simp add: int_contents_def)
  obtain b bs where b: "int_contents v = b # bs" using int_contents_value(2) [of v] by (cases "int_contents v") auto
  have "length (int_contents v) \<le> 0xFFFFFFFE" using int_contents_value(2) [of v] by simp
  then have "emits {q} True (\<lambda>n env p st. pthen (CBB_add_asn1 n env p q 2 st) (\<lambda>_ st.
      pthen (add_bytes_loop n env q (int_contents v) st) (\<lambda>_ st. CBB_flush n env p st))) (der_element 2 (int_contents v))"
    using assms emits_add_bytes_loop [of "{}" b bs] by (intro emits_element [of "{}"]) (simp_all add: b)
  then show ?thesis using False by (simp add: CBB_add_asn1_int64_def c)
qed

lemma emits_octet_string:
  assumes "q \<noteq> 0" "length data \<le> 0xFFFFFFFE"
  shows "emits {q} True (\<lambda>n env p st. CBB_add_asn1_octet_string n env p q data st) (der_element 4 data)"
  unfolding CBB_add_asn1_octet_string_def using assms emits_bytes [of data "{}"] by (intro emits_element [of "{}"]) simp_all

lemma emits_bool:
  assumes "q \<noteq> 0"
  shows "emits {q} True (\<lambda>n env p st. CBB_add_asn1_bool n env p q b st) (der_element 1 (bool_contents b))"
  unfolding CBB_add_asn1_bool_def bool_contents_def using assms emits_u8 [of "{}" "if b then 0xFF else 0"]
  by (intro emits_element [of "{}"]) simp_all

text \<open>A string under a length prefix, written by any writer of its contents.\<close>

lemma emits_prefixed:
  assumes body: "emits T2 ok op body" and k: "0 < k" "k \<le> 8" "length body < 2 ^ (8 * unat k)"
    and T: "T2 \<subseteq> T" "q \<in> T" "q \<notin> T2" "q \<noteq> 0"
  shows "emits T ok (\<lambda>n env p st. pthen (cbb_add_length_prefixed n env p q k st) (\<lambda>_ st.
    pthen (op n env q st) (\<lambda>_ st. CBB_flush n env p st))) (prefixed (unat k) body)"
  using does_child [OF does_length_prefixed [OF k(1,2) T(2,4)] does_does_flat [OF body], of "prefixed (unat k) body"] k(3) T by simp

section \<open>From a fresh builder to its output\<close>

fun write_all :: "('v \<Rightarrow> unit op) \<Rightarrow> 'v list \<Rightarrow> unit op" where
  "write_all run [] n env p st = (Some (), st)"
| "write_all run (v # vs) n env p st = pthen (run v n env p st) (\<lambda>_ st. write_all run vs n env p st)"

definition build :: "('v \<Rightarrow> unit op) \<Rightarrow> nat \<Rightarrow> cbb_env \<Rightarrow> bool \<Rightarrow> addr \<Rightarrow> u64 \<Rightarrow> 'v list \<Rightarrow> cbb_state \<Rightarrow> u8 list build" where
  "build run n env can p cap vs st =
     pthen (CBB_init env can p cap st) (\<lambda>_ st.
     pthen (write_all run vs n env p st) (\<lambda>_ st. CBB_finish n env p True st))"

lemma init_builder:
  assumes "CBB_init env can p cap st = (Some u, st')"
  shows "builder st' p [] [] []" "\<not> c_is_child (cbbs st' p)" "can_resize (cbase st')"
  using assms
  by (auto simp: CBB_init_def cbb_init_def builder_def buf_ok_def contents_def CBB_zero_def cbb_upd_def Let_def split: if_splits)

lemma finish_builder:
  assumes b: "builder st p qs d fs" and n: "length qs < n" and c: "\<not> c_is_child (cbbs st p)"
  shows "case CBB_finish n env p True st of
      (None, st') \<Rightarrow> failed st' \<and> \<not> (always_serves env (cbase st) \<and> (\<exists>x. collapse fs = Some x \<and> length d + length x < 2 ^ 64))
    | (Some out, st') \<Rightarrow> \<exists>x. collapse fs = Some x \<and> out = d @ x \<and> length out < 2 ^ 64 \<and> \<not> c_base (cbbs st' p)"
proof (cases rule: flush_builder [OF b n, where env = env and x = "the (collapse fs)"])
  case (1 st')
  then show ?thesis using c by (auto simp: CBB_finish_def)
next
  case (2 st' y)
  then have "c_is_child (cbbs st' p) = c_is_child (cbbs st p)" "contents (cbase st') = d @ y" "length (contents (cbase st')) < 2 ^ 64"
    using contents_bound [of "cbase st'"] by (auto simp: kept_def builder_def)
  then show ?thesis using 2 c by (simp add: CBB_finish_def CBB_cleanup_def contents_def)
qed

text \<open>
  The interface of a writer: the bytes it appends for a value, and the objects it uses
  for its own children. What a client gets is the whole output of a builder.
\<close>

locale cbb_writer =
  fixes run :: "'v \<Rightarrow> unit op" and enc :: "'v \<Rightarrow> u8 list" and valid :: "'v \<Rightarrow> bool" and temps :: "addr set"
  assumes writes: "valid v \<Longrightarrow> emits temps True (run v) (enc v)"
begin

lemma writes_all:
  assumes "\<forall>v \<in> set vs. valid v"
  shows "does_flat temps True (write_all run vs) (concat (map enc vs)) [] []"
  using assms
proof (induction vs)
  case Nil
  have "write_all run [] = (\<lambda>n env p st. (Some (), st))" by (intro ext) simp
  then show ?case using flat_nothing [of temps] by simp
next
  case (Cons v vs)
  have "write_all run (v # vs) = (\<lambda>n env p st. pthen (run v n env p st) (\<lambda>_ st. write_all run vs n env p st))"
    by (intro ext) simp
  then show ?case using does_does_flat [OF does_seq [OF writes Cons.IH, of v]] Cons.prems by simp
qed

lemma build_output:
  assumes v: "\<forall>v \<in> set vs. valid v" and n: "1 < n" and p: "p \<notin> temps"
  shows "case build run n env can p cap vs st of
      (None, _) \<Rightarrow> \<not> (can \<and> (\<forall>k. may_alloc env k) \<and> length (concat (map enc vs)) < 2 ^ 64)
    | (Some out, _) \<Rightarrow> out = concat (map enc vs) \<and> length out < 2 ^ 64"
proof (cases "CBB_init env can p cap st")
  case (Pair r st0)
  show ?thesis
  proof (cases r)
    case None
    then show ?thesis using Pair by (auto simp: build_def CBB_init_def cbb_init_def Let_def split: if_splits)
  next
    case (Some u)
    note i = init_builder [OF Pair [unfolded Some]]
    have serves: "always_serves env (cbase st0) = (\<forall>k. may_alloc env k)" using i(3) by (simp add: always_serves_def)
    show ?thesis
    proof (cases rule: does_flatD [OF writes_all [OF v] i(1) n p, where env = env, case_names fail step])
      case (fail st')
      then show ?thesis using Pair Some serves by (auto simp: build_def total_def)
    next
      case (step u' st1)
      have "\<not> c_is_child (cbbs st1 p)" using step(3) i(2) by (simp add: kept_def)
      from finish_builder [OF step(2) _ this, of n env] n
      show ?thesis using Pair Some step(1) serves kept_serves [OF step(3), of env]
        by (auto simp: build_def split: option.splits prod.splits)
    qed
  qed
qed

end

locale built_codec = cbb_writer run enc valid temps + wire_codec enc dec valid
  for run :: "'v \<Rightarrow> unit op" and enc :: "'v \<Rightarrow> u8 list" and dec :: "u8 list \<Rightarrow> ('v \<times> u8 list) option"
    and valid :: "'v \<Rightarrow> bool" and temps :: "addr set"
begin

text \<open>What is built is read back.\<close>

lemma build_parse:
  assumes v: "\<forall>v \<in> set vs. valid v" and "1 < n" and "p \<notin> temps"
    and out: "fst (build run n env can p cap vs st) = Some out"
  shows "dec_items dec (length vs) out = Some (vs, [])"
proof -
  have "out = concat (map enc vs)" "length out < 2 ^ 64"
    using build_output [OF assms(1-3), where env = env and can = can and cap = cap and st = st] out by (auto split: prod.splits option.splits)
  then show ?thesis using items_roundtrip [OF v, of "[]"] by simp
qed

lemma build_succeeds:
  assumes "\<forall>v \<in> set vs. valid v" and "1 < n" and "p \<notin> temps" and "\<And>k. may_alloc env k" and "length (concat (map enc vs)) < 2 ^ 64"
  shows "fst (build run n env True p cap vs st) = Some (concat (map enc vs))"
  using build_output [OF assms(1-3), where env = env and can = True and cap = cap and st = st] assms(4,5) by (auto split: prod.splits option.splits)

end

section \<open>Writers and their readers\<close>

interpretation cbs_u16le: wire_codec "le_bytes 2" "as_dec CBS_get_u16le" "\<lambda>_. True"
proof unfold_locales
  fix v :: u16 and rest :: "u8 list" assume l: "length (le_bytes 2 v @ rest) < 2 ^ 64"
  have "as_dec CBS_get_u16 (be_bytes 2 (CRYPTO_bswap2 v) @ rest) = Some (CRYPTO_bswap2 v, rest)"
    using l by (intro cbs_u16.dec_enc) simp_all
  then show "as_dec CBS_get_u16le (le_bytes 2 v @ rest) = Some (v, rest)"
    by (auto simp: as_dec_def CBS_get_u16le_def bswap_be_bytes bswap_bswap split: prod.splits option.splits)
qed

interpretation cbs_u24: wire_codec "be_bytes 3" "as_dec CBS_get_u24" "\<lambda>v. unat v < 2 ^ 24"
proof unfold_locales
  fix v :: u32 and rest :: "u8 list" assume v: "unat v < 2 ^ 24" and l: "length (be_bytes 3 v @ rest) < 2 ^ 64"
  have "cbs_get_u (be_bytes 3 v @ rest) (of_nat 3) = (Some (be_word (be_bytes 3 v)), rest)" using l by (rule cbs_get_u_append)
  moreover have "be_bytes 3 v = be_bytes 3 (ucast v :: u64)" by (simp add: be_bytes_ucast)
  then have "(be_word (be_bytes 3 v) :: u64) = take_bit 24 (ucast v)" using be_word_be_bytes [of 3 "ucast v :: u64"] by simp
  then have "(be_word (be_bytes 3 v) :: u64) = ucast v" using v by (simp add: take_bit_small unat_ucast_up)
  moreover have "ucast (ucast v :: u64) = v" by (rule bit_word_eqI) (simp add: bit_simps)
  ultimately show "as_dec CBS_get_u24 (be_bytes 3 v @ rest) = Some (v, rest)"
    by (simp add: as_dec_def CBS_get_u24_def)
qed

interpretation cbs_prefix8: wire_codec "prefixed 1" "as_dec CBS_get_u8_length_prefixed" "\<lambda>bs. length bs < 2 ^ 8"
  using get_prefixed [of _ 1] by unfold_locales (simp add: as_dec_def CBS_get_u8_length_prefixed_def)

interpretation cbs_prefix16: wire_codec "prefixed 2" "as_dec CBS_get_u16_length_prefixed" "\<lambda>bs. length bs < 2 ^ 16"
  using get_prefixed [of _ 2] by unfold_locales (simp add: as_dec_def CBS_get_u16_length_prefixed_def)

interpretation cbs_prefix24: wire_codec "prefixed 3" "as_dec CBS_get_u24_length_prefixed" "\<lambda>bs. length bs < 2 ^ 24"
  using get_prefixed [of _ 3] by unfold_locales (simp add: as_dec_def CBS_get_u24_length_prefixed_def)

interpretation cbs_base128: wire_codec base128_bytes "as_dec parse_base128_integer" "\<lambda>_. True"
  by unfold_locales (simp add: as_dec_def parse_base128_bytes)

interpretation rw_u8: built_codec "\<lambda>v n env p st. CBB_add_u8 n env p v st" "be_bytes 1" "as_dec CBS_get_u8" "\<lambda>_. True" "{}"
  by unfold_locales (use emits_u8 in \<open>simp add: be_bytes_def\<close>)

interpretation rw_u16: built_codec "\<lambda>v n env p st. CBB_add_u16 n env p v st" "be_bytes 2" "as_dec CBS_get_u16" "\<lambda>_. True" "{}"
  by unfold_locales (rule emits_u16)

interpretation rw_u24: built_codec "\<lambda>v n env p st. CBB_add_u24 n env p v st" "be_bytes 3" "as_dec CBS_get_u24" "\<lambda>v. unat v < 2 ^ 24" "{}"
  by unfold_locales (rule does_ok [OF emits_u24])

interpretation rw_u32: built_codec "\<lambda>v n env p st. CBB_add_u32 n env p v st" "be_bytes 4" "as_dec CBS_get_u32" "\<lambda>_. True" "{}"
  by unfold_locales (rule emits_u32)

interpretation rw_u64: built_codec "\<lambda>v n env p st. CBB_add_u64 n env p v st" "be_bytes 8" "as_dec CBS_get_u64" "\<lambda>_. True" "{}"
  by unfold_locales (rule emits_u64)

interpretation rw_u16le: built_codec "\<lambda>v n env p st. CBB_add_u16le n env p v st" "le_bytes 2" "as_dec CBS_get_u16le" "\<lambda>_. True" "{}"
  by unfold_locales (rule emits_le)

interpretation rw_u32le: built_codec "\<lambda>v n env p st. CBB_add_u32le n env p v st" "le_bytes 4" "as_dec CBS_get_u32le" "\<lambda>_. True" "{}"
  by unfold_locales (rule emits_le)

interpretation rw_u64le: built_codec "\<lambda>v n env p st. CBB_add_u64le n env p v st" "le_bytes 8" "as_dec CBS_get_u64le" "\<lambda>_. True" "{}"
  by unfold_locales (rule emits_le)

interpretation rw_base128: built_codec "\<lambda>v n env p st. add_base128_integer n env p v st" base128_bytes
  "as_dec parse_base128_integer" "\<lambda>_. True" "{}"
proof unfold_locales
  fix v
  have "base128_bytes v \<noteq> []" by (simp add: base128_bytes_def flip: length_0_conv)
  then show "emits {} True (\<lambda>n env p st. add_base128_integer n env p v st) (base128_bytes v)"
    using emits_add_bytes_loop by (cases "base128_bytes v") (auto simp: add_base128_bytes)
qed

text \<open>Writers with a child of their own, at any address \<open>q\<close>.\<close>

lemma rw_uint64: "q \<noteq> 0 \<Longrightarrow> built_codec (\<lambda>v n env p st. CBB_add_asn1_uint64 n env p q v st)
    (\<lambda>v. der_element 2 (uint_contents v)) (as_dec CBS_get_asn1_uint64) (\<lambda>_. True) {q}"
  using emits_uint64 cbs_uint64.wire_codec_axioms by (simp add: built_codec_def cbb_writer_def)

lemma rw_int64: "q \<noteq> 0 \<Longrightarrow> built_codec (\<lambda>v n env p st. CBB_add_asn1_int64 n env p q v st)
    (\<lambda>v. der_element 2 (int_contents v)) (as_dec CBS_get_asn1_int64) (\<lambda>_. True) {q}"
  using emits_int64 cbs_int64.wire_codec_axioms by (simp add: built_codec_def cbb_writer_def)

lemma rw_bool: "q \<noteq> 0 \<Longrightarrow> built_codec (\<lambda>v n env p st. CBB_add_asn1_bool n env p q v st)
    (\<lambda>b. der_element 1 (bool_contents b)) (as_dec CBS_get_asn1_bool) (\<lambda>_. True) {q}"
  using emits_bool cbs_bool.wire_codec_axioms by (simp add: built_codec_def cbb_writer_def)

end
