(* ===== verification/Cbb_Oid.thy ===== *)
theory Cbb_Oid
  imports Cbb_Ops
begin

text \<open>
  Object identifiers: the text form with dots, the DER contents, and the two conversions,
  \<open>CBB_add_asn1_oid_from_text\<close> and \<open>CBS_asn1_oid_to_text\<close>, which are inverse to each other.
\<close>

section \<open>Decimal numbers\<close>

lemma decimal_ne: "decimal v \<noteq> []"
  by (subst decimal.simps) simp

lemma digit_char: "d < 10 \<Longrightarrow> \<not> (of_nat (48 + d) < (0x30 :: u8) \<or> of_nat (48 + d) > (0x39 :: u8))
    \<and> of_nat (48 + d) \<noteq> (0x2E :: u8) \<and> (ucast (of_nat (48 + d) - 0x30 :: u8) :: u64) = of_nat d"
proof -
  assume "d < 10"
  then have "d \<in> {0, 1, 2, 3, 4, 5, 6, 7, 8, 9}" by auto
  then show ?thesis by (elim insertE emptyE) simp_all
qed

lemma dotted_digit:
  assumes "d < 10" and v: "v < 2 ^ 64" "v = 10 * a + d" and "seen \<Longrightarrow> a \<noteq> 0"
  shows "dotted_loop (of_nat a) seen (of_nat (48 + d) # rest) = dotted_loop (of_nat v) True rest"
proof -
  have ua: "unat (of_nat a :: u64) = a" and ud: "unat (of_nat d :: u64) = d" using v by (simp_all add: unat_of_nat)
  have max: "unat (- 1 :: u64) = 2 ^ 64 - 1" by (simp add: unsigned_minus_1_eq_mask mask_eq_exp_minus_1)
  have "a \<le> (2 ^ 64 - 1) div 10" using v by linarith
  then have 1: "\<not> of_nat a > (- 1 :: u64) div 10" by (simp add: word_less_nat_alt unat_div_distrib ua max)
  have "unat (of_nat a * 10 :: u64) = a * 10" using v ua by (simp add: unat_word_ariths)
  moreover have "unat (- 1 - of_nat d :: u64) = 2 ^ 64 - 1 - d" using ud max assms(1) by (simp add: unat_sub_if_size word_size)
  ultimately have 2: "\<not> of_nat a * 10 > (- 1 - of_nat d :: u64)" using v by (simp add: word_less_nat_alt)
  have 3: "\<not> (seen \<and> of_nat a = (0 :: u64))" using assms(4) ua by (metis unsigned_0)
  have "of_nat a * 10 + of_nat d = (of_nat v :: u64)" using v(2) by simp
  then show ?thesis using digit_char [OF assms(1)] 1 2 3 by auto
qed

lemma dotted_decimal: "v < 2 ^ 64 \<Longrightarrow> dotted_loop 0 False (decimal v @ rest) = dotted_loop (of_nat v) True rest"
proof (induction v arbitrary: rest rule: decimal.induct)
  case (1 v)
  show ?case
  proof (cases "v < 10")
    case True
    then show ?thesis using dotted_digit [of v v 0 False rest] by (simp add: decimal.simps [of v])
  next
    case False
    have "dotted_loop 0 False (decimal (v div 10) @ (of_nat (48 + v mod 10) # rest)) = dotted_loop (of_nat (v div 10)) True (of_nat (48 + v mod 10) # rest)"
      using 1 False by simp
    also have "\<dots> = dotted_loop (of_nat v) True rest" using 1(2) False by (intro dotted_digit) auto
    finally show ?thesis using False by (simp add: decimal.simps [of v])
  qed
qed

fun dotted :: "u64 list \<Rightarrow> u8 list" where
  "dotted [] = []"
| "dotted [v] = decimal (unat v)"
| "dotted (v # vs) = decimal (unat v) @ 0x2E # dotted vs"

lemma dotted_ne: "vs \<noteq> [] \<Longrightarrow> dotted vs \<noteq> []"
  by (cases vs rule: dotted.cases) (simp_all add: decimal_ne)

lemma parse_dotted:
  assumes "length (dotted (v # vs)) < 2 ^ 64"
  shows "parse_dotted_decimal (dotted (v # vs)) = (Some v, dotted vs)"
proof (cases vs)
  case Nil
  then show ?thesis using dotted_decimal [of "unat v" "[]"] unsigned_less [of v, where 'a = nat]
    by (simp add: parse_dotted_decimal_def)
next
  case (Cons w ws)
  have "0 < length (dotted vs)" using dotted_ne [of vs] Cons by simp
  moreover have "length (dotted vs) < 2 ^ 64" using assms Cons by simp
  ultimately have "CBS_len (dotted vs) > 0" by (simp add: CBS_len_def word_less_nat_alt unat_of_nat)
  then show ?thesis using dotted_decimal [of "unat v" "0x2E # dotted vs"] unsigned_less [of v, where 'a = nat] Cons
    by (simp add: parse_dotted_decimal_def)
qed

section \<open>From text\<close>

lemma oid_components_bytes:
  "length (dotted vs) < 2 ^ 64 \<Longrightarrow>
     oid_components n env p (dotted vs) st = write_all (\<lambda>v n env p st. add_base128_integer n env p v st) vs n env p st"
proof (induction vs arbitrary: st)
  case Nil
  then show ?case by (simp add: oid_components.simps)
next
  case (Cons v vs)
  have "length (dotted vs) < 2 ^ 64" using Cons.prems by (cases vs) simp_all
  then have "oid_components n env p (dotted vs) = (\<lambda>st. write_all (\<lambda>v n env p st. add_base128_integer n env p v st) vs n env p st)"
    using Cons.IH by (intro ext)
  then show ?case using parse_dotted [OF Cons.prems] dotted_ne [of "v # vs"]
    by (simp add: oid_components.simps [of n env p "dotted (v # vs)"])
qed

definition oid_ok :: "u64 \<Rightarrow> u64 \<Rightarrow> bool" where
  "oid_ok a b \<longleftrightarrow> a \<le> 2 \<and> (a < 2 \<longrightarrow> b \<le> 39) \<and> b \<le> - 1 - 80"

definition oid_contents :: "u64 \<Rightarrow> u64 \<Rightarrow> u64 list \<Rightarrow> u8 list" where
  "oid_contents a b vs = concat (map base128_bytes ((40 * a + b) # vs))"

lemma from_text_bytes:
  assumes ok: "oid_ok a b" and l: "length (dotted (a # b # vs)) < 2 ^ 64"
  shows "CBB_add_asn1_oid_from_text n env p (dotted (a # b # vs)) st = pthen (CBB_flush n env p st) (\<lambda>_ st.
    write_all (\<lambda>v n env p st. add_base128_integer n env p v st) ((40 * a + b) # vs) n env p st)"
proof -
  have l1: "length (dotted (b # vs)) < 2 ^ 64" and l2: "length (dotted vs) < 2 ^ 64" using l by (cases vs; simp)+
  have "\<not> (a > 2 \<or> (a < 2 \<and> b > 39) \<or> b > - 1 - 80)" using ok by (auto simp: oid_ok_def not_less)
  moreover have "oid_components n env p (dotted vs) = write_all (\<lambda>v n env p st. add_base128_integer n env p v st) vs n env p"
    using oid_components_bytes [OF l2] by (intro ext)
  ultimately show ?thesis unfolding CBB_add_asn1_oid_from_text_def parse_dotted [OF l] prod.case option.case parse_dotted [OF l1]
    by (simp only: if_False write_all.simps)
qed

lemma emits_oid:
  assumes "oid_ok a b" "length (dotted (a # b # vs)) < 2 ^ 64"
  shows "emits {} True (\<lambda>n env p st. CBB_add_asn1_oid_from_text n env p (dotted (a # b # vs)) st) (oid_contents a b vs)"
proof -
  have "does_flat {} True (write_all (\<lambda>v n env p st. add_base128_integer n env p v st) ((40 * a + b) # vs)) (oid_contents a b vs) [] []"
    unfolding oid_contents_def by (rule rw_base128.writes_all) simp
  from does_seq [OF does_flush this] show ?thesis by (simp only: from_text_bytes [OF assms] simp_thms append.simps)
qed

section \<open>To text\<close>

lemma flat_seq:
  "emits T ok1 op1 e1 \<Longrightarrow> does_flat T ok2 op2 e2 qs fs \<Longrightarrow>
     does_flat T (ok1 \<and> ok2) (\<lambda>n env p st. pthen (op1 n env p st) (\<lambda>_ st. op2 n env p st)) (e1 @ e2) qs fs"
  using does_does_flat [OF does_seq [of T ok1 op1 e1 ok2 "\<lambda>_. op2" e2 qs fs]] by simp

lemma length_decimal: "v < 10 ^ k \<Longrightarrow> 0 < k \<Longrightarrow> length (decimal v) \<le> k"
proof (induction k arbitrary: v)
  case (Suc k)
  show ?case
  proof (cases "v < 10")
    case False
    then have "0 < k" using Suc.prems by (cases k) auto
    moreover have "v div 10 < 10 ^ k" using Suc.prems(1) by (simp add: div_less_iff_less_mult mult.commute)
    ultimately show ?thesis using Suc.IH [of "v div 10"] False by (simp add: decimal.simps [of v])
  qed (simp add: decimal.simps [of v])
qed simp

lemma emits_decimal: "emits T True (\<lambda>n env p st. add_decimal n env p v st) (decimal (unat v))"
proof -
  have "unat v < 10 ^ 20" using unsigned_less [of v, where 'a = nat] by simp
  then have "length (decimal (unat v)) \<le> 20" by (rule length_decimal) simp
  then show ?thesis unfolding add_decimal_def by (intro emits_bytes) simp
qed

fun dot_all :: "u64 list \<Rightarrow> u8 list" where
  "dot_all [] = []"
| "dot_all (v # vs) = 0x2E # decimal (unat v) @ dot_all vs"

lemma dotted_dot_all: "dotted (v # vs) = decimal (unat v) @ dot_all vs"
  by (induction vs arbitrary: v) simp_all

lemma flat_oid_text:
  assumes "does_flat {} True op e [] []"
  shows "does_flat {} True (\<lambda>n env p st. pthen (oid_text_loop n env p (concat (map base128_bytes vs)) st) (\<lambda>_ st. op n env p st))
    (dot_all vs @ e) [] []"
proof (induction vs)
  case Nil
  then show ?case using assms by (simp add: oid_text_loop.simps)
next
  case (Cons v vs)
  let ?cbs = "base128_bytes v @ concat (map base128_bytes vs)"
  have "base128_bytes v \<noteq> []" by (simp add: base128_bytes_def flip: length_0_conv)
  then have ne: "?cbs \<noteq> []" by simp
  have "oid_text_loop n env p ?cbs st = pthen (CBB_add_u8 n env p 0x2E st) (\<lambda>_ st.
      pthen (add_decimal n env p v st) (\<lambda>_ st. oid_text_loop n env p (concat (map base128_bytes vs)) st))" for n env p st
    by (subst oid_text_loop.simps) (simp only: ne if_False parse_base128_bytes prod.case option.case)
  then show ?case using flat_seq [OF emits_u8 flat_seq [OF emits_decimal Cons.IH], of "0x2E"] by (simp add: pthen_assoc)
qed

text \<open>The first component carries the first two arcs, \<open>40 * a + b\<close>; arcs 0 and 1 leave less than 80.\<close>

lemma oid_first_arcs:
  assumes "oid_ok a b"
  shows "unat (40 * a + b) = 40 * unat a + unat b" "(40 * a + b \<ge> 80) = (a = 2)"
    "a \<noteq> 2 \<Longrightarrow> (40 * a + b) div 40 = a" "a \<noteq> 2 \<Longrightarrow> (40 * a + b) mod 40 = b"
proof -
  have "unat (- 1 - 80 :: u64) = 2 ^ 64 - 81" by simp
  then have ub: "unat b < 2 ^ 64 - 80" using assms by (simp add: oid_ok_def word_le_nat_alt)
  have ua: "unat a \<le> 2" and lt: "unat a < 2 \<Longrightarrow> unat b \<le> 39"
    using assms by (simp_all add: oid_ok_def word_le_nat_alt word_less_nat_alt)
  have a2: "(a = 2) = (unat a = 2)" by (simp add: word_unat_eq_iff)
  show u: "unat (40 * a + b) = 40 * unat a + unat b" using ua ub by (simp add: unat_word_ariths)
  show "(40 * a + b \<ge> 80) = (a = 2)" using ua lt a2 by (auto simp: word_le_nat_alt u)
  show "a \<noteq> 2 \<Longrightarrow> (40 * a + b) div 40 = a" "a \<noteq> 2 \<Longrightarrow> (40 * a + b) mod 40 = b"
    using ua lt a2 by (simp_all add: word_arith_nat_div word_arith_nat_mod u)
qed

definition oid_text_body :: "u64 \<Rightarrow> cbs \<Rightarrow> unit op" where
  "oid_text_body v copy n env p st =
     pthen (if v \<ge> 80
            then pthen (CBB_add_bytes n env p [0x32, 0x2E] st) (\<lambda>_ st. add_decimal n env p (v - 80) st)
            else pthen (add_decimal n env p (v div 40) st) (\<lambda>_ st.
                 pthen (CBB_add_u8 n env p 0x2E st) (\<lambda>_ st. add_decimal n env p (v mod 40) st))) (\<lambda>_ st.
     pthen (oid_text_loop n env p copy st) (\<lambda>_ st. CBB_add_u8 n env p 0 st))"

lemma decimal_two: "decimal 2 = [0x32]"
  by (simp add: decimal.simps [of 2])

lemma emits_first_arcs:
  assumes "oid_ok a b"
  shows "emits {} True (\<lambda>n env p st.
      if 40 * a + b \<ge> 80
      then pthen (CBB_add_bytes n env p [0x32, 0x2E] st) (\<lambda>_ st. add_decimal n env p (40 * a + b - 80) st)
      else pthen (add_decimal n env p ((40 * a + b) div 40) st) (\<lambda>_ st.
           pthen (CBB_add_u8 n env p 0x2E st) (\<lambda>_ st. add_decimal n env p ((40 * a + b) mod 40) st))) (dotted [a, b])"
proof (cases "a = 2")
  case True
  then show ?thesis
    using does_seq [OF emits_bytes [of "[0x32, 0x2E]" "{}"] does_does_flat [OF emits_decimal [of "{}" b]]] oid_first_arcs(2) [OF assms]
    by (simp add: decimal_two)
next
  case False
  then show ?thesis
    using does_seq [OF emits_decimal [of "{}" a] does_does_flat [OF does_seq [OF emits_u8 [of "{}" "0x2E"] does_does_flat [OF emits_decimal [of "{}" b]]]]]
      oid_first_arcs(2-4) [OF assms] by simp
qed

lemma emits_oid_text:
  assumes "oid_ok a b"
  shows "emits {} True (oid_text_body (40 * a + b) (concat (map base128_bytes vs))) (dotted (a # b # vs) @ [0])"
proof -
  have "dotted (a # b # vs) @ [0] = dotted [a, b] @ dot_all vs @ [0]" by (simp add: dotted_dot_all)
  moreover have "oid_text_body v copy = (\<lambda>n env p st. pthen (if v \<ge> 80
      then pthen (CBB_add_bytes n env p [0x32, 0x2E] st) (\<lambda>_ st. add_decimal n env p (v - 80) st)
      else pthen (add_decimal n env p (v div 40) st) (\<lambda>_ st.
           pthen (CBB_add_u8 n env p 0x2E st) (\<lambda>_ st. add_decimal n env p (v mod 40) st))) (\<lambda>_ st.
     pthen (oid_text_loop n env p copy st) (\<lambda>_ st. CBB_add_u8 n env p 0 st)))" for v copy
    by (intro ext) (simp only: oid_text_body_def)
  ultimately show ?thesis
    using does_seq [OF emits_first_arcs [OF assms] flat_oid_text [OF does_does_flat [OF emits_u8 [of "{}" 0]]], of vs] by simp
qed

lemma to_text_build:
  "CBS_asn1_oid_to_text n env can p (oid_contents a b vs) st =
     fst (build (\<lambda>_ :: unit. oid_text_body (40 * a + b) (concat (map base128_bytes vs))) n env can p 32 [()] st)"
  by (simp add: CBS_asn1_oid_to_text_def build_def oid_contents_def parse_base128_bytes pthen_assoc pthen_unit oid_text_body_def)

lemma oid_text_writer:
  "oid_ok a b \<Longrightarrow> cbb_writer (\<lambda>_ :: unit. oid_text_body (40 * a + b) (concat (map base128_bytes vs)))
     (\<lambda>_. dotted (a # b # vs) @ [0]) (\<lambda>_. True) {}"
  by unfold_locales (rule emits_oid_text)

lemma oid_to_text:
  assumes "oid_ok a b" and "1 < n" and "\<And>k. may_alloc env k" and "length (dotted (a # b # vs)) < 2 ^ 64 - 1"
  shows "CBS_asn1_oid_to_text n env True p (oid_contents a b vs) st = Some (dotted (a # b # vs) @ [0])"
proof -
  let ?r = "build (\<lambda>_ :: unit. oid_text_body (40 * a + b) (concat (map base128_bytes vs))) n env True p 32 [()] st"
  have "case ?r of
      (None, _) \<Rightarrow> \<not> (True \<and> (\<forall>k. may_alloc env k) \<and> length (dotted (a # b # vs) @ [0]) < 2 ^ 64)
    | (Some out, _) \<Rightarrow> out = dotted (a # b # vs) @ [0] \<and> length out < 2 ^ 64"
    by (rule cbb_writer.build_output [OF oid_text_writer [OF assms(1), of vs], where vs = "[()]" and n = n and p = p and env = env and can = True and cap = 32 and st = st,
        unfolded list.map concat.simps append_Nil2]) (use assms(2) in auto)
  then show ?thesis using assms(3,4) by (cases ?r; cases "fst ?r") (simp_all add: to_text_build del: dotted.simps)
qed

text \<open>Writing an identifier given as text into a fresh builder.\<close>

lemma oid_writer:
  "cbb_writer (\<lambda>(a, b, vs) n env p st. CBB_add_asn1_oid_from_text n env p (dotted (a # b # vs)) st)
     (\<lambda>(a, b, vs). oid_contents a b vs) (\<lambda>(a, b, vs). oid_ok a b \<and> length (dotted (a # b # vs)) < 2 ^ 64) {}"
  by unfold_locales (use emits_oid in \<open>auto simp del: dotted.simps\<close>)

end
