(* ===== verification/Cbb_Set.thy ===== *)
theory Cbb_Set
  imports Cbb_Ops "HOL-Library.List_Lexorder" "HOL-Library.Multiset"
begin

text \<open>
  \<open>CBB_flush_asn1_set_of\<close>: the comparison of elements is the lexicographic order, so that
  \<open>qsort\<close> sorts, and the elements of the set are left in that order in its open child.
\<close>

section \<open>The order of the elements\<close>

lemma memcmp_lex: "(memcmp a b < 0 \<or> memcmp a b = 0 \<and> length a < length b) = (a < (b :: u8 list))"
  by (induction a b rule: memcmp.induct) (auto simp: neq_Nil_conv Nil_less_Cons, metis Nil_less_Cons neq_Nil_conv order_less_irrefl)

lemma memcmp_0: "memcmp a b = 0 \<Longrightarrow> length a = length b \<Longrightarrow> a = b"
  by (induction a b rule: memcmp.induct) (auto split: if_splits)

lemma memcmp_refl [simp]: "memcmp a a = 0"
  by (induction a) simp_all

lemma compare_lex: "compare_set_of_element a b \<le> 0 \<longleftrightarrow> a \<le> b"
proof -
  have "a \<le> b \<longleftrightarrow> a = b \<or> a < b" by auto
  then show ?thesis using memcmp_lex [of a b] memcmp_0 [of a b]
    by (auto simp: compare_set_of_element_def Let_def)
qed

lemma qsort_sort: "qsort compare_set_of_element xs = sort xs"
proof -
  have "insert_by compare_set_of_element x ys = insort x ys" for x ys
    by (induction ys) (simp_all add: compare_lex)
  then have "insert_by compare_set_of_element = insort" by (intro ext)
  then show ?thesis by (simp add: qsort_def sort_key_def)
qed

section \<open>The elements of a window\<close>

definition der :: "u32 \<times> u8 list \<Rightarrow> u8 list" where
  "der = (\<lambda>(tag, c). der_element tag c)"

lemma der_nonempty: "0 < length (der e)"
  by (cases e) (simp add: der_def der_element_def der_tag_def Let_def)

lemma set_children_der:
  assumes "\<forall>(tag, c) \<in> set es. length c < 2 ^ 32" and "length (concat (map der es)) < 2 ^ 64" and "length (concat (map der es)) \<le> k"
  shows "set_children k (concat (map der es)) = Some (map der es)"
  using assms
proof (induction es arbitrary: k)
  case Nil
  then show ?case by (cases k) simp_all
next
  case (Cons e es)
  obtain tag c where e: "e = (tag, c)" by (cases e)
  obtain k' where k: "k = Suc k'" using Cons.prems(3) der_nonempty [of e] by (cases k) auto
  have "CBS_get_any_asn1_element (der e @ concat (map der es)) = (Some (der e, tag, of_nat (length (der e) - length c), False), concat (map der es))"
    using get_element_der [of c tag "concat (map der es)" False] Cons.prems by (simp add: e der_def CBS_get_any_asn1_element_def)
  moreover have "set_children k' (concat (map der es)) = Some (map der es)"
    using Cons.prems der_nonempty [of e] by (intro Cons.IH) (simp_all add: k del: length_greater_0_conv)
  moreover have "der e @ concat (map der es) \<noteq> []" using der_nonempty [of e] by auto
  ultimately show ?case by (simp add: k del: append_is_Nil_conv)
qed

lemma set_children_parts:
  "set_children k cbs = Some els \<Longrightarrow> length cbs < 2 ^ 64 \<Longrightarrow> concat els = cbs \<and> (\<forall>el \<in> set els. \<exists>e. el = der e \<and> length (snd e) < 2 ^ 32)"
proof (induction k arbitrary: cbs els)
  case 0
  then show ?case by (auto split: if_splits)
next
  case (Suc k)
  show ?case
  proof (cases "cbs = []")
    case True
    then show ?thesis using Suc.prems by simp
  next
    case False
    obtain out tag hl ber rest els' where 1: "CBS_get_any_asn1_element cbs = (Some (out, tag, hl, ber), rest)"
        "set_children k rest = Some els'" "els = out # els'"
      using Suc.prems(1) False by (auto split: prod.splits option.splits)
    obtain c where c: "cbs = der_element tag c @ rest" "out = der_element tag c" "length c < 2 ^ 32"
      using get_element_canonical [OF 1(1) Suc.prems(2)] by blast
    have "out = der (tag, c)" using c(2) by (simp add: der_def)
    then show ?thesis using Suc.IH [OF 1(2)] Suc.prems(2) c 1(3) by auto
  qed
qed

section \<open>The set in its builder\<close>

text \<open>The innermost open child: its contents, and what is left when it is emptied.\<close>

lemma innermost:
  assumes b: "builder st r (qs @ [q]) d (fs @ [(k, c)])" and l: "length qs = length fs"
  defines "start \<equiv> c_offset (cbbs st q) + ucast (c_pending_len_len (cbbs st q))"
  shows "CBB_data q st = c"
    "builder (st\<lparr>cbase := (cbase st)\<lparr>b_len := start\<rparr>\<rparr>) r (qs @ [q]) d (fs @ [(k, [])])"
proof -
  obtain bs1 bs2 where 1: "contents (cbase st) = d @ bs1 @ bs2" "path (cbbs st) (length d) r qs fs bs1"
      "linked (cbbs st) (length d + length bs1) (last (r # qs)) [q] [(k, c)] bs2"
    using b unfolding builder_def linked_split [OF l] by auto
  obtain ph where 2: "bs2 = ph @ c" "length ph = placeholder k" "is_child_of (cbbs st) (length d + length bs1) (last (r # qs)) q k"
      "c_base (cbbs st q)" "c_child (cbbs st q) = 0" using 1(3) by auto
  have ok: "buf_ok (cbase st)" using b by (simp add: builder_def)
  have "length (d @ bs1 @ ph) \<le> unat (b_len (cbase st))" using 1(1) 2(1) length_contents [OF ok] by simp
  moreover from this have "unat start = length (d @ bs1 @ ph)" using 2(2,3) unsigned_less [of "b_len (cbase st)", where 'a = nat]
    by (simp add: start_def is_child_of_def unat_word_ariths unat_ucast_up)
  ultimately have u: "unat start = length (d @ bs1 @ ph)" "start \<le> b_len (cbase st)" by (simp_all add: word_le_nat_alt)
  show "CBB_data q st = c" using 1(1) 2(1) u(1) by (simp add: CBB_data_def contents_def flip: start_def)
  have "contents ((cbase st)\<lparr>b_len := start\<rparr>) = take (unat start) (contents (cbase st))"
    using u(2) by (simp add: contents_def word_le_nat_alt min_absorb1)
  then have "contents ((cbase st)\<lparr>b_len := start\<rparr>) = d @ bs1 @ ph" using 1(1) 2(1) u(1) by simp
  moreover have "linked (cbbs st) (length d) r (qs @ [q]) (fs @ [(k, [])]) (bs1 @ ph)"
    unfolding linked_split [OF l] by (intro exI [of _ bs1] exI [of _ ph]) (use 1(2) 2 in simp)
  moreover have "buf_ok ((cbase st)\<lparr>b_len := start\<rparr>)" using ok u(2) by (auto simp: buf_ok_def)
  ultimately show "builder (st\<lparr>cbase := (cbase st)\<lparr>b_len := start\<rparr>\<rparr>) r (qs @ [q]) d (fs @ [(k, [])])"
    using b by (simp add: builder_def)
qed

lemma flat_children:
  "\<forall>c \<in> set cs. length c < 2 ^ 64 \<Longrightarrow> does_flat T True (\<lambda>n env p st. add_children n env p cs st) (concat cs) [] []"
proof (induction cs)
  case Nil
  then show ?case using flat_nothing [of T] by simp
next
  case (Cons c cs)
  then show ?case using does_does_flat [OF does_seq [OF emits_bytes Cons.IH, of c]] by simp
qed

lemma emits_children:
  assumes "cs \<noteq> []" and "\<forall>c \<in> set cs. length c < 2 ^ 64"
  shows "emits {} True (\<lambda>n env p st. add_children n env p cs st) (concat cs)"
  using assms does_seq [OF emits_bytes flat_children, of "hd cs" "tl cs" "{}"] by (cases cs) simp_all

lemma sort_small: "length xs < 2 \<Longrightarrow> sort xs = xs"
  by (cases xs rule: remdups_adj.cases) auto

lemma total_append: "total (fs @ gs) = total fs + total gs"
  by (simp add: total_def)

lemma innermost_bound: "builder st r (qs @ [q]) d (fs @ [(k, c)]) \<Longrightarrow> length c < 2 ^ 64"
proof -
  assume b: "builder st r (qs @ [q]) d (fs @ [(k, c)])"
  then have "length qs = length fs" using builder_length by fastforce
  then have "length c \<le> length (contents (cbase st))" using b unfolding builder_def linked_split [OF \<open>length qs = length fs\<close>] by auto
  moreover have "length (contents (cbase st)) < 2 ^ 64" using b contents_bound [of "cbase st"] by (simp add: builder_def)
  ultimately show ?thesis by simp
qed

text \<open>The second half of the operation, when the set is the innermost child.\<close>

lemma sort_innermost:
  assumes b: "builder st r (qs @ [q]) d (fs @ [(k, c)])" and l: "length qs = length fs" and n: "1 < n"
    and els: "set_children (length c) c = Some els" "els \<noteq> []"
  defines "start \<equiv> c_offset (cbbs st q) + ucast (c_pending_len_len (cbbs st q))"
  shows "case add_children n env q (qsort compare_set_of_element els) (st\<lparr>cbase := (cbase st)\<lparr>b_len := start\<rparr>\<rparr>) of
      (None, st') \<Rightarrow> failed st' \<and> \<not> (always_serves env (cbase st) \<and> length d + total (fs @ [(k, c)]) < 2 ^ 64)
    | (Some _, st') \<Rightarrow> builder st' r (qs @ [q]) d (fs @ [(k, concat (sort els))])"
proof -
  let ?st = "st\<lparr>cbase := (cbase st)\<lparr>b_len := start\<rparr>\<rparr>" and ?op = "\<lambda>n env p st. add_children n env p (sort els) st"
  have c: "length c < 2 ^ 64" using innermost_bound [OF b] .
  have parts: "concat els = c" using set_children_parts [OF els(1) c] by simp
  have "sum_list (map length (sort els)) = sum_list (map length els)" unfolding sum_mset_sum_list [symmetric] by (simp add: mset_map)
  then have len: "length (concat (sort els)) = length c" using parts by (auto simp: length_concat)
  have small: "\<forall>e \<in> set (sort els). length e < 2 ^ 64"
  proof
    fix e assume "e \<in> set (sort els)"
    then have "length e \<le> length (concat els)" by (simp add: length_concat member_le_sum_list)
    then show "length e < 2 ^ 64" using c parts by simp
  qed
  have "sort els \<noteq> []" using els(2) by (metis length_0_conv length_sort)
  then have op: "emits {} True ?op (concat (sort els))" using small by (rule emits_children)
  have b2: "builder ?st r (qs @ [q]) d (fs @ [(k, [])])" using innermost(2) [OF b l] by (simp add: start_def)
  have at: "(r # qs @ [q]) ! length (qs @ [q]) = q" "take (length (qs @ [q])) (fs @ [(k, [])]) = fs @ [(k, [])]"
    "drop (length (qs @ [q])) (fs @ [(k, [])]) = []" "drop (length (qs @ [q])) (qs @ [q]) = []" "take (length (qs @ [q])) (qs @ [q]) = qs @ [q]"
    using l by (simp_all add: nth_append)
  have "case ?op n env q ?st of
      (None, st') \<Rightarrow> failed st' \<and> \<not> (always_serves env (cbase ?st) \<and> length d + total (fs @ [(k, [])]) + length c < 2 ^ 64)
    | (Some _, st') \<Rightarrow> builder st' r (qs @ [q]) d (fs @ [(k, concat (sort els))])"
    using does_nested [OF op b2 order_refl, of n env, unfolded at] n len
    by (cases "?op n env q ?st"; cases "fst (?op n env q ?st)") (auto simp: extend_def total_def)
  moreover have "always_serves env (cbase ?st) = always_serves env (cbase st)" by (simp add: always_serves_def)
  moreover have "total (fs @ [(k, [])]) + length c = total (fs @ [(k, c)])" by (simp add: total_def)
  ultimately show ?thesis unfolding qsort_sort by (cases "?op n env q ?st"; cases "fst (?op n env q ?st)") (auto simp: add.assoc)
qed

lemma case_result_mono:
  "(case r of (None, s) \<Rightarrow> P s | (Some v, s) \<Rightarrow> Q v s) \<Longrightarrow> (\<And>s. P s \<Longrightarrow> P' s) \<Longrightarrow> (\<And>v s. Q v s \<Longrightarrow> Q' v s) \<Longrightarrow>
     (case r of (None, s) \<Rightarrow> P' s | (Some v, s) \<Rightarrow> Q' v s)"
  by (cases r; cases "fst r") auto

lemma set_innermost:
  fixes env :: cbb_env and alloc :: bool
  assumes b: "builder st r (qs @ [q]) d (fs @ [(k, c)])" and l: "length qs = length fs" and n: "1 < n"
    and els: "set_children (length c) c = Some els"
  defines "start \<equiv> c_offset (cbbs st q) + ucast (c_pending_len_len (cbbs st q))"
  defines "run \<equiv> if length els < 2 then (Some (), st)
     else if of_nat (length els) > (- 1 :: u64) div 16 \<or> \<not> alloc then (None, st)
     else add_children n env q (qsort compare_set_of_element els) (st\<lparr>cbase := (cbase st)\<lparr>b_len := start\<rparr>\<rparr>)"
  shows "case run of
      (None, st') \<Rightarrow> \<not> (alloc \<and> always_serves env (cbase st) \<and> 16 * length els < 2 ^ 64 \<and> length d + total (fs @ [(k, c)]) < 2 ^ 64)
    | (Some _, st') \<Rightarrow> builder st' r (qs @ [q]) d (fs @ [(k, concat (sort els))])"
proof -
  have "concat els = c" using set_children_parts [OF els innermost_bound [OF b]] by simp
  moreover have "\<not> of_nat (length els) > (- 1 :: u64) div 16" if "16 * length els < 2 ^ 64"
  proof -
    have "unat ((- 1 :: u64) div 16) = 2 ^ 60 - 1" by simp
    then show ?thesis using that by (simp add: word_less_nat_alt unat_of_nat)
  qed
  moreover have "els \<noteq> []" if "\<not> length els < 2" using that by auto
  ultimately show ?thesis using b sort_innermost [OF b l n els, of env] unfolding run_def start_def
    by (cases "length els < 2") (auto simp: sort_small split: prod.splits option.splits)
qed

text \<open>The whole operation, on an open child \<open>q\<close> that may have open children itself.\<close>

lemma flush_set_of:
  assumes b: "builder st r (qs1 @ q # qs2) d (fs1 @ (k, c) # fs2)" and l: "length qs1 = length fs1" and n: "Suc (length qs2) < n"
  shows "case CBB_flush_asn1_set_of n env alloc q st of
      (None, st') \<Rightarrow> \<not> (alloc \<and> always_serves env (cbase st) \<and> (\<exists>x els. collapse fs2 = Some x
        \<and> set_children (length (c @ x)) (c @ x) = Some els \<and> 16 * length els < 2 ^ 64 \<and> length d + total (fs1 @ [(k, c @ x)]) < 2 ^ 64))
    | (Some _, st') \<Rightarrow> \<exists>x els. collapse fs2 = Some x \<and> set_children (length (c @ x)) (c @ x) = Some els
        \<and> builder st' r (qs1 @ [q]) d (fs1 @ [(k, concat (sort els))])"
proof -
  let ?j = "Suc (length qs1)"
  have at: "(r # qs1 @ q # qs2) ! ?j = q" "take ?j (qs1 @ q # qs2) = qs1 @ [q]" "drop ?j (qs1 @ q # qs2) = qs2"
    "take ?j (fs1 @ (k, c) # fs2) = fs1 @ [(k, c)]" "drop ?j (fs1 @ (k, c) # fs2) = fs2" "?j \<le> length (qs1 @ q # qs2)"
    using l by (simp_all add: nth_append)
  have fl: "case CBB_flush n env q st of
      (None, st') \<Rightarrow> failed st' \<and> \<not> (always_serves env (cbase st) \<and> (\<exists>x. collapse fs2 = Some x
        \<and> length d + total (fs1 @ [(k, c @ x)]) < 2 ^ 64))
    | (Some _, st') \<Rightarrow> \<exists>x. collapse fs2 = Some x \<and> builder st' r (qs1 @ [q]) d (fs1 @ [(k, c @ x)]) \<and> kept (set qs2) q 0 st st'"
    using does_nested [OF does_flush b at(6), of n "{}" env, unfolded at(1-5)] n
    by (cases "CBB_flush n env q st"; cases "fst (CBB_flush n env q st)") (auto simp: extend_def total_def add.assoc)
  show ?thesis
  proof (cases "CBB_flush n env q st")
    case (Pair res st1)
    show ?thesis
    proof (cases res)
      case None
      then show ?thesis using fl Pair by (auto simp: CBB_flush_asn1_set_of_def)
    next
      case (Some u)
      obtain x where x: "collapse fs2 = Some x" and b1: "builder st1 r (qs1 @ [q]) d (fs1 @ [(k, c @ x)])" and k1: "kept (set qs2) q 0 st st1"
        using fl Pair Some by auto
      have data: "CBB_data q st1 = c @ x" using innermost(1) [OF b1 l] .
      have serves: "always_serves env (cbase st1) = always_serves env (cbase st)" using k1 by (rule kept_serves)
      show ?thesis
      proof (cases "set_children (length (c @ x)) (c @ x)")
        case None
        then show ?thesis using x Pair Some by (simp add: CBB_flush_asn1_set_of_def data)
      next
        case els: (Some els)
        have "1 < n" using n by simp
        from set_innermost [OF b1 l this els, of alloc env] show ?thesis
          unfolding CBB_flush_asn1_set_of_def Pair Some pthen_simps data Let_def els option.case serves
          by (rule case_result_mono) (use x els in auto)
      qed
    qed
  qed
qed

end
