(* ===== verification/Cbb_Machine.thy ===== *)
theory Cbb_Machine
  imports Cbb_Ops
begin

text \<open>
  A client of the builder as a state machine: after an initialisation it calls the
  operations in any order, on any object of the current chain of open children, with fresh
  objects for new children. In every state it can reach, the buffer and the tree of objects
  represent an abstract builder, or the error flag is set and stays set; in either case no
  access left the buffer and no dead object was used.
\<close>

section \<open>Calls\<close>

datatype cbb_call =
    Add_u8 u8 | Add_u16 u16 | Add_u24 u32 | Add_u32 u32 | Add_u64 u64
  | Add_u16le u16 | Add_u32le u32 | Add_u64le u64
  | Add_bytes "u8 list" | Add_zeros u64 | Add_space u64 | Reserve u64 | Flush
  | Add_u8_prefixed addr | Add_u16_prefixed addr | Add_u24_prefixed addr | Add_asn1 addr u32
  | Add_asn1_uint64 addr u64 | Add_asn1_int64 addr u64 | Add_asn1_bool addr bool

definition no_value :: "'a build \<Rightarrow> unit build" where
  "no_value r = (map_option (\<lambda>_. ()) (fst r), snd r)"

fun perform :: "cbb_call \<Rightarrow> unit op" where
  "perform (Add_u8 v) n env p st = CBB_add_u8 n env p v st"
| "perform (Add_u16 v) n env p st = CBB_add_u16 n env p v st"
| "perform (Add_u24 v) n env p st = CBB_add_u24 n env p v st"
| "perform (Add_u32 v) n env p st = CBB_add_u32 n env p v st"
| "perform (Add_u64 v) n env p st = CBB_add_u64 n env p v st"
| "perform (Add_u16le v) n env p st = CBB_add_u16le n env p v st"
| "perform (Add_u32le v) n env p st = CBB_add_u32le n env p v st"
| "perform (Add_u64le v) n env p st = CBB_add_u64le n env p v st"
| "perform (Add_bytes bs) n env p st = CBB_add_bytes n env p bs st"
| "perform (Add_zeros k) n env p st = CBB_add_zeros n env p k st"
| "perform (Add_space k) n env p st = no_value (CBB_add_space n env p k st)"
| "perform (Reserve k) n env p st = no_value (CBB_reserve n env p k st)"
| "perform Flush n env p st = CBB_flush n env p st"
| "perform (Add_u8_prefixed q) n env p st = CBB_add_u8_length_prefixed n env p q st"
| "perform (Add_u16_prefixed q) n env p st = CBB_add_u16_length_prefixed n env p q st"
| "perform (Add_u24_prefixed q) n env p st = CBB_add_u24_length_prefixed n env p q st"
| "perform (Add_asn1 q tag) n env p st = CBB_add_asn1 n env p q tag st"
| "perform (Add_asn1_uint64 q v) n env p st = CBB_add_asn1_uint64 n env p q v st"
| "perform (Add_asn1_int64 q v) n env p st = CBB_add_asn1_int64 n env p q v st"
| "perform (Add_asn1_bool q v) n env p st = CBB_add_asn1_bool n env p q v st"

text \<open>The objects a call initialises.\<close>

fun call_objects :: "cbb_call \<Rightarrow> addr set" where
  "call_objects (Add_u8_prefixed q) = {q}"
| "call_objects (Add_u16_prefixed q) = {q}"
| "call_objects (Add_u24_prefixed q) = {q}"
| "call_objects (Add_asn1 q tag) = {q}"
| "call_objects (Add_asn1_uint64 q v) = {q}"
| "call_objects (Add_asn1_int64 q v) = {q}"
| "call_objects (Add_asn1_bool q v) = {q}"
| "call_objects _ = {}"

text \<open>A byte string in memory is shorter than the address space.\<close>

fun call_ok :: "cbb_call \<Rightarrow> bool" where
  "call_ok (Add_bytes bs) \<longleftrightarrow> length bs < 2 ^ 64"
| "call_ok c \<longleftrightarrow> 0 \<notin> call_objects c"

fun chain :: "(addr \<Rightarrow> cbb) \<Rightarrow> addr \<Rightarrow> addr list \<Rightarrow> bool" where
  "chain m p [] \<longleftrightarrow> c_child (m p) = 0"
| "chain m p (q # qs) \<longleftrightarrow> q \<noteq> 0 \<and> c_child (m p) = q \<and> chain m q qs"

section \<open>The error flag is sticky\<close>

lemma flush_error: "b_error (cbase st) \<Longrightarrow> 0 < n \<Longrightarrow> CBB_flush n env p st = (None, st)"
  by (cases n) simp_all

lemma perform_error: "b_error (cbase st) \<Longrightarrow> 0 < n \<Longrightarrow> perform c n env p st = (None, st)"
  by (cases c)
    (simp_all add: flush_error no_value_def CBB_add_u8_def CBB_add_u16_def CBB_add_u24_def CBB_add_u32_def CBB_add_u64_def
      CBB_add_u16le_def CBB_add_u32le_def CBB_add_u64le_def add_u_def CBB_add_bytes_def CBB_add_zeros_def CBB_add_space_def
      CBB_reserve_def CBB_add_u8_length_prefixed_def CBB_add_u16_length_prefixed_def CBB_add_u24_length_prefixed_def
      cbb_add_length_prefixed_def CBB_add_asn1_def CBB_add_asn1_uint64_def CBB_add_asn1_int64_def CBB_add_asn1_bool_def)

section \<open>Every call keeps the invariant\<close>

definition cbb_inv :: "addr \<Rightarrow> cbb_state \<Rightarrow> bool" where
  "cbb_inv r st \<longleftrightarrow> failed st \<or> (\<exists>qs d fs. builder st r qs d fs)"

lemma linked_chain: "linked m off p qs fs bs \<Longrightarrow> chain m p qs"
  by (induction m off p qs fs bs rule: linked.induct) (auto simp: is_child_of_def)

lemma chain_unique: "chain m p qs \<Longrightarrow> chain m p qs' \<Longrightarrow> qs' = qs"
proof (induction qs arbitrary: p qs')
  case Nil
  then show ?case by (cases qs') auto
next
  case (Cons q qs)
  then show ?case by (cases qs') auto
qed

lemma builder_chain: "builder st r qs d fs \<Longrightarrow> chain (cbbs st) r qs' \<Longrightarrow> qs' = qs"
  by (auto simp: builder_def dest!: linked_chain intro: chain_unique)

lemma does_inv:
  assumes op: "does T ok op e qs' fs'" and b: "builder st r qs d fs" and j: "j \<le> length qs" and n: "Suc (length qs) < n"
    and T: "T \<inter> set (r # qs) = {}" "set qs' \<subseteq> T" "distinct qs'"
  shows "cbb_inv r (snd (op n env ((r # qs) ! j) st))"
proof -
  have "Suc (length (drop j qs)) < n" using n by simp
  from does_nested [OF op b j this T, of env] show ?thesis
    by (cases "op n env ((r # qs) ! j) st"; cases "fst (op n env ((r # qs) ! j) st)") (auto simp: cbb_inv_def extend_def split: if_splits)
qed

lemma emits_reserve: "emits T False (\<lambda>n env p st. CBB_reserve n env p len st) []"
  unfolding CBB_reserve_def
proof (rule emits_on_base)
  show "appends env False (cbb_buffer_reserve env len) []" for env
    unfolding appends_def
  proof (intro allI impI, elim conjE)
    fix b assume b: "buf_ok b" "\<not> b_error b"
    show "case cbb_buffer_reserve env len b of
        (None, b') \<Rightarrow> b_error b' \<and> \<not> b_undef b' \<and> \<not> (False \<and> always_serves env b \<and> length (contents b) + length [] < 2 ^ 64)
      | (Some _, b') \<Rightarrow> buf_ok b' \<and> \<not> b_error b' \<and> can_resize b' = can_resize b \<and> contents b' = contents b @ []"
      using b by (cases rule: reserve_cases [OF b(1), of env len]) (auto simp: buf_ok_def)
  qed
qed

text \<open>Growing the buffer by bytes nobody wrote, as \<open>CBB_add_space\<close> and \<open>CBB_did_write\<close> do.\<close>

lemma builder_append:
  assumes b: "builder st r qs d fs" and b': "buf_ok b'" "\<not> b_error b'" "contents b' = contents (cbase st) @ e"
  shows "\<exists>d' fs'. builder (st\<lparr>cbase := b'\<rparr>) r qs d' fs'"
proof -
  have l: "length qs = length fs" using b by (rule builder_length)
  obtain bs1 where 1: "path (cbbs st) (length d) r qs fs bs1" "builder st (last (r # qs)) [] (d @ bs1) []"
    using builder_at [OF b order_refl] l by (metis drop_all order_refl take_all)
  have "path (cbbs (st\<lparr>cbase := b'\<rparr>)) (length d) r qs fs bs1" using 1(1) by simp
  moreover have "builder (st\<lparr>cbase := b'\<rparr>) (last (r # qs)) [] (d @ bs1 @ e) []" using 1(2) b' by (auto simp: builder_def)
  moreover have "distinct (r # qs @ [])" using b by (simp add: builder_def)
  ultimately show ?thesis using builder_extend [of "st\<lparr>cbase := b'\<rparr>" d r qs fs bs1 "[]" e "[]"]
    by (auto simp: extend_def split: if_splits)
qed

lemma space_inv:
  assumes b: "builder st r qs d fs" and j: "j \<le> length qs" and n: "Suc (length qs) < n"
  shows "cbb_inv r (snd (CBB_add_space n env ((r # qs) ! j) len st))"
proof -
  let ?p = "(r # qs) ! j"
  have "Suc (length (drop j qs)) < n" using n by simp
  note fl = does_nested [OF does_flush b j this, of "{}" env]
  show ?thesis
  proof (cases "CBB_flush n env ?p st")
    case (Pair res st1)
    show ?thesis
    proof (cases res)
      case None
      then show ?thesis using fl Pair by (simp add: CBB_add_space_def cbb_inv_def)
    next
      case (Some u)
      obtain d1 fs1 where b1: "builder st1 r (take j qs) d1 fs1" using fl Pair Some by (auto simp: extend_def split: if_splits)
      then have ok: "buf_ok (cbase st1)" "\<not> b_error (cbase st1)" by (simp_all add: builder_def)
      show ?thesis
      proof (cases rule: add_cases [OF ok(1), of env len])
        case 1
        then show ?thesis using Pair Some ok by (simp add: CBB_add_space_def on_base_def cbb_inv_def failed_def buf_ok_def)
      next
        case (2 b')
        have "contents b' = contents (cbase st1) @ drop (length (contents (cbase st1))) (contents b')"
          using 2(4) by (metis append_take_drop_id)
        then have "\<exists>d' fs'. builder (st1\<lparr>cbase := b'\<rparr>) r (take j qs) d' fs'" using builder_append [OF b1 2(2)] 2(5) ok(2) by simp
        then show ?thesis using Pair Some 2(1) by (auto simp: CBB_add_space_def on_base_def cbb_inv_def)
      qed
    qed
  qed
qed

lemma perform_inv:
  assumes b: "builder st r qs d fs" and j: "j \<le> length qs" and n: "Suc (length qs) < n"
    and c: "call_ok c" "call_objects c \<inter> set (r # qs) = {}"
  shows "cbb_inv r (snd (perform c n env ((r # qs) ! j) st))"
proof -
  have plain: "cbb_inv r (snd (op n env ((r # qs) ! j) st))" if "emits {} ok op e" for ok and e and op :: "'a op"
    by (rule does_inv [OF that b j n]) simp_all
  have opens: "cbb_inv r (snd (op n env ((r # qs) ! j) st))" if "does {q} ok op e qs' fs'" "set qs' \<subseteq> {q}" "distinct qs'" "r \<noteq> q" "q \<notin> set qs"
    for ok q e qs' fs' and op :: "'a op"
    using that by (intro does_inv [OF that(1) b j n]) auto
  show ?thesis
  proof (cases c)
    case (Add_zeros k)
    have "length (replicate (unat k) (0 :: u8)) < 2 ^ 64" using unsigned_less [of k, where 'a = nat] by simp
    then show ?thesis using plain [OF emits_bytes] Add_zeros by (simp add: add_zeros_bytes)
  next
    case (Add_space k)
    then show ?thesis using space_inv [OF b j n, of env k] by (simp add: no_value_def)
  qed (use c in \<open>simp_all add: no_value_def CBB_add_u8_length_prefixed_def CBB_add_u16_length_prefixed_def CBB_add_u24_length_prefixed_def
    plain [OF emits_u8] plain [OF emits_u16] plain [OF emits_u24] plain [OF emits_u32] plain [OF emits_u64] plain [OF emits_le(1)]
    plain [OF emits_le(2)] plain [OF emits_le(3)] plain [OF emits_bytes] plain [OF emits_reserve] plain [OF does_flush]
    opens [OF does_length_prefixed] opens [OF does_asn1] opens [OF emits_uint64] opens [OF emits_int64] opens [OF emits_bool]\<close>)
qed

lemma did_write_inv:
  assumes b: "builder st r qs d fs" and j: "j \<le> length qs"
  shows "cbb_inv r (snd (CBB_did_write ((r # qs) ! j) len st))"
proof -
  let ?p = "(r # qs) ! j" and ?b = "cbase st"
  obtain bs where "builder st ?p (drop j qs) (d @ bs) (drop j fs)" using builder_at [OF b j] .
  then have base: "c_base (cbbs st ?p)" by (cases "drop j qs"; cases "drop j fs") (auto simp: builder_def is_child_of_def)
  have ok: "buf_ok ?b" "\<not> b_error ?b" using b by (simp_all add: builder_def)
  have "cbb_inv r (st\<lparr>cbase := ?b\<lparr>b_len := b_len ?b + len\<rparr>\<rparr>)" if "b_len ?b \<le> b_len ?b + len" "b_len ?b + len \<le> b_cap ?b"
  proof -
    let ?b' = "?b\<lparr>b_len := b_len ?b + len\<rparr>"
    have "take (unat (b_len ?b)) (contents ?b') = contents ?b" using that(1) by (simp add: contents_def word_le_nat_alt min_absorb1)
    then have "contents ?b' = contents ?b @ drop (unat (b_len ?b)) (contents ?b')" by (metis append_take_drop_id)
    moreover have "buf_ok ?b'" using ok that by (simp add: buf_ok_def)
    ultimately show ?thesis using builder_append [OF b, of ?b'] ok(2) by (auto simp: cbb_inv_def)
  qed
  moreover have "cbb_inv r st" using b by (auto simp: cbb_inv_def)
  ultimately show ?thesis using base by (auto simp: CBB_did_write_def Let_def not_less)
qed

text \<open>Discarding the child takes away its bytes and everything that was open below it.\<close>

lemma discard_builder:
  assumes b: "builder st r qs d fs" and j: "j < length qs"
  shows "builder (CBB_discard_child ((r # qs) ! j) st) r (take j qs) d (take j fs)"
proof -
  let ?p = "(r # qs) ! j" and ?q = "qs ! j" and ?st = "CBB_discard_child ((r # qs) ! j) st"
  obtain bs1 where 1: "path (cbbs st) (length d) r (take j qs) (take j fs) bs1"
      "builder st ?p (drop j qs) (d @ bs1) (drop j fs)" and last: "last (r # take j qs) = ?p"
    using builder_at [OF b] j by (metis less_imp_le)
  have len: "length qs = length fs" using b by (rule builder_length)
  have dq: "drop j qs = ?q # drop (Suc j) qs" using j by (simp add: Cons_nth_drop_Suc)
  obtain k c where df: "drop j fs = (k, c) # drop (Suc j) fs" using j len by (metis Cons_nth_drop_Suc surj_pair)
  obtain bs2 where 2: "buf_ok (cbase st)" "\<not> b_error (cbase st)" "?p \<noteq> ?q" "contents (cbase st) = (d @ bs1) @ bs2"
      "is_child_of (cbbs st) (length (d @ bs1)) ?p ?q k"
    using 1(2) unfolding dq df builder_def by auto
  let ?off = "c_offset (cbbs st ?q)"
  have st: "?st = cbb_upd ?p (\<lambda>c. c\<lparr>c_child := 0\<rparr>) (cbb_upd ?q (\<lambda>c. c\<lparr>c_base := False\<rparr>) (st\<lparr>cbase := (cbase st)\<lparr>b_len := ?off\<rparr>\<rparr>))"
    using 2(5) by (simp add: CBB_discard_child_def is_child_of_def Let_def)
  have off: "unat ?off = length (d @ bs1)" "unat ?off \<le> unat (b_len (cbase st))"
    using 2(4,5) length_contents [OF 2(1)] by (simp_all add: is_child_of_def)
  have "contents ((cbase st)\<lparr>b_len := ?off\<rparr>) = take (unat ?off) (contents (cbase st))" using off(2) by (simp add: contents_def min_absorb1)
  then have cont: "contents ((cbase st)\<lparr>b_len := ?off\<rparr>) = d @ bs1" using 2(4) off(1) by simp
  have dist: "distinct (r # qs)" using b by (simp add: builder_def)
  have q: "?q \<notin> set (r # take j qs)" using dist j by (auto simp: in_set_conv_nth nth_eq_iff_index_eq)
  have "builder ?st ?p [] (d @ bs1) []" using 2 cont off(2) unfolding st by (auto simp: builder_def buf_ok_def is_child_of_def word_le_nat_alt)
  moreover have "path (cbbs ?st) (length d) r (take j qs) (take j fs) bs1"
  proof (rule path_cong [OF 1(1)])
    show "distinct (r # take j qs)" using dist by (auto dest: in_set_takeD)
    show "cbbs ?st (last (r # take j qs)) = (cbbs st (last (r # take j qs)))\<lparr>c_child := 0\<rparr>" unfolding last st using 2(3) by simp
    show "cbbs ?st a = cbbs st a" if "a \<in> set (r # take j qs)" "a \<noteq> last (r # take j qs)" for a
      using that q unfolding last st by auto
  qed
  moreover have "distinct (r # take j qs @ [])" using dist by (auto dest: in_set_takeD)
  ultimately show ?thesis using builder_extend [of ?st d r "take j qs" "take j fs" bs1 "[]" "[]" "[]"] last by (auto simp: extend_def split: if_splits)
qed

section \<open>Reachable states\<close>

inductive cbb_reach :: "cbb_env \<Rightarrow> addr \<Rightarrow> cbb_state \<Rightarrow> bool" for env :: cbb_env and r :: addr where
  init: "CBB_init env can r cap st0 = (Some (), st) \<Longrightarrow> cbb_reach env r st"
| init_fixed: "CBB_init_fixed can r buf len st0 = (Some (), st) \<Longrightarrow> length buf = unat len \<Longrightarrow> cbb_reach env r st"
| call: "cbb_reach env r st \<Longrightarrow> chain (cbbs st) r qs \<Longrightarrow> j \<le> length qs \<Longrightarrow> Suc (length qs) < n \<Longrightarrow>
    call_ok c \<Longrightarrow> call_objects c \<inter> set (r # qs) = {} \<Longrightarrow> cbb_reach env r (snd (perform c n env ((r # qs) ! j) st))"
| after_error: "cbb_reach env r st \<Longrightarrow> b_error (cbase st) \<Longrightarrow> cbb_reach env r (snd (perform c (Suc n) env p st))"
| did_write: "cbb_reach env r st \<Longrightarrow> \<not> b_error (cbase st) \<Longrightarrow> chain (cbbs st) r qs \<Longrightarrow> j \<le> length qs \<Longrightarrow>
    cbb_reach env r (snd (CBB_did_write ((r # qs) ! j) len st))"
| discard: "cbb_reach env r st \<Longrightarrow> \<not> b_error (cbase st) \<Longrightarrow> chain (cbbs st) r qs \<Longrightarrow> j \<le> length qs \<Longrightarrow>
    cbb_reach env r (CBB_discard_child ((r # qs) ! j) st)"

lemma init_fixed_builder:
  "CBB_init_fixed can r buf len st0 = (Some (), st) \<Longrightarrow> length buf = unat len \<Longrightarrow> builder st r [] [] []"
  by (auto simp: CBB_init_fixed_def cbb_init_def builder_def buf_ok_def contents_def CBB_zero_def cbb_upd_def split: if_splits)

lemma reach_inv: "cbb_reach env r st \<Longrightarrow> cbb_inv r st"
proof (induction rule: cbb_reach.induct)
  case (init can cap st0 st)
  then show ?case using init_builder(1) [OF init] by (auto simp: cbb_inv_def)
next
  case (init_fixed can buf len st0 st)
  then show ?case using init_fixed_builder [OF init_fixed] by (auto simp: cbb_inv_def)
next
  case (call st qs j n c)
  then show ?case
  proof (cases "failed st")
    case True
    then show ?thesis using perform_error [of st n c env "(r # qs) ! j"] call.hyps(4) by (simp add: failed_def cbb_inv_def)
  next
    case False
    then show ?thesis using call perform_inv builder_chain by (metis cbb_inv_def)
  qed
next
  case (after_error st c n p)
  then show ?case using perform_error [of st "Suc n" c env p] by simp
next
  case (did_write st qs j len)
  then show ?case using did_write_inv builder_chain by (metis cbb_inv_def failed_def)
next
  case (discard st qs j)
  then obtain d fs where b: "builder st r qs d fs" using builder_chain by (metis cbb_inv_def failed_def)
  show ?case
  proof (cases "j < length qs")
    case True
    then show ?thesis using discard_builder [OF b] by (auto simp: cbb_inv_def)
  next
    case False
    obtain bs where "builder st ((r # qs) ! j) (drop j qs) (d @ bs) (drop j fs)" using builder_at [OF b discard.hyps(4)] .
    then have "c_child (cbbs st ((r # qs) ! j)) = 0" using False builder_length [OF b] by (simp add: builder_def)
    then show ?thesis using b by (auto simp: CBB_discard_child_def cbb_inv_def)
  qed
qed

end
