(* ===== verification/Ber.thy ===== *)
theory Ber
  imports Cbb
begin

text \<open>
  Conversion from BER to DER (\<open>crypto/bytestring/ber.c\<close>), and the output function of \<open>asn1_compat.c\<close>. Depth arguments count down: a call with
  \<open>depth\<close> at most \<open>kMaxDepth\<close> has \<open>kMaxDepth - depth + 1\<close> levels left. The loops over the
  input are bounded by its length. \<open>loc d\<close> is the address of the local \<open>out_contents_storage\<close> in the call
  with \<open>d\<close> levels below it.
\<close>

definition is_string_type :: "u32 \<Rightarrow> bool" where
  "is_string_type tag \<longleftrightarrow>
     tag AND NOT CBS_ASN1_CONSTRUCTED \<in> set [4, 0xC, 0x12, 0x13, 0x14, 0x15, 0x16, 0x19, 0x1A, 0x1B, 0x1C, 0x1E]"

definition constructed :: "u32 \<Rightarrow> bool" where
  "constructed tag \<longleftrightarrow> tag AND CBS_ASN1_CONSTRUCTED \<noteq> 0"

text \<open>The value is \<open>*ber_found\<close>, which the parser of the next element overwrites.\<close>

fun find_ber_loop :: "(cbs \<Rightarrow> bool option) \<Rightarrow> nat \<Rightarrow> bool \<Rightarrow> cbs \<Rightarrow> bool option" where
  "find_ber_loop sub 0 ber_found cbs = (if cbs = [] then Some ber_found else None)"
| "find_ber_loop sub (Suc k) ber_found cbs =
     (if cbs = [] then Some ber_found
      else case CBS_get_any_ber_asn1_element cbs of
        (None, _) \<Rightarrow> None
      | (Some (contents, tag, header_len, ber_found), rest) \<Rightarrow>
          if ber_found then Some True
          else if constructed tag then
            if is_string_type tag then Some True
            else (case CBS_skip contents header_len of
                    (None, _) \<Rightarrow> None
                  | (Some _, contents) \<Rightarrow>
                      (case sub contents of
                         None \<Rightarrow> None
                       | Some ber_found \<Rightarrow> find_ber_loop sub k ber_found rest))
          else find_ber_loop sub k False rest)"

primrec cbs_find_ber :: "nat \<Rightarrow> cbs \<Rightarrow> bool option" where
  "cbs_find_ber 0 orig_in = None"
| "cbs_find_ber (Suc d) orig_in = find_ber_loop (cbs_find_ber d) (length orig_in) False orig_in"

definition is_eoc :: "u64 \<Rightarrow> cbs \<Rightarrow> bool" where
  "is_eoc header_len contents \<longleftrightarrow> header_len = 2 \<and> CBS_len contents = 2 \<and> memcmp contents [0, 0] = 0"

definition is_indefinite :: "u64 \<Rightarrow> cbs \<Rightarrow> bool" where
  "is_indefinite header_len contents \<longleftrightarrow>
     CBS_len contents = header_len \<and> header_len > 0 \<and> contents ! unat (header_len - 1) = 0x80"

text \<open>The object the contents go to, and the tag that the fragments below must have.\<close>

definition open_contents :: "nat \<Rightarrow> cbb_env \<Rightarrow> addr \<Rightarrow> addr \<Rightarrow> u32 \<Rightarrow> u32 \<Rightarrow> cbb_state \<Rightarrow> (addr \<times> u32) build" where
  "open_contents n env out q string_tag tag st =
     (if string_tag \<noteq> 0 then
        if tag AND NOT CBS_ASN1_CONSTRUCTED \<noteq> string_tag then (None, st) else (Some (out, string_tag), st)
      else if constructed tag \<and> is_string_type tag then
        pthen (CBB_add_asn1 n env out q (tag AND NOT CBS_ASN1_CONSTRUCTED) st) (\<lambda>_ st.
          (Some (q, tag AND NOT CBS_ASN1_CONSTRUCTED), st))
      else pthen (CBB_add_asn1 n env out q tag st) (\<lambda>_ st. (Some (q, string_tag), st)))"

text \<open>The value is what is left of the input.\<close>

type_synonym converter = "addr \<Rightarrow> cbs \<Rightarrow> u32 \<Rightarrow> bool \<Rightarrow> cbb_state \<Rightarrow> cbs build"

definition convert_contents :: "converter \<Rightarrow> nat \<Rightarrow> cbb_env \<Rightarrow> addr \<Rightarrow> u32 \<Rightarrow> cbs \<Rightarrow> u32 \<Rightarrow> u64 \<Rightarrow> cbs \<Rightarrow> cbb_state \<Rightarrow> cbs build" where
  "convert_contents sub n env out_contents child_string_tag contents tag header_len rest st =
     (if is_indefinite header_len contents then sub out_contents rest child_string_tag True st
      else case CBS_skip contents header_len of
        (None, _) \<Rightarrow> (None, st)
      | (Some _, contents) \<Rightarrow>
          if constructed tag then pthen (sub out_contents contents child_string_tag False st) (\<lambda>_ st. (Some rest, st))
          else pthen (CBB_add_bytes n env out_contents contents st) (\<lambda>_ st. (Some rest, st)))"

fun convert_ber_loop :: "converter \<Rightarrow> nat \<Rightarrow> cbb_env \<Rightarrow> addr \<Rightarrow> nat \<Rightarrow> addr \<Rightarrow> cbs \<Rightarrow> u32 \<Rightarrow> bool \<Rightarrow> cbb_state \<Rightarrow> cbs build" where
  "convert_ber_loop sub n env q 0 out cbs string_tag looking_for_eoc st =
     (if cbs = [] \<and> \<not> looking_for_eoc then (Some [], st) else (None, st))"
| "convert_ber_loop sub n env q (Suc k) out cbs string_tag looking_for_eoc st =
     (if cbs = [] then if looking_for_eoc then (None, st) else (Some [], st)
      else case CBS_get_any_ber_asn1_element cbs of
        (None, _) \<Rightarrow> (None, st)
      | (Some (contents, tag, header_len, _), rest) \<Rightarrow>
          if is_eoc header_len contents then if looking_for_eoc then (Some rest, st) else (None, st)
          else pthen (open_contents n env out q string_tag tag st) (\<lambda>(out_contents, child_string_tag) st.
               pthen (convert_contents sub n env out_contents child_string_tag contents tag header_len rest st) (\<lambda>rest st.
               pthen (CBB_flush n env out st) (\<lambda>_ st.
               convert_ber_loop sub n env q k out rest string_tag looking_for_eoc st))))"

primrec cbs_convert_ber :: "nat \<Rightarrow> nat \<Rightarrow> cbb_env \<Rightarrow> (nat \<Rightarrow> addr) \<Rightarrow> converter" where
  "cbs_convert_ber 0 n env loc out cbs string_tag looking_for_eoc st = (None, st)"
| "cbs_convert_ber (Suc d) n env loc out cbs string_tag looking_for_eoc st =
     convert_ber_loop (cbs_convert_ber d n env loc) n env (loc d) (length cbs) out cbs string_tag looking_for_eoc st"

definition kMaxDepth :: nat where
  "kMaxDepth = 2048"

text \<open>The error exits of the functions below destroy their local builder.\<close>

definition or_cleanup :: "addr \<Rightarrow> 'a build \<Rightarrow> 'a build" where
  "or_cleanup r res = (case res of (None, st) \<Rightarrow> (None, CBB_cleanup r st) | (Some x, st) \<Rightarrow> (Some x, st))"

lemma or_cleanup_simps [simp]:
  "fst (or_cleanup r res) = fst res" "or_cleanup r res = (Some x, st) \<longleftrightarrow> res = (Some x, st)"
  by (auto simp: or_cleanup_def split: prod.splits option.splits)

text \<open>
  The output and what is left of the input; \<open>r\<close> is the address of the local \<open>cbb\<close>. The caller owns the storage of
  the output just when there was something to convert.
\<close>

definition CBS_asn1_ber_to_der :: "nat \<Rightarrow> cbb_env \<Rightarrow> bool \<Rightarrow> (nat \<Rightarrow> addr) \<Rightarrow> addr \<Rightarrow> cbs \<Rightarrow> cbb_state \<Rightarrow> (cbs \<times> cbs) build" where
  "CBS_asn1_ber_to_der n env can loc r cbs st =
     (case cbs_find_ber (Suc kMaxDepth) cbs of
        None \<Rightarrow> (None, st)
      | Some conversion_needed \<Rightarrow>
          if \<not> conversion_needed then
            (case CBS_get_any_asn1_element cbs of
               (None, _) \<Rightarrow> (None, st)
             | (Some (out, _), rest) \<Rightarrow> (Some (out, rest), st))
          else or_cleanup r (pthen (CBB_init env can r (CBS_len cbs) st) (\<lambda>_ st.
               pthen (cbs_convert_ber (Suc kMaxDepth) n env loc r cbs 0 False st) (\<lambda>rest st.
               pthen (CBB_finish n env r True st) (\<lambda>out st. (Some (out, rest), st))))))"

text \<open>The loop over the chunks of a constructed string.\<close>

fun implicit_chunks :: "nat \<Rightarrow> nat \<Rightarrow> cbb_env \<Rightarrow> addr \<Rightarrow> u32 \<Rightarrow> cbs \<Rightarrow> cbb_state \<Rightarrow> unit build" where
  "implicit_chunks 0 n env r inner_tag child st = (if child = [] then (Some (), st) else (None, st))"
| "implicit_chunks (Suc k) n env r inner_tag child st =
     (if child = [] then (Some (), st)
      else case CBS_get_asn1 child inner_tag of
        (None, _) \<Rightarrow> (None, st)
      | (Some chunk, child) \<Rightarrow> pthen (CBB_add_bytes n env r chunk st) (\<lambda>_ st. implicit_chunks k n env r inner_tag child st))"

definition CBS_get_asn1_implicit_string :: "nat \<Rightarrow> cbb_env \<Rightarrow> bool \<Rightarrow> addr \<Rightarrow> cbs \<Rightarrow> u32 \<Rightarrow> u32 \<Rightarrow> cbb_state \<Rightarrow> (cbs \<times> cbs) build" where
  "CBS_get_asn1_implicit_string n env can r cbs outer_tag inner_tag st =
     (if CBS_peek_asn1_tag cbs outer_tag then
        (case CBS_get_asn1 cbs outer_tag of (None, _) \<Rightarrow> (None, st) | (Some out, rest) \<Rightarrow> (Some (out, rest), st))
      else or_cleanup r (pthen (CBB_init env can r (CBS_len cbs) st) (\<lambda>_ st.
        case CBS_get_asn1 cbs (outer_tag OR CBS_ASN1_CONSTRUCTED) of
          (None, _) \<Rightarrow> (None, st)
        | (Some child, rest) \<Rightarrow>
            pthen (implicit_chunks (length child) n env r inner_tag child st) (\<lambda>_ st.
            pthen (CBB_finish n env r True st) (\<lambda>out st. (Some (out, rest), st))))))"

section \<open>The old interface\<close>

text \<open>
  \<open>CBB_finish_i2d\<close> of \<open>asn1_compat.c\<close>. \<open>outp\<close> is \<open>None\<close> for a null pointer, otherwise the pointer it points to; \<open>der\<close> is
  the address of the finished buffer, which the caller gets when that pointer is null.
\<close>

definition CBB_finish_i2d :: "nat \<Rightarrow> cbb_env \<Rightarrow> addr \<Rightarrow> addr \<Rightarrow> addr option \<Rightarrow> mem \<Rightarrow> cbb_state \<Rightarrow> int \<times> addr option \<times> mem \<times> cbb_state" where
  "CBB_finish_i2d n env p der outp m st =
     (case CBB_finish n env p True st of
        (None, st) \<Rightarrow> (- 1, outp, m, CBB_cleanup p st)
      | (Some bytes, st) \<Rightarrow>
          if length bytes > 0x7FFFFFFF then (- 1, outp, m, st)
          else (int (length bytes),
            (case outp of
               None \<Rightarrow> (None, m, st)
             | Some a \<Rightarrow>
                 if a = 0 then (Some der, store_bytes m der bytes, st)
                 else (Some (a + of_nat (length bytes)), store_bytes m a bytes, st))))"

end
