(* ===== verification/Ber_Correct.thy ===== *)
theory Ber_Correct
  imports Ber Cbb_Ops
begin

text \<open>
  The conversion from BER to DER. What it reads is a forest, and what it writes is determined by
  that forest: the conversion is split into a parser and a writer. The output has no
  indefinite lengths and no constructed strings at any depth, so that converting it again
  is not needed.
\<close>

section \<open>The forest\<close>

text \<open>Fragments of a constructed string have no header of their own in the output.\<close>

datatype node = Chunk "u8 list" | Fragments "node list" | Primitive u32 "u8 list" | Nested u32 "node list"

type_synonym forest_parser = "cbs \<Rightarrow> u32 \<Rightarrow> bool \<Rightarrow> (node list \<times> cbs) option"

definition out_tag :: "u32 \<Rightarrow> u32" where
  "out_tag tag = (if constructed tag \<and> is_string_type tag then tag AND NOT CBS_ASN1_CONSTRUCTED else tag)"

definition child_tag :: "u32 \<Rightarrow> u32 \<Rightarrow> u32" where
  "child_tag string_tag tag = (if string_tag = 0 \<and> constructed tag \<and> is_string_type tag then out_tag tag else string_tag)"

datatype content = Bytes "u8 list" | Nodes "node list"

definition parse_content :: "forest_parser \<Rightarrow> u32 \<Rightarrow> cbs \<Rightarrow> u32 \<Rightarrow> u64 \<Rightarrow> cbs \<Rightarrow> (content \<times> cbs) option" where
  "parse_content sub child_string_tag body tag header_len rest =
     (if is_indefinite header_len body then map_option (apfst Nodes) (sub rest child_string_tag True)
      else case CBS_skip body header_len of
        (None, _) \<Rightarrow> None
      | (Some _, c) \<Rightarrow>
          if constructed tag then map_option (\<lambda>(ns, _). (Nodes ns, rest)) (sub c child_string_tag False)
          else Some (Bytes c, rest))"

definition make_node :: "u32 \<Rightarrow> u32 \<Rightarrow> content \<Rightarrow> node" where
  "make_node string_tag tag x =
     (case x of
        Bytes c \<Rightarrow> if string_tag \<noteq> 0 then Chunk c else Primitive (out_tag tag) c
      | Nodes ns \<Rightarrow> if string_tag \<noteq> 0 then Fragments ns else Nested (out_tag tag) ns)"

definition parse_node :: "forest_parser \<Rightarrow> u32 \<Rightarrow> cbs \<Rightarrow> u32 \<Rightarrow> u64 \<Rightarrow> cbs \<Rightarrow> (node \<times> cbs) option" where
  "parse_node sub string_tag body tag header_len rest =
     (if string_tag \<noteq> 0 \<and> tag AND NOT CBS_ASN1_CONSTRUCTED \<noteq> string_tag then None
      else map_option (apfst (make_node string_tag tag)) (parse_content sub (child_tag string_tag tag) body tag header_len rest))"

fun parse_loop :: "forest_parser \<Rightarrow> nat \<Rightarrow> forest_parser" where
  "parse_loop sub 0 cbs string_tag eoc = (if cbs = [] \<and> \<not> eoc then Some ([], []) else None)"
| "parse_loop sub (Suc k) cbs string_tag eoc =
     (if cbs = [] then if eoc then None else Some ([], [])
      else case CBS_get_any_ber_asn1_element cbs of
        (None, _) \<Rightarrow> None
      | (Some (body, tag, header_len, _), rest) \<Rightarrow>
          if is_eoc header_len body then if eoc then Some ([], rest) else None
          else (case parse_node sub string_tag body tag header_len rest of
                  None \<Rightarrow> None
                | Some (x, rest) \<Rightarrow> map_option (apfst ((#) x)) (parse_loop sub k rest string_tag eoc)))"

primrec parse_forest :: "nat \<Rightarrow> forest_parser" where
  "parse_forest 0 cbs string_tag eoc = None"
| "parse_forest (Suc d) cbs string_tag eoc = parse_loop (parse_forest d) (length cbs) cbs string_tag eoc"

fun write_node :: "nat \<Rightarrow> cbb_env \<Rightarrow> (nat \<Rightarrow> addr) \<Rightarrow> nat \<Rightarrow> addr \<Rightarrow> node \<Rightarrow> cbb_state \<Rightarrow> unit build"
  and write_forest :: "nat \<Rightarrow> cbb_env \<Rightarrow> (nat \<Rightarrow> addr) \<Rightarrow> nat \<Rightarrow> addr \<Rightarrow> node list \<Rightarrow> cbb_state \<Rightarrow> unit build" where
  "write_node n env loc d p (Chunk c) st = pthen (CBB_add_bytes n env p c st) (\<lambda>_ st. CBB_flush n env p st)"
| "write_node n env loc d p (Fragments ns) st = pthen (write_forest n env loc (d - 1) p ns st) (\<lambda>_ st. CBB_flush n env p st)"
| "write_node n env loc d p (Primitive tag c) st =
     pthen (CBB_add_asn1 n env p (loc d) tag st) (\<lambda>_ st.
     pthen (CBB_add_bytes n env (loc d) c st) (\<lambda>_ st. CBB_flush n env p st))"
| "write_node n env loc d p (Nested tag ns) st =
     pthen (CBB_add_asn1 n env p (loc d) tag st) (\<lambda>_ st.
     pthen (write_forest n env loc (d - 1) (loc d) ns st) (\<lambda>_ st. CBB_flush n env p st))"
| "write_forest n env loc d p [] st = (Some (), st)"
| "write_forest n env loc d p (x # xs) st = pthen (write_node n env loc d p x st) (\<lambda>_ st. write_forest n env loc d p xs st)"

section \<open>The conversion parses and writes\<close>

definition agrees :: "nat \<Rightarrow> cbb_env \<Rightarrow> (nat \<Rightarrow> addr) \<Rightarrow> nat \<Rightarrow> converter \<Rightarrow> forest_parser \<Rightarrow> bool" where
  "agrees n env loc d conv parse \<longleftrightarrow>
     (\<forall>p cbs tag eoc st. case parse cbs tag eoc of
        None \<Rightarrow> fst (conv p cbs tag eoc st) = None
      | Some (ns, rest) \<Rightarrow> conv p cbs tag eoc st = pthen (write_forest n env loc d p ns st) (\<lambda>_ st. (Some rest, st)))"

lemma pthen_None: "(\<And>v s. fst (k v s) = None) \<Longrightarrow> fst (pthen r k) = None"
  by (cases r; cases "fst r") auto

lemma pthen_fst_None: "fst r = None \<Longrightarrow> fst (pthen r k) = None"
  by (cases r) simp

lemma pthen_pair_None: "(\<And>a b s. fst (f a b s) = None) \<Longrightarrow> fst (pthen r (\<lambda>(a, b) s. f a b s)) = None"
  by (rule pthen_None) auto

lemma pthen_cong: "(\<And>v s. k v s = k' v s) \<Longrightarrow> pthen r k = pthen r k'"
  by (cases r; cases "fst r") auto

lemma agreesD:
  assumes "agrees n env loc d conv parse"
  obtains "parse cbs tag eoc = None" "fst (conv p cbs tag eoc st) = None"
  | ns rest where "parse cbs tag eoc = Some (ns, rest)" "conv p cbs tag eoc st = pthen (write_forest n env loc d p ns st) (\<lambda>_ st. (Some rest, st))"
  using assms [unfolded agrees_def, THEN spec, THEN spec, THEN spec, THEN spec, THEN spec, of p cbs tag eoc st]
  by (cases "parse cbs tag eoc") auto

definition write_content :: "nat \<Rightarrow> cbb_env \<Rightarrow> (nat \<Rightarrow> addr) \<Rightarrow> nat \<Rightarrow> addr \<Rightarrow> content \<Rightarrow> cbb_state \<Rightarrow> unit build" where
  "write_content n env loc d p x st = (case x of Bytes c \<Rightarrow> CBB_add_bytes n env p c st | Nodes ns \<Rightarrow> write_forest n env loc d p ns st)"

lemma content_agrees:
  assumes sub: "agrees n env loc d conv parse"
  shows "case parse_content parse ct body tag header_len rest of
      None \<Rightarrow> fst (convert_contents conv n env oc ct body tag header_len rest st) = None
    | Some (x, rest') \<Rightarrow> convert_contents conv n env oc ct body tag header_len rest st
        = pthen (write_content n env loc d oc x st) (\<lambda>_ st. (Some rest', st))"
proof (cases "is_indefinite header_len body")
  case True
  then show ?thesis
    by (cases rule: agreesD [OF sub, of rest ct True oc st]) (simp_all add: parse_content_def convert_contents_def write_content_def)
next
  case False
  show ?thesis
  proof (cases "CBS_skip body header_len")
    case (Pair r c)
    show ?thesis
      by (cases r; cases rule: agreesD [OF sub, of c ct False oc st])
        (simp_all add: Pair False parse_content_def convert_contents_def write_content_def pthen_assoc pthen_fst_None)
  qed
qed

lemma write_make_node:
  assumes "\<not> (string_tag \<noteq> 0 \<and> tag AND NOT CBS_ASN1_CONSTRUCTED \<noteq> string_tag)"
  shows "write_node n env loc d p (make_node string_tag tag x) st =
    pthen (open_contents n env p (loc d) string_tag tag st) (\<lambda>(oc, _) st.
    pthen (write_content n env loc (case x of Bytes _ \<Rightarrow> d | _ \<Rightarrow> d - 1) oc x st) (\<lambda>_ st. CBB_flush n env p st))"
  using assms by (cases x) (auto simp: make_node_def open_contents_def write_content_def out_tag_def pthen_assoc)

lemma open_child_tag:
  "pthen (open_contents n env p q string_tag tag st) (\<lambda>(oc, ct) st. f oc ct st)
   = pthen (open_contents n env p q string_tag tag st) (\<lambda>(oc, _) st. f oc (child_tag string_tag tag) st)"
  by (auto simp: open_contents_def pthen_assoc child_tag_def out_tag_def)

lemma node_agrees:
  assumes sub: "agrees n env loc (d - 1) conv parse"
  shows "case parse_node parse string_tag body tag header_len rest of
      None \<Rightarrow> fst (pthen (open_contents n env p (loc d) string_tag tag st) (\<lambda>(oc, ct) st.
        pthen (convert_contents conv n env oc ct body tag header_len rest st) (\<lambda>rest st.
        pthen (CBB_flush n env p st) (\<lambda>_ st. k rest st)))) = None
    | Some (x, rest') \<Rightarrow> pthen (open_contents n env p (loc d) string_tag tag st) (\<lambda>(oc, ct) st.
        pthen (convert_contents conv n env oc ct body tag header_len rest st) (\<lambda>rest st.
        pthen (CBB_flush n env p st) (\<lambda>_ st. k rest st))) = pthen (write_node n env loc d p x st) (\<lambda>_ st. k rest' st)"
proof (cases "string_tag \<noteq> 0 \<and> tag AND NOT CBS_ASN1_CONSTRUCTED \<noteq> string_tag")
  case True
  then show ?thesis by (simp add: parse_node_def open_contents_def)
next
  case ok: False
  let ?ct = "child_tag string_tag tag"
  have run: "pthen (open_contents n env p (loc d) string_tag tag st) (\<lambda>(oc, ct) st.
        pthen (convert_contents conv n env oc ct body tag header_len rest st) (\<lambda>rest st. pthen (CBB_flush n env p st) (\<lambda>_ st. k rest st)))
      = pthen (open_contents n env p (loc d) string_tag tag st) (\<lambda>(oc, _) st.
        pthen (convert_contents conv n env oc ?ct body tag header_len rest st) (\<lambda>rest st. pthen (CBB_flush n env p st) (\<lambda>_ st. k rest st)))"
    by (rule open_child_tag)
  note c = content_agrees [OF sub, where ct = ?ct and body = body and tag = tag and header_len = header_len and rest = rest]
  show ?thesis
  proof (cases "parse_content parse ?ct body tag header_len rest")
    case None
    then have "fst (pthen (convert_contents conv n env oc ?ct body tag header_len rest st) k') = None" for oc st and k' :: "cbs \<Rightarrow> cbb_state \<Rightarrow> 'a build"
      using c [of oc st] by (simp add: pthen_fst_None)
    then have "fst (pthen (open_contents n env p (loc d) string_tag tag st) (\<lambda>(oc, _) st.
        pthen (convert_contents conv n env oc ?ct body tag header_len rest st) k')) = None" for k' :: "cbs \<Rightarrow> cbb_state \<Rightarrow> 'a build"
      by (rule pthen_pair_None)
    then show ?thesis unfolding run using ok None by (simp add: parse_node_def)
  next
    case (Some r)
    obtain x rest' where r: "r = (x, rest')" by (cases r)
    have "write_content n env loc (case x of Bytes _ \<Rightarrow> d | _ \<Rightarrow> d - 1) oc x st = write_content n env loc (d - 1) oc x st" for oc st
      by (cases x) (simp_all add: write_content_def)
    then show ?thesis unfolding run using ok Some r c
      by (auto simp: parse_node_def write_make_node [OF ok] pthen_assoc intro!: pthen_cong)
  qed
qed

lemma loop_agrees:
  assumes sub: "agrees n env loc (d - 1) conv parse"
  shows "agrees n env loc d (\<lambda>p cbs tag eoc st. convert_ber_loop conv n env (loc d) k p cbs tag eoc st) (parse_loop parse k)"
proof (induction k)
  case 0
  then show ?case by (simp add: agrees_def)
next
  case (Suc k)
  show ?case
    unfolding agrees_def
  proof (intro allI)
    fix p cbs string_tag eoc st
    let ?conv = "\<lambda>p cbs tag eoc st. convert_ber_loop conv n env (loc d) k p cbs tag eoc st"
    show "case parse_loop parse (Suc k) cbs string_tag eoc of
        None \<Rightarrow> fst (convert_ber_loop conv n env (loc d) (Suc k) p cbs string_tag eoc st) = None
      | Some (ns, rest) \<Rightarrow> convert_ber_loop conv n env (loc d) (Suc k) p cbs string_tag eoc st
          = pthen (write_forest n env loc d p ns st) (\<lambda>_ st. (Some rest, st))"
    proof (cases "CBS_get_any_ber_asn1_element cbs")
      case (Pair e rest)
      show ?thesis
      proof (cases "cbs = [] \<or> e = None \<or> (\<exists>body tag hl ber. e = Some (body, tag, hl, ber) \<and> is_eoc hl body)")
        case True
        then show ?thesis using Pair by auto
      next
        case False
        then obtain body tag hl ber where e: "e = Some (body, tag, hl, ber)" "cbs \<noteq> []" "\<not> is_eoc hl body" by (cases e) auto
        note step = node_agrees [OF sub, where string_tag = string_tag and body = body and tag = tag and header_len = hl
            and rest = rest and p = p and st = st and k = "\<lambda>rest st. ?conv p rest string_tag eoc st"]
        show ?thesis
        proof (cases "parse_node parse string_tag body tag hl rest")
          case None
          then show ?thesis using step Pair e by simp
        next
          case (Some r)
          obtain x rest' where r: "r = (x, rest')" by (cases r)
          have step': "convert_ber_loop conv n env (loc d) (Suc k) p cbs string_tag eoc st
              = pthen (write_node n env loc d p x st) (\<lambda>_ st. ?conv p rest' string_tag eoc st)"
            using step Some r Pair e by simp
          show ?thesis
          proof (cases "parse_loop parse k rest' string_tag eoc")
            case None
            then have "fst (?conv p rest' string_tag eoc st) = None" for st
              using agreesD [OF Suc.IH, of rest' string_tag eoc p st] by fastforce
            then show ?thesis using Some r Pair e None step' by (simp add: pthen_None)
          next
            case more: (Some t)
            then have "?conv p rest' string_tag eoc st = pthen (write_forest n env loc d p (fst t) st) (\<lambda>_ st. (Some (snd t), st))" for st
              using agreesD [OF Suc.IH, of rest' string_tag eoc p st] by fastforce
            then show ?thesis using Some r Pair e more step' by (cases t) (simp add: pthen_assoc)
          qed
        qed
      qed
    qed
  qed
qed

lemma convert_agrees: "agrees n env loc (d - 1) (cbs_convert_ber d n env loc) (parse_forest d)"
proof (induction d)
  case 0
  then show ?case by (simp add: agrees_def)
next
  case (Suc d)
  have "agrees n env loc d (\<lambda>p cbs tag eoc st. convert_ber_loop (cbs_convert_ber d n env loc) n env (loc d) k p cbs tag eoc st)
      (parse_loop (parse_forest d) k)" for k using Suc by (rule loop_agrees)
  then show ?case by (simp add: agrees_def)
qed

section \<open>What the forest writes\<close>

fun node_bytes :: "node \<Rightarrow> u8 list" and forest_bytes :: "node list \<Rightarrow> u8 list" where
  "node_bytes (Chunk c) = c"
| "node_bytes (Fragments ns) = forest_bytes ns"
| "node_bytes (Primitive tag c) = der_element tag c"
| "node_bytes (Nested tag ns) = der_element tag (forest_bytes ns)"
| "forest_bytes [] = []"
| "forest_bytes (x # xs) = node_bytes x @ forest_bytes xs"

text \<open>Every length fits a DER header.\<close>

fun node_fits :: "node \<Rightarrow> bool" and forest_fits :: "node list \<Rightarrow> bool" where
  "node_fits (Chunk c) \<longleftrightarrow> True"
| "node_fits (Fragments ns) \<longleftrightarrow> forest_fits ns"
| "node_fits (Primitive tag c) \<longleftrightarrow> length c \<le> 0xFFFFFFFE"
| "node_fits (Nested tag ns) \<longleftrightarrow> forest_fits ns \<and> length (forest_bytes ns) \<le> 0xFFFFFFFE"
| "forest_fits [] \<longleftrightarrow> True"
| "forest_fits (x # xs) \<longleftrightarrow> node_fits x \<and> forest_fits xs"

text \<open>The nesting is at most \<open>d\<close> deep, and strings are shorter than the address space.\<close>

fun node_within :: "nat \<Rightarrow> node \<Rightarrow> bool" and forest_within :: "nat \<Rightarrow> node list \<Rightarrow> bool" where
  "node_within d (Chunk c) \<longleftrightarrow> length c < 2 ^ 64"
| "node_within d (Fragments ns) \<longleftrightarrow> 0 < d \<and> forest_within (d - 1) ns"
| "node_within d (Primitive tag c) \<longleftrightarrow> length c < 2 ^ 64"
| "node_within d (Nested tag ns) \<longleftrightarrow> 0 < d \<and> forest_within (d - 1) ns"
| "forest_within d [] \<longleftrightarrow> True"
| "forest_within d (x # xs) \<longleftrightarrow> node_within d x \<and> forest_within d xs"

lemma flat_then:
  assumes 1: "does_flat T ok1 op1 e1 [] []" and 2: "does_flat T ok2 op2 e2 [] []"
  shows "does_flat T (ok1 \<and> ok2) (\<lambda>n env p st. pthen (op1 n env p st) (\<lambda>_ st. op2 n env p st)) (e1 @ e2) [] []"
  unfolding does_flat_def
proof (intro allI impI)
  fix n env p d st
  assume b: "builder st p [] d []" and n: "1 < (n :: nat)" and p: "p \<notin> T"
  show "case pthen (op1 n env p st) (\<lambda>_ st. op2 n env p st) of
      (None, st') \<Rightarrow> failed st' \<and> \<not> ((ok1 \<and> ok2) \<and> always_serves env (cbase st) \<and> length d + length (e1 @ e2) + total [] < 2 ^ 64)
    | (Some _, st') \<Rightarrow> builder st' p [] (d @ e1 @ e2) [] \<and> kept T p (hd ([] @ [0])) st st'"
  proof (cases rule: does_flatD [OF 1 b n p, where env = env, case_names fail step])
    case (fail st')
    then show ?thesis by (auto simp: total_def)
  next
    case (step v st1)
    have k: "kept T p 0 st st'" if "kept T p 0 st1 st'" for st' using kept_trans [of T "{}" p 0 st st1 0 st'] step(3) that by simp
    show ?thesis
      by (cases rule: does_flatD [OF 2 step(2) n p, where env = env])
        (use step(1) kept_serves [OF step(3), of env] k in \<open>auto simp: total_def\<close>)
  qed
qed

lemma does_flat_mono: "does_flat T ok op e qs fs \<Longrightarrow> T \<subseteq> T' \<Longrightarrow> does_flat T' ok op e qs fs"
  unfolding does_flat_def kept_def by (fastforce split: option.splits prod.splits)

lemma flat_element:
  assumes "does_flat T2 ok op body [] []" and "T2 \<subseteq> T" "q \<in> T" "q \<notin> T2" "q \<noteq> 0"
  shows "does_flat T (ok \<and> length body \<le> 0xFFFFFFFE) (\<lambda>n env p st. pthen (CBB_add_asn1 n env p q tag st) (\<lambda>_ st.
    pthen (op n env q st) (\<lambda>_ st. CBB_flush n env p st))) (der_element tag body) [] []"
  using does_does_flat [OF does_child [OF does_asn1 [of q T tag] assms(1), of "der_element tag body"]] assms(2-5)
  by (cases "length body \<le> 0xFFFFFFFE") (simp_all add: der_element_def)

text \<open>The locals of the calls below level \<open>m\<close> are distinct objects.\<close>

lemma local_objects:
  assumes "inj_on loc {..m}" "0 \<notin> loc ` {..m}" and "d \<le> (m :: nat)"
  shows "loc d \<noteq> (0 :: addr)" "loc d \<in> loc ` {..d}" "0 < d \<Longrightarrow> loc d \<notin> loc ` {..d - 1}" "loc ` {..d - 1} \<subseteq> loc ` {..d}"
proof -
  show "loc d \<noteq> 0" using assms(2,3) by (metis atMost_iff imageI)
  show "loc d \<in> loc ` {..d}" by simp
  show "loc ` {..d - 1} \<subseteq> loc ` {..d}" by auto
  assume "0 < d"
  then have "loc d \<noteq> loc i" if "i \<le> d - 1" for i using inj_onD [OF assms(1), of d i] that assms(3) by fastforce
  then show "loc d \<notin> loc ` {..d - 1}" by auto
qed

lemma write_forest_flat:
  assumes loc: "inj_on loc {..m}" "0 \<notin> loc ` {..m}"
  shows "node_within d x \<Longrightarrow> d \<le> m \<Longrightarrow> does_flat (loc ` {..d}) (node_fits x) (\<lambda>n env p st. write_node n env loc d p x st) (node_bytes x) [] []"
    and "forest_within d ns \<Longrightarrow> d \<le> m \<Longrightarrow> does_flat (loc ` {..d}) (forest_fits ns) (\<lambda>n env p st. write_forest n env loc d p ns st) (forest_bytes ns) [] []"
proof (induction d x and d ns rule: node_within_forest_within.induct)
  case (1 d c)
  then show ?case using flat_then [OF does_does_flat [OF emits_bytes] does_does_flat [OF does_flush], of c] by simp
next
  case (2 d ns)
  have w: "forest_within (d - 1) ns" "d - 1 \<le> m" and T: "loc ` {..d - 1} \<subseteq> loc ` {..d}" using 2(2,3) by auto
  have "does_flat (loc ` {..d}) (forest_fits ns) (\<lambda>n env p st. write_forest n env loc (d - 1) p ns st) (forest_bytes ns) [] []"
    by (rule does_flat_mono [OF 2(1) [OF w] T])
  from flat_then [OF this does_does_flat [OF does_flush]] show ?case by simp
next
  case (3 d tag c)
  have "loc d \<noteq> 0" using local_objects(1) [OF loc] 3 by simp
  then show ?case using flat_element [OF does_does_flat [OF emits_bytes [of c "{}"]], of "loc ` {..d}" "loc d" tag] 3 by simp
next
  case (4 d tag ns)
  have w: "forest_within (d - 1) ns" "d - 1 \<le> m" "0 < d" using 4(2,3) by auto
  note q = local_objects [OF loc 4(3)]
  from flat_element [OF 4(1) [OF w(1,2)] q(4,2) q(3) [OF w(3)] q(1), of tag] show ?case by simp
next
  case (5 d)
  then show ?case using flat_nothing [of "loc ` {..d}"] by simp
next
  case (6 d x xs)
  then show ?case using flat_then [of "loc ` {..d}"] by simp
qed

text \<open>When a length does not fit, the writer fails.\<close>

definition never :: "addr set \<Rightarrow> unit op \<Rightarrow> bool" where
  "never T op \<longleftrightarrow> (\<forall>n env p d st. builder st p [] d [] \<longrightarrow> 1 < n \<longrightarrow> p \<notin> T \<longrightarrow> fst (op n env p st) = None)"

lemma never_mono: "never T op \<Longrightarrow> T \<subseteq> T' \<Longrightarrow> never T' op"
  unfolding never_def by blast

lemma never_first: "never T op1 \<Longrightarrow> never T (\<lambda>n env p st. pthen (op1 n env p st) (\<lambda>_ st. op2 n env p st))"
  unfolding never_def by (auto intro: pthen_fst_None)

lemma never_second:
  assumes 1: "does_flat T ok op1 e [] []" and 2: "never T op2"
  shows "never T (\<lambda>n env p st. pthen (op1 n env p st) (\<lambda>_ st. op2 n env p st))"
  unfolding never_def
proof (intro allI impI, goal_cases)
  case (1 n env p d st)
  show ?case by (cases rule: does_flatD [OF assms(1) 1, where env = env]) (use 2 1 in \<open>auto simp: never_def\<close>)
qed

lemma never_element:
  assumes body: "never T2 op" and T: "T2 \<subseteq> T" "q \<in> T" "q \<notin> T2" "q \<noteq> 0"
  shows "never T (\<lambda>n env p st. pthen (CBB_add_asn1 n env p q tag st) (\<lambda>_ st. pthen (op n env q st) (\<lambda>_ st. CBB_flush n env p st)))"
  unfolding never_def
proof (intro allI impI)
  fix n :: nat and env p d st
  assume b: "builder st p [] d []" and n: "1 < n" and p: "p \<notin> T"
  have op1: "does_flat T True (\<lambda>n env p st. CBB_add_asn1 n env p q tag st) (der_tag tag) [q] [(Der, [])]"
    using T by (intro does_does_flat does_asn1)
  show "fst (pthen (CBB_add_asn1 n env p q tag st) (\<lambda>_ st. pthen (op n env q st) (\<lambda>_ st. CBB_flush n env p st))) = None"
  proof (cases rule: does_flatD [OF op1 b n p, where env = env, case_names fail step])
    case (fail st')
    then show ?thesis by simp
  next
    case (step v st1)
    obtain bs where "builder st1 q [] (d @ der_tag tag @ bs) []" using builder_at [OF step(2), of 1] by auto
    then have "fst (op n env q st1) = None" using body n T(3) unfolding never_def by blast
    then show ?thesis using step(1) by (simp add: pthen_fst_None)
  qed
qed

lemma never_long:
  assumes "does_flat T2 ok op body [] []" and "T2 \<subseteq> T" "q \<in> T" "q \<notin> T2" "q \<noteq> 0" and long: "0xFFFFFFFE < length body"
  shows "never T (\<lambda>n env p st. pthen (CBB_add_asn1 n env p q tag st) (\<lambda>_ st. pthen (op n env q st) (\<lambda>_ st. CBB_flush n env p st)))"
    (is "never T ?run")
proof -
  have any: "does_flat T False ?run e [] []" for e
    using does_does_flat [OF does_child [OF does_asn1 [of q T tag] assms(1), of e]] assms(2-5) long by simp
  show ?thesis
    unfolding never_def
  proof (intro allI impI, goal_cases)
    case (1 n env p d st)
    have "contents (cbase (snd (?run n env p st))) = d @ e" if "fst (?run n env p st) \<noteq> None" for e
      by (cases rule: does_flatD [OF any [of e] 1, where env = env]) (use that in \<open>auto simp: builder_def\<close>)
    from this [of "[]"] this [of "[0]"] show ?case by fastforce
  qed
qed

lemma write_forest_never:
  assumes loc: "inj_on loc {..m}" "0 \<notin> loc ` {..m}"
  shows "node_within d x \<Longrightarrow> d \<le> m \<Longrightarrow> \<not> node_fits x \<Longrightarrow> never (loc ` {..d}) (\<lambda>n env p st. write_node n env loc d p x st)"
    and "forest_within d ns \<Longrightarrow> d \<le> m \<Longrightarrow> \<not> forest_fits ns \<Longrightarrow> never (loc ` {..d}) (\<lambda>n env p st. write_forest n env loc d p ns st)"
proof (induction d x and d ns rule: node_within_forest_within.induct)
  case (2 d ns)
  have "never (loc ` {..d}) (\<lambda>n env p st. write_forest n env loc (d - 1) p ns st)"
    by (rule never_mono [of "loc ` {..d - 1}"]) (use 2 in auto)
  then show ?case using never_first by simp
next
  case (3 d tag c)
  have "loc d \<noteq> 0" using local_objects(1) [OF loc] 3 by simp
  then show ?case using never_long [OF does_does_flat [OF emits_bytes [of c "{}"]], of "loc ` {..d}" "loc d" tag] 3 by simp
next
  case (4 d tag ns)
  have w: "forest_within (d - 1) ns" "d - 1 \<le> m" "0 < d" using 4(2,3) by auto
  note q = local_objects [OF loc 4(3)]
  show ?case
  proof (cases "forest_fits ns")
    case True
    then show ?thesis using never_long [OF write_forest_flat(2) [OF loc w(1,2)] q(4,2) q(3) [OF w(3)] q(1), of tag] 4(4) by simp
  next
    case False
    then show ?thesis using never_element [OF 4(1) [OF w(1,2)] q(4,2) q(3) [OF w(3)] q(1), of tag] by simp
  qed
next
  case (6 d x xs)
  show ?case
  proof (cases "node_fits x")
    case True
    then have "never (loc ` {..d}) (\<lambda>n env p st. write_forest n env loc d p xs st)" using 6 by simp
    then show ?thesis using never_second [OF write_forest_flat(1) [OF loc, of d x]] 6(3,4) by simp
  next
    case False
    then show ?thesis using never_first 6 by simp
  qed
qed simp_all

section \<open>What the parser returns\<close>

lemma ber_element_parts:
  assumes "CBS_get_any_ber_asn1_element cbs = (Some (body, tag, hl, ber), rest)"
  shows "cbs = body @ rest"
proof -
  have el: "cbs = body @ rest" if "element_bytes cbs t l h f = (Some (body, tag, hl, ber), rest)" for t l h f
    using that by (auto simp: element_bytes_def CBS_get_bytes_def pthen_eq_Some dest: cbs_get_parts)
  show ?thesis using assms unfolding CBS_get_any_ber_asn1_element_def cbs_get_any_asn1_element_def
    by (auto simp: Let_def split: prod.splits option.splits if_splits dest: el)
qed

lemma skip_parts: "CBS_skip body n = (Some u, c) \<Longrightarrow> length c \<le> length body"
  using cbs_get_parts [of body n] by (auto simp: CBS_skip_def pthen_eq_Some)

text \<open>The elements written outside strings are primitive, or constructed and not strings.\<close>

fun clean_node :: "node \<Rightarrow> bool" and clean_forest :: "node list \<Rightarrow> bool" where
  "clean_node (Chunk c) \<longleftrightarrow> False"
| "clean_node (Fragments ns) \<longleftrightarrow> False"
| "clean_node (Primitive tag c) \<longleftrightarrow> \<not> constructed tag"
| "clean_node (Nested tag ns) \<longleftrightarrow> \<not> constructed tag \<or> \<not> is_string_type tag \<and> clean_forest ns"
| "clean_forest [] \<longleftrightarrow> True"
| "clean_forest (x # xs) \<longleftrightarrow> clean_node x \<and> clean_forest xs"

definition forest_ok :: "nat \<Rightarrow> forest_parser \<Rightarrow> bool" where
  "forest_ok d parse \<longleftrightarrow> (\<forall>cbs tag eoc ns rest. parse cbs tag eoc = Some (ns, rest) \<longrightarrow> length cbs < 2 ^ 64 \<longrightarrow>
     length rest \<le> length cbs \<and> 0 < d \<and> forest_within (d - 1) ns \<and> (tag = 0 \<longrightarrow> clean_forest ns))"

lemma out_tag_clean: "constructed (out_tag tag) \<Longrightarrow> out_tag tag = tag \<and> constructed tag \<and> \<not> is_string_type tag"
  by (auto simp: out_tag_def constructed_def and.assoc split: if_splits)

lemma node_ok:
  assumes sub: "forest_ok d parse" and p: "parse_node parse tag0 body tag hl rest = Some (x, rest')"
    and l: "length (body @ rest) < 2 ^ 64"
  shows "length rest' \<le> length rest" "node_within d x" "tag0 = 0 \<Longrightarrow> clean_node x"
proof -
  obtain y where y: "parse_content parse (child_tag tag0 tag) body tag hl rest = Some (y, rest')" "x = make_node tag0 tag y"
    using p by (auto simp: parse_node_def split: if_splits)
  have 0: "child_tag 0 tag = 0" if "constructed (out_tag tag)" using out_tag_clean [OF that] by (simp add: child_tag_def)
  have "length rest' \<le> length rest \<and> node_within d x \<and> (tag0 = 0 \<longrightarrow> clean_node x)"
  proof (cases y)
    case (Bytes c)
    then obtain u where "CBS_skip body hl = (Some u, c)" "rest' = rest" "\<not> constructed tag"
      using y(1) by (auto simp: parse_content_def split: if_splits prod.splits option.splits)
    then show ?thesis using skip_parts [of body hl u c] l Bytes y(2) out_tag_clean [of tag] by (auto simp: make_node_def)
  next
    case (Nodes ns)
    then obtain cbs eoc r where s: "parse cbs (child_tag tag0 tag) eoc = Some (ns, r)" "length cbs < 2 ^ 64" "length rest' \<le> length rest"
    proof (cases "is_indefinite hl body")
      case True
      then have r: "parse rest (child_tag tag0 tag) True = Some (ns, rest')" using y(1) Nodes by (auto simp: parse_content_def)
      show ?thesis using that [OF r] l sub [unfolded forest_ok_def, rule_format, OF r] by simp
    next
      case False
      then obtain u c r where r: "CBS_skip body hl = (Some u, c)" "parse c (child_tag tag0 tag) False = Some (ns, r)" "rest' = rest"
        using y(1) Nodes by (auto simp: parse_content_def split: if_splits prod.splits option.splits)
      show ?thesis using that [OF r(2)] skip_parts [OF r(1)] l r(3) by simp
    qed
    have ok: "0 < d" "forest_within (d - 1) ns" "child_tag tag0 tag = 0 \<longrightarrow> clean_forest ns"
      using sub [unfolded forest_ok_def, rule_format, OF s(1,2)] by auto
    then show ?thesis using s(3) Nodes y(2) 0 out_tag_clean [of tag] by (auto simp: make_node_def)
  qed
  then show "length rest' \<le> length rest" "node_within d x" "tag0 = 0 \<Longrightarrow> clean_node x" by auto
qed

lemma loop_ok: "forest_ok d parse \<Longrightarrow> forest_ok (Suc d) (parse_loop parse k)"
proof (induction k)
  case 0
  then show ?case by (auto simp: forest_ok_def)
next
  case (Suc k)
  show ?case
    unfolding forest_ok_def
  proof (intro allI impI)
    fix cbs tag eoc ns rest
    assume p: "parse_loop parse (Suc k) cbs tag eoc = Some (ns, rest)" and l: "length cbs < 2 ^ 64"
    show "length rest \<le> length cbs \<and> 0 < Suc d \<and> forest_within (Suc d - 1) ns \<and> (tag = 0 \<longrightarrow> clean_forest ns)"
    proof (cases "ns")
      case Nil
      then show ?thesis using p by (auto split: if_splits prod.splits option.splits dest!: ber_element_parts)
    next
      case (Cons x xs)
      obtain body t hl ber r1 r2 where 1: "CBS_get_any_ber_asn1_element cbs = (Some (body, t, hl, ber), r1)"
          "parse_node parse tag body t hl r1 = Some (x, r2)" "parse_loop parse k r2 tag eoc = Some (xs, rest)"
        using p Cons by (auto split: if_splits prod.splits option.splits)
      have cbs: "cbs = body @ r1" using 1(1) by (rule ber_element_parts)
      note n = node_ok [OF Suc.prems 1(2)] and m = Suc.IH [OF Suc.prems, unfolded forest_ok_def, rule_format, OF 1(3)]
      show ?thesis using n m l by (auto simp: cbs Cons)
    qed
  qed
qed

lemma parse_forest_ok: "forest_ok d (parse_forest d)"
proof (induction d)
  case 0
  then show ?case by (simp add: forest_ok_def)
next
  case (Suc d)
  then show ?case using loop_ok [OF Suc] by (simp add: forest_ok_def)
qed

section \<open>The output has no BER in it\<close>

lemma find_ber_step:
  assumes "length c \<le> 0xFFFFFFFE" and "length (der_element tag c @ rest) < 2 ^ 64"
    and "if constructed tag then \<not> is_string_type tag \<and> sub c = Some b else \<not> b"
  shows "find_ber_loop sub (Suc k) f (der_element tag c @ rest) = find_ber_loop sub k b rest"
proof -
  have "CBS_get_any_ber_asn1_element (der_element tag c @ rest)
      = (Some (der_element tag c, tag, of_nat (length (der_element tag c) - length c), False), rest)"
    unfolding CBS_get_any_ber_asn1_element_def by (rule get_element_der) (use assms(1,2) in simp_all)
  moreover have "der_element tag c \<noteq> []" by (simp add: der_element_def der_tag_def Let_def)
  moreover have "CBS_skip (der_element tag c) (of_nat (length (der_element tag c) - length c)) = (Some (), c)"
    using assms(2) by (intro skip_header) simp
  ultimately show ?thesis using assms(3) by (simp split: if_splits)
qed

lemma length_der_element: "length c < length (der_element tag c)"
  by (simp add: der_element_def der_tag_def Let_def)

lemma length_der_element_short:
  assumes "length c < 2 ^ 32"
  shows "length (der_element tag c) \<le> 16 + length c"
  using assms length_der_tag [of tag] by (cases rule: der_length_cases) (auto simp: der_element_def)

lemma find_ber_Nil [simp]: "find_ber_loop sub k f [] = Some f"
  by (cases k) simp_all

lemma clean_found:
  "clean_node x \<Longrightarrow> node_fits x \<Longrightarrow> node_within d x \<Longrightarrow> \<exists>tag c. node_bytes x = der_element tag c \<and> length c \<le> 0xFFFFFFFE
     \<and> (constructed tag \<longrightarrow> \<not> is_string_type tag \<and> (length c < 2 ^ 64 \<longrightarrow> cbs_find_ber d c = Some False))"
  "clean_forest ns \<Longrightarrow> forest_fits ns \<Longrightarrow> forest_within d ns \<Longrightarrow> length (forest_bytes ns) < 2 ^ 64 \<Longrightarrow>
     length (forest_bytes ns) \<le> k \<Longrightarrow> find_ber_loop (cbs_find_ber d) k False (forest_bytes ns) = Some False"
proof (induction d x and d ns arbitrary: and k rule: node_within_forest_within.induct)
  case (3 d tag c)
  then show ?case by (intro exI [of _ tag] exI [of _ c]) simp
next
  case (4 d tag ns)
  have "cbs_find_ber d (forest_bytes ns) = Some False" if "constructed tag" "length (forest_bytes ns) < 2 ^ 64"
    using 4 that by (cases d) auto
  then show ?case using 4(2-4) by (intro exI [of _ tag] exI [of _ "forest_bytes ns"]) auto
next
  case (5 d)
  then show ?case by simp
next
  case (6 d x xs)
  obtain tag c where x: "node_bytes x = der_element tag c" "length c \<le> 0xFFFFFFFE"
      "constructed tag \<longrightarrow> \<not> is_string_type tag \<and> (length c < 2 ^ 64 \<longrightarrow> cbs_find_ber d c = Some False)"
    using 6(1,3-5) by auto
  obtain k' where k: "k = Suc k'" "length (forest_bytes xs) \<le> k'" using 6(7) length_der_element [of c tag] x(1) by (cases k) auto
  have "find_ber_loop (cbs_find_ber d) k' False (forest_bytes xs) = Some False" using 6(2-6) k(2) by simp
  then show ?case using find_ber_step [OF x(2), of tag "forest_bytes xs" "cbs_find_ber d" False k'] x 6(6) k(1) by simp
qed auto

lemma convert_output:
  assumes loc: "inj_on loc {..d}" "0 \<notin> loc ` {..d}" "r \<notin> loc ` {..d}" and n: "1 < n" and l: "length cbs < 2 ^ 64"
    and b: "builder st r [] [] []" and run: "cbs_convert_ber (Suc d) n env loc r cbs 0 False st = (Some rest, st')"
  obtains ns where "builder st' r [] (forest_bytes ns) []" "clean_forest ns" "forest_fits ns" "forest_within d ns"
    "c_is_child (cbbs st' r) = c_is_child (cbbs st r)" "parse_forest (Suc d) cbs 0 False = Some (ns, rest)"
proof -
  have ag: "agrees n env loc d (cbs_convert_ber (Suc d) n env loc) (parse_forest (Suc d))" using convert_agrees [of n env loc "Suc d"] by simp
  obtain ns where ns: "parse_forest (Suc d) cbs 0 False = Some (ns, rest)" "write_forest n env loc d r ns st = (Some (), st')"
  proof (cases rule: agreesD [OF ag, of cbs 0 False r st, case_names fail ok])
    case fail
    then show ?thesis using run by simp
  next
    case (ok ns rest')
    then show ?thesis using run that by (cases "write_forest n env loc d r ns st"; cases "fst (write_forest n env loc d r ns st)") auto
  qed
  have w: "forest_within d ns" "clean_forest ns"
    using parse_forest_ok [of "Suc d", unfolded forest_ok_def, rule_format, OF ns(1) l] by auto
  have fits: "forest_fits ns"
  proof (rule ccontr)
    assume "\<not> forest_fits ns"
    from write_forest_never(2) [OF loc(1,2) w(1) order_refl this] have "fst (write_forest n env loc d r ns st) = None"
      using b n loc(3) unfolding never_def by blast
    then show False using ns(2) by simp
  qed
  show thesis
    by (cases rule: does_flatD [OF write_forest_flat(2) [OF loc(1,2) w(1) order_refl] b n loc(3), where env = env])
      (use ns that w fits in \<open>auto simp: kept_def\<close>)
qed

lemma ber_to_der_clean:
  assumes loc: "inj_on loc {..kMaxDepth}" "0 \<notin> loc ` {..kMaxDepth}" "r \<notin> loc ` {..kMaxDepth}" and n: "1 < n" and l: "length cbs < 2 ^ 64"
    and need: "cbs_find_ber (Suc kMaxDepth) cbs = Some True"
    and run: "CBS_asn1_ber_to_der n env can loc r cbs st = (Some (out, rest), st')"
  shows "\<exists>ns. parse_forest (Suc kMaxDepth) cbs 0 False = Some (ns, rest) \<and> out = forest_bytes ns
    \<and> cbs_find_ber (Suc kMaxDepth) out = Some False"
proof -
  obtain st1 st2 where 1: "CBB_init env can r (CBS_len cbs) st = (Some (), st1)"
      "cbs_convert_ber (Suc kMaxDepth) n env loc r cbs 0 False st1 = (Some rest, st2)"
      "CBB_finish n env r True st2 = (Some out, st')"
    using run need by (auto simp: CBS_asn1_ber_to_der_def pthen_eq_Some simp del: cbs_convert_ber.simps cbs_find_ber.simps)
  note i = init_builder [OF 1(1)]
  obtain ns where ns: "builder st2 r [] (forest_bytes ns) []" "clean_forest ns" "forest_fits ns" "forest_within kMaxDepth ns"
      "c_is_child (cbbs st2 r) = c_is_child (cbbs st1 r)" "parse_forest (Suc kMaxDepth) cbs 0 False = Some (ns, rest)"
    using convert_output [OF loc n l i(1) 1(2)] .
  have "out = forest_bytes ns" "length out < 2 ^ 64"
    using finish_builder [OF ns(1), of n env] n 1(3) i(2) ns(5) by (auto split: prod.splits option.splits)
  then have "out = forest_bytes ns" "cbs_find_ber (Suc kMaxDepth) out = Some False" using clean_found(2) [OF ns(2-4)] by simp_all
  then show ?thesis using ns(6) by blast
qed

lemma ber_to_der_succeeds:
  assumes loc: "inj_on loc {..kMaxDepth}" "0 \<notin> loc ` {..kMaxDepth}" "r \<notin> loc ` {..kMaxDepth}" and n: "1 < n" and l: "length cbs < 2 ^ 64"
    and need: "cbs_find_ber (Suc kMaxDepth) cbs = Some True" and env: "\<And>k. may_alloc env k"
    and ns: "parse_forest (Suc kMaxDepth) cbs 0 False = Some (ns, rest)" "forest_fits ns" "length (forest_bytes ns) < 2 ^ 64"
  shows "fst (CBS_asn1_ber_to_der n env True loc r cbs st) = Some (forest_bytes ns, rest)"
proof -
  obtain st1 where 1: "CBB_init env True r (CBS_len cbs) st = (Some (), st1)" using env by (simp add: CBB_init_def cbb_init_def Let_def)
  note i = init_builder [OF 1]
  have serves: "always_serves env (cbase st1)" using i(3) env by (simp add: always_serves_def)
  have w: "forest_within kMaxDepth ns" using parse_forest_ok [of "Suc kMaxDepth", unfolded forest_ok_def, rule_format, OF ns(1) l] by simp
  obtain st2 where 2: "write_forest n env loc kMaxDepth r ns st1 = (Some (), st2)" "builder st2 r [] (forest_bytes ns) []" "kept (loc ` {..kMaxDepth}) r 0 st1 st2"
    by (cases rule: does_flatD [OF write_forest_flat(2) [OF loc(1,2) w order_refl] i(1) n loc(3), where env = env])
      (use serves ns that in \<open>auto simp: total_def\<close>)
  have ag: "agrees n env loc kMaxDepth (cbs_convert_ber (Suc kMaxDepth) n env loc) (parse_forest (Suc kMaxDepth))"
    using convert_agrees [of n env loc "Suc kMaxDepth"] by simp
  have c: "cbs_convert_ber (Suc kMaxDepth) n env loc r cbs 0 False st1 = (Some rest, st2)"
    by (cases rule: agreesD [OF ag, of cbs 0 False r st1]) (use ns(1) 2(1) in \<open>simp_all del: cbs_convert_ber.simps parse_forest.simps\<close>)
  have "\<not> c_is_child (cbbs st2 r)" "always_serves env (cbase st2)" using i(2) 2(3) serves kept_serves [OF 2(3), of env] by (simp_all add: kept_def)
  then have "fst (CBB_finish n env r True st2) = Some (forest_bytes ns)"
    using finish_builder [OF 2(2), of n env] n ns(3) by (auto split: prod.splits option.splits)
  then have "\<exists>st3. CBB_finish n env r True st2 = (Some (forest_bytes ns), st3)" by (metis prod.collapse)
  then show ?thesis unfolding CBS_asn1_ber_to_der_def need option.case 1 pthen_simps c by auto
qed

section \<open>Implicitly tagged strings\<close>

lemma write_all_Cons:
  "write_all run (v # vs) n env p = (\<lambda>st. pthen (run v n env p st) (\<lambda>_ st. write_all run vs n env p st))"
  by (rule ext) simp

lemma implicit_chunks_write:
  assumes "\<forall>c \<in> set cs. length c < 2 ^ 32" and "length (concat (map (der_element inner_tag) cs)) < 2 ^ 64"
    and "length (concat (map (der_element inner_tag) cs)) \<le> k"
  shows "implicit_chunks k n env r inner_tag (concat (map (der_element inner_tag) cs)) st
    = write_all (\<lambda>c n env p st. CBB_add_bytes n env p c st) cs n env r st"
  using assms
proof (induction cs arbitrary: k st)
  case Nil
  then show ?case by (cases k) simp_all
next
  case (Cons c cs)
  let ?rest = "concat (map (der_element inner_tag) cs)"
  have ne: "length c < length (der_element inner_tag c)" by (rule length_der_element)
  then obtain k' where k: "k = Suc k'" "length ?rest \<le> k'" using Cons.prems(3) by (cases k) auto
  have "CBS_get_asn1 (der_element inner_tag c @ ?rest) inner_tag = (Some c, ?rest)"
    by (rule get_asn1_der(1)) (use Cons.prems in simp_all)
  moreover have "implicit_chunks k' n env r inner_tag ?rest = write_all (\<lambda>c n env p st. CBB_add_bytes n env p c st) cs n env r"
    using Cons.IH [of k'] Cons.prems k(2) by (intro ext) simp
  moreover have "der_element inner_tag c \<noteq> []" using ne by auto
  ultimately show ?case by (simp add: k(1))
qed

interpretation rw_bytes: cbb_writer "\<lambda>c n env p st. CBB_add_bytes n env p c st" "\<lambda>c. c" "\<lambda>c. length c < 2 ^ 64" "{}"
  by unfold_locales (rule emits_bytes)

lemma or_and_same: "(x OR c) AND c = (c :: u32)"
  by (rule bit_word_eqI) (auto simp: bit_simps)

lemma length_chunks: "length (concat cs) \<le> length (concat (map (der_element tag) cs))"
proof (induction cs)
  case (Cons c cs)
  then show ?case using length_der_element [of c tag] by simp
qed simp

lemma implicit_string:
  assumes cs: "\<forall>c \<in> set cs. length c < 2 ^ 32" and tag: "\<not> constructed outer_tag" and n: "1 < n" and env: "\<And>k. may_alloc env k"
    and body: "length (concat (map (der_element inner_tag) cs)) < 2 ^ 32"
    and l: "length (der_element (outer_tag OR CBS_ASN1_CONSTRUCTED) (concat (map (der_element inner_tag) cs)) @ rest) < 2 ^ 64"
  shows "fst (CBS_get_asn1_implicit_string n env True r
    (der_element (outer_tag OR CBS_ASN1_CONSTRUCTED) (concat (map (der_element inner_tag) cs)) @ rest) outer_tag inner_tag st) = Some (concat cs, rest)"
proof -
  let ?body = "concat (map (der_element inner_tag) cs)" and ?tag = "outer_tag OR CBS_ASN1_CONSTRUCTED"
  let ?in = "der_element ?tag ?body @ rest"
  have "outer_tag \<noteq> ?tag"
  proof
    assume "outer_tag = ?tag"
    then have "outer_tag AND CBS_ASN1_CONSTRUCTED = CBS_ASN1_CONSTRUCTED" using or_and_same by metis
    then show False using tag by (simp add: constructed_def)
  qed
  then have "\<not> CBS_peek_asn1_tag ?in outer_tag" using peek_der [OF l] by simp
  moreover have "CBS_get_asn1 ?in ?tag = (Some ?body, rest)" by (rule get_asn1_der(1) [OF body l])
  moreover have "implicit_chunks (length ?body) n env r inner_tag ?body = write_all (\<lambda>c n env p st. CBB_add_bytes n env p c st) cs n env r"
    using implicit_chunks_write [OF cs] body by (intro ext) simp
  ultimately have run: "fst (CBS_get_asn1_implicit_string n env True r ?in outer_tag inner_tag st) =
      fst (pthen (build (\<lambda>c n env p st. CBB_add_bytes n env p c st) n env True r (CBS_len ?in) cs st) (\<lambda>out st. (Some (out, rest), st)))"
    by (simp add: CBS_get_asn1_implicit_string_def build_def pthen_assoc)
  have v: "\<forall>c \<in> set cs. length c < 2 ^ 64" using cs by fastforce
  have "length (concat (map (\<lambda>c. c) cs)) < 2 ^ 64" using length_chunks [of cs inner_tag] body by simp
  from rw_bytes.build_output [OF v n, where p = r and env = env and can = True and cap = "CBS_len ?in" and st = st] env this
  show ?thesis unfolding run
    by (cases "build (\<lambda>c n env p st. CBB_add_bytes n env p c st) n env True r (CBS_len ?in) cs st") (auto split: option.splits)
qed

lemma implicit_string_primitive:
  assumes "length c < 2 ^ 32" and "length (der_element outer_tag c @ rest) < 2 ^ 64"
  shows "CBS_get_asn1_implicit_string n env can r (der_element outer_tag c @ rest) outer_tag inner_tag st = (Some (c, rest), st)"
  using peek_der [OF assms(2)] get_asn1_der(1) [OF assms] by (simp add: CBS_get_asn1_implicit_string_def)

end
