(* ===== verification/Unicode.thy ===== *)
theory Unicode
  imports Cbb_Ops
begin

text \<open>
  The Unicode readers and writers of the byte-string library
  (\<open>crypto/bytestring/unicode.c\<close>): UTF-8, Latin-1, UCS-2 and UTF-32.
\<close>

section \<open>Code\<close>

definition is_valid_code_point :: "u32 \<Rightarrow> bool" where
  "is_valid_code_point v \<longleftrightarrow>
     \<not> (v > 0x10FFFF \<or> v AND 0xFFFE = 0xFFFE \<or> (v \<ge> 0xFDD0 \<and> v \<le> 0xFDEF) \<or> (v \<ge> 0xD800 \<and> v \<le> 0xDFFF))"

definition BOTTOM_BITS :: "nat \<Rightarrow> u8" where
  "BOTTOM_BITS n = ucast (push_bit n 1 - 1 :: u32)"

definition TOP_BITS :: "nat \<Rightarrow> u8" where
  "TOP_BITS n = NOT (BOTTOM_BITS (8 - n))"

text \<open>The loop over \<open>len\<close> continuation bytes.\<close>

fun utf8_loop :: "nat \<Rightarrow> u32 \<Rightarrow> cbs \<Rightarrow> u32 parse" where
  "utf8_loop 0 v cbs = (Some v, cbs)"
| "utf8_loop (Suc i) v cbs =
     pthen (CBS_get_u8 cbs) (\<lambda>c cbs.
       if c AND TOP_BITS 2 \<noteq> TOP_BITS 1 then (None, cbs)
       else utf8_loop i (push_bit 6 v OR ucast (c AND BOTTOM_BITS 6)) cbs)"

definition utf8_rest :: "u32 \<Rightarrow> nat \<Rightarrow> u32 \<Rightarrow> cbs \<Rightarrow> u32 parse" where
  "utf8_rest v len lower_bound cbs =
     pthen (utf8_loop len v cbs) (\<lambda>v cbs.
       if \<not> is_valid_code_point v \<or> v < lower_bound then (None, cbs) else (Some v, cbs))"

definition cbs_get_utf8 :: "cbs \<Rightarrow> u32 parse" where
  "cbs_get_utf8 cbs =
     pthen (CBS_get_u8 cbs) (\<lambda>c cbs.
       if c \<le> 0x7F then (Some (ucast c), cbs)
       else if c AND TOP_BITS 3 = TOP_BITS 2 then utf8_rest (ucast (c AND BOTTOM_BITS 5)) 1 0x80 cbs
       else if c AND TOP_BITS 4 = TOP_BITS 3 then utf8_rest (ucast (c AND BOTTOM_BITS 4)) 2 0x800 cbs
       else if c AND TOP_BITS 5 = TOP_BITS 4 then utf8_rest (ucast (c AND BOTTOM_BITS 3)) 3 0x10000 cbs
       else (None, cbs))"

definition cbs_get_latin1 :: "cbs \<Rightarrow> u32 parse" where
  "cbs_get_latin1 cbs = pthen (CBS_get_u8 cbs) (\<lambda>c cbs. (Some (ucast c), cbs))"

definition cbs_get_ucs2_be :: "cbs \<Rightarrow> u32 parse" where
  "cbs_get_ucs2_be cbs =
     pthen (CBS_get_u16 cbs) (\<lambda>c cbs. if is_valid_code_point (ucast c) then (Some (ucast c), cbs) else (None, cbs))"

definition cbs_get_utf32_be :: "cbs \<Rightarrow> u32 parse" where
  "cbs_get_utf32_be cbs = pthen (CBS_get_u32 cbs) (\<lambda>c cbs. if is_valid_code_point c then (Some c, cbs) else (None, cbs))"

definition cbb_get_utf8_len :: "u32 \<Rightarrow> u64" where
  "cbb_get_utf8_len u = (if u \<le> 0x7F then 1 else if u \<le> 0x7FF then 2 else if u \<le> 0xFFFF then 3 else 4)"

definition cbb_add_utf8 :: "nat \<Rightarrow> cbb_env \<Rightarrow> addr \<Rightarrow> u32 \<Rightarrow> cbb_state \<Rightarrow> unit build" where
  "cbb_add_utf8 n env p u st =
     (if \<not> is_valid_code_point u then (None, st)
      else if u \<le> 0x7F then CBB_add_u8 n env p (ucast u) st
      else if u \<le> 0x7FF then
        pthen (CBB_add_u8 n env p (ucast (ucast (TOP_BITS 2) OR drop_bit 6 u)) st) (\<lambda>_ st.
        CBB_add_u8 n env p (ucast (ucast (TOP_BITS 1) OR (u AND ucast (BOTTOM_BITS 6)))) st)
      else if u \<le> 0xFFFF then
        pthen (CBB_add_u8 n env p (ucast (ucast (TOP_BITS 3) OR drop_bit 12 u)) st) (\<lambda>_ st.
        pthen (CBB_add_u8 n env p (ucast (ucast (TOP_BITS 1) OR (drop_bit 6 u AND ucast (BOTTOM_BITS 6)))) st) (\<lambda>_ st.
        CBB_add_u8 n env p (ucast (ucast (TOP_BITS 1) OR (u AND ucast (BOTTOM_BITS 6)))) st))
      else if u \<le> 0x10FFFF then
        pthen (CBB_add_u8 n env p (ucast (ucast (TOP_BITS 4) OR drop_bit 18 u)) st) (\<lambda>_ st.
        pthen (CBB_add_u8 n env p (ucast (ucast (TOP_BITS 1) OR (drop_bit 12 u AND ucast (BOTTOM_BITS 6)))) st) (\<lambda>_ st.
        pthen (CBB_add_u8 n env p (ucast (ucast (TOP_BITS 1) OR (drop_bit 6 u AND ucast (BOTTOM_BITS 6)))) st) (\<lambda>_ st.
        CBB_add_u8 n env p (ucast (ucast (TOP_BITS 1) OR (u AND ucast (BOTTOM_BITS 6)))) st)))
      else (None, st))"

definition cbb_add_latin1 :: "nat \<Rightarrow> cbb_env \<Rightarrow> addr \<Rightarrow> u32 \<Rightarrow> cbb_state \<Rightarrow> unit build" where
  "cbb_add_latin1 n env p u st = (if u \<le> 0xFF then CBB_add_u8 n env p (ucast u) st else (None, st))"

definition cbb_add_ucs2_be :: "nat \<Rightarrow> cbb_env \<Rightarrow> addr \<Rightarrow> u32 \<Rightarrow> cbb_state \<Rightarrow> unit build" where
  "cbb_add_ucs2_be n env p u st =
     (if u \<le> 0xFFFF \<and> is_valid_code_point u then CBB_add_u16 n env p (ucast u) st else (None, st))"

definition cbb_add_utf32_be :: "nat \<Rightarrow> cbb_env \<Rightarrow> addr \<Rightarrow> u32 \<Rightarrow> cbb_state \<Rightarrow> unit build" where
  "cbb_add_utf32_be n env p u st = (if is_valid_code_point u then CBB_add_u32 n env p u st else (None, st))"

section \<open>UTF-8 as a format\<close>

text \<open>The continuation bytes for \<open>k\<close> groups of six bits, most significant first.\<close>

fun utf8_tail :: "nat \<Rightarrow> u32 \<Rightarrow> u8 list" where
  "utf8_tail 0 u = []"
| "utf8_tail (Suc k) u = (0x80 OR ucast (take_bit 6 (drop_bit (6 * k) u))) # utf8_tail k u"

definition utf8_bytes :: "u32 \<Rightarrow> u8 list" where
  "utf8_bytes u =
     (if u \<le> 0x7F then [ucast u]
      else if u \<le> 0x7FF then (0xC0 OR ucast (drop_bit 6 u)) # utf8_tail 1 u
      else if u \<le> 0xFFFF then (0xE0 OR ucast (drop_bit 12 u)) # utf8_tail 2 u
      else (0xF0 OR ucast (drop_bit 18 u)) # utf8_tail 3 u)"

lemma bits_values:
  "BOTTOM_BITS 3 = 0x07" "BOTTOM_BITS 4 = 0x0F" "BOTTOM_BITS 5 = 0x1F" "BOTTOM_BITS 6 = 0x3F"
  "TOP_BITS (Suc 0) = 0x80" "TOP_BITS 2 = 0xC0" "TOP_BITS 3 = 0xE0" "TOP_BITS 4 = 0xF0" "TOP_BITS 5 = 0xF8"
  by (simp_all add: BOTTOM_BITS_def TOP_BITS_def)

lemma field_bits:
  fixes a x :: "'a::len word"
  assumes "a AND mask j = 0" and "take_bit j x = x"
  shows "(a OR x) AND mask j = x" "(a OR x) AND NOT (mask j) = a"
proof -
  show "(a OR x) AND mask j = x" using assms by (simp add: bit.conj_disj_distrib2 flip: take_bit_eq_mask)
  have "x AND NOT (mask j) = 0" using assms(2) by (metis bit.conj_cancel_right and.assoc and_zero_eq take_bit_eq_mask)
  moreover have "a AND NOT (mask j) = a" using assms(1)
    by (metis bit.conj_disj_distrib bit.conj_one_right bit.disj_cancel_right or.left_neutral)
  ultimately show "(a OR x) AND NOT (mask j) = a" by (simp add: bit.conj_disj_distrib2)
qed

lemma split_byte: "c AND NOT (mask j) = a \<Longrightarrow> (c :: 'a::len word) = a OR (c AND mask j)"
  by (metis bit.conj_disj_distrib bit.conj_one_right bit.disj_cancel_left)

lemma masks8: "mask 3 = (0x07 :: u8)" "mask 4 = (0x0F :: u8)" "mask 5 = (0x1F :: u8)" "mask 6 = (0x3F :: u8)"
    "NOT (mask 3) = (0xF8 :: u8)" "NOT (mask 4) = (0xF0 :: u8)" "NOT (mask 5) = (0xE0 :: u8)" "NOT (mask 6) = (0xC0 :: u8)"
  by (simp_all add: mask_eq_exp_minus_1)

lemma low_byte: "k \<le> 8 \<Longrightarrow> take_bit k (ucast (x :: u32) :: u8) = ucast (take_bit k x)" "k \<le> 8 \<Longrightarrow> ucast (ucast (take_bit k x) :: u8) = take_bit k (x :: u32)"
  by (rule bit_word_eqI; auto simp: bit_simps)+

lemma join_groups:
  "push_bit (6 * k) (push_bit 6 v OR take_bit 6 (drop_bit (6 * k) u)) OR take_bit (6 * k) u = push_bit (6 * Suc k) v OR take_bit (6 * Suc k) (u :: u32)"
proof (rule bit_word_eqI)
  fix n assume n: "n < LENGTH(32)"
  consider "n < 6 * k" | "6 * k \<le> n" "n < 6 * k + 6" | "6 * k + 6 \<le> n" by linarith
  then show "bit (push_bit (6 * k) (push_bit 6 v OR take_bit 6 (drop_bit (6 * k) u)) OR take_bit (6 * k) u) n
    = bit (push_bit (6 * Suc k) v OR take_bit (6 * Suc k) u) n"
    using n by cases (auto simp: bit_simps add.commute)
qed

lemma utf8_loop_tail:
  assumes "length (utf8_tail k u @ rest) < 2 ^ 64"
  shows "utf8_loop k v (utf8_tail k u @ rest) = (Some (push_bit (6 * k) v OR take_bit (6 * k) u), rest)"
  using assms
proof (induction k arbitrary: v)
  case 0
  then show ?case by simp
next
  case (Suc k)
  let ?x = "ucast (take_bit 6 (drop_bit (6 * k) u)) :: u8"
  have "(0x80 :: u8) AND mask 6 = 0" by (simp add: masks8)
  note f = field_bits [OF this, of ?x]
  have x: "(0x80 OR ?x) AND 0x3F = ?x" using f(1) by (simp add: low_byte masks8)
  have y: "(0x80 OR ?x) AND 0xC0 = 0x80" using f(2) unfolding masks8(8) by (simp add: low_byte)
  have "CBS_get_u8 ((0x80 OR ?x) # utf8_tail k u @ rest) = (Some (0x80 OR ?x), utf8_tail k u @ rest)"
    using Suc.prems by (intro CBS_get_u8_Cons) simp
  then show ?case using Suc x y join_groups [of k v u] by (simp add: bits_values low_byte)
qed

lemma join_bits: "push_bit m (drop_bit m u) OR take_bit m u = (u :: u32)"
  by (rule bit_word_eqI) (auto simp: bit_simps)

text \<open>The first byte of a sequence of \<open>k\<close> continuation bytes: the marker \<open>a\<close> above \<open>j\<close> bits of the value.\<close>

lemma head_byte:
  fixes u :: u32 and a :: u8
  assumes "unat u < 2 ^ (6 * k + j)" and "a AND mask j = 0" and "j \<le> 5"
  shows "(a OR ucast (drop_bit (6 * k) u)) AND NOT (mask j) = a"
    "push_bit (6 * k) (ucast ((a OR ucast (drop_bit (6 * k) u)) AND mask j)) OR take_bit (6 * k) u = u"
proof -
  have "unat (drop_bit (6 * k) u) = unat u div 2 ^ (6 * k)" by (metis unat_drop_bit_eq drop_bit_eq_div)
  then have "unat (drop_bit (6 * k) u) < 2 ^ j"
    using assms(1) by (simp add: less_mult_imp_div_less power_add mult.commute)
  then have x: "take_bit j (drop_bit (6 * k) u) = drop_bit (6 * k) u" by (simp add: take_bit_small)
  then have y: "take_bit j (ucast (drop_bit (6 * k) u) :: u8) = ucast (drop_bit (6 * k) u)" using assms(3) by (simp add: low_byte)
  note f = field_bits [OF assms(2) y]
  show "(a OR ucast (drop_bit (6 * k) u)) AND NOT (mask j) = a" by (rule f(2))
  have "ucast (ucast (drop_bit (6 * k) u) :: u8) = drop_bit (6 * k) u" using low_byte(2) [of j "drop_bit (6 * k) u"] assms(3) x by simp
  then show "push_bit (6 * k) (ucast ((a OR ucast (drop_bit (6 * k) u)) AND mask j)) OR take_bit (6 * k) u = u"
    unfolding f(1) by (simp add: join_bits)
qed

lemma not_ascii: "c AND 0x80 \<noteq> 0 \<Longrightarrow> \<not> c \<le> (0x7F :: u8)"
proof
  assume c: "c AND 0x80 \<noteq> 0" "c \<le> 0x7F"
  then have "take_bit 7 c = c" by (intro take_bit_small) (simp add: word_le_nat_alt)
  moreover have "(mask 7 :: u8) AND 0x80 = 0" by (simp add: mask_eq_exp_minus_1)
  ultimately have "c AND 0x80 = 0" by (metis and.assoc and_zero_eq take_bit_eq_mask)
  then show False using c(1) by simp
qed

lemma utf8_sequence:
  fixes a :: u8
  assumes u: "unat u < 2 ^ (6 * k + j)" and a: "a AND mask j = 0" and j: "j \<le> 5" and ok: "is_valid_code_point u" "lo \<le> u"
    and l: "length (utf8_tail k u @ rest) < 2 ^ 64"
  shows "utf8_rest (ucast ((a OR ucast (drop_bit (6 * k) u)) AND mask j)) k lo (utf8_tail k u @ rest) = (Some u, rest)"
  using utf8_loop_tail [OF l] head_byte(2) [OF u a j] ok by (simp add: utf8_rest_def)

lemma utf8_heads:
  assumes l: "length (c # t) < 2 ^ 64"
  shows "c AND 0xE0 = 0xC0 \<Longrightarrow> cbs_get_utf8 (c # t) = utf8_rest (ucast (c AND 0x1F)) 1 0x80 t"
    "c AND 0xF0 = 0xE0 \<Longrightarrow> cbs_get_utf8 (c # t) = utf8_rest (ucast (c AND 0x0F)) 2 0x800 t"
    "c AND 0xF8 = 0xF0 \<Longrightarrow> cbs_get_utf8 (c # t) = utf8_rest (ucast (c AND 0x07)) 3 0x10000 t"
proof -
  have m: "c AND x = (c AND y) AND x" if "y AND x = x" for x y using that by (simp add: and.assoc)
  note g = CBS_get_u8_Cons [OF l]
  show "cbs_get_utf8 (c # t) = utf8_rest (ucast (c AND 0x1F)) 1 0x80 t" if c: "c AND 0xE0 = 0xC0"
    using c not_ascii [of c] m [of "0xE0" "0x80"] g by (simp add: cbs_get_utf8_def bits_values)
  show "cbs_get_utf8 (c # t) = utf8_rest (ucast (c AND 0x0F)) 2 0x800 t" if c: "c AND 0xF0 = 0xE0"
    using c not_ascii [of c] m [of "0xF0" "0x80"] m [of "0xF0" "0xE0"] g by (simp add: cbs_get_utf8_def bits_values)
  show "cbs_get_utf8 (c # t) = utf8_rest (ucast (c AND 0x07)) 3 0x10000 t" if c: "c AND 0xF8 = 0xF0"
    using c not_ascii [of c] m [of "0xF8" "0x80"] m [of "0xF8" "0xE0"] m [of "0xF8" "0xF0"] g by (simp add: cbs_get_utf8_def bits_values)
qed

lemma valid_cases:
  assumes "is_valid_code_point u"
  obtains "unat u < 2 ^ 7" "u \<le> 0x7F" | "unat u < 2 ^ 11" "0x80 \<le> u" "\<not> u \<le> 0x7F" "u \<le> 0x7FF"
  | "unat u < 2 ^ 16" "0x800 \<le> u" "\<not> u \<le> 0x7F" "\<not> u \<le> 0x7FF" "u \<le> 0xFFFF"
  | "unat u < 2 ^ 21" "0x10000 \<le> u" "\<not> u \<le> 0x7F" "\<not> u \<le> 0x7FF" "\<not> u \<le> 0xFFFF"
  using assms unfolding is_valid_code_point_def word_le_nat_alt word_less_nat_alt by simp linarith

lemma get_utf8_bytes:
  assumes ok: "is_valid_code_point u" and l: "length (utf8_bytes u @ rest) < 2 ^ 64"
  shows "cbs_get_utf8 (utf8_bytes u @ rest) = (Some u, rest)"
proof (cases rule: valid_cases [OF ok])
  case 1
  then have "take_bit 7 u = u" by (intro take_bit_small)
  then have u: "ucast (ucast u :: u8) = u" using low_byte(2) [of 7 u] by simp
  have "unat (ucast u :: u8) = unat u" using 1(1) by (simp add: unsigned_ucast_eq take_bit_nat_eq_self)
  then have "(ucast u :: u8) \<le> 0x7F" using 1(1) by (simp add: word_le_nat_alt)
  then show ?thesis using 1 u l CBS_get_u8_Cons [of "ucast u" rest] by (simp add: utf8_bytes_def cbs_get_utf8_def)
next
  case 2
  have u: "unat u < 2 ^ (6 * 1 + 5)" and a: "(0xC0 :: u8) AND mask 5 = 0" using 2 by (simp_all add: masks8)
  have b: "utf8_bytes u = (0xC0 OR ucast (drop_bit (6 * 1) u)) # utf8_tail 1 u" using 2 by (simp add: utf8_bytes_def)
  have l': "length (utf8_tail 1 u @ rest) < 2 ^ 64" using l unfolding b by simp
  have "(0xC0 OR ucast (drop_bit (6 * 1) u)) AND NOT (mask 5) = (0xC0 :: u8)" using head_byte(1) [OF u a] by simp
  from utf8_heads(1) [OF _ this [unfolded masks8(7)], of "utf8_tail 1 u @ rest"]
  show ?thesis using utf8_sequence [OF u a _ ok 2(2) l'] l unfolding b masks8(3) by simp
next
  case 3
  have u: "unat u < 2 ^ (6 * 2 + 4)" and a: "(0xE0 :: u8) AND mask 4 = 0" using 3 by (simp_all add: masks8)
  have b: "utf8_bytes u = (0xE0 OR ucast (drop_bit (6 * 2) u)) # utf8_tail 2 u" using 3 by (simp add: utf8_bytes_def)
  have l': "length (utf8_tail 2 u @ rest) < 2 ^ 64" using l unfolding b by simp
  have "(0xE0 OR ucast (drop_bit (6 * 2) u)) AND NOT (mask 4) = (0xE0 :: u8)" using head_byte(1) [OF u a] by simp
  from utf8_heads(2) [OF _ this [unfolded masks8(6)], of "utf8_tail 2 u @ rest"]
  show ?thesis using utf8_sequence [OF u a _ ok 3(2) l'] l unfolding b masks8(2) by simp
next
  case 4
  have u: "unat u < 2 ^ (6 * 3 + 3)" and a: "(0xF0 :: u8) AND mask 3 = 0" using 4 by (simp_all add: masks8)
  have b: "utf8_bytes u = (0xF0 OR ucast (drop_bit (6 * 3) u)) # utf8_tail 3 u" using 4 by (simp add: utf8_bytes_def)
  have l': "length (utf8_tail 3 u @ rest) < 2 ^ 64" using l unfolding b by simp
  have "(0xF0 OR ucast (drop_bit (6 * 3) u)) AND NOT (mask 3) = (0xF0 :: u8)" using head_byte(1) [OF u a] by simp
  from utf8_heads(3) [OF _ this [unfolded masks8(5)], of "utf8_tail 3 u @ rest"]
  show ?thesis using utf8_sequence [OF u a _ ok 4(2) l'] l unfolding b masks8(1) by simp
qed

section \<open>Only the shortest form is accepted\<close>

lemma group_facts:
  fixes v :: u32 and c :: u8
  assumes "take_bit (26 - 6 * k) v = v" and "6 * k \<le> 26"
  defines "v' \<equiv> push_bit 6 v OR ucast (c AND 0x3F)"
  shows "take_bit (32 - 6 * k) v' = v'" "drop_bit 6 v' = v" "take_bit 6 v' = ucast (c AND 0x3F)"
proof -
  have m: "c AND 0x3F = take_bit 6 c" by (simp add: take_bit_eq_mask masks8)
  have v: "\<not> bit v n" if "26 - 6 * k \<le> n" for n using assms(1) that by (metis bit_take_bit_iff not_less)
  show "take_bit (32 - 6 * k) v' = v'"
  proof (rule bit_word_eqI)
    fix n assume "n < LENGTH(32)"
    then show "bit (take_bit (32 - 6 * k) v') n = bit v' n"
      using v [of "n - 6"] assms(2) unfolding v'_def m by (cases "n < 32 - 6 * k") (auto simp: bit_simps)
  qed
  show "drop_bit 6 v' = v"
  proof (rule bit_word_eqI)
    fix n assume "n < LENGTH(32)"
    then show "bit (drop_bit 6 v') n = bit v n" using v [of n] unfolding v'_def m by (cases "n < 26") (auto simp: bit_simps)
  qed
  show "take_bit 6 v' = ucast (c AND 0x3F)" unfolding v'_def m by (rule bit_word_eqI) (auto simp: bit_simps)
qed

lemma byte_up_down: "ucast (ucast (c :: u8) :: u32) = c"
  by (rule bit_word_eqI) (simp add: bit_simps)

lemma utf8_loop_canonical:
  "utf8_loop k v cbs = (Some w, rest) \<Longrightarrow> length cbs < 2 ^ 64 \<Longrightarrow> take_bit (32 - 6 * k) v = v \<Longrightarrow> 6 * k \<le> 32 \<Longrightarrow>
     cbs = utf8_tail k w @ rest \<and> drop_bit (6 * k) w = v"
proof (induction k arbitrary: v cbs)
  case 0
  then show ?case by simp
next
  case (Suc k)
  obtain c t where cbs: "cbs = c # t" using Suc.prems(1) by (cases cbs) (auto simp: CBS_get_u8_Nil)
  note g = CBS_get_u8_Cons [of c t]
  let ?v = "push_bit 6 v OR ucast (c AND 0x3F)"
  have c: "c AND 0xC0 = 0x80" and r: "utf8_loop k ?v t = (Some w, rest)"
    using Suc.prems(1,2) g by (simp_all add: cbs bits_values split: if_splits)
  have "take_bit (26 - 6 * k) v = v" "6 * k \<le> 26" using Suc.prems(3,4) by simp_all
  note v = group_facts [OF this, of c]
  have ih: "t = utf8_tail k w @ rest" "drop_bit (6 * k) w = ?v"
    using Suc.IH [OF r _ v(1)] Suc.prems(2,4) by (simp_all add: cbs)
  have "take_bit 6 (drop_bit (6 * k) w) = ucast (c AND 0x3F)" using ih(2) v(3) by simp
  then have "ucast (take_bit 6 (drop_bit (6 * k) w)) = c AND 0x3F" by (simp add: byte_up_down)
  moreover have "c = 0x80 OR (c AND 0x3F)" using split_byte [OF c [folded masks8(8)]] unfolding masks8(4) .
  moreover have "drop_bit (6 * Suc k) w = v" using v(2) ih(2) by (metis drop_bit_drop_bit mult_Suc_right)
  ultimately show ?case using ih(1) by (simp add: cbs)
qed

lemma utf8_rest_canonical:
  fixes a c :: u8
  assumes r: "utf8_rest (ucast (c AND mask j)) k lo t = (Some u, rest)" and l: "length t < 2 ^ 64"
    and c: "c AND NOT (mask j) = a" and j: "j \<le> 5" and k: "k \<le> 3"
  shows "t = utf8_tail k u @ rest" "c = a OR ucast (drop_bit (6 * k) u)" "is_valid_code_point u" "lo \<le> u" "unat u < 2 ^ (6 * k + j)"
proof -
  have r': "utf8_loop k (ucast (c AND mask j)) t = (Some u, rest)" and ok: "is_valid_code_point u" "lo \<le> u"
    using r by (auto simp: utf8_rest_def pthen_def split: prod.splits option.splits if_splits)
  have x: "(ucast (c AND mask j) :: u32) = take_bit j (ucast c)" using j by (intro bit_word_eqI) (auto simp: bit_simps take_bit_eq_mask [symmetric])
  have "take_bit (32 - 6 * k) (ucast (c AND mask j) :: u32) = ucast (c AND mask j)" unfolding x using j k by simp
  from utf8_loop_canonical [OF r' l this] k have 1: "t = utf8_tail k u @ rest" "drop_bit (6 * k) u = ucast (c AND mask j)" by simp_all
  show "t = utf8_tail k u @ rest" by (rule 1(1))
  show "c = a OR ucast (drop_bit (6 * k) u)" unfolding 1(2) byte_up_down using split_byte [OF c] .
  show "is_valid_code_point u" "lo \<le> u" by (rule ok)+
  have "unat u div 2 ^ (6 * k) = unat (drop_bit (6 * k) u)" by (metis unat_drop_bit_eq drop_bit_eq_div)
  also have "\<dots> = unat (take_bit j (ucast c :: u32))" unfolding 1(2) x ..
  also have "\<dots> < 2 ^ j" by (simp add: unsigned_take_bit_eq)
  finally show "unat u < 2 ^ (6 * k + j)" by (simp add: div_less_iff_less_mult power_add mult.commute)
qed

lemma get_utf8_canonical:
  assumes r: "cbs_get_utf8 cbs = (Some u, rest)" and l: "length cbs < 2 ^ 64"
  shows "cbs = utf8_bytes u @ rest \<and> is_valid_code_point u"
proof -
  obtain c t where cbs: "cbs = c # t" using r by (cases cbs) (auto simp: CBS_get_u8_Nil cbs_get_utf8_def)
  have lt: "length (c # t) < 2 ^ 64" "length t < 2 ^ 64" using l cbs by simp_all
  note g = CBS_get_u8_Cons [OF lt(1)]
  consider "c \<le> 0x7F" | "c AND 0xE0 = 0xC0" | "c AND 0xF0 = 0xE0" | "c AND 0xF8 = 0xF0"
    using r g by (auto simp: cbs_get_utf8_def cbs bits_values split: if_splits)
  then show ?thesis
  proof cases
    case 1
    then have u: "u = ucast c" "t = rest" using r g by (simp_all add: cbs_get_utf8_def cbs)
    have "unat u \<le> 0x7F" using 1 by (simp add: u word_le_nat_alt unat_ucast_up)
    then have "u \<le> 0x7F" by (simp add: word_le_nat_alt)
    moreover from this have "is_valid_code_point u" using word_and_le2 [of u "0xFFFE"]
      by (auto simp: is_valid_code_point_def word_le_nat_alt word_less_nat_alt)
    ultimately show ?thesis using u cbs by (simp add: utf8_bytes_def byte_up_down)
  next
    case 2
    have "utf8_rest (ucast (c AND mask 5)) 1 0x80 t = (Some u, rest)" using utf8_heads(1) [OF lt(1) 2] r by (simp add: cbs masks8(3))
    note f = utf8_rest_canonical [OF this lt(2) 2 [folded masks8(7)]]
    have "u \<le> 0x7FF" "\<not> u \<le> 0x7F" using f(4,5) by (simp_all add: word_le_nat_alt)
    then show ?thesis using f cbs by (simp add: utf8_bytes_def)
  next
    case 3
    have "utf8_rest (ucast (c AND mask 4)) 2 0x800 t = (Some u, rest)" using utf8_heads(2) [OF lt(1) 3] r by (simp add: cbs masks8(2))
    note f = utf8_rest_canonical [OF this lt(2) 3 [folded masks8(6)]]
    have "u \<le> 0xFFFF" "\<not> u \<le> 0x7F" "\<not> u \<le> 0x7FF" using f(4,5) by (simp_all add: word_le_nat_alt)
    then show ?thesis using f cbs by (simp add: utf8_bytes_def)
  next
    case 4
    have "utf8_rest (ucast (c AND mask 3)) 3 0x10000 t = (Some u, rest)" using utf8_heads(3) [OF lt(1) 4] r by (simp add: cbs masks8(1))
    note f = utf8_rest_canonical [OF this lt(2) 4 [folded masks8(5)]]
    have "\<not> u \<le> 0xFFFF" "\<not> u \<le> 0x7F" "\<not> u \<le> 0x7FF" using f(4) by (simp_all add: word_le_nat_alt)
    then show ?thesis using f cbs by (simp add: utf8_bytes_def)
  qed
qed

section \<open>The writer\<close>

lemma ucast_or_byte: "ucast (ucast (a :: u8) OR x :: u32) = (a OR ucast x :: u8)"
  by (rule bit_word_eqI) (auto simp: bit_simps)

lemma utf8_tails:
  "utf8_tail 1 u = [0x80 OR ucast (take_bit 6 u)]"
  "utf8_tail 2 u = [0x80 OR ucast (take_bit 6 (drop_bit 6 u)), 0x80 OR ucast (take_bit 6 u)]"
  "utf8_tail 3 u = [0x80 OR ucast (take_bit 6 (drop_bit 12 u)), 0x80 OR ucast (take_bit 6 (drop_bit 6 u)), 0x80 OR ucast (take_bit 6 u)]"
proof -
  show 1: "utf8_tail 1 u = [0x80 OR ucast (take_bit 6 u)]" by simp
  have 2: "utf8_tail (Suc 1) u = (0x80 OR ucast (take_bit 6 (drop_bit (6 * 1) u))) # utf8_tail 1 u" by (rule utf8_tail.simps)
  have 3: "utf8_tail (Suc 2) u = (0x80 OR ucast (take_bit 6 (drop_bit (6 * 2) u))) # utf8_tail 2 u" by (rule utf8_tail.simps)
  have s: "Suc 1 = 2" "Suc 2 = 3" "(6 :: nat) * 1 = 6" "(6 :: nat) * 2 = 12" by simp_all
  show e: "utf8_tail 2 u = [0x80 OR ucast (take_bit 6 (drop_bit 6 u)), 0x80 OR ucast (take_bit 6 u)]" using 2 by (simp only: s 1)
  show "utf8_tail 3 u = [0x80 OR ucast (take_bit 6 (drop_bit 12 u)), 0x80 OR ucast (take_bit 6 (drop_bit 6 u)), 0x80 OR ucast (take_bit 6 u)]"
    using 3 by (simp only: s e)
qed

lemma add_utf8_bytes:
  assumes "is_valid_code_point u"
  shows "cbb_add_utf8 n env p u st = add_bytes_loop n env p (utf8_bytes u) st"
proof -
  have t: "TOP_BITS 1 = 0x80" using bits_values(5) by simp
  have max: "u \<le> 0x10FFFF" using assms by (simp add: is_valid_code_point_def not_less)
  note eqs = cbb_add_utf8_def utf8_bytes_def bits_values(4,6-8) t ucast_or_byte utf8_tails add_bytes_loop.simps
    add_bytes_loop_Cons add_bytes_loop_Nil if_True if_False not_True_eq_False not_False_eq_True
  have ret: "pthen r (\<lambda>_. Pair (Some ())) = r" for r :: "unit build" using pthen_unit [of r] by simp
  have six: "x AND 0x3F = take_bit 6 x" for x :: u32 by (simp add: take_bit_eq_mask mask_eq_exp_minus_1)
  show ?thesis
    by (cases rule: valid_cases [OF assms]) (use assms max in \<open>simp_all only: eqs\<close>, simp_all add: ret six)
qed

interpretation cbs_utf8: wire_codec utf8_bytes "as_dec cbs_get_utf8" is_valid_code_point
  by unfold_locales (simp add: as_dec_def get_utf8_bytes)

interpretation rw_utf8: built_codec "\<lambda>u n env p st. cbb_add_utf8 n env p u st" utf8_bytes "as_dec cbs_get_utf8" is_valid_code_point "{}"
proof unfold_locales
  fix u assume "is_valid_code_point u"
  moreover obtain b bs where "utf8_bytes u = b # bs" by (cases "utf8_bytes u") (simp_all add: utf8_bytes_def split: if_splits)
  ultimately show "emits {} True (\<lambda>n env p st. cbb_add_utf8 n env p u st) (utf8_bytes u)"
    using emits_add_bytes_loop [of "{}" b bs] by (simp add: add_utf8_bytes)
qed

text \<open>\<open>cbb_get_utf8_len\<close> is the length of what \<open>cbb_add_utf8\<close> writes.\<close>

lemma length_tail: "length (utf8_tail k u) = k"
  by (induction k) simp_all

lemma utf8_len: "length (utf8_bytes u) = unat (cbb_get_utf8_len u)"
  by (simp add: utf8_bytes_def cbb_get_utf8_len_def length_tail)

lemma length_utf8_bytes: "length (utf8_bytes u) \<le> 4"
  by (simp add: utf8_bytes_def length_tail)

end
