(* ===== verification/Bytestring_Properties.thy ===== *)
theory Bytestring_Properties
  imports Cbb_Oid Cbb_Set Cbb_Machine Ber_Correct Unicode
begin

text \<open>
  The properties of the CBS parser and the CBB builder, each with a concrete instance.
\<close>

section \<open>Concrete objects\<close>

definition example_cbb_env :: cbb_env where
  "example_cbb_env = \<lparr>may_alloc = (\<lambda>_. True), fresh_byte = (\<lambda>_. 0)\<rparr>"

definition example_cbb_state :: cbb_state where
  "example_cbb_state = \<lparr>cbbs = (\<lambda>_. CBB_zero),
     cbase = \<lparr>b_buf = [], b_len = 0, b_cap = 0, can_resize = True, b_error = False, b_undef = False\<rparr>\<rparr>"

text \<open>A builder at 0x10 whose first output is an open child at 0x20 with the contents \<open>c\<close>.\<close>

definition example_open :: "bool \<Rightarrow> u8 list \<Rightarrow> cbb_state" where
  "example_open asn1 c = \<lparr>
     cbbs = (\<lambda>_. CBB_zero)(
       0x10 := \<lparr>c_base = True, c_child = 0x20, c_offset = 0, c_pending_len_len = 0, c_pending_is_asn1 = False, c_is_child = False\<rparr>,
       0x20 := \<lparr>c_base = True, c_child = 0, c_offset = 0, c_pending_len_len = 1, c_pending_is_asn1 = asn1, c_is_child = True\<rparr>),
     cbase = \<lparr>b_buf = 0 # c, b_len = of_nat (Suc (length c)), b_cap = of_nat (Suc (length c)), can_resize = True,
       b_error = False, b_undef = False\<rparr>\<rparr>"

lemma example_open_builder:
  assumes "length c < 2 ^ 63"
  shows "builder (example_open asn1 c) 0x10 [0x20] [] [(if asn1 then Der else Fixed 1, c)]"
  using assms by (auto simp: builder_def buf_ok_def contents_def example_open_def is_child_of_def unat_of_nat simp del: of_nat_Suc)

lemma example_open_serves: "always_serves example_cbb_env (cbase (example_open asn1 c))"
  by (simp add: always_serves_def example_open_def example_cbb_env_def)

section \<open>The parser\<close>

text \<open>
  C11: the parser accepts exactly the DER encodings. \<open>CBS_get_any_asn1_element\<close> returns an element and
  leaves \<open>rest\<close> if and only if its input is the tag in the shortest form, the length in the
  shortest form and that many bytes of contents, followed by \<open>rest\<close>; the header length it
  reports is that of the tag and length.
\<close>

theorem DER_parse_exact:
  assumes "length cbs < 2 ^ 64"
  shows "CBS_get_any_asn1_element cbs = (Some (out, tag, hl, ber), rest) \<longleftrightarrow>
    (\<exists>c. length c < 2 ^ 32 \<and> cbs = der_element tag c @ rest \<and> out = der_element tag c
       \<and> unat hl = length out - length c \<and> \<not> ber)"
proof
  assume "CBS_get_any_asn1_element cbs = (Some (out, tag, hl, ber), rest)"
  from get_element_canonical [OF this assms]
  show "\<exists>c. length c < 2 ^ 32 \<and> cbs = der_element tag c @ rest \<and> out = der_element tag c \<and> unat hl = length out - length c \<and> \<not> ber"
    by blast
next
  assume "\<exists>c. length c < 2 ^ 32 \<and> cbs = der_element tag c @ rest \<and> out = der_element tag c \<and> unat hl = length out - length c \<and> \<not> ber"
  then obtain c where c: "length c < 2 ^ 32" "cbs = der_element tag c @ rest" "out = der_element tag c"
      "unat hl = length out - length c" "\<not> ber" by blast
  have "hl = of_nat (length out - length c)" by (simp flip: c(4))
  then show "CBS_get_any_asn1_element cbs = (Some (out, tag, hl, ber), rest)"
    using get_element_der [OF c(1), of tag rest False] assms c by (simp add: CBS_get_any_asn1_element_def)
qed

theorem DER_parse_exact_witness:
  "CBS_get_any_asn1_element [0x30, 0x81, 0x01, 0x05] \<noteq> (Some ([0x30, 0x81, 0x01, 0x05], 0x20000010, 3, False), [])
   \<and> CBS_get_any_asn1_element [0x30, 0x01, 0x05, 0x07] = (Some ([0x30, 0x01, 0x05], 0x20000010, 2, False), [0x07])"
proof -
  have tag: "der_tag 0x20000010 = [0x30]" by (simp add: der_tag_def)
  have len: "der_length 1 = [1]" by (simp add: der_length_def)
  have "\<not> (\<exists>c. length c < 2 ^ 32 \<and> [0x30, 0x81, 0x01, 0x05] = der_element 0x20000010 c @ []
      \<and> [0x30, 0x81, 0x01, 0x05] = der_element 0x20000010 c \<and> unat (3 :: u64) = length [0x30, 0x81, 0x01, 0x05 :: u8] - length c \<and> \<not> False)"
    by (auto simp: der_element_def tag length_Suc_conv der_length_def)
  then have 1: "CBS_get_any_asn1_element [0x30, 0x81, 0x01, 0x05] \<noteq> (Some ([0x30, 0x81, 0x01, 0x05], 0x20000010, 3, False), [])"
    using DER_parse_exact [of "[0x30, 0x81, 0x01, 0x05]" "[0x30, 0x81, 0x01, 0x05]" "0x20000010" 3 False "[]"] by simp
  have "\<exists>c. length c < 2 ^ 32 \<and> [0x30, 0x01, 0x05, 0x07] = der_element 0x20000010 c @ [0x07]
      \<and> [0x30, 0x01, 0x05] = der_element 0x20000010 c \<and> unat (2 :: u64) = length [0x30, 0x01, 0x05 :: u8] - length c \<and> \<not> False"
    by (intro exI [of _ "[5]"]) (simp add: der_element_def tag len [simplified])
  then have "CBS_get_any_asn1_element [0x30, 0x01, 0x05, 0x07] = (Some ([0x30, 0x01, 0x05], 0x20000010, 2, False), [0x07])"
    using DER_parse_exact [of "[0x30, 0x01, 0x05, 0x07]" "[0x30, 0x01, 0x05]" "0x20000010" 2 False "[0x07]"] by simp
  then show ?thesis using 1 by blast
qed

text \<open>
  BER is a superset of DER. Whatever the DER parser accepts, the BER parser accepts with
  the same result, and it does not report BER features.
\<close>

theorem BER_extends_DER:
  assumes "length cbs < 2 ^ 64" and "CBS_get_any_asn1_element cbs = (Some e, rest)"
  shows "CBS_get_any_ber_asn1_element cbs = (Some e, rest) \<and> \<not> snd (snd (snd e))"
proof -
  obtain out tag hl ber where e: "e = (out, tag, hl, ber)" by (metis prod_cases4)
  obtain c where c: "cbs = der_element tag c @ rest" "out = der_element tag c" "\<not> ber" "length c < 2 ^ 32" "unat hl = length out - length c"
    using get_element_canonical [OF assms(2) [unfolded e] assms(1)] by blast
  have "hl = of_nat (length out - length c)" by (simp flip: c(5))
  then show ?thesis using get_element_der [OF c(4), of tag rest True] assms(1) c e
    by (simp add: CBS_get_any_ber_asn1_element_def)
qed

theorem BER_extends_DER_witness:
  "CBS_get_any_ber_asn1_element [0x04, 0x01, 0x07] = (Some ([0x04, 0x01, 0x07], 4, 2, False), [])"
proof -
  have "der_element 4 [0x07] = [0x04, 0x01, 0x07]" by (simp add: der_element_def der_tag_def der_length_def)
  then have "CBS_get_any_asn1_element [0x04, 0x01, 0x07] = (Some ([0x04, 0x01, 0x07], 4, 2, False), [])"
    using get_element_der [of "[0x07]" 4 "[]" False] by (simp add: CBS_get_any_asn1_element_def)
  from BER_extends_DER [OF _ this] show ?thesis by simp
qed

text \<open>
  No DER element is the beginning of a different one, so comparing encodings byte by byte,
  as the ordering of a SET OF does, never depends on what follows them.
\<close>

theorem DER_prefix_free:
  assumes "length c < 2 ^ 32" and "length c' < 2 ^ 32" and "der_element tag c @ r = der_element tag' c' @ r'"
    and "length (der_element tag c @ r) < 2 ^ 64"
  shows "tag = tag' \<and> c = c' \<and> r = r'"
  using cbs_element.prefix_free [of "(c, tag)" "(c', tag')" r r'] assms by simp

theorem DER_prefix_free_witness: "der_element 2 [1] @ [9] \<noteq> der_element 2 [1, 9]"
proof
  assume "der_element 2 [1] @ [9] = der_element 2 [1, 9]"
  then show False using DER_prefix_free [of "[1]" "[1, 9]" 2 "[9]" 2 "[]"] by (simp add: der_element_def der_tag_def der_length_def)
qed

section \<open>The builder\<close>

text \<open>
  C12: flushing closes the open children. On the object at depth \<open>j\<close> of a builder, \<open>CBB_flush\<close>
  puts the length prefixes of everything open below it in place, from the inside out, moving
  contents where a DER length needs more octets, and leaves the objects above it as they
  are. It fails only when a length does not fit its prefix or when memory runs out, and then
  the error flag is set and nothing was accessed outside the buffer.
\<close>

theorem CBB_flush_refines:
  assumes "builder st r qs d fs" and "j \<le> length qs" and "Suc (length qs) < n"
  shows "case CBB_flush n env ((r # qs) ! j) st of
      (None, st') \<Rightarrow> failed st' \<and> \<not> (always_serves env (cbase st)
        \<and> (\<exists>x. collapse (drop j fs) = Some x \<and> length d + total (take j fs) + length x < 2 ^ 64))
    | (Some _, st') \<Rightarrow> \<exists>x. collapse (drop j fs) = Some x
        \<and> (case extend (d, take j fs) x of (d', fs') \<Rightarrow> builder st' r (take j qs) d' fs')"
proof -
  have n: "Suc (length (drop j qs)) < n" using assms(3) by simp
  from does_nested [OF does_flush assms(1,2) n, of "{}" env] show ?thesis
    by (rule case_result_mono) (auto simp: total_def)
qed

theorem CBB_flush_refines_witness:
  "case CBB_flush 3 example_cbb_env 0x10 (example_open True (replicate 200 7)) of
     (None, _) \<Rightarrow> False | (Some _, st') \<Rightarrow> builder st' 0x10 [] (0x81 # 200 # replicate 200 7) []"
proof -
  let ?st = "example_open True (replicate 200 7)"
  have b: "builder ?st 0x10 [0x20] [] [(Der, replicate 200 7)]" using example_open_builder [of "replicate 200 7" True] by simp
  have "octets 200 = 1" by (simp add: octets.simps)
  then have c: "collapse [(Der, replicate 200 7)] = Some (0x81 # 200 # replicate 200 7)"
    by (simp add: der_length_def be_bytes_def)
  show ?thesis using CBB_flush_refines [OF b, of 0 3 example_cbb_env] c example_open_serves [of True]
    by (auto simp: extend_def total_def split: prod.splits option.splits)
qed

text \<open>
  Opening an element. \<open>CBB_add_asn1\<close> on the object at depth \<open>j\<close> closes what is open below it,
  writes the tag and makes the fresh object \<open>q\<close> its open child, with empty contents and a DER
  length to come; everything above stays as it was.
\<close>

theorem CBB_add_asn1_refines:
  assumes "builder st r qs d fs" and "j \<le> length qs" and "Suc (length qs) < n" and "q \<noteq> 0" and "q \<notin> set (r # qs)"
  shows "case CBB_add_asn1 n env ((r # qs) ! j) q tag st of
      (None, st') \<Rightarrow> failed st' \<and> \<not> (always_serves env (cbase st)
        \<and> (\<exists>x. collapse (drop j fs) = Some x \<and> length d + total (take j fs) + length x + length (der_tag tag) + 1 < 2 ^ 64))
    | (Some _, st') \<Rightarrow> \<exists>x. collapse (drop j fs) = Some x
        \<and> (case extend (d, take j fs) (x @ der_tag tag) of (d', fs') \<Rightarrow> builder st' r (take j qs @ [q]) d' (fs' @ [(Der, [])]))"
proof -
  have n: "Suc (length (drop j qs)) < n" using assms(3) by simp
  have op: "does {q} True (\<lambda>n env p st. CBB_add_asn1 n env p q tag st) (der_tag tag) [q] [(Der, [])]"
    using assms(4) by (intro does_asn1) simp_all
  have q: "{q} \<inter> set (r # qs) = {}" "set [q] \<subseteq> {q}" "distinct [q]" using assms(5) by auto
  from does_nested [OF op assms(1,2) n q, of env] show ?thesis
    by (rule case_result_mono) (auto simp: total_def)
qed

theorem CBB_add_asn1_refines_witness:
  "case CBB_add_asn1 4 example_cbb_env 0x20 0x30 0x20000010 (example_open True [5]) of
     (None, _) \<Rightarrow> False | (Some _, st') \<Rightarrow> builder st' 0x10 [0x20, 0x30] [] [(Der, [5, 0x30]), (Der, [])]"
proof -
  have b: "builder (example_open True [5]) 0x10 [0x20] [] [(Der, [5])]" using example_open_builder [of "[5]" True] by simp
  have "der_tag 0x20000010 = [0x30]" by (simp add: der_tag_def)
  then show ?thesis using CBB_add_asn1_refines [OF b, of 1 4 "0x30" example_cbb_env "0x20000010"] example_open_serves [of True "[5]"]
    by (auto simp: extend_def total_def split: prod.splits option.splits)
qed

text \<open>
  C13: the buffer is never overrun. In every state that a client reaches by calling the
  operations of the builder in any order and at any depth, no access was outside the
  buffer, and unless the error flag is set the buffer is as long as its capacity, the length
  is within it, and the tree of objects represents an abstract builder.
\<close>

theorem CBB_reachable_safe:
  assumes "cbb_reach env r st"
  shows "\<not> b_undef (cbase st) \<and> (b_error (cbase st) \<or> length (b_buf (cbase st)) = unat (b_cap (cbase st))
    \<and> b_len (cbase st) \<le> b_cap (cbase st) \<and> (\<exists>qs d fs. builder st r qs d fs))"
proof -
  have "failed st \<or> (\<exists>qs d fs. builder st r qs d fs)" using reach_inv [OF assms] unfolding cbb_inv_def .
  then show ?thesis
  proof (elim disjE exE)
    assume "failed st"
    then show ?thesis by (simp add: failed_def)
  next
    fix qs d fs assume b: "builder st r qs d fs"
    then have "buf_ok (cbase st)" by (simp add: builder_def)
    then show ?thesis using b unfolding buf_ok_def by blast
  qed
qed

theorem CBB_reachable_safe_witness:
  "\<not> b_undef (cbase (snd (perform (Add_asn1 0x20 0x20000010) 3 example_cbb_env 0x10 (snd (CBB_init example_cbb_env True 0x10 4 example_cbb_state)))))"
proof -
  let ?st = "snd (CBB_init example_cbb_env True 0x10 4 example_cbb_state)"
  have r: "cbb_reach example_cbb_env 0x10 ?st"
    by (rule cbb_reach.init [of example_cbb_env True "0x10" 4 example_cbb_state])
      (simp add: CBB_init_def cbb_init_def example_cbb_env_def Let_def)
  have "chain (cbbs ?st) 0x10 []"
    by (simp add: CBB_init_def cbb_init_def example_cbb_env_def CBB_zero_def cbb_upd_def Let_def)
  from cbb_reach.call [OF r this, of 0 3 "Add_asn1 0x20 0x20000010"]
  have "cbb_reach example_cbb_env 0x10 (snd (perform (Add_asn1 0x20 0x20000010) 3 example_cbb_env 0x10 ?st))" by simp
  from CBB_reachable_safe [OF this] show ?thesis by blast
qed

text \<open>
  Errors are sticky. Once the error flag of the buffer is set, every operation on any
  object of the tree fails and changes nothing, so a caller may check the last call only.
\<close>

theorem CBB_error_sticky:
  assumes "b_error (cbase st)" and "0 < n"
  shows "perform c n env p st = (None, st)"
  using assms by (rule perform_error)

theorem CBB_error_sticky_witness:
  "perform (Add_bytes [1, 2]) 3 example_cbb_env 0x20 (set_error (example_open True [5])) = (None, set_error (example_open True [5]))"
  by (rule CBB_error_sticky) simp_all

section \<open>Building and parsing\<close>

lemma length_int_element:
  "length (der_element 2 (uint_contents v)) \<le> 11" "length (der_element 2 (int_contents v)) \<le> 11"
proof -
  have *: "length (der_element 2 c) \<le> 11" if "length c \<le> 9" for c
    using that by (simp add: der_element_def der_tag_def der_length_def)
  show "length (der_element 2 (uint_contents v)) \<le> 11" "length (der_element 2 (int_contents v)) \<le> 11"
    using length_uint_contents(2) [of v] int_contents_value(2) [of v] by (simp_all add: *)
qed

lemma length_concat_bound: "(\<And>v. length (f v) \<le> b) \<Longrightarrow> length (concat (map f vs)) \<le> b * length vs"
proof (induction vs)
  case (Cons v vs)
  then show ?case using Cons.prems [of v] by (simp add: add_mono)
qed simp

text \<open>
  C14: integers round-trip through builder and parser. The INTEGERs that
  \<open>CBB_add_asn1_uint64\<close> and \<open>CBB_add_asn1_int64\<close> write for any list of values are read back as
  the same values, the output has nothing else in it, and building succeeds when memory
  does not run out.
\<close>

theorem asn1_integers_roundtrip:
  assumes "q \<noteq> 0" and "p \<noteq> q" and "1 < n" and "\<And>k. may_alloc env k" and "length vs < 2 ^ 60"
  shows "(\<exists>out. fst (build (\<lambda>v n env p st. CBB_add_asn1_uint64 n env p q v st) n env True p cap vs st) = Some out
      \<and> dec_items (as_dec CBS_get_asn1_uint64) (length vs) out = Some (vs, []))
    \<and> (\<exists>out. fst (build (\<lambda>v n env p st. CBB_add_asn1_int64 n env p q v st) n env True p cap vs st) = Some out
      \<and> dec_items (as_dec CBS_get_asn1_int64) (length vs) out = Some (vs, []))"
proof -
  have p: "p \<notin> {q}" and v: "\<forall>v \<in> set vs. True" using assms(2) by simp_all
  have l: "length (concat (map (\<lambda>v. der_element 2 (uint_contents v)) vs)) < 2 ^ 64"
    "length (concat (map (\<lambda>v. der_element 2 (int_contents v)) vs)) < 2 ^ 64"
    using length_concat_bound [where f = "\<lambda>v. der_element 2 (uint_contents v)", OF length_int_element(1), of vs]
      length_concat_bound [where f = "\<lambda>v. der_element 2 (int_contents v)", OF length_int_element(2), of vs] assms(5) by simp_all
  note u = rw_uint64 [OF assms(1)] and i = rw_int64 [OF assms(1)]
  have "fst (build (\<lambda>v n env p st. CBB_add_asn1_uint64 n env p q v st) n env True p cap vs st)
      = Some (concat (map (\<lambda>v. der_element 2 (uint_contents v)) vs))"
    "fst (build (\<lambda>v n env p st. CBB_add_asn1_int64 n env p q v st) n env True p cap vs st)
      = Some (concat (map (\<lambda>v. der_element 2 (int_contents v)) vs))"
    using built_codec.build_succeeds [OF u v assms(3) p] built_codec.build_succeeds [OF i v assms(3) p] assms(4) l by simp_all
  then show ?thesis using built_codec.build_parse [OF u v assms(3) p] built_codec.build_parse [OF i v assms(3) p] by blast
qed

theorem asn1_integers_roundtrip_witness:
  "\<exists>out. fst (build (\<lambda>v n env p st. CBB_add_asn1_int64 n env p 0x20 v st) 3 example_cbb_env True 0x10 0 [5, - 129] example_cbb_state) = Some out
     \<and> dec_items (as_dec CBS_get_asn1_int64) (Suc (Suc 0)) out = Some ([5, - 129], [])"
  using asn1_integers_roundtrip [of "0x20" "0x10" 3 example_cbb_env "[5, - 129]" 0 example_cbb_state]
  by (simp add: example_cbb_env_def)

text \<open>
  Strings under a two-byte length, written through a child of their own, are read back
  by \<open>CBS_get_u16_length_prefixed\<close>; building succeeds when memory does not run out.
\<close>

theorem u16_prefixed_roundtrip:
  assumes "q \<noteq> 0" and "p \<noteq> q" and "1 < n" and "\<And>k. may_alloc env k" and "\<forall>s \<in> set ss. length s < 2 ^ 16"
    and "length (concat (map (prefixed 2) ss)) < 2 ^ 64"
  shows "\<exists>out. fst (build (\<lambda>s n env p st. pthen (CBB_add_u16_length_prefixed n env p q st) (\<lambda>_ st.
        pthen (CBB_add_bytes n env q s st) (\<lambda>_ st. CBB_flush n env p st))) n env True p cap ss st) = Some out
      \<and> dec_items (as_dec CBS_get_u16_length_prefixed) (length ss) out = Some (ss, [])"
proof -
  let ?run = "\<lambda>s n env p st. pthen (CBB_add_u16_length_prefixed n env p q st) (\<lambda>_ st.
        pthen (CBB_add_bytes n env q s st) (\<lambda>_ st. CBB_flush n env p st))"
  have "emits {q} True (?run s) (prefixed 2 s)" if "length s < 2 ^ 16" for s
    using emits_prefixed [OF emits_bytes [of s "{}"], of 2 "{q}" q] that assms(1) by (simp add: CBB_add_u16_length_prefixed_def)
  then have rw: "built_codec ?run (prefixed 2) (as_dec CBS_get_u16_length_prefixed) (\<lambda>s. length s < 2 ^ 16) {q}"
    using cbs_prefix16.wire_codec_axioms by (simp add: built_codec_def cbb_writer_def)
  have p: "p \<notin> {q}" using assms(2) by simp
  show ?thesis using built_codec.build_succeeds [OF rw assms(5,3) p assms(4,6)] built_codec.build_parse [OF rw assms(5,3) p] by blast
qed

theorem u16_prefixed_roundtrip_witness:
  "\<exists>out. fst (build (\<lambda>s n env p st. pthen (CBB_add_u16_length_prefixed n env p 0x20 st) (\<lambda>_ st.
        pthen (CBB_add_bytes n env 0x20 s st) (\<lambda>_ st. CBB_flush n env p st))) 3 example_cbb_env True 0x10 0 [[1, 2, 3], []] example_cbb_state) = Some out
      \<and> dec_items (as_dec CBS_get_u16_length_prefixed) (Suc (Suc 0)) out = Some ([[1, 2, 3], []], [])"
  using u16_prefixed_roundtrip [of "0x20" "0x10" 3 example_cbb_env "[[1, 2, 3], []]" 0 example_cbb_state]
  by (simp add: example_cbb_env_def prefixed_def)

text \<open>
  A child whose contents do not fit its length prefix is refused: the flush fails and the
  error flag is set, for fixed prefixes of \<open>k\<close> bytes as for DER lengths.
\<close>

theorem CBB_child_too_long:
  assumes "builder st p [q] d [(k, c)]" and "1 < n"
    and "case k of Fixed m \<Rightarrow> 2 ^ (8 * m) \<le> length c | Der \<Rightarrow> 0xFFFFFFFE < length c"
  shows "fst (CBB_flush n env p st) = None \<and> b_error (cbase (snd (CBB_flush n env p st)))
    \<and> \<not> b_undef (cbase (snd (CBB_flush n env p st)))"
proof -
  have n: "length [q] < n" using assms(2) by simp
  have "collapse [(k, c)] = None" using assms(3) by (cases k) auto
  then show ?thesis by (cases rule: flush_builder [OF assms(1) n, where env = env and x = "[]"]) (auto simp: failed_def)
qed

theorem CBB_child_too_long_witness: "fst (CBB_flush 3 example_cbb_env 0x10 (example_open False (replicate 256 7))) = None"
  using CBB_child_too_long [OF example_open_builder [of "replicate 256 7" False, simplified], of 3 example_cbb_env] by simp

section \<open>Sets and object identifiers\<close>

text \<open>
  C15: \<open>CBB_flush_asn1_set_of\<close> sorts. When the contents of the open child \<open>q\<close>, with everything below it
  closed, are a sequence of DER elements and memory does not run out, the call succeeds, and the contents are
  the same elements in ascending lexicographic order of their encodings.
\<close>

theorem CBB_set_of_sorts:
  assumes "builder st r (qs1 @ q # qs2) d (fs1 @ (k, c) # fs2)" and "length qs1 = length fs1" and "Suc (length qs2) < n"
    and "collapse fs2 = Some x" and "c @ x = concat (map (\<lambda>(tag, body). der_element tag body) es)"
    and "\<forall>(tag, body) \<in> set es. length body < 2 ^ 32" and "always_serves env (cbase st)"
    and "16 * length es < 2 ^ 64" and "length d + total (fs1 @ [(k, c @ x)]) < 2 ^ 64"
  shows "\<exists>st'. CBB_flush_asn1_set_of n env True q st = (Some (), st')
    \<and> builder st' r (qs1 @ [q]) d (fs1 @ [(k, concat (sort (map (\<lambda>(tag, body). der_element tag body) es)))])"
proof -
  let ?run = "CBB_flush_asn1_set_of n env True q st"
  have cx: "c @ x = concat (map der es)" using assms(5) by (simp add: der_def)
  have "length (c @ x) < 2 ^ 64" using assms(9) by (simp add: total_def)
  then have sc: "set_children (length (c @ x)) (c @ x) = Some (map der es)"
    unfolding cx using assms(6) by (intro set_children_der) auto
  show ?thesis using flush_set_of [OF assms(1-3), where env = env and alloc = True] assms(4,7-9) sc
    by (cases ?run; cases "fst ?run") (auto simp: der_def)
qed

theorem CBB_set_of_sorts_witness:
  "\<exists>st'. CBB_flush_asn1_set_of 3 example_cbb_env True 0x20 (example_open True [2, 1, 7, 2, 1, 3]) = (Some (), st')
     \<and> builder st' 0x10 [0x20] [] [(Der, [2, 1, 3, 2, 1, 7])]"
proof -
  let ?c = "[2, 1, 7, 2, 1, 3] :: u8 list" and ?es = "[(2, [7]), (2, [3])] :: (u32 \<times> u8 list) list"
  have b: "builder (example_open True ?c) 0x10 ([] @ 0x20 # []) [] ([] @ (Der, ?c) # [])" using example_open_builder [of ?c True] by simp
  have es: "map (\<lambda>(tag, body). der_element tag body) ?es = [[2, 1, 7], [2, 1, 3]]" by (simp add: der_element_def der_tag_def der_length_def)
  have "\<exists>st'. CBB_flush_asn1_set_of 3 example_cbb_env True 0x20 (example_open True ?c) = (Some (), st')
    \<and> builder st' 0x10 ([] @ [0x20]) [] ([] @ [(Der, concat (sort (map (\<lambda>(tag, body). der_element tag body) ?es)))])"
    by (rule CBB_set_of_sorts [OF b, where x = "[]"]) (unfold es, simp_all add: example_open_serves total_def)
  then show ?thesis unfolding es by simp
qed

lemma write_all_Nil: "write_all run [] n env p = Pair (Some ())"
  by (rule ext) simp

text \<open>
  C16: object identifiers round-trip between text and DER. Writing the dotted decimal text of an
  identifier into a fresh builder gives the base-128 encoding of its arcs, and
  \<open>CBS_asn1_oid_to_text\<close> turns that back into the text, with a terminating zero. The first two arcs are
  packed into one number, so the first is at most 2, and the second below 40 unless it is 2.
\<close>

theorem oid_text_roundtrip:
  assumes "oid_ok a b" and "length (dotted (a # b # arcs)) < 2 ^ 64 - 1" and "1 < n" and "\<And>k. may_alloc env k"
    and "length (oid_contents a b arcs) < 2 ^ 64"
  shows "fst (build (\<lambda>text n env p st. CBB_add_asn1_oid_from_text n env p text st) n env True p cap [dotted (a # b # arcs)] st)
      = Some (oid_contents a b arcs)
    \<and> CBS_asn1_oid_to_text n env True q (oid_contents a b arcs) st = Some (dotted (a # b # arcs) @ [0])"
proof -
  let ?v = "(a, b, arcs)" and ?run = "\<lambda>(a, b, vs) n env p st. CBB_add_asn1_oid_from_text n env p (dotted (a # b # vs)) st"
  have same: "build (\<lambda>text n env p st. CBB_add_asn1_oid_from_text n env p text st) n env True p cap [dotted (a # b # arcs)] st =
      build ?run n env True p cap [?v] st" by (simp add: build_def write_all_Nil del: dotted.simps)
  have "case build ?run n env True p cap [?v] st of
      (None, _) \<Rightarrow> \<not> (True \<and> (\<forall>k. may_alloc env k) \<and> length (oid_contents a b arcs) < 2 ^ 64)
    | (Some out, _) \<Rightarrow> out = oid_contents a b arcs \<and> length out < 2 ^ 64"
    using cbb_writer.build_output [OF oid_writer, where vs = "[?v]" and n = n and p = p and env = env and can = True and cap = cap and st = st,
        unfolded list.map concat.simps append_Nil2 prod.case] assms(1-3) by (auto simp del: dotted.simps)
  then have "fst (build ?run n env True p cap [?v] st) = Some (oid_contents a b arcs)"
    using assms(4,5) by (cases "build ?run n env True p cap [?v] st"; cases "fst (build ?run n env True p cap [?v] st)") simp_all
  then show ?thesis using same oid_to_text [OF assms(1,3,4,2), of q st] by (simp del: dotted.simps)
qed

theorem oid_text_roundtrip_witness:
  "CBS_asn1_oid_to_text 3 example_cbb_env True 0x10 (oid_contents 1 2 [840]) example_cbb_state = Some (dotted [1, 2, 840] @ [0])
   \<and> oid_contents 1 2 [840] = [42, 0x86, 0x48] \<and> dotted [1, 2, 840] = [0x31, 0x2E, 0x32, 0x2E, 0x38, 0x34, 0x30]"
proof -
  have c: "oid_contents 1 2 [840] = [42, 0x86, 0x48]"
    by (simp add: oid_contents_def base128_bytes_def base128_len.simps)
  have d: "dotted [1, 2, 840] = [0x31, 0x2E, 0x32, 0x2E, 0x38, 0x34, 0x30]" by (simp add: decimal.simps)
  have "oid_ok 1 2" by (simp add: oid_ok_def)
  from oid_text_roundtrip [OF this, of "[840]" 3 example_cbb_env "0x10" 0 example_cbb_state "0x10"]
  show ?thesis unfolding c d by (simp add: example_cbb_env_def)
qed

section \<open>Conversion from BER\<close>

text \<open>A constructed string of indefinite length with one fragment.\<close>

lemmas ber_parse_simps = CBS_get_any_ber_asn1_element_def cbs_get_any_asn1_element_def parse_asn1_tag_def
  CBS_get_u8_def cbs_get_def element_bytes_def CBS_get_bytes_def CBS_len_def


definition example_locals :: "nat \<Rightarrow> addr" where
  "example_locals d = 0x1000 + of_nat d"






text \<open>
  C18: the search overlooks BER below the first level. \<open>*ber_found\<close> is set by the call for the contents of an element,
  and overwritten when the next element is parsed. So in a SEQUENCE in which an element that contains BER is
  followed by a primitive one, \<open>CBS_asn1_ber_to_der\<close> finds nothing to convert and returns its input as DER.
\<close>

theorem ber_overlooked:
  assumes "cbs_find_ber (kMaxDepth - 1) c = Some True" and "constructed tag" and "\<not> is_string_type tag" and "\<not> constructed tag2"
    and "length c \<le> 0xFFFF" and "length c2 \<le> 0xFFFF"
  defines "cbs \<equiv> der_element 0x20000010 (der_element tag c @ der_element tag2 c2)"
  shows "CBS_asn1_ber_to_der n env can loc r cbs st = (Some (cbs, []), st)"
proof -
  let ?x = "der_element tag c" and ?y = "der_element tag2 c2"
  have x: "length ?x \<le> 0x1000F" and y: "length ?y \<le> 0x1000F"
    using assms(5,6) by (simp_all add: length_der_element_short [THEN order_trans])
  have l: "length (der_element 0x20000010 (?x @ ?y)) \<le> 0x2002E"
    using x y by (intro length_der_element_short [THEN order_trans]) simp_all
  have k: "length (?x @ ?y) = Suc (Suc (length (?x @ ?y) - 2))"
    using length_der_element [of c tag] length_der_element [of c2 tag2] by simp
  have d: "kMaxDepth = Suc (kMaxDepth - 1)" by (simp add: kMaxDepth_def)
  have "find_ber_loop (cbs_find_ber (kMaxDepth - 1)) (length (?x @ ?y)) False (?x @ ?y) = find_ber_loop (cbs_find_ber (kMaxDepth - 1)) (Suc (length (?x @ ?y) - 2)) True (?y @ [])"
    using assms x y by (subst k, subst find_ber_step [where b = True]) simp_all
  also have "\<dots> = Some False" using assms y by (subst find_ber_step [where b = False]) (simp_all add: find_ber_Nil)
  finally have body: "cbs_find_ber kMaxDepth (?x @ ?y) = Some False" by (subst d) simp
  have "length cbs = Suc (length cbs - 1)" using length_der_element [of "?x @ ?y" "0x20000010"] by (simp add: cbs_def)
  then have "cbs_find_ber (Suc kMaxDepth) cbs = find_ber_loop (cbs_find_ber kMaxDepth) (Suc (length cbs - 1)) False (cbs @ [])" by simp
  also have "\<dots> = Some False" unfolding cbs_def
    using x y l body by (subst find_ber_step [where b = False]) (simp_all add: constructed_def is_string_type_def)
  finally have "cbs_find_ber (Suc kMaxDepth) cbs = Some False" .
  moreover have "CBS_get_any_asn1_element (cbs @ []) = (Some (cbs, 0x20000010, of_nat (length cbs - length (?x @ ?y)), False), [])"
    unfolding CBS_get_any_asn1_element_def cbs_def by (rule get_element_der) (use x y l in simp_all)
  ultimately show ?thesis by (simp add: CBS_asn1_ber_to_der_def)
qed

theorem ber_overlooked_witness:
  "CBS_asn1_ber_to_der 3 example_cbb_env True example_locals 0x10 [0x30, 0x07, 0x30, 0x03, 0x24, 0x01, 0x41, 0x05, 0x00] example_cbb_state
     = (Some ([0x30, 0x07, 0x30, 0x03, 0x24, 0x01, 0x41, 0x05, 0x00], []), example_cbb_state)"
proof -
  have "cbs_find_ber (Suc d) [0x24, 0x01, 0x41] = Some True" for d
    by (simp add: ber_parse_simps constructed_def is_string_type_def)
  moreover have "kMaxDepth - 1 = Suc 2046" by (simp add: kMaxDepth_def)
  ultimately have "cbs_find_ber (kMaxDepth - 1) [0x24, 0x01, 0x41] = Some True" by metis
  from ber_overlooked [OF this, of "0x20000010" 5 "[]" 3 example_cbb_env True example_locals "0x10" example_cbb_state]
  show ?thesis by (simp add: constructed_def is_string_type_def der_element_def der_tag_def der_length_def)
qed

section \<open>Strings\<close>

text \<open>
  \<open>CBS_get_asn1_implicit_string\<close> joins the chunks of a constructed string, and gives back what
  follows the string, as it does with a primitive one, whose contents it returns as they are.
\<close>

theorem implicit_string_joined:
  assumes "\<forall>c \<in> set cs. length c < 2 ^ 32" and "\<not> constructed outer_tag" and "1 < n" and "\<And>k. may_alloc env k"
    and "length (concat (map (der_element inner_tag) cs)) < 2 ^ 32"
    and "length rest < 2 ^ 63"
  shows "fst (CBS_get_asn1_implicit_string n env True r
      (der_element (outer_tag OR CBS_ASN1_CONSTRUCTED) (concat (map (der_element inner_tag) cs)) @ rest) outer_tag inner_tag st)
      = Some (concat cs, rest)
    \<and> fst (CBS_get_asn1_implicit_string n env True r (der_element outer_tag (concat cs) @ rest) outer_tag inner_tag st)
      = Some (concat cs, rest)"
proof -
  have c: "length (concat cs) < 2 ^ 32" using length_chunks [of cs inner_tag] assms(5) by simp
  have l: "length (der_element tag x @ rest) < 2 ^ 64" if "length x < 2 ^ 32" for tag x
    using length_der_element_short [OF that, of tag] that assms(6) by simp
  show ?thesis using implicit_string [OF assms(1-5) l [OF assms(5)]] implicit_string_primitive [OF c l [OF c]] by simp
qed

theorem implicit_string_joined_witness:
  "fst (CBS_get_asn1_implicit_string 3 example_cbb_env True 0x10 [0xA0, 0x06, 0x04, 0x01, 0x61, 0x04, 0x01, 0x62, 0x05] 0x80000000 4 example_cbb_state)
     = Some ([0x61, 0x62], [0x05])"
  using implicit_string_joined [of "[[0x61], [0x62]]" "0x80000000" 3 example_cbb_env 4 "[0x05]" "0x10" example_cbb_state]
  by (simp add: constructed_def example_cbb_env_def der_element_def der_tag_def der_length_def)

text \<open>
  C19: UTF-8 is read exactly. \<open>cbs_get_utf8\<close> returns a code point just when it is valid and its shortest
  encoding is at the front of the input: overlong forms, surrogates and stray bytes are refused. \<open>cbb_add_utf8\<close>
  writes that encoding, so any sequence of valid code points is read back.
\<close>

theorem utf8_exact:
  assumes "length cbs < 2 ^ 64" and "1 < n" and "\<forall>u \<in> set us. is_valid_code_point u" and "\<And>k. may_alloc env k" and "length us < 2 ^ 60"
  shows "(cbs_get_utf8 cbs = (Some u, rest) \<longleftrightarrow> is_valid_code_point u \<and> cbs = utf8_bytes u @ rest)
    \<and> (\<exists>out. fst (build (\<lambda>u n env p st. cbb_add_utf8 n env p u st) n env True p cap us st) = Some out
        \<and> dec_items (as_dec cbs_get_utf8) (length us) out = Some (us, []))"
proof -
  have "cbs_get_utf8 cbs = (Some u, rest) \<longleftrightarrow> is_valid_code_point u \<and> cbs = utf8_bytes u @ rest"
    using get_utf8_bytes get_utf8_canonical assms(1) by blast
  moreover have "length (concat (map utf8_bytes us)) < 2 ^ 64"
    using length_concat_bound [where f = utf8_bytes and b = 4 and vs = us] assms(5) by (simp add: length_utf8_bytes)
  with rw_utf8.build_succeeds [OF assms(3,2) _ assms(4)]
  have "fst (build (\<lambda>u n env p st. cbb_add_utf8 n env p u st) n env True p cap us st) = Some (concat (map utf8_bytes us))" by simp
  ultimately show ?thesis using rw_utf8.build_parse [OF assms(3,2)] by blast
qed

theorem utf8_exact_witness:
  "cbs_get_utf8 [0xE2, 0x82, 0xAC, 0x41] = (Some 0x20AC, [0x41])
   \<and> (\<exists>out. fst (build (\<lambda>u n env p st. cbb_add_utf8 n env p u st) 3 example_cbb_env True 0x10 0 [0x41, 0x20AC] example_cbb_state) = Some out
        \<and> dec_items (as_dec cbs_get_utf8) (Suc (Suc 0)) out = Some ([0x41, 0x20AC], []))"
proof -
  have "utf8_bytes 0x20AC = [0xE2, 0x82, 0xAC]" by (simp add: utf8_bytes_def utf8_tails take_bit_eq_mod drop_bit_eq_div)
  then show ?thesis
    using utf8_exact [of "[0xE2, 0x82, 0xAC, 0x41]" 3 "[0x41, 0x20AC]" example_cbb_env "0x20AC" "[0x41]" "0x10" 0 example_cbb_state]
    by (simp add: example_cbb_env_def is_valid_code_point_def)
qed

end
