(* ===== verification/Lhash.thy ===== *)
theory Lhash
  imports C_Prelude
begin

text \<open>
  BoringSSL's hash table (\<open>crypto/lhash/lhash.c\<close>). A chain is the list of its items, in the order of the
  \<open>next\<close> pointers; each item keeps the address it is allocated at, which the traversal of a table that changes under
  it depends on. The callbacks are function pointers, and \<open>call_hash_func\<close> and \<open>call_cmp_func\<close>, which the
  type-specific wrappers supply, are parameters. An \<open>LHASH_ITEM **\<close> is the number of a bucket and a position in its chain,
  the position at the end being the pointer to the null pointer.
\<close>

record lhash_item =
  item_ptr :: addr
  item_data :: addr
  item_hash :: u32

record lhash =
  num_items :: u64
  buckets :: "lhash_item list list"
  num_buckets :: u64
  callback_depth :: u32
  comp_func :: addr
  hash_func :: addr

type_synonym hash_caller = "addr \<Rightarrow> addr \<Rightarrow> u32"
type_synonym cmp_caller = "addr \<Rightarrow> addr \<Rightarrow> addr \<Rightarrow> int"
type_synonym item_pos = "nat \<times> nat"

text \<open>
  What \<open>malloc\<close> answers in one call of an operation: the address of a new item (null when it fails), and whether an array of
  that many bytes can be had.
\<close>

record lh_alloc =
  new_item :: addr
  new_array :: "u64 \<Rightarrow> bool"

definition kMinNumBuckets :: u64 where
  "kMinNumBuckets = 16"

definition kMaxAverageChainLength :: u64 where
  "kMaxAverageChainLength = 2"

definition kMinAverageChainLength :: u64 where
  "kMinAverageChainLength = 1"

text \<open>\<open>table\<close> says whether the table itself can be allocated, \<open>array\<close> whether its buckets can.\<close>

definition OPENSSL_lh_new :: "bool \<Rightarrow> (u64 \<Rightarrow> bool) \<Rightarrow> addr \<Rightarrow> addr \<Rightarrow> lhash option" where
  "OPENSSL_lh_new table array hash cmp =
     (if \<not> table then None
      else if \<not> array (8 * kMinNumBuckets) then None
      else Some \<lparr>num_items = 0, buckets = replicate (unat kMinNumBuckets) [], num_buckets = kMinNumBuckets,
                 callback_depth = 0, comp_func = cmp, hash_func = hash\<rparr>)"

text \<open>The addresses that \<open>OPENSSL_lh_free\<close> releases, in the order of the calls; then come the array and the table.\<close>

definition OPENSSL_lh_free :: "lhash option \<Rightarrow> addr list" where
  "OPENSSL_lh_free lh = (case lh of None \<Rightarrow> [] | Some lh \<Rightarrow> map item_ptr (concat (take (unat (num_buckets lh)) (buckets lh))))"

definition OPENSSL_lh_num_items :: "lhash \<Rightarrow> u64" where
  "OPENSSL_lh_num_items lh = num_items lh"

section \<open>Searching\<close>

definition bucket_of :: "u32 \<Rightarrow> u64 \<Rightarrow> nat" where
  "bucket_of hash n = unat (ucast hash mod n)"

fun chain_pos :: "(addr \<Rightarrow> bool) \<Rightarrow> lhash_item list \<Rightarrow> nat" where
  "chain_pos match [] = 0"
| "chain_pos match (cur # rest) = (if match (item_data cur) then 0 else Suc (chain_pos match rest))"

definition get_next_ptr_and_hash :: "lhash \<Rightarrow> addr \<Rightarrow> hash_caller \<Rightarrow> cmp_caller \<Rightarrow> item_pos \<times> u32" where
  "get_next_ptr_and_hash lh data call_hash_func call_cmp_func =
     (let hash = call_hash_func (hash_func lh) data;
          b = bucket_of hash (num_buckets lh)
      in ((b, chain_pos (\<lambda>cur. call_cmp_func (comp_func lh) cur data = 0) (buckets lh ! b)), hash))"

definition get_next_ptr_by_key :: "lhash \<Rightarrow> 'k \<Rightarrow> u32 \<Rightarrow> ('k \<Rightarrow> addr \<Rightarrow> int) \<Rightarrow> item_pos" where
  "get_next_ptr_by_key lh key key_hash cmp_key =
     (let b = bucket_of key_hash (num_buckets lh)
      in (b, chain_pos (\<lambda>cur. cmp_key key cur = 0) (buckets lh ! b)))"

text \<open>\<open>*next_ptr\<close>\<close>

definition deref :: "lhash \<Rightarrow> item_pos \<Rightarrow> lhash_item option" where
  "deref lh next_ptr =
     (let chain = buckets lh ! fst next_ptr in if snd next_ptr < length chain then Some (chain ! snd next_ptr) else None)"

definition OPENSSL_lh_retrieve :: "lhash \<Rightarrow> addr \<Rightarrow> hash_caller \<Rightarrow> cmp_caller \<Rightarrow> addr" where
  "OPENSSL_lh_retrieve lh data call_hash_func call_cmp_func =
     (case deref lh (fst (get_next_ptr_and_hash lh data call_hash_func call_cmp_func)) of
        None \<Rightarrow> 0 | Some item \<Rightarrow> item_data item)"

definition OPENSSL_lh_retrieve_key :: "lhash \<Rightarrow> 'k \<Rightarrow> u32 \<Rightarrow> ('k \<Rightarrow> addr \<Rightarrow> int) \<Rightarrow> addr" where
  "OPENSSL_lh_retrieve_key lh key key_hash cmp_key =
     (case deref lh (get_next_ptr_by_key lh key key_hash cmp_key) of None \<Rightarrow> 0 | Some item \<Rightarrow> item_data item)"

section \<open>Resizing\<close>

text \<open>One round of the inner loop: the item goes to the front of its new chain.\<close>

definition move_item :: "u64 \<Rightarrow> lhash_item list list \<Rightarrow> lhash_item \<Rightarrow> lhash_item list list" where
  "move_item new_num_buckets new_buckets cur =
     (let new_bucket = bucket_of (item_hash cur) new_num_buckets in new_buckets[new_bucket := cur # new_buckets ! new_bucket])"

definition lh_rebucket :: "(u64 \<Rightarrow> bool) \<Rightarrow> u64 \<Rightarrow> lhash \<Rightarrow> lhash" where
  "lh_rebucket array new_num_buckets lh =
     (let alloc_size = 8 * new_num_buckets in
      if alloc_size div 8 \<noteq> new_num_buckets then lh
      else if \<not> array alloc_size then lh
      else lh\<lparr>num_buckets := new_num_buckets,
              buckets := foldl (foldl (move_item new_num_buckets)) (replicate (unat new_num_buckets) [])
                           (take (unat (num_buckets lh)) (buckets lh))\<rparr>)"

definition lh_maybe_resize :: "(u64 \<Rightarrow> bool) \<Rightarrow> lhash \<Rightarrow> lhash" where
  "lh_maybe_resize array lh =
     (if callback_depth lh > 0 then lh
      else let avg_chain_length = num_items lh div num_buckets lh in
        if avg_chain_length > kMaxAverageChainLength then
          let new_num_buckets = num_buckets lh * 2
          in if new_num_buckets > num_buckets lh then lh_rebucket array new_num_buckets lh else lh
        else if avg_chain_length < kMinAverageChainLength \<and> num_buckets lh > kMinNumBuckets then
          let new_num_buckets = num_buckets lh div 2
          in lh_rebucket array (if new_num_buckets < kMinNumBuckets then kMinNumBuckets else new_num_buckets) lh
        else lh)"

section \<open>Updates\<close>

text \<open>The result is the returned flag and \<open>*old_data\<close>.\<close>

definition OPENSSL_lh_insert :: "lh_alloc \<Rightarrow> addr \<Rightarrow> hash_caller \<Rightarrow> cmp_caller \<Rightarrow> lhash \<Rightarrow> (bool \<times> addr) \<times> lhash" where
  "OPENSSL_lh_insert al data call_hash_func call_cmp_func lh =
     (let ((b, k), hash) = get_next_ptr_and_hash lh data call_hash_func call_cmp_func;
          chain = buckets lh ! b
      in case deref lh (b, k) of
           Some old \<Rightarrow> ((True, item_data old), lh\<lparr>buckets := (buckets lh)[b := chain[k := old\<lparr>item_data := data\<rparr>]]\<rparr>)
         | None \<Rightarrow>
             if new_item al = 0 then ((False, 0), lh)
             else let item = \<lparr>item_ptr = new_item al, item_data = data, item_hash = hash\<rparr>
               in ((True, 0), lh_maybe_resize (new_array al)
                     (lh\<lparr>buckets := (buckets lh)[b := take k chain @ [item]], num_items := num_items lh + 1\<rparr>)))"

definition OPENSSL_lh_delete :: "(u64 \<Rightarrow> bool) \<Rightarrow> addr \<Rightarrow> hash_caller \<Rightarrow> cmp_caller \<Rightarrow> lhash \<Rightarrow> addr \<times> lhash" where
  "OPENSSL_lh_delete array data call_hash_func call_cmp_func lh =
     (let ((b, k), _) = get_next_ptr_and_hash lh data call_hash_func call_cmp_func;
          chain = buckets lh ! b
      in case deref lh (b, k) of
           None \<Rightarrow> (0, lh)
         | Some item \<Rightarrow>
             (item_data item, lh_maybe_resize array
                (lh\<lparr>buckets := (buckets lh)[b := take k chain @ drop (Suc k) chain], num_items := num_items lh - 1\<rparr>)))"

section \<open>Traversal\<close>

text \<open>
  \<open>OPENSSL_lh_doall_arg\<close> with a callback that may change the table and a state of its own. \<open>next\<close> is read before the
  callback runs, and the number of buckets is fixed, since nothing resizes a table that is being traversed. The result is \<open>None\<close> when the saved pointer is no item of the table any more (the code
  would read freed memory), or when the callback keeps adding items for more rounds than \<open>fuel\<close> allows.
\<close>

type_synonym 's lh_callback = "addr \<Rightarrow> lhash \<times> 's \<Rightarrow> lhash \<times> 's"

fun chain_from :: "addr \<Rightarrow> lhash_item list \<Rightarrow> lhash_item list" where
  "chain_from cur [] = []"
| "chain_from cur (item # rest) = (if item_ptr item = cur then item # rest else chain_from cur rest)"

definition head_ptr :: "lhash_item list \<Rightarrow> addr" where
  "head_ptr chain = (case chain of [] \<Rightarrow> 0 | item # _ \<Rightarrow> item_ptr item)"

primrec doall_chain :: "nat \<Rightarrow> 's lh_callback \<Rightarrow> nat \<Rightarrow> addr \<Rightarrow> lhash \<times> 's \<Rightarrow> (lhash \<times> 's) option" where
  "doall_chain 0 func i cur st = (if cur = 0 then Some st else None)"
| "doall_chain (Suc fuel) func i cur st =
     (if cur = 0 then Some st
      else case chain_from cur (buckets (fst st) ! i) of
        [] \<Rightarrow> None
      | item # rest \<Rightarrow> doall_chain fuel func i (head_ptr rest) (func (item_data item) st))"

fun doall_buckets :: "nat \<Rightarrow> 's lh_callback \<Rightarrow> nat list \<Rightarrow> lhash \<times> 's \<Rightarrow> (lhash \<times> 's) option" where
  "doall_buckets fuel func [] st = Some st"
| "doall_buckets fuel func (i # is) st =
     (case doall_chain fuel func i (head_ptr (buckets (fst st) ! i)) st of
        None \<Rightarrow> None | Some st \<Rightarrow> doall_buckets fuel func is st)"

definition enter_callback :: "lhash \<Rightarrow> lhash" where
  "enter_callback lh = (if callback_depth lh < 0xFFFFFFFF then lh\<lparr>callback_depth := callback_depth lh + 1\<rparr> else lh)"

definition leave_callback :: "lhash \<Rightarrow> lhash" where
  "leave_callback lh = (if callback_depth lh < 0xFFFFFFFF then lh\<lparr>callback_depth := callback_depth lh - 1\<rparr> else lh)"

definition OPENSSL_lh_doall_arg :: "nat \<Rightarrow> (u64 \<Rightarrow> bool) \<Rightarrow> 's lh_callback \<Rightarrow> lhash \<times> 's \<Rightarrow> (lhash \<times> 's) option" where
  "OPENSSL_lh_doall_arg fuel array func st =
     (case doall_buckets fuel func [0..<unat (num_buckets (fst st))] (enter_callback (fst st), snd st) of
        None \<Rightarrow> None
      | Some (lh, s) \<Rightarrow> Some (lh_maybe_resize array (leave_callback lh), s))"

end
