(* ===== verification/Lhash_Correct.thy ===== *)
theory Lhash_Correct
  imports Lhash "HOL-Library.Multiset"
begin

text \<open>
  The hash table implements a map from keys to data. \<open>lh_inv\<close> is its invariant: every item is in the bucket of its hash, the
  cached hashes and the count are right, and no two items have the same key or address. \<open>lh_map\<close> is the map a
  table stands for; it looks at all items, without regard to buckets. What the operations promise is
  the locale \<open>data_map\<close>; the laws hold for the callbacks of the locale \<open>lh_callbacks\<close>.
\<close>

definition lh_items :: "lhash \<Rightarrow> lhash_item list" where
  "lh_items lh = concat (buckets lh)"

definition placed :: "u64 \<Rightarrow> lhash_item list list \<Rightarrow> bool" where
  "placed n bs \<longleftrightarrow> length bs = unat n \<and> (\<forall>b < length bs. \<forall>it \<in> set (bs ! b). bucket_of (item_hash it) n = b)"

definition items_ok :: "(addr \<Rightarrow> 'k) \<Rightarrow> (addr \<Rightarrow> u32) \<Rightarrow> lhash_item list \<Rightarrow> bool" where
  "items_ok key hash its \<longleftrightarrow> (\<forall>it \<in> set its. item_hash it = hash (item_data it))
     \<and> distinct (map (\<lambda>it. key (item_data it)) its) \<and> distinct (map item_ptr its) \<and> 0 \<notin> item_ptr ` set its"

definition lh_inv :: "(addr \<Rightarrow> 'k) \<Rightarrow> (addr \<Rightarrow> u32) \<Rightarrow> lhash \<Rightarrow> bool" where
  "lh_inv key hash lh \<longleftrightarrow> placed (num_buckets lh) (buckets lh) \<and> kMinNumBuckets \<le> num_buckets lh
     \<and> unat (num_items lh) = length (lh_items lh) \<and> items_ok key hash (lh_items lh)"

definition item_map :: "(addr \<Rightarrow> 'k) \<Rightarrow> lhash_item list \<Rightarrow> 'k \<Rightarrow> addr option" where
  "item_map key its = map_of (map (\<lambda>it. (key (item_data it), item_data it)) its)"

definition lh_map :: "(addr \<Rightarrow> 'k) \<Rightarrow> lhash \<Rightarrow> 'k \<Rightarrow> addr option" where
  "lh_map key lh = item_map key (lh_items lh)"

section \<open>Lists of items\<close>

text \<open>The invariant on items and the map they stand for do not depend on their order.\<close>

lemma distinct_map_perm: "mset xs = mset ys \<Longrightarrow> distinct (map f xs) = distinct (map f ys)"
  by (rule mset_eq_imp_distinct_iff) simp

lemma items_ok_perm:
  assumes "mset xs = mset ys"
  shows "items_ok key hash xs = items_ok key hash ys"
  unfolding items_ok_def mset_eq_setD [OF assms] distinct_map_perm [OF assms] by (rule refl)

lemma item_map_perm:
  assumes "mset xs = mset ys" and "items_ok key hash xs"
  shows "item_map key xs = item_map key ys"
  unfolding item_map_def by (rule map_of_inject_set [THEN iffD2])
    (use assms items_ok_perm [OF assms(1), of key hash] mset_eq_setD [OF assms(1)] in \<open>auto simp: items_ok_def o_def\<close>)

lemma item_map_Cons [simp]: "item_map key (it # its) = (item_map key its)(key (item_data it) \<mapsto> item_data it)"
  by (simp add: item_map_def)

lemma item_map_Nil [simp]: "item_map key [] = Map.empty"
  by (simp add: item_map_def)

lemma item_map_None: "item_map key its k = None \<longleftrightarrow> (\<forall>it \<in> set its. key (item_data it) \<noteq> k)"
  by (simp add: item_map_def map_of_eq_None_iff image_image) blast

lemma items_ok_Cons:
  "items_ok key hash (it # its) \<longleftrightarrow> items_ok key hash its \<and> item_hash it = hash (item_data it)
     \<and> item_map key its (key (item_data it)) = None \<and> item_ptr it \<notin> item_ptr ` set its \<and> item_ptr it \<noteq> 0"
  unfolding items_ok_def item_map_None by (simp add: image_iff eq_commute [of "key (item_data it)"] conj_ac)

text \<open>There are fewer items than addresses, so the count does not wrap.\<close>

lemma items_count:
  assumes "items_ok key hash its"
  shows "length its < 2 ^ 64"
proof -
  have "length its = card (item_ptr ` set its)" using assms by (metis items_ok_def distinct_card length_map set_map)
  also have "\<dots> < card (UNIV :: addr set)" using assms by (intro psubset_card_mono) (auto simp: items_ok_def)
  finally show ?thesis by (simp add: card_word)
qed

section \<open>Buckets\<close>

lemma mset_concat_update:
  assumes "b < length bs"
  shows "mset (concat (bs[b := c])) + mset (bs ! b) = mset (concat bs) + mset c"
proof -
  have bs: "bs = take b bs @ bs ! b # drop (Suc b) bs" using assms by (rule id_take_nth_drop)
  have "mset (concat bs) = mset (concat (take b bs)) + mset (bs ! b) + mset (concat (drop (Suc b) bs))"
    by (subst bs) simp
  then show ?thesis using assms by (simp add: upd_conv_take_nth_drop)
qed

lemma mset_remove_nth: "k < length c \<Longrightarrow> mset c = add_mset (c ! k) (mset (take k c @ drop (Suc k) c))"
  by (subst id_take_nth_drop [of k c]) simp_all

lemma placed_update:
  assumes "placed n bs" and "\<forall>it \<in> set c. bucket_of (item_hash it) n = b"
  shows "placed n (bs[b := c])"
  unfolding placed_def
proof (intro conjI allI impI ballI)
  fix b' it assume "b' < length (bs[b := c])" "it \<in> set (bs[b := c] ! b')"
  then show "bucket_of (item_hash it) n = b'" using assms by (cases "b' = b") (auto simp: placed_def)
qed (use assms(1) in \<open>simp add: placed_def\<close>)

lemma bucket_of_less: "n \<noteq> 0 \<Longrightarrow> bucket_of h n < unat n"
  by (simp add: bucket_of_def unat_mod unat_gt_0)

lemma chain_pos_spec:
  "chain_pos m c \<le> length c" "i < chain_pos m c \<Longrightarrow> \<not> m (item_data (c ! i))" "chain_pos m c < length c \<Longrightarrow> m (item_data (c ! chain_pos m c))"
  by (induction c arbitrary: i) (auto simp: nth_Cons split: nat.splits if_splits)

text \<open>A pointer to the item found, or to the null pointer at the end of the chain.\<close>

lemma deref_chain_pos:
  "deref lh (b, chain_pos m (buckets lh ! b)) = None \<longleftrightarrow> (\<forall>it \<in> set (buckets lh ! b). \<not> m (item_data it))"
  using chain_pos_spec [where m = m and c = "buckets lh ! b"] by (force simp: deref_def in_set_conv_nth Let_def le_less)

section \<open>Resizing\<close>

lemma move_item_placed:
  assumes "placed n bs" and "n \<noteq> 0"
  shows "placed n (move_item n bs it) \<and> mset (concat (move_item n bs it)) = add_mset it (mset (concat bs))"
proof -
  let ?b = "bucket_of (item_hash it) n"
  have b: "?b < length bs" using assms bucket_of_less by (simp add: placed_def)
  then have "placed n (bs[?b := it # bs ! ?b])" using assms(1) by (intro placed_update) (auto simp: placed_def)
  then show ?thesis using mset_concat_update [OF b, of "it # bs ! ?b"] by (simp add: move_item_def Let_def)
qed

lemma move_items_placed:
  assumes "placed n bs" and "n \<noteq> 0"
  shows "placed n (foldl (move_item n) bs its) \<and> mset (concat (foldl (move_item n) bs its)) = mset its + mset (concat bs)"
  using assms
proof (induction its arbitrary: bs)
  case (Cons it its)
  then show ?case using move_item_placed [of n bs it] by simp
qed simp

lemma move_all_placed:
  assumes "placed n bs" and "n \<noteq> 0"
  shows "placed n (foldl (foldl (move_item n)) bs cs) \<and> mset (concat (foldl (foldl (move_item n)) bs cs)) = mset (concat cs) + mset (concat bs)"
  using assms
proof (induction cs arbitrary: bs)
  case (Cons c cs)
  then show ?case using move_items_placed [of n bs c] by simp
qed simp

text \<open>The parts of the table that resizing keeps.\<close>

definition same_table :: "lhash \<Rightarrow> lhash \<Rightarrow> bool" where
  "same_table lh lh' \<longleftrightarrow> mset (lh_items lh') = mset (lh_items lh) \<and> num_items lh' = num_items lh \<and> comp_func lh' = comp_func lh
     \<and> hash_func lh' = hash_func lh \<and> callback_depth lh' = callback_depth lh"

lemma same_table_refl [simp]: "same_table lh lh"
  by (simp add: same_table_def)

lemma rebucket_same:
  assumes "placed (num_buckets lh) (buckets lh)" and "n \<noteq> 0"
  shows "same_table lh (lh_rebucket array n lh) \<and> placed (num_buckets (lh_rebucket array n lh)) (buckets (lh_rebucket array n lh))
    \<and> num_buckets (lh_rebucket array n lh) \<in> {n, num_buckets lh}"
proof -
  have "placed n (replicate (unat n) [])" by (simp add: placed_def)
  from move_all_placed [OF this assms(2), of "buckets lh"] show ?thesis
    using assms(1) by (auto simp: lh_rebucket_def Let_def same_table_def lh_items_def placed_def)
qed

lemma min_not_0: "kMinNumBuckets \<le> n \<Longrightarrow> n \<noteq> 0"
  by (auto simp: kMinNumBuckets_def)

lemma resize_cases:
  assumes "kMinNumBuckets \<le> num_buckets lh"
  obtains "lh_maybe_resize array lh = lh" | n where "kMinNumBuckets \<le> n" "lh_maybe_resize array lh = lh_rebucket array n lh"
proof -
  have "lh_maybe_resize array lh \<in> insert lh ((\<lambda>n. lh_rebucket array n lh) ` {n. kMinNumBuckets \<le> n})"
    using assms unfolding lh_maybe_resize_def Let_def by (auto simp: not_less dest: order_trans [of kMinNumBuckets, OF _ less_imp_le])
  then show thesis using that by auto
qed

lemma resize_same:
  assumes "placed (num_buckets lh) (buckets lh)" and "kMinNumBuckets \<le> num_buckets lh"
  shows "same_table lh (lh_maybe_resize array lh) \<and> placed (num_buckets (lh_maybe_resize array lh)) (buckets (lh_maybe_resize array lh))
    \<and> kMinNumBuckets \<le> num_buckets (lh_maybe_resize array lh)"
proof (cases rule: resize_cases [OF assms(2), of array])
  case (2 n)
  then show ?thesis using rebucket_same [OF assms(1) min_not_0 [OF 2(1)], of array] assms(2) by auto
qed (use assms in simp)

text \<open>So resizing keeps the invariant and the map.\<close>

lemma resize_inv:
  assumes "lh_inv key hash lh"
  shows "lh_inv key hash (lh_maybe_resize array lh)" "lh_map key (lh_maybe_resize array lh) = lh_map key lh"
    "same_table lh (lh_maybe_resize array lh)"
proof -
  have r: "same_table lh (lh_maybe_resize array lh)" "placed (num_buckets (lh_maybe_resize array lh)) (buckets (lh_maybe_resize array lh))"
    "kMinNumBuckets \<le> num_buckets (lh_maybe_resize array lh)"
    using resize_same [of lh array] assms by (simp_all add: lh_inv_def)
  then have m: "mset (lh_items (lh_maybe_resize array lh)) = mset (lh_items lh)" by (simp add: same_table_def)
  show "lh_inv key hash (lh_maybe_resize array lh)"
    using r assms items_ok_perm [OF m, of key hash] mset_eq_length [OF m] by (simp add: lh_inv_def same_table_def)
  show "lh_map key (lh_maybe_resize array lh) = lh_map key lh"
    using item_map_perm [OF m [symmetric], of key hash] assms by (simp add: lh_map_def lh_inv_def)
  show "same_table lh (lh_maybe_resize array lh)" by (rule r)
qed

section \<open>The operations\<close>

text \<open>
  What the callbacks must do: data compare equal when their keys are the same, and equal data have the same hash.
  \<open>lh_ready\<close> is the invariant of a table that was created with them.
\<close>

definition good_callbacks :: "hash_caller \<Rightarrow> cmp_caller \<Rightarrow> addr \<Rightarrow> addr \<Rightarrow> (addr \<Rightarrow> 'k) \<Rightarrow> bool" where
  "good_callbacks call_hash_func call_cmp_func hash cmp key \<longleftrightarrow>
     (\<forall>x y. (call_cmp_func cmp x y = 0) = (key x = key y)) \<and> (\<forall>x y. key x = key y \<longrightarrow> call_hash_func hash x = call_hash_func hash y)"

definition lh_ready :: "hash_caller \<Rightarrow> addr \<Rightarrow> addr \<Rightarrow> (addr \<Rightarrow> 'k) \<Rightarrow> lhash \<Rightarrow> bool" where
  "lh_ready call_hash_func hash cmp key lh \<longleftrightarrow> lh_inv key (call_hash_func hash) lh \<and> hash_func lh = hash \<and> comp_func lh = cmp"

definition fresh_item :: "lh_alloc \<Rightarrow> lhash \<Rightarrow> bool" where
  "fresh_item al lh \<longleftrightarrow> new_item al \<notin> item_ptr ` set (lh_items lh)"

definition or_null :: "addr option \<Rightarrow> addr" where
  "or_null v = (case v of None \<Rightarrow> 0 | Some a \<Rightarrow> a)"

lemma or_null_simps [simp]: "or_null None = 0" "or_null (Some a) = a"
  by (simp_all add: or_null_def)

lemma new_ready:
  assumes "OPENSSL_lh_new table array hash cmp = Some lh"
  shows "lh_ready call_hash_func hash cmp key lh" "lh_map key lh = Map.empty" "callback_depth lh = 0"
  using assms by (auto simp: OPENSSL_lh_new_def lh_ready_def lh_inv_def placed_def items_ok_def lh_items_def lh_map_def
    kMinNumBuckets_def split: if_splits)

text \<open>The search finds the item with the key, if the table has one.\<close>

lemma search:
  assumes cb: "good_callbacks chf ccf hash cmp key" and lh: "lh_ready chf hash cmp key lh"
  obtains (missing) b k where "get_next_ptr_and_hash lh data chf ccf = ((b, k), chf hash data)" "b = bucket_of (chf hash data) (num_buckets lh)"
      "deref lh (b, k) = None" "k = length (buckets lh ! b)" "b < length (buckets lh)" "lh_map key lh (key data) = None"
  | (found) b k it rest where "get_next_ptr_and_hash lh data chf ccf = ((b, k), chf hash data)" "b = bucket_of (chf hash data) (num_buckets lh)"
      "deref lh (b, k) = Some it" "k < length (buckets lh ! b)" "buckets lh ! b ! k = it" "b < length (buckets lh)"
      "mset (lh_items lh) = mset (it # rest)" "rest = concat ((buckets lh)[b := take k (buckets lh ! b) @ drop (Suc k) (buckets lh ! b)])"
      "key (item_data it) = key data" "lh_map key lh (key data) = Some (item_data it)"
proof -
  let ?h = "chf hash data" and ?m = "\<lambda>cur. ccf cmp cur data = 0"
  let ?b = "bucket_of ?h (num_buckets lh)"
  let ?c = "buckets lh ! ?b" and ?k = "chain_pos ?m (buckets lh ! ?b)"
  have inv: "placed (num_buckets lh) (buckets lh)" "kMinNumBuckets \<le> num_buckets lh" "items_ok key (chf hash) (lh_items lh)"
    and f: "hash_func lh = hash" "comp_func lh = cmp" using lh by (simp_all add: lh_ready_def lh_inv_def)
  have m: "?m x \<longleftrightarrow> key x = key data" for x using cb by (simp add: good_callbacks_def)
  have b: "?b < length (buckets lh)" using inv(1) bucket_of_less [OF min_not_0 [OF inv(2)]] by (simp add: placed_def)
  have g: "get_next_ptr_and_hash lh data chf ccf = ((?b, ?k), ?h)" by (simp add: get_next_ptr_and_hash_def f Let_def)
  show thesis
  proof (cases "deref lh (?b, ?k)")
    case None
    have "key (item_data it) \<noteq> key data" if it: "it \<in> set (lh_items lh)" for it
    proof
      assume k: "key (item_data it) = key data"
      obtain c where c: "c \<in> set (buckets lh)" "it \<in> set c" using it by (auto simp: lh_items_def)
      obtain b' where "b' < length (buckets lh)" "buckets lh ! b' = c" using c(1) unfolding in_set_conv_nth by blast
      then have b': "b' < length (buckets lh)" "it \<in> set (buckets lh ! b')" using c(2) by simp_all
      have "chf hash (item_data it) = ?h" using cb k unfolding good_callbacks_def by blast
      then have "item_hash it = ?h" using inv(3) it by (simp add: items_ok_def)
      then have "b' = ?b" using inv(1) b' unfolding placed_def by metis
      then show False using None b'(2) k by (simp add: deref_chain_pos m)
    qed
    then have "lh_map key lh (key data) = None" by (simp add: lh_map_def item_map_None)
    moreover have "?k = length ?c" using None chain_pos_spec(1) [of ?m ?c] by (auto simp: deref_def Let_def split: if_splits)
    ultimately show ?thesis using missing [OF g refl None _ b] by blast
  next
    case (Some it)
    then have k: "?k < length ?c" "?c ! ?k = it" by (simp_all add: deref_def Let_def split: if_splits)
    have key: "key (item_data it) = key data" using chain_pos_spec(3) [OF k(1)] k(2) m by simp
    let ?rest = "concat ((buckets lh)[?b := take ?k ?c @ drop (Suc ?k) ?c])"
    have "mset ?rest + mset ?c = mset (lh_items lh) + mset (take ?k ?c @ drop (Suc ?k) ?c)"
      unfolding lh_items_def by (rule mset_concat_update [OF b])
    then have p: "mset (lh_items lh) = mset (it # ?rest)" using mset_remove_nth [OF k(1)] k(2) by simp
    then have "lh_map key lh = item_map key (it # ?rest)" unfolding lh_map_def by (rule item_map_perm [OF _ inv(3)])
    then have "lh_map key lh (key data) = Some (item_data it)" using key by simp
    then show ?thesis using found [OF g refl Some k b p refl key] by blast
  qed
qed

lemma retrieve_map:
  assumes "good_callbacks chf ccf hash cmp key" and "lh_ready chf hash cmp key lh"
  shows "OPENSSL_lh_retrieve lh data chf ccf = or_null (lh_map key lh (key data))"
  by (cases rule: search [OF assms, of data]) (simp_all add: OPENSSL_lh_retrieve_def)

text \<open>Putting a new item into the table, or taking one out, before the resizing.\<close>

lemma lh_readyI:
  assumes "lh_ready chf hash cmp key lh" and "placed (num_buckets lh) bs" and "mset (concat bs) = mset its" and "items_ok key (chf hash) its"
    and "unat n = length its"
  shows "lh_ready chf hash cmp key (lh\<lparr>buckets := bs, num_items := n\<rparr>)" "lh_map key (lh\<lparr>buckets := bs, num_items := n\<rparr>) = item_map key its"
proof -
  have "items_ok key (chf hash) (concat bs)" using items_ok_perm [OF assms(3)] assms(4) by blast
  then show "lh_ready chf hash cmp key (lh\<lparr>buckets := bs, num_items := n\<rparr>)" "lh_map key (lh\<lparr>buckets := bs, num_items := n\<rparr>) = item_map key its"
    using assms mset_eq_length [OF assms(3)] item_map_perm [OF assms(3)] by (simp_all add: lh_ready_def lh_inv_def lh_items_def lh_map_def)
qed

lemma resize_ready:
  assumes "lh_ready chf hash cmp key lh"
  shows "lh_ready chf hash cmp key (lh_maybe_resize array lh)" "lh_map key (lh_maybe_resize array lh) = lh_map key lh"
  using assms resize_inv [of key "chf hash" lh array] by (simp_all add: lh_ready_def same_table_def)

lemma insert_new:
  assumes lh: "lh_ready chf hash cmp key lh" and b: "b = bucket_of (chf hash data) (num_buckets lh)" "b < length (buckets lh)"
    and new: "lh_map key lh (key data) = None" "new_item al \<noteq> 0" "fresh_item al lh"
  defines "lh1 \<equiv> lh\<lparr>buckets := (buckets lh)[b := buckets lh ! b @ [\<lparr>item_ptr = new_item al, item_data = data, item_hash = chf hash data\<rparr>]],
      num_items := num_items lh + 1\<rparr>"
  shows "lh_ready chf hash cmp key lh1" "lh_map key lh1 = (lh_map key lh)(key data \<mapsto> data)"
proof -
  have inv: "placed (num_buckets lh) (buckets lh)" "items_ok key (chf hash) (lh_items lh)" "unat (num_items lh) = length (lh_items lh)"
    using lh by (simp_all add: lh_ready_def lh_inv_def)
  let ?it = "\<lparr>item_ptr = new_item al, item_data = data, item_hash = chf hash data\<rparr>"
  let ?bs = "(buckets lh)[b := buckets lh ! b @ [?it]]"
  have "placed (num_buckets lh) ?bs" using inv(1) b by (intro placed_update) (auto simp: placed_def)
  moreover have m: "mset (concat ?bs) = mset (?it # lh_items lh)"
    using mset_concat_update [OF b(2), of "buckets lh ! b @ [?it]"] by (simp add: lh_items_def)
  moreover have ok: "items_ok key (chf hash) (?it # lh_items lh)"
    using inv(2) new by (simp add: items_ok_Cons fresh_item_def lh_map_def)
  moreover have "unat (num_items lh + 1) = length (?it # lh_items lh)"
    using items_count [OF ok] inv(3) by (simp add: unat_word_ariths)
  ultimately have "lh_ready chf hash cmp key lh1" "lh_map key lh1 = item_map key (?it # lh_items lh)"
    unfolding lh1_def using lh_readyI [OF lh] by blast+
  then show "lh_ready chf hash cmp key lh1" "lh_map key lh1 = (lh_map key lh)(key data \<mapsto> data)"
    by (simp_all add: lh_map_def [of key lh])
qed

lemma replace_item:
  assumes lh: "lh_ready chf hash cmp key lh" and b: "b < length (buckets lh)" "k < length (buckets lh ! b)" "buckets lh ! b ! k = it"
    and rest: "mset (lh_items lh) = mset (it # rest)" and data: "key (item_data it) = key data" "chf hash (item_data it) = chf hash data"
  defines "lh1 \<equiv> lh\<lparr>buckets := (buckets lh)[b := (buckets lh ! b)[k := it\<lparr>item_data := data\<rparr>]]\<rparr>"
  shows "lh_ready chf hash cmp key lh1" "lh_map key lh1 = (lh_map key lh)(key data \<mapsto> data)"
proof -
  have inv: "placed (num_buckets lh) (buckets lh)" "items_ok key (chf hash) (lh_items lh)" "unat (num_items lh) = length (lh_items lh)"
    using lh by (simp_all add: lh_ready_def lh_inv_def)
  let ?it = "it\<lparr>item_data := data\<rparr>" and ?c = "buckets lh ! b"
  let ?bs = "(buckets lh)[b := ?c[k := ?it]]"
  have it: "items_ok key (chf hash) (it # rest)" using inv(2) items_ok_perm [OF rest] by blast
  have "\<forall>x \<in> set ?c. bucket_of (item_hash x) (num_buckets lh) = b" using inv(1) b(1) by (simp add: placed_def)
  then have "placed (num_buckets lh) ?bs" using inv(1) b(3) nth_mem [OF b(2)]
    by (intro placed_update) (auto dest!: set_update_subset_insert [THEN subsetD])
  moreover have "mset (concat ?bs) = mset (?it # rest)"
  proof -
    have "mset (?c[k := ?it]) = add_mset ?it (mset (take k ?c @ drop (Suc k) ?c))" using b(2) by (simp add: upd_conv_take_nth_drop)
    then have "mset (concat ?bs) + mset ?c = mset (lh_items lh) + add_mset ?it (mset (take k ?c @ drop (Suc k) ?c))"
      using mset_concat_update [OF b(1), of "?c[k := ?it]"] by (simp add: lh_items_def)
    then show ?thesis using mset_remove_nth [OF b(2)] b(3) rest by (simp add: add_mset_commute)
  qed
  moreover have "items_ok key (chf hash) (?it # rest)" using it data by (simp add: items_ok_Cons)
  moreover have "unat (num_items lh) = length (?it # rest)" using inv(3) mset_eq_length [OF rest] by simp
  ultimately have "lh_ready chf hash cmp key (lh\<lparr>buckets := ?bs, num_items := num_items lh\<rparr>)"
    "lh_map key (lh\<lparr>buckets := ?bs, num_items := num_items lh\<rparr>) = item_map key (?it # rest)"
    using lh_readyI [OF lh] by blast+
  moreover have "lh_map key lh = item_map key (it # rest)" unfolding lh_map_def by (rule item_map_perm [OF rest inv(2)])
  ultimately show "lh_ready chf hash cmp key lh1" "lh_map key lh1 = (lh_map key lh)(key data \<mapsto> data)"
    using data(1) by (simp_all add: lh1_def)
qed

lemma remove_item:
  assumes lh: "lh_ready chf hash cmp key lh" and b: "b < length (buckets lh)" and rest: "mset (lh_items lh) = mset (it # rest)"
    "rest = concat ((buckets lh)[b := take k (buckets lh ! b) @ drop (Suc k) (buckets lh ! b)])"
  defines "lh1 \<equiv> lh\<lparr>buckets := (buckets lh)[b := take k (buckets lh ! b) @ drop (Suc k) (buckets lh ! b)], num_items := num_items lh - 1\<rparr>"
  shows "lh_ready chf hash cmp key lh1" "lh_map key lh1 = (lh_map key lh)(key (item_data it) := None)"
proof -
  have inv: "placed (num_buckets lh) (buckets lh)" "items_ok key (chf hash) (lh_items lh)" "unat (num_items lh) = length (lh_items lh)"
    using lh by (simp_all add: lh_ready_def lh_inv_def)
  let ?bs = "(buckets lh)[b := take k (buckets lh ! b) @ drop (Suc k) (buckets lh ! b)]"
  have it: "items_ok key (chf hash) (it # rest)" using inv(2) items_ok_perm [OF rest(1)] by blast
  have "placed (num_buckets lh) ?bs" using inv(1) b
    by (intro placed_update) (auto simp: placed_def dest: in_set_takeD in_set_dropD)
  moreover have "items_ok key (chf hash) rest" using it by (simp add: items_ok_Cons)
  moreover have "unat (num_items lh - 1) = length rest"
    using inv(3) mset_eq_length [OF rest(1)] unat_minus_one [of "num_items lh"] by (cases "num_items lh = 0") simp_all
  ultimately have "lh_ready chf hash cmp key lh1" "lh_map key lh1 = item_map key rest"
    unfolding lh1_def using lh_readyI [OF lh, of ?bs rest] rest(2) by simp_all
  moreover have "lh_map key lh = item_map key (it # rest)" unfolding lh_map_def by (rule item_map_perm [OF rest(1) inv(2)])
  moreover have "item_map key rest (key (item_data it)) = None" using it by (simp add: items_ok_Cons)
  ultimately show "lh_ready chf hash cmp key lh1" "lh_map key lh1 = (lh_map key lh)(key (item_data it) := None)"
    by (simp_all add: fun_upd_idem)
qed

text \<open>The operations. Either nothing was counted, or the table was resized after one item came or went.\<close>

definition same_size :: "lhash \<Rightarrow> lhash \<Rightarrow> bool" where
  "same_size lh lh' \<longleftrightarrow> num_buckets lh' = num_buckets lh \<and> callback_depth lh' = callback_depth lh"

lemma insert_map:
  assumes cb: "good_callbacks chf ccf hash cmp key" and lh: "lh_ready chf hash cmp key lh" and fresh: "fresh_item al lh"
    and run: "OPENSSL_lh_insert al data chf ccf lh = ((ok, old), lh')"
  shows "lh_ready chf hash cmp key lh' \<and> old = or_null (if ok then lh_map key lh (key data) else None)
    \<and> (if ok then lh_map key lh' = (lh_map key lh)(key data \<mapsto> data) else lh' = lh \<and> new_item al = 0 \<and> lh_map key lh (key data) = None)"
    "num_items lh' = num_items lh \<and> same_size lh lh' \<or> (\<exists>lh1. lh' = lh_maybe_resize (new_array al) lh1 \<and> lh_ready chf hash cmp key lh1
      \<and> num_items lh1 = num_items lh + 1 \<and> same_size lh lh1)"
proof -
  let ?A = "lh_ready chf hash cmp key lh' \<and> old = or_null (if ok then lh_map key lh (key data) else None)
    \<and> (if ok then lh_map key lh' = (lh_map key lh)(key data \<mapsto> data) else lh' = lh \<and> new_item al = 0 \<and> lh_map key lh (key data) = None)"
  have "?A \<and> (num_items lh' = num_items lh \<and> same_size lh lh' \<or> (\<exists>lh1. lh' = lh_maybe_resize (new_array al) lh1 \<and> lh_ready chf hash cmp key lh1
      \<and> num_items lh1 = num_items lh + 1 \<and> same_size lh lh1))"
  proof (cases rule: search [OF cb lh, of data, case_names missing found])
    case (missing b k)
    show ?thesis
    proof (cases "new_item al = 0")
      case True
      then show ?thesis using run missing lh by (auto simp: OPENSSL_lh_insert_def same_size_def)
    next
      case False
      let ?lh1 = "lh\<lparr>buckets := (buckets lh)[b := buckets lh ! b @ [\<lparr>item_ptr = new_item al, item_data = data, item_hash = chf hash data\<rparr>]],
        num_items := num_items lh + 1\<rparr>"
      have "ok" "old = 0" "lh' = lh_maybe_resize (new_array al) ?lh1"
        using run missing(1,3,4) False by (auto simp: OPENSSL_lh_insert_def Let_def)
      moreover note r = insert_new [OF lh missing(2,5,6) False fresh]
      ultimately show ?thesis using resize_ready [OF r(1), of "new_array al"] missing(6) by (auto simp: same_size_def)
    qed
  next
    case (found b k it rest)
    have "chf hash (item_data it) = chf hash data" using cb found(9) unfolding good_callbacks_def by blast
    from replace_item [OF lh found(6,4,5,7,9) this] show ?thesis
      using run found(1,3,10) by (auto simp: OPENSSL_lh_insert_def Let_def same_size_def)
  qed
  then show ?A "num_items lh' = num_items lh \<and> same_size lh lh' \<or> (\<exists>lh1. lh' = lh_maybe_resize (new_array al) lh1 \<and> lh_ready chf hash cmp key lh1
      \<and> num_items lh1 = num_items lh + 1 \<and> same_size lh lh1)" by blast+
qed

lemma delete_map:
  assumes cb: "good_callbacks chf ccf hash cmp key" and lh: "lh_ready chf hash cmp key lh"
    and run: "OPENSSL_lh_delete array data chf ccf lh = (old, lh')"
  shows "lh_ready chf hash cmp key lh' \<and> old = or_null (lh_map key lh (key data)) \<and> lh_map key lh' = (lh_map key lh)(key data := None)"
    "lh' = lh \<or> (\<exists>lh1. lh' = lh_maybe_resize array lh1 \<and> lh_ready chf hash cmp key lh1 \<and> num_items lh \<noteq> 0
      \<and> num_items lh1 = num_items lh - 1 \<and> same_size lh lh1)"
proof -
  let ?A = "lh_ready chf hash cmp key lh' \<and> old = or_null (lh_map key lh (key data)) \<and> lh_map key lh' = (lh_map key lh)(key data := None)"
  have "?A \<and> (lh' = lh \<or> (\<exists>lh1. lh' = lh_maybe_resize array lh1 \<and> lh_ready chf hash cmp key lh1 \<and> num_items lh \<noteq> 0
      \<and> num_items lh1 = num_items lh - 1 \<and> same_size lh lh1))"
  proof (cases rule: search [OF cb lh, of data, case_names missing found])
    case (missing b k)
    then show ?thesis using run lh by (auto simp: OPENSSL_lh_delete_def fun_upd_idem)
  next
    case (found b k it rest)
    let ?lh1 = "lh\<lparr>buckets := (buckets lh)[b := take k (buckets lh ! b) @ drop (Suc k) (buckets lh ! b)], num_items := num_items lh - 1\<rparr>"
    have "num_items lh \<noteq> 0" using lh mset_eq_length [OF found(7)] by (auto simp: lh_ready_def lh_inv_def)
    moreover have "old = item_data it" "lh' = lh_maybe_resize array ?lh1" using run found(1,3) by (auto simp: OPENSSL_lh_delete_def Let_def)
    moreover note r = remove_item [OF lh found(6-8)]
    ultimately show ?thesis using resize_ready [OF r(1), of array] found(9,10) by (auto simp: same_size_def)
  qed
  then show ?A "lh' = lh \<or> (\<exists>lh1. lh' = lh_maybe_resize array lh1 \<and> lh_ready chf hash cmp key lh1 \<and> num_items lh \<noteq> 0
      \<and> num_items lh1 = num_items lh - 1 \<and> same_size lh lh1)" by blast+
qed

section \<open>The interface\<close>

text \<open>
  A container of data under keys, with operations that change it: every operation that is allowed in a state keeps the invariant
  and has its effect on the map the container stands for, and a search gives what the map has.
\<close>

fun allowed_run :: "('op \<Rightarrow> 't \<Rightarrow> 't) \<Rightarrow> ('op \<Rightarrow> 't \<Rightarrow> bool) \<Rightarrow> 'op list \<Rightarrow> 't \<Rightarrow> bool" where
  "allowed_run step allowed [] t \<longleftrightarrow> True"
| "allowed_run step allowed (op # ops) t \<longleftrightarrow> allowed op t \<and> allowed_run step allowed ops (step op t)"

locale data_map =
  fixes ready :: "'t \<Rightarrow> bool" and view :: "'t \<Rightarrow> 'k \<Rightarrow> addr option" and key :: "addr \<Rightarrow> 'k" and retrieve :: "'t \<Rightarrow> addr \<Rightarrow> addr"
    and count :: "'t \<Rightarrow> nat" and step :: "'op \<Rightarrow> 't \<Rightarrow> 't" and allowed :: "'op \<Rightarrow> 't \<Rightarrow> bool"
    and effect :: "'op \<Rightarrow> ('k \<Rightarrow> addr option) \<Rightarrow> 'k \<Rightarrow> addr option"
  assumes retrieve_view: "ready t \<Longrightarrow> retrieve t d = or_null (view t (key d))"
    and count_view: "ready t \<Longrightarrow> count t = card (dom (view t))"
    and step_ready: "ready t \<Longrightarrow> allowed op t \<Longrightarrow> ready (step op t)"
    and step_view: "ready t \<Longrightarrow> allowed op t \<Longrightarrow> view (step op t) = effect op (view t)"
begin

lemma run_refines:
  assumes "ready t" and "allowed_run step allowed ops t"
  shows "ready (fold step ops t) \<and> view (fold step ops t) = fold effect ops (view t)"
  using assms by (induction ops arbitrary: t) (simp_all add: step_ready step_view)

lemma run_retrieve:
  assumes "ready t" and "allowed_run step allowed ops t"
  shows "retrieve (fold step ops t) d = or_null (fold effect ops (view t) (key d))"
    "count (fold step ops t) = card (dom (fold effect ops (view t)))"
  using run_refines [OF assms] retrieve_view count_view by simp_all

end

datatype lh_op = Insert lh_alloc addr | Delete "u64 \<Rightarrow> bool" addr

primrec lh_step :: "hash_caller \<Rightarrow> cmp_caller \<Rightarrow> lh_op \<Rightarrow> lhash \<Rightarrow> lhash" where
  "lh_step chf ccf (Insert al d) lh = snd (OPENSSL_lh_insert al d chf ccf lh)"
| "lh_step chf ccf (Delete array d) lh = snd (OPENSSL_lh_delete array d chf ccf lh)"

primrec lh_allowed :: "lh_op \<Rightarrow> lhash \<Rightarrow> bool" where
  "lh_allowed (Insert al d) lh \<longleftrightarrow> fresh_item al lh"
| "lh_allowed (Delete array d) lh \<longleftrightarrow> True"

primrec map_step :: "(addr \<Rightarrow> 'k) \<Rightarrow> lh_op \<Rightarrow> ('k \<Rightarrow> addr option) \<Rightarrow> 'k \<Rightarrow> addr option" where
  "map_step key (Insert al d) m = (if new_item al = 0 \<and> m (key d) = None then m else m(key d \<mapsto> d))"
| "map_step key (Delete array d) m = m(key d := None)"

lemma insert_fails:
  assumes cb: "good_callbacks chf ccf hash cmp key" and lh: "lh_ready chf hash cmp key lh"
  shows "fst (fst (OPENSSL_lh_insert al data chf ccf lh)) \<longleftrightarrow> \<not> (new_item al = 0 \<and> lh_map key lh (key data) = None)"
  by (cases rule: search [OF cb lh, of data]) (auto simp: OPENSSL_lh_insert_def Let_def)

lemma lh_count:
  assumes "lh_ready chf hash cmp key lh"
  shows "unat (OPENSSL_lh_num_items lh) = card (dom (lh_map key lh))"
proof -
  let ?ks = "map (\<lambda>it. key (item_data it)) (lh_items lh)"
  have "dom (lh_map key lh) = set ?ks" by (auto simp: lh_map_def item_map_def dom_map_of_conv_image_fst image_image)
  moreover have "distinct ?ks" "unat (num_items lh) = length ?ks" using assms by (simp_all add: lh_ready_def lh_inv_def items_ok_def)
  ultimately show ?thesis using distinct_card [of ?ks] by (simp add: OPENSSL_lh_num_items_def)
qed

locale lh_callbacks =
  fixes call_hash_func :: hash_caller and call_cmp_func :: cmp_caller and hash :: addr and cmp :: addr and key :: "addr \<Rightarrow> 'k"
  assumes good: "good_callbacks call_hash_func call_cmp_func hash cmp key"

sublocale lh_callbacks \<subseteq> table: data_map "lh_ready call_hash_func hash cmp key" "lh_map key" key
  "\<lambda>lh d. OPENSSL_lh_retrieve lh d call_hash_func call_cmp_func" "\<lambda>lh. unat (OPENSSL_lh_num_items lh)"
  "lh_step call_hash_func call_cmp_func" lh_allowed "map_step key"
proof unfold_locales
  fix lh assume lh: "lh_ready call_hash_func hash cmp key lh"
  show "OPENSSL_lh_retrieve lh d call_hash_func call_cmp_func = or_null (lh_map key lh (key d))" for d
    by (rule retrieve_map [OF good lh])
  show "unat (OPENSSL_lh_num_items lh) = card (dom (lh_map key lh))" by (rule lh_count [OF lh])
  fix op assume op: "lh_allowed op lh"
  show "lh_ready call_hash_func hash cmp key (lh_step call_hash_func call_cmp_func op lh)"
  proof (cases op)
    case (Insert al d)
    then show ?thesis using insert_map(1) [OF good lh, of al d] op by (cases "OPENSSL_lh_insert al d call_hash_func call_cmp_func lh") auto
  next
    case (Delete array d)
    then show ?thesis using delete_map(1) [OF good lh, of array d] by (cases "OPENSSL_lh_delete array d call_hash_func call_cmp_func lh") auto
  qed
  show "lh_map key (lh_step call_hash_func call_cmp_func op lh) = map_step key op (lh_map key lh)"
  proof (cases op)
    case (Insert al d)
    then show ?thesis using insert_map(1) [OF good lh, of al d] insert_fails [OF good lh, of al d] op
      by (cases "OPENSSL_lh_insert al d call_hash_func call_cmp_func lh") (auto split: if_splits)
  next
    case (Delete array d)
    then show ?thesis using delete_map(1) [OF good lh, of array d] by (cases "OPENSSL_lh_delete array d call_hash_func call_cmp_func lh") auto
  qed
qed

context lh_callbacks
begin

lemma run_ready:
  assumes "lh_ready call_hash_func hash cmp key lh" and "allowed_run (lh_step call_hash_func call_cmp_func) lh_allowed ops lh"
  shows "lh_ready call_hash_func hash cmp key (fold (lh_step call_hash_func call_cmp_func) ops lh)"
  using table.run_refines [OF assms] by simp

lemma run_search:
  assumes "lh_ready call_hash_func hash cmp key lh" and "allowed_run (lh_step call_hash_func call_cmp_func) lh_allowed ops lh"
  shows "OPENSSL_lh_retrieve (fold (lh_step call_hash_func call_cmp_func) ops lh) d call_hash_func call_cmp_func
      = or_null (fold (map_step key) ops (lh_map key lh) (key d))
    \<and> unat (OPENSSL_lh_num_items (fold (lh_step call_hash_func call_cmp_func) ops lh)) = card (dom (fold (map_step key) ops (lh_map key lh)))"
  using table.run_retrieve [OF assms] by simp

end

end
