(* ===== verification/Lhash_Walk.thy ===== *)
theory Lhash_Walk
  imports Lhash_Correct
begin

text \<open>
  Chains stay short: with memory for the array, the average chain length is between the two bounds after every
  operation. A traversal calls the callback once for every item that was in the table, in the order of the buckets, also when
  the callback takes out the item it is called for.
\<close>

section \<open>Load\<close>

definition load_ok :: "lhash \<Rightarrow> bool" where
  "load_ok lh \<longleftrightarrow> unat (num_items lh) < 3 * unat (num_buckets lh)
     \<and> (kMinNumBuckets < num_buckets lh \<longrightarrow> num_buckets lh \<le> num_items lh)"

lemma rebucket_num:
  assumes "unat n < 2 ^ 61" and "array (8 * n)"
  shows "num_buckets (lh_rebucket array n lh) = n"
proof -
  have "unat (8 * n) = 8 * unat n" using assms(1) by (simp add: unat_word_ariths)
  then have "8 * n div 8 = n" by (simp add: word_unat_eq_iff unat_div)
  then show ?thesis using assms(2) by (simp add: lh_rebucket_def Let_def)
qed

lemma resize_load:
  assumes "kMinNumBuckets \<le> num_buckets lh" and "callback_depth lh = 0" and "\<And>k. array k"
    and "unat (num_items lh) < 2 ^ 61" and "unat (num_items lh) \<le> 3 * unat (num_buckets lh)"
    and "kMinNumBuckets < num_buckets lh \<longrightarrow> unat (num_buckets lh) \<le> Suc (unat (num_items lh))"
    and "placed (num_buckets lh) (buckets lh)"
  shows "load_ok (lh_maybe_resize array lh)"
proof -
  let ?n = "num_items lh" and ?b = "num_buckets lh"
  have b: "16 \<le> unat ?b" using assms(1) by (simp add: kMinNumBuckets_def word_le_nat_alt)
  have same: "num_items (lh_maybe_resize array lh) = ?n"
    using resize_same [OF assms(7,1), of array] by (simp add: same_table_def)
  have avg: "unat (?n div ?b) = unat ?n div unat ?b" by (rule unat_div)
  consider (grow) "kMaxAverageChainLength < ?n div ?b" | (shrink) "\<not> kMaxAverageChainLength < ?n div ?b" "?n div ?b < kMinAverageChainLength" "kMinNumBuckets < ?b"
    | (keep) "\<not> kMaxAverageChainLength < ?n div ?b" "kMinAverageChainLength \<le> ?n div ?b \<or> \<not> kMinNumBuckets < ?b" by fastforce
  then show ?thesis
  proof cases
    case grow
    then have "3 \<le> unat ?n div unat ?b" using avg by (simp add: kMaxAverageChainLength_def word_less_nat_alt)
    then have n: "unat ?n = 3 * unat ?b" using assms(5) b by (simp add: less_eq_div_iff_mult_less_eq)
    then have d: "unat (?b * 2) = 2 * unat ?b" using assms(4) by (simp add: unat_word_ariths)
    then have "?b < ?b * 2" using b by (simp add: word_less_nat_alt)
    then have "num_buckets (lh_maybe_resize array lh) = ?b * 2"
      using grow assms(2,3) n d assms(4) rebucket_num [of "?b * 2" array lh] by (simp add: lh_maybe_resize_def Let_def)
    then show ?thesis using same n d b by (simp add: load_ok_def word_le_nat_alt)
  next
    case shrink
    then have "unat ?n div unat ?b = 0" using avg by (simp add: kMinAverageChainLength_def word_less_nat_alt)
    then have n: "unat ?n < unat ?b" using b by (simp add: div_eq_0_iff)
    let ?h = "if ?b div 2 < kMinNumBuckets then kMinNumBuckets else ?b div 2"
    have h: "unat ?h = max 16 (unat ?b div 2)" by (auto simp: kMinNumBuckets_def word_less_nat_alt unat_div max_def)
    have "num_buckets (lh_maybe_resize array lh) = ?h"
      using shrink assms(2,3) h assms(4,6) rebucket_num [of ?h array lh] by (simp add: lh_maybe_resize_def Let_def)
    then show ?thesis unfolding load_ok_def same using h n assms(6) shrink(3) b
      by (simp add: word_le_nat_alt word_less_nat_alt kMinNumBuckets_def del: if_split) linarith
  next
    case keep
    have "lh_maybe_resize array lh = lh" using keep by (auto simp: lh_maybe_resize_def Let_def not_less)
    moreover have "unat ?n < 3 * unat ?b"
      using keep(1) avg b by (simp add: kMaxAverageChainLength_def word_less_nat_alt not_less div_less_iff_less_mult flip: less_Suc_eq_le)
    moreover have "?b \<le> ?n" if "kMinNumBuckets < ?b"
      using keep(2) that avg b by (simp add: kMinAverageChainLength_def word_le_nat_alt div_greater_zero_iff Suc_le_eq)
    ultimately show ?thesis by (simp add: load_ok_def)
  qed
qed

lemma step_load:
  assumes cb: "good_callbacks chf ccf hash cmp key" and lh: "lh_ready chf hash cmp key lh" and op: "lh_allowed op lh"
    and free: "callback_depth lh = 0" "case op of Insert al d \<Rightarrow> \<forall>k. new_array al k | Delete array d \<Rightarrow> \<forall>k. array k"
    and n: "unat (num_items lh) < 2 ^ 61 - 1" and load: "load_ok lh"
  shows "load_ok (lh_step chf ccf op lh) \<and> callback_depth (lh_step chf ccf op lh) = 0"
proof -
  have go: "load_ok (lh_maybe_resize array lh1) \<and> callback_depth (lh_maybe_resize array lh1) = 0"
    if "lh_ready chf hash cmp key lh1" "same_size lh lh1" "\<forall>k. array k" "unat (num_items lh1) \<in> {unat (num_items lh) - 1, Suc (unat (num_items lh))}" for lh1 array
  proof -
    have "placed (num_buckets lh1) (buckets lh1)" "kMinNumBuckets \<le> num_buckets lh1" "callback_depth lh1 = 0" "num_buckets lh1 = num_buckets lh"
      using that free(1) by (auto simp: lh_ready_def lh_inv_def same_size_def)
    then show ?thesis using that(3,4) n load resize_load [of lh1 array] resize_same [of lh1 array]
      by (auto simp: load_ok_def same_table_def word_le_nat_alt)
  qed
  show ?thesis
  proof (cases op)
    case (Insert al d)
    have up: "unat (num_items lh + 1) = Suc (unat (num_items lh))" using n by (simp add: unat_word_ariths)
    obtain ok old lh' where run: "OPENSSL_lh_insert al d chf ccf lh = ((ok, old), lh')" by (metis surj_pair)
    have "fresh_item al lh" using op Insert by simp
    from insert_map(2) [OF cb lh this run] show ?thesis using free load go up Insert run by (auto simp: load_ok_def same_size_def)
  next
    case (Delete array d)
    show ?thesis using delete_map(2) [OF cb lh surjective_pairing, of array d] free load go Delete by (auto simp: unat_minus_one)
  qed
qed

section \<open>Traversal\<close>

lemma chain_from_here:
  "item_ptr x \<notin> item_ptr ` set pre \<Longrightarrow> chain_from (item_ptr x) (pre @ x # rest) = x # rest"
  by (induction pre) auto

text \<open>The state of a walk that has come to the items \<open>rest\<close> of bucket \<open>i\<close> of the buckets \<open>bs\<close>.\<close>

definition walking :: "lhash_item list list \<Rightarrow> nat \<Rightarrow> lhash_item list \<Rightarrow> lhash \<Rightarrow> bool" where
  "walking bs i rest lh \<longleftrightarrow> length (buckets lh) = length bs \<and> (\<exists>old pre. bs ! i = old @ rest \<and> buckets lh ! i = pre @ rest \<and> set pre \<subseteq> set old)
     \<and> (\<forall>j. i < j \<longrightarrow> j < length bs \<longrightarrow> buckets lh ! j = bs ! j)"

lemma distinct_chains:
  assumes "distinct (map f (concat bs))" and "i < j" and "j < length bs" and "x \<in> set (bs ! i)" and "y \<in> set (bs ! j)"
  shows "f x \<noteq> f y"
proof -
  have "x \<in> set (concat (take j bs))" using assms(2-4) nth_mem [of i "take j bs"] by (auto intro!: bexI [of _ "bs ! i"])
  moreover have "distinct (map f (concat (take j bs) @ bs ! j @ concat (drop (Suc j) bs)))"
    using assms(1) id_take_nth_drop [OF assms(3)] by (metis concat.simps(2) concat_append)
  moreover have "f x \<noteq> f y" if "distinct (map f (A @ c @ B))" "x \<in> set A" "y \<in> set c" for A c B
    using that by (simp add: disjoint_iff) blast
  ultimately show ?thesis using assms(5) by blast
qed

lemma distinct_chain:
  assumes "distinct (map f (concat bs))" and "i < length bs"
  shows "distinct (map f (bs ! i))"
  using assms id_take_nth_drop [OF assms(2)] by (metis concat.simps(2) concat_append distinct_append map_append)

lemma walking_step:
  assumes w: "walking bs i (x # rest) lh" and i: "i < length bs" and d: "distinct (map item_data (concat bs))"
    and bk: "buckets lh' = buckets lh \<or> buckets lh' = map (filter (\<lambda>it. item_data it \<noteq> item_data x)) (buckets lh)"
  shows "walking bs i rest lh'"
proof -
  obtain old pre where op: "bs ! i = old @ x # rest" "buckets lh ! i = pre @ x # rest" "set pre \<subseteq> set old" "length (buckets lh) = length bs"
    and later: "\<forall>j. i < j \<longrightarrow> j < length bs \<longrightarrow> buckets lh ! j = bs ! j" using w by (auto simp: walking_def)
  have x: "x \<in> set (bs ! i)" using op(1) by simp
  have "item_data x \<notin> item_data ` (set old \<union> set rest)" using distinct_chain [OF d i] op(1) by auto
  then have "item_data y \<noteq> item_data x" if "y \<in> set pre \<union> set rest" for y using that op(3) by (metis UnE UnI1 UnI2 imageI subsetD)
  then have f: "filter (\<lambda>it. item_data it \<noteq> item_data x) (pre @ x # rest) = pre @ rest" by (simp add: filter_id_conv)
  have g: "filter (\<lambda>it. item_data it \<noteq> item_data x) (bs ! j) = bs ! j" if "i < j" "j < length bs" for j
    using distinct_chains [OF d that x] by (fastforce simp: filter_id_conv)
  from bk show ?thesis
  proof
    assume "buckets lh' = buckets lh"
    then show ?thesis unfolding walking_def using op later by (intro conjI exI [of _ "old @ [x]"] exI [of _ "pre @ [x]"]) auto
  next
    assume "buckets lh' = map (filter (\<lambda>it. item_data it \<noteq> item_data x)) (buckets lh)"
    then show ?thesis unfolding walking_def using op later f g i by (intro conjI exI [of _ "old @ [x]"] exI [of _ pre]) auto
  qed
qed

text \<open>
  Callbacks that keep the table, or take out no more than the item they are called for. \<open>good\<close> is what the callback relies
  on and keeps.
\<close>

locale walk_callback =
  fixes upd :: "addr \<Rightarrow> lhash \<Rightarrow> lhash" and good :: "lhash \<Rightarrow> bool"
  assumes keeps: "good lh \<Longrightarrow> d \<in> item_data ` set (lh_items lh) \<Longrightarrow> good (upd d lh)"
    and drops: "good lh \<Longrightarrow> d \<in> item_data ` set (lh_items lh) \<Longrightarrow>
      buckets (upd d lh) = buckets lh \<or> buckets (upd d lh) = map (filter (\<lambda>it. item_data it \<noteq> d)) (buckets lh)"
begin

lemma walk_chain:
  assumes "walking bs i rest lh" and "good lh" and i: "i < length bs" and bs: "items_ok key hash (concat bs)" "distinct (map item_data (concat bs))"
    and "length rest \<le> fuel"
  shows "\<exists>lh'. doall_chain fuel (\<lambda>d (lh, s). (upd d lh, g d s)) i (head_ptr rest) (lh, s) = Some (lh', fold g (map item_data rest) s)
    \<and> lh' = fold upd (map item_data rest) lh \<and> good lh' \<and> walking bs i [] lh'"
  using assms(1,2,6)
proof (induction rest arbitrary: lh s fuel)
  case Nil
  then show ?case by (cases fuel) (simp_all add: head_ptr_def)
next
  case (Cons x rest)
  obtain f where f: "fuel = Suc f" "length rest \<le> f" using Cons.prems(3) by (cases fuel) auto
  obtain old pre where op: "bs ! i = old @ x # rest" "buckets lh ! i = pre @ x # rest" "set pre \<subseteq> set old" "length (buckets lh) = length bs"
    using Cons.prems(1) by (auto simp: walking_def)
  have p: "distinct (map item_ptr (concat bs))" "0 \<notin> item_ptr ` set (concat bs)" using bs(1) by (simp_all add: items_ok_def)
  have "item_ptr x \<notin> item_ptr ` set pre" using distinct_chain [OF p(1) i] op(1,3) by auto
  then have c: "chain_from (item_ptr x) (buckets lh ! i) = x # rest" by (simp add: op(2) chain_from_here)
  have "x \<in> set (concat bs)" using op(1) nth_mem [OF i] by (auto intro!: bexI [of _ "bs ! i"])
  then have z: "item_ptr x \<noteq> 0" using p(2) by auto
  have "x \<in> set (lh_items lh)" using op(2,4) nth_mem [of i "buckets lh"] i by (auto simp: lh_items_def intro!: bexI [of _ "buckets lh ! i"])
  then have m: "item_data x \<in> item_data ` set (lh_items lh)" by simp
  have "walking bs i rest (upd (item_data x) lh)" "good (upd (item_data x) lh)"
    using walking_step [OF Cons.prems(1) i bs(2)] drops [OF Cons.prems(2) m] keeps [OF Cons.prems(2) m] by blast+
  from Cons.IH [OF this f(2), of "g (item_data x) s"] show ?case
    using c z by (simp add: f(1) head_ptr_def [of "x # rest"])
qed

lemma walk_buckets:
  assumes "i \<le> length bs" and "length (buckets lh) = length bs" and "\<forall>j. i \<le> j \<longrightarrow> j < length bs \<longrightarrow> buckets lh ! j = bs ! j" and "good lh"
    and bs: "items_ok key hash (concat bs)" "distinct (map item_data (concat bs))" and fuel: "length (concat bs) \<le> fuel"
  shows "doall_buckets fuel (\<lambda>d (lh, s). (upd d lh, g d s)) [i..<length bs] (lh, s)
    = Some (fold upd (map item_data (concat (drop i bs))) lh, fold g (map item_data (concat (drop i bs))) s)"
  using assms(1-4)
proof (induction "length bs - i" arbitrary: i lh s)
  case 0
  then show ?case by simp
next
  case (Suc k)
  then have i: "i < length bs" by simp
  have l: "length (bs ! i) \<le> fuel" using fuel id_take_nth_drop [OF i] by (metis concat.simps(2) concat_append le_add1 le_add2 length_append order_trans)
  have "walking bs i (bs ! i) lh" unfolding walking_def using Suc.prems i by (intro conjI exI [of _ "[]"]) auto
  from walk_chain [OF this Suc.prems(4) i bs l, of g s] obtain lh' where
    run: "doall_chain fuel (\<lambda>d (lh, s). (upd d lh, g d s)) i (head_ptr (bs ! i)) (lh, s) = Some (lh', fold g (map item_data (bs ! i)) s)"
    and lh': "lh' = fold upd (map item_data (bs ! i)) lh" "good lh'" "walking bs i [] lh'" by blast
  have "doall_buckets fuel (\<lambda>d (lh, s). (upd d lh, g d s)) [Suc i..<length bs] (lh', fold g (map item_data (bs ! i)) s)
      = Some (fold upd (map item_data (concat (drop (Suc i) bs))) lh', fold g (map item_data (concat (drop (Suc i) bs))) (fold g (map item_data (bs ! i)) s))"
    by (rule Suc.hyps(1)) (use Suc.hyps(2) i lh'(2,3) in \<open>auto simp: walking_def\<close>)
  then show ?case using run lh'(1) i Suc.prems(3) by (simp add: upt_rec [of i] Cons_nth_drop_Suc [symmetric])
qed

end

section \<open>Walks over a table\<close>

lemma ready_data:
  assumes "lh_ready chf hash cmp key lh"
  shows "items_ok key (chf hash) (concat (buckets lh))" "distinct (map item_data (concat (buckets lh)))" "length (buckets lh) = unat (num_buckets lh)"
proof -
  show ok: "items_ok key (chf hash) (concat (buckets lh))" "length (buckets lh) = unat (num_buckets lh)"
    using assms by (simp_all add: lh_ready_def lh_inv_def lh_items_def placed_def)
  then have "distinct (map key (map item_data (concat (buckets lh))))" by (simp add: items_ok_def o_def)
  then show "distinct (map item_data (concat (buckets lh)))" using distinct_map by blast
qed

lemma callback_fields [simp]:
  "buckets (enter_callback lh) = buckets lh" "num_buckets (enter_callback lh) = num_buckets lh" "num_items (enter_callback lh) = num_items lh"
  "hash_func (enter_callback lh) = hash_func lh" "comp_func (enter_callback lh) = comp_func lh"
  "buckets (leave_callback lh) = buckets lh" "num_buckets (leave_callback lh) = num_buckets lh" "num_items (leave_callback lh) = num_items lh"
  "hash_func (leave_callback lh) = hash_func lh" "comp_func (leave_callback lh) = comp_func lh"
  by (simp_all add: enter_callback_def leave_callback_def)

lemma callback_ready [simp]:
  "lh_ready chf hash cmp key (enter_callback lh) = lh_ready chf hash cmp key lh"
  "lh_ready chf hash cmp key (leave_callback lh) = lh_ready chf hash cmp key lh"
  "lh_map key (leave_callback lh) = lh_map key lh" "lh_map key (enter_callback lh) = lh_map key lh"
  by (simp_all add: lh_ready_def lh_inv_def lh_items_def lh_map_def)

lemma in_callback: "callback_depth (enter_callback lh) > 0"
proof (cases "callback_depth lh < 0xFFFFFFFF")
  case True
  then have "unat (callback_depth lh + 1) = Suc (unat (callback_depth lh))" by (rule unat_plus_one_less)
  then show ?thesis using True by (simp add: enter_callback_def word_less_nat_alt)
qed (auto simp: enter_callback_def word_less_nat_alt)

context walk_callback
begin

lemma doall:
  assumes lh: "lh_ready chf hash cmp key lh" and "good (enter_callback lh)" and "length (lh_items lh) \<le> fuel"
  shows "OPENSSL_lh_doall_arg fuel array (\<lambda>d (lh, s). (upd d lh, g d s)) (lh, s)
    = Some (lh_maybe_resize array (leave_callback (fold upd (map item_data (lh_items lh)) (enter_callback lh))), fold g (map item_data (lh_items lh)) s)"
  using walk_buckets [of 0 "buckets lh" "enter_callback lh" key "chf hash" fuel g s] assms ready_data [OF lh]
  by (simp add: OPENSSL_lh_doall_arg_def lh_items_def)

end

interpretation look: walk_callback "\<lambda>d lh. lh" "\<lambda>lh. True"
  by unfold_locales simp_all

text \<open>A callback that deletes what it is called for.\<close>

lemma filter_one:
  assumes "distinct (map f c)" and "k < length c"
  shows "filter (\<lambda>x. f x \<noteq> f (c ! k)) c = take k c @ drop (Suc k) c"
proof -
  have "filter (\<lambda>x. f x \<noteq> f y) (A @ y # B) = A @ B" if "distinct (map f (A @ y # B))" for A y B
  proof -
    have "f x \<noteq> f y" if "x \<in> set A \<union> set B" for x using that \<open>distinct (map f (A @ y # B))\<close> by (auto simp: image_iff)
    then show ?thesis by (simp add: filter_id_conv)
  qed
  then show ?thesis using assms id_take_nth_drop [OF assms(2)] by metis
qed

lemma filter_buckets:
  assumes d: "distinct (map f (concat bs))" and b: "b < length bs" and k: "k < length (bs ! b)"
  shows "map (filter (\<lambda>x. f x \<noteq> f (bs ! b ! k))) bs = bs[b := take k (bs ! b) @ drop (Suc k) (bs ! b)]"
proof (rule nth_equalityI)
  fix j assume "j < length (map (filter (\<lambda>x. f x \<noteq> f (bs ! b ! k))) bs)"
  then have j: "j < length bs" by simp
  have m: "bs ! b ! k \<in> set (bs ! b)" using k by simp
  have "f x \<noteq> f (bs ! b ! k)" if "j \<noteq> b" "x \<in> set (bs ! j)" for x
    using that distinct_chains [OF d _ j m that(2)] distinct_chains [OF d _ b that(2) m] by (metis linorder_neq_iff)
  then show "map (filter (\<lambda>x. f x \<noteq> f (bs ! b ! k))) bs ! j = bs[b := take k (bs ! b) @ drop (Suc k) (bs ! b)] ! j"
    using j b filter_one [OF distinct_chain [OF d b] k] by (cases "j = b") (simp_all add: filter_id_conv)
qed simp

lemma delete_callback:
  assumes cb: "good_callbacks chf ccf hash cmp key"
  shows "walk_callback (\<lambda>d lh. snd (OPENSSL_lh_delete array d chf ccf lh)) (\<lambda>lh. lh_ready chf hash cmp key lh \<and> callback_depth lh > 0)"
proof
  fix lh d assume "lh_ready chf hash cmp key lh \<and> callback_depth lh > 0" and d: "d \<in> item_data ` set (lh_items lh)"
  then have lh: "lh_ready chf hash cmp key lh" and depth: "callback_depth lh > 0" by simp_all
  let ?lh' = "snd (OPENSSL_lh_delete array d chf ccf lh)"
  have r: "lh_ready chf hash cmp key ?lh'" using delete_map(1) [OF cb lh surjective_pairing] by simp
  obtain x where x: "x \<in> set (lh_items lh)" "item_data x = d" using d by auto
  have "callback_depth ?lh' = callback_depth lh \<and> buckets ?lh' = map (filter (\<lambda>it. item_data it \<noteq> d)) (buckets lh)"
  proof (cases rule: search [OF cb lh, of d, case_names missing found])
    case (missing b k)
    then show ?thesis using x by (auto simp: lh_map_def item_map_None)
  next
    case (found b k it rest)
    have "it \<in> set (lh_items lh)" using mset_eq_setD [OF found(7)] by simp
    moreover have "inj_on (\<lambda>it. key (item_data it)) (set (lh_items lh))"
      using lh by (simp add: lh_ready_def lh_inv_def items_ok_def distinct_map)
    ultimately have it: "it = x" using x found(9) by (auto dest: inj_onD)
    have "?lh' = lh\<lparr>buckets := (buckets lh)[b := take k (buckets lh ! b) @ drop (Suc k) (buckets lh ! b)], num_items := num_items lh - 1\<rparr>"
      using found(1,3) depth by (simp add: OPENSSL_lh_delete_def Let_def lh_maybe_resize_def)
    then show ?thesis using filter_buckets [OF ready_data(2) [OF lh] found(6,4)] found(5) it x(2) by simp
  qed
  then show "lh_ready chf hash cmp key ?lh' \<and> callback_depth ?lh' > 0"
    "buckets ?lh' = buckets lh \<or> buckets ?lh' = map (filter (\<lambda>it. item_data it \<noteq> d)) (buckets lh)"
    using r depth by simp_all
qed

lemma fold_forget: "fold (\<lambda>d m. m(key d := None)) ds m = m |` (- key ` set ds)"
  by (induction ds arbitrary: m) (auto simp: restrict_map_def fun_eq_iff)

lemma ready_empty:
  assumes "lh_ready chf hash cmp key lh" and "lh_map key lh = Map.empty"
  shows "lh_items lh = []" "num_items lh = 0"
proof -
  show "lh_items lh = []" using assms(2) by (cases "lh_items lh") (auto simp: lh_map_def)
  then show "num_items lh = 0" using assms(1) by (simp add: lh_ready_def lh_inv_def unat_eq_0)
qed

text \<open>So deleting every element while walking over the table empties it.\<close>

lemma doall_delete:
  assumes cb: "good_callbacks chf ccf hash cmp key" and lh: "lh_ready chf hash cmp key lh" and fuel: "length (lh_items lh) \<le> fuel"
  shows "\<exists>lh'. OPENSSL_lh_doall_arg fuel array (\<lambda>d (lh, s). (snd (OPENSSL_lh_delete array d chf ccf lh), g d s)) (lh, s)
      = Some (lh', fold g (map item_data (lh_items lh)) s) \<and> lh_ready chf hash cmp key lh' \<and> OPENSSL_lh_num_items lh' = 0 \<and> lh_items lh' = []"
proof -
  let ?del = "\<lambda>d lh. snd (OPENSSL_lh_delete array d chf ccf lh)" and ?ds = "map item_data (lh_items lh)"
  let ?lh1 = "fold ?del ?ds (enter_callback lh)"
  have "lh_ready chf hash cmp key (fold ?del ds lh0) \<and> lh_map key (fold ?del ds lh0) = fold (\<lambda>d m. m(key d := None)) ds (lh_map key lh0)"
    if "lh_ready chf hash cmp key lh0" for ds lh0
    using that
  proof (induction ds arbitrary: lh0)
    case (Cons d ds)
    then show ?case using delete_map(1) [OF cb Cons.prems surjective_pairing, of array d] by simp
  qed simp
  from this [of "enter_callback lh" ?ds] have r: "lh_ready chf hash cmp key ?lh1" "lh_map key ?lh1 = lh_map key lh |` (- key ` set ?ds)"
    using lh by (simp_all add: fold_forget)
  have "lh_map key lh |` (- key ` set ?ds) = Map.empty"
    by (auto simp: restrict_map_def fun_eq_iff lh_map_def item_map_None)
  then have e: "lh_ready chf hash cmp key (lh_maybe_resize array (leave_callback ?lh1))" "lh_map key (lh_maybe_resize array (leave_callback ?lh1)) = Map.empty"
    using r resize_ready [of chf hash cmp key "leave_callback ?lh1" array] by simp_all
  have "lh_ready chf hash cmp key (enter_callback lh) \<and> callback_depth (enter_callback lh) > 0" using lh in_callback by simp
  note run = walk_callback.doall [OF delete_callback [OF cb] lh this fuel]
  show ?thesis
    by (rule exI, intro conjI, rule run) (use e ready_empty [OF e] in \<open>simp_all add: OPENSSL_lh_num_items_def\<close>)
qed

end
