(* ===== verification/Pool.thy ===== *)
theory Pool
  imports Lhash Cbb
begin

text \<open>
  BoringSSL's pool of shared buffers (\<open>crypto/pool/pool.c\<close>), a client of the hash table, with the reference counts of
  \<open>refcount_c11.c\<close> and the hash of \<open>mem.c\<close>. The state holds the table of one pool and the buffers that are allocated.
  A call gives \<open>None\<close> when it touches a buffer that was freed, when a reference count of zero is decremented
  (\<open>abort\<close>), or when an assertion fails. The critical sections of the locks are single functions:
  \<open>new_lookup\<close> is the part of \<open>crypto_buffer_new\<close> under the read lock, \<open>new_insert\<close> the rest of it.
\<close>

section \<open>Hashes and reference counts\<close>

definition OPENSSL_hash32 :: "u8 list \<Rightarrow> u32" where
  "OPENSSL_hash32 bytes = foldl (\<lambda>h b. (h XOR ucast b) * 16777619) 2166136261 bytes"

definition CRYPTO_REFCOUNT_MAX :: u32 where
  "CRYPTO_REFCOUNT_MAX = 0xFFFFFFFF"

definition CRYPTO_refcount_inc :: "u32 \<Rightarrow> u32" where
  "CRYPTO_refcount_inc count = (if count \<noteq> CRYPTO_REFCOUNT_MAX then count + 1 else count)"

text \<open>The result and the new count; \<open>None\<close> is \<open>abort\<close>.\<close>

definition CRYPTO_refcount_dec_and_test_zero :: "u32 \<Rightarrow> (bool \<times> u32) option" where
  "CRYPTO_refcount_dec_and_test_zero count =
     (if count = 0 then None
      else if count = CRYPTO_REFCOUNT_MAX then Some (False, count)
      else Some (count - 1 = 0, count - 1))"

section \<open>Buffers\<close>

record crypto_buffer =
  in_pool :: bool
  buf_data :: "u8 list"
  references :: u32
  data_is_static :: bool

type_synonym buffers = "addr \<Rightarrow> crypto_buffer option"

record pool_state =
  pool_bufs :: lhash
  heap :: buffers

definition buf_bytes :: "buffers \<Rightarrow> addr \<Rightarrow> u8 list" where
  "buf_bytes h p = (case h p of None \<Rightarrow> [] | Some b \<Rightarrow> buf_data b)"

definition CRYPTO_BUFFER_hash :: "buffers \<Rightarrow> addr \<Rightarrow> u32" where
  "CRYPTO_BUFFER_hash h p = OPENSSL_hash32 (buf_bytes h p)"

definition CRYPTO_BUFFER_cmp :: "buffers \<Rightarrow> addr \<Rightarrow> addr \<Rightarrow> int" where
  "CRYPTO_BUFFER_cmp h a b =
     (if length (buf_bytes h a) \<noteq> length (buf_bytes h b) then 1 else memcmp (buf_bytes h a) (buf_bytes h b))"

text \<open>The typed wrappers of \<open>DEFINE_LHASH_OF(CRYPTO_BUFFER)\<close>; a search may read every buffer in the table.\<close>

definition lh_CRYPTO_BUFFER_call_hash_func :: "buffers \<Rightarrow> hash_caller" where
  "lh_CRYPTO_BUFFER_call_hash_func h func p = CRYPTO_BUFFER_hash h p"

definition lh_CRYPTO_BUFFER_call_cmp_func :: "buffers \<Rightarrow> cmp_caller" where
  "lh_CRYPTO_BUFFER_call_cmp_func h func a b = CRYPTO_BUFFER_cmp h a b"

definition all_live :: "buffers \<Rightarrow> lhash \<Rightarrow> addr \<Rightarrow> bool" where
  "all_live h lh p \<longleftrightarrow> h p \<noteq> None \<and> list_all (\<lambda>item. h (item_data item) \<noteq> None) (concat (buckets lh))"

definition lh_CRYPTO_BUFFER_retrieve :: "buffers \<Rightarrow> lhash \<Rightarrow> addr \<Rightarrow> addr option" where
  "lh_CRYPTO_BUFFER_retrieve h lh p =
     (if all_live h lh p
      then Some (OPENSSL_lh_retrieve lh p (lh_CRYPTO_BUFFER_call_hash_func h) (lh_CRYPTO_BUFFER_call_cmp_func h)) else None)"

definition CRYPTO_BUFFER_POOL_new :: "bool \<Rightarrow> bool \<Rightarrow> (u64 \<Rightarrow> bool) \<Rightarrow> addr \<Rightarrow> addr \<Rightarrow> buffers \<Rightarrow> pool_state option" where
  "CRYPTO_BUFFER_POOL_new pool table array hash cmp h =
     (if \<not> pool then None
      else case OPENSSL_lh_new table array hash cmp of None \<Rightarrow> None | Some lh \<Rightarrow> Some \<lparr>pool_bufs = lh, heap = h\<rparr>)"

text \<open>The addresses of the items that are released; \<open>debug\<close> says whether assertions are compiled in.\<close>

definition CRYPTO_BUFFER_POOL_free :: "bool \<Rightarrow> pool_state \<Rightarrow> addr list option" where
  "CRYPTO_BUFFER_POOL_free debug st =
     (if debug \<and> OPENSSL_lh_num_items (pool_bufs st) \<noteq> 0 then None else Some (OPENSSL_lh_free (Some (pool_bufs st))))"

section \<open>Making buffers\<close>

record pool_alloc =
  new_buf :: addr
  can_dup :: bool
  for_table :: lh_alloc

definition add_reference :: "addr \<Rightarrow> pool_state \<Rightarrow> pool_state option" where
  "add_reference p st =
     (case heap st p of
        None \<Rightarrow> None
      | Some b \<Rightarrow> Some (st\<lparr>heap := (heap st)(p \<mapsto> b\<lparr>references := CRYPTO_refcount_inc (references b)\<rparr>)\<rparr>))"

text \<open>A duplicate with data of its own is ignored when the new data are static.\<close>

definition use_duplicate :: "bool \<Rightarrow> buffers \<Rightarrow> addr \<Rightarrow> addr" where
  "use_duplicate is_static h duplicate =
     (if is_static \<and> duplicate \<noteq> 0 \<and> (case h duplicate of None \<Rightarrow> False | Some b \<Rightarrow> \<not> data_is_static b) then 0 else duplicate)"

text \<open>\<open>tmp\<close> is the address of the local buffer that the search is made with; the result is null when there is no duplicate to use.\<close>

definition new_lookup :: "addr \<Rightarrow> u8 list \<Rightarrow> bool \<Rightarrow> pool_state \<Rightarrow> (addr \<times> pool_state) option" where
  "new_lookup tmp data is_static st =
     (let h = (heap st)(tmp \<mapsto> \<lparr>in_pool = False, buf_data = data, references = 0, data_is_static = False\<rparr>)
      in case lh_CRYPTO_BUFFER_retrieve h (pool_bufs st) tmp of
           None \<Rightarrow> None
         | Some duplicate \<Rightarrow>
             let duplicate = use_duplicate is_static h duplicate
             in if duplicate = 0 then Some (0, st)
                else map_option (\<lambda>st. (duplicate, st)) (add_reference duplicate st))"

definition new_buffer :: "bool \<Rightarrow> u8 list \<Rightarrow> bool \<Rightarrow> crypto_buffer" where
  "new_buffer pooled data is_static = \<lparr>in_pool = pooled, buf_data = data, references = 1, data_is_static = is_static\<rparr>"

definition alloc_fails :: "pool_alloc \<Rightarrow> u8 list \<Rightarrow> bool \<Rightarrow> bool" where
  "alloc_fails al data is_static \<longleftrightarrow> new_buf al = 0 \<or> \<not> is_static \<and> data \<noteq> [] \<and> \<not> can_dup al"

definition new_insert :: "pool_alloc \<Rightarrow> u8 list \<Rightarrow> bool \<Rightarrow> pool_state \<Rightarrow> (addr \<times> pool_state) option" where
  "new_insert al data is_static st =
     (if alloc_fails al data is_static then Some (0, st)
      else let buf = new_buf al; h = (heap st)(buf \<mapsto> new_buffer True data is_static)
        in case lh_CRYPTO_BUFFER_retrieve h (pool_bufs st) buf of
             None \<Rightarrow> None
           | Some duplicate \<Rightarrow>
               let duplicate = use_duplicate is_static h duplicate
               in if duplicate = 0 then
                    let ((inserted, old), lh) = OPENSSL_lh_insert (for_table al) buf (lh_CRYPTO_BUFFER_call_hash_func h)
                          (lh_CRYPTO_BUFFER_call_cmp_func h) (pool_bufs st)
                    in if inserted then Some (buf, st\<lparr>pool_bufs := lh, heap := h\<rparr>) else Some (0, st\<lparr>pool_bufs := lh\<rparr>)
                  else map_option (\<lambda>st. (duplicate, st)) (add_reference duplicate st))"

definition new_alone :: "pool_alloc \<Rightarrow> u8 list \<Rightarrow> bool \<Rightarrow> pool_state \<Rightarrow> (addr \<times> pool_state) option" where
  "new_alone al data is_static st =
     (if alloc_fails al data is_static then Some (0, st)
      else Some (new_buf al, st\<lparr>heap := (heap st)(new_buf al \<mapsto> new_buffer False data is_static)\<rparr>))"

definition crypto_buffer_new :: "addr \<Rightarrow> pool_alloc \<Rightarrow> u8 list \<Rightarrow> bool \<Rightarrow> bool \<Rightarrow> pool_state \<Rightarrow> (addr \<times> pool_state) option" where
  "crypto_buffer_new tmp al data is_static pool st =
     (if \<not> pool then new_alone al data is_static st
      else case new_lookup tmp data is_static st of
        None \<Rightarrow> None
      | Some (duplicate, st) \<Rightarrow> if duplicate \<noteq> 0 then Some (duplicate, st) else new_insert al data is_static st)"

definition CRYPTO_BUFFER_new :: "addr \<Rightarrow> pool_alloc \<Rightarrow> u8 list \<Rightarrow> bool \<Rightarrow> pool_state \<Rightarrow> (addr \<times> pool_state) option" where
  "CRYPTO_BUFFER_new tmp al data pool st = crypto_buffer_new tmp al data False pool st"

text \<open>The memory that \<open>malloc\<close> gives holds \<open>junk\<close>.\<close>

definition CRYPTO_BUFFER_alloc :: "pool_alloc \<Rightarrow> u8 list \<Rightarrow> pool_state \<Rightarrow> (addr \<times> pool_state) option" where
  "CRYPTO_BUFFER_alloc al junk st = new_alone al junk False st"

definition CRYPTO_BUFFER_new_from_CBS :: "addr \<Rightarrow> pool_alloc \<Rightarrow> cbs \<Rightarrow> bool \<Rightarrow> pool_state \<Rightarrow> (addr \<times> pool_state) option" where
  "CRYPTO_BUFFER_new_from_CBS tmp al cbs pool st = CRYPTO_BUFFER_new tmp al cbs pool st"

definition CRYPTO_BUFFER_new_from_static_data_unsafe :: "addr \<Rightarrow> pool_alloc \<Rightarrow> u8 list \<Rightarrow> bool \<Rightarrow> pool_state \<Rightarrow> (addr \<times> pool_state) option" where
  "CRYPTO_BUFFER_new_from_static_data_unsafe tmp al data pool st = crypto_buffer_new tmp al data True pool st"

section \<open>Releasing and reading\<close>

text \<open>The deletion of the last reference from the table, under the write lock, and the check of what was deleted.\<close>

definition remove_from_pool :: "(u64 \<Rightarrow> bool) \<Rightarrow> addr \<Rightarrow> pool_state \<Rightarrow> pool_state option" where
  "remove_from_pool array buf st =
     (case lh_CRYPTO_BUFFER_retrieve (heap st) (pool_bufs st) buf of
        None \<Rightarrow> None
      | Some found \<Rightarrow>
          if found = buf then
            let (found, lh) = OPENSSL_lh_delete array buf (lh_CRYPTO_BUFFER_call_hash_func (heap st)) (lh_CRYPTO_BUFFER_call_cmp_func (heap st)) (pool_bufs st)
            in if found = buf then Some (st\<lparr>pool_bufs := lh\<rparr>) else None
          else Some st)"

definition crypto_buffer_free_object :: "addr \<Rightarrow> pool_state \<Rightarrow> pool_state" where
  "crypto_buffer_free_object buf st = st\<lparr>heap := (heap st)(buf := None)\<rparr>"

definition CRYPTO_BUFFER_free :: "(u64 \<Rightarrow> bool) \<Rightarrow> addr \<Rightarrow> pool_state \<Rightarrow> pool_state option" where
  "CRYPTO_BUFFER_free array buf st =
     (if buf = 0 then Some st
      else case heap st buf of
        None \<Rightarrow> None
      | Some b \<Rightarrow>
          (case CRYPTO_refcount_dec_and_test_zero (references b) of
             None \<Rightarrow> None
           | Some (zero, count) \<Rightarrow>
               let st = st\<lparr>heap := (heap st)(buf \<mapsto> b\<lparr>references := count\<rparr>)\<rparr>
               in if \<not> zero then Some st
                  else if \<not> in_pool b then Some (crypto_buffer_free_object buf st)
                  else map_option (crypto_buffer_free_object buf) (remove_from_pool array buf st)))"

definition CRYPTO_BUFFER_up_ref :: "addr \<Rightarrow> pool_state \<Rightarrow> pool_state option" where
  "CRYPTO_BUFFER_up_ref buf st = add_reference buf st"

definition CRYPTO_BUFFER_data :: "addr \<Rightarrow> pool_state \<Rightarrow> u8 list option" where
  "CRYPTO_BUFFER_data buf st = map_option buf_data (heap st buf)"

definition CRYPTO_BUFFER_len :: "addr \<Rightarrow> pool_state \<Rightarrow> u64 option" where
  "CRYPTO_BUFFER_len buf st = map_option (\<lambda>b. of_nat (length (buf_data b))) (heap st buf)"

definition CRYPTO_BUFFER_init_CBS :: "addr \<Rightarrow> pool_state \<Rightarrow> cbs option" where
  "CRYPTO_BUFFER_init_CBS buf st = map_option buf_data (heap st buf)"

end
