(* ===== verification/Pool_Correct.thy ===== *)
theory Pool_Correct
  imports Pool Lhash_Correct Cbb_Set
begin

text \<open>
  The pool is safe when its critical sections interleave in any order. \<open>pool_inv\<close> relates reference counts to the
  references that clients hold: a buffer that somebody holds is allocated, a count that is not
  saturated is the number of holders, and the table has only buffers that are allocated. The steps of
  the machine \<open>pool_reach\<close> are the critical sections of \<open>crypto_buffer_new\<close>, \<open>CRYPTO_BUFFER_free\<close> and
  \<open>CRYPTO_BUFFER_up_ref\<close>, called by any thread at any time.
\<close>

lemma callbacks_good:
  "good_callbacks (lh_CRYPTO_BUFFER_call_hash_func h) (lh_CRYPTO_BUFFER_call_cmp_func h) hash cmp (buf_bytes h)"
  by (auto simp: good_callbacks_def lh_CRYPTO_BUFFER_call_hash_func_def lh_CRYPTO_BUFFER_call_cmp_func_def
    CRYPTO_BUFFER_hash_def CRYPTO_BUFFER_cmp_def memcmp_0)

interpretation pool_table: lh_callbacks "lh_CRYPTO_BUFFER_call_hash_func h" "lh_CRYPTO_BUFFER_call_cmp_func h" hash cmp "buf_bytes h"
  by unfold_locales (rule callbacks_good)

abbreviation pool_ready :: "buffers \<Rightarrow> addr \<Rightarrow> addr \<Rightarrow> lhash \<Rightarrow> bool" where
  "pool_ready h hash cmp lh \<equiv> lh_ready (lh_CRYPTO_BUFFER_call_hash_func h) hash cmp (buf_bytes h) lh"

definition count_ok :: "crypto_buffer \<Rightarrow> nat \<Rightarrow> bool" where
  "count_ok b n \<longleftrightarrow> references b = CRYPTO_REFCOUNT_MAX \<or> unat (references b) = n \<and> 0 < n"

definition held :: "crypto_buffer option \<Rightarrow> nat \<Rightarrow> bool" where
  "held v n \<longleftrightarrow> (case v of None \<Rightarrow> n = 0 | Some b \<Rightarrow> count_ok b n)"

lemma held_simps [simp]: "held None n \<longleftrightarrow> n = 0" "held (Some b) n \<longleftrightarrow> count_ok b n"
  by (simp_all add: held_def)

lemma refcount_max: "CRYPTO_REFCOUNT_MAX = - 1"
  by (simp add: CRYPTO_REFCOUNT_MAX_def)

definition pooled :: "buffers \<Rightarrow> addr \<Rightarrow> bool" where
  "pooled h p \<longleftrightarrow> (case h p of None \<Rightarrow> False | Some b \<Rightarrow> in_pool b)"

lemma pooled_live: "pooled h p \<Longrightarrow> h p \<noteq> None"
  by (auto simp: pooled_def split: option.splits)

definition pool_inv :: "addr \<Rightarrow> addr \<Rightarrow> pool_state \<Rightarrow> (addr \<Rightarrow> nat) \<Rightarrow> bool" where
  "pool_inv hash cmp st own \<longleftrightarrow> pool_ready (heap st) hash cmp (pool_bufs st)
     \<and> (\<forall>it \<in> set (lh_items (pool_bufs st)). pooled (heap st) (item_data it))
     \<and> (\<forall>p. held (heap st p) (own p)) \<and> heap st 0 = None"

section \<open>Changes of the heap\<close>

lemma ready_cong:
  assumes "\<forall>it \<in> set (lh_items lh). buf_bytes h (item_data it) = buf_bytes h' (item_data it)"
  shows "pool_ready h hash cmp lh = pool_ready h' hash cmp lh" "lh_map (buf_bytes h) lh = lh_map (buf_bytes h') lh"
proof -
  have m: "map (\<lambda>it. f (buf_bytes h (item_data it)) it) (lh_items lh) = map (\<lambda>it. f (buf_bytes h' (item_data it)) it) (lh_items lh)" for f :: "u8 list \<Rightarrow> lhash_item \<Rightarrow> 'z"
    using assms by simp
  show "lh_map (buf_bytes h) lh = lh_map (buf_bytes h') lh"
    unfolding lh_map_def item_map_def using assms by (intro arg_cong [of _ _ map_of]) simp
  have "distinct (map (\<lambda>it. buf_bytes h (item_data it)) (lh_items lh)) = distinct (map (\<lambda>it. buf_bytes h' (item_data it)) (lh_items lh))"
    using assms by (intro arg_cong [of _ _ distinct]) simp
  then show "pool_ready h hash cmp lh = pool_ready h' hash cmp lh" using assms
    by (auto simp: lh_ready_def lh_inv_def items_ok_def lh_CRYPTO_BUFFER_call_hash_func_def CRYPTO_BUFFER_hash_def)
qed

lemma bytes_upd: "h p = Some b \<Longrightarrow> buf_data b' = buf_data b \<Longrightarrow> buf_bytes (h(p \<mapsto> b')) = buf_bytes h"
  by (auto simp: buf_bytes_def)

lemma bytes_other: "q \<noteq> p \<Longrightarrow> buf_bytes (h(p := v)) q = buf_bytes h q"
  by (simp add: buf_bytes_def)

text \<open>A change of one buffer that the table does not point to, or that keeps its bytes.\<close>

lemma inv_heap:
  assumes inv: "pool_inv hash cmp st own"
    and p: "p \<noteq> 0" "held v n"
    and keep: "(\<forall>it \<in> set (lh_items (pool_bufs st)). item_data it \<noteq> p) \<or> (\<exists>b b'. heap st p = Some b \<and> v = Some b' \<and> buf_data b' = buf_data b \<and> in_pool b' = in_pool b)"
  shows "pool_inv hash cmp (st\<lparr>heap := (heap st)(p := v)\<rparr>) (own(p := n))"
proof -
  let ?h = "(heap st)(p := v)"
  have "\<forall>it \<in> set (lh_items (pool_bufs st)). buf_bytes (heap st) (item_data it) = buf_bytes ?h (item_data it)"
    using keep by (auto simp: bytes_other bytes_upd)
  from ready_cong(1) [OF this] have "pool_ready ?h hash cmp (pool_bufs st)" using inv by (simp add: pool_inv_def)
  then show ?thesis using inv p keep by (auto simp: pool_inv_def pooled_def)
qed

section \<open>The parts of the operations\<close>

lemma add_reference_inv:
  assumes inv: "pool_inv hash cmp st own" and p: "heap st p \<noteq> None"
  obtains st' where "add_reference p st = Some st'" "pool_inv hash cmp st' (own(p := Suc (own p)))"
    "pool_bufs st' = pool_bufs st" "buf_bytes (heap st') = buf_bytes (heap st)"
proof -
  obtain b where b: "heap st p = Some b" using p by auto
  let ?b = "b\<lparr>references := CRYPTO_refcount_inc (references b)\<rparr>"
  have "p \<noteq> 0" using inv b by (auto simp: pool_inv_def)
  moreover have "count_ok ?b (Suc (own p))"
  proof (cases "references b = CRYPTO_REFCOUNT_MAX")
    case False
    then have "references b < CRYPTO_REFCOUNT_MAX" by (simp add: refcount_max word_order.not_eq_extremum)
    then show ?thesis using inv b False unat_plus_one_less [of "references b" CRYPTO_REFCOUNT_MAX]
      by (auto simp: pool_inv_def count_ok_def CRYPTO_refcount_inc_def dest!: spec [of _ p])
  qed (simp add: count_ok_def CRYPTO_refcount_inc_def)
  ultimately have "pool_inv hash cmp (st\<lparr>heap := (heap st)(p \<mapsto> ?b)\<rparr>) (own(p := Suc (own p)))"
    using b by (intro inv_heap [OF inv]) simp_all
  then show thesis using b by (intro that [of "st\<lparr>heap := (heap st)(p \<mapsto> ?b)\<rparr>"]) (simp_all add: add_reference_def bytes_upd)
qed

text \<open>A search with a buffer that was added to the heap gives the buffer of the pool with the same bytes.\<close>

lemma retrieve_pool:
  assumes inv: "pool_inv hash cmp st own" and p: "heap st p = None"
  shows "lh_CRYPTO_BUFFER_retrieve ((heap st)(p \<mapsto> b)) (pool_bufs st) p = Some (or_null (lh_map (buf_bytes (heap st)) (pool_bufs st) (buf_data b)))"
    "pool_ready ((heap st)(p \<mapsto> b)) hash cmp (pool_bufs st)" "lh_map (buf_bytes ((heap st)(p \<mapsto> b))) (pool_bufs st) = lh_map (buf_bytes (heap st)) (pool_bufs st)"
proof -
  let ?h = "(heap st)(p \<mapsto> b)"
  have "\<forall>it \<in> set (lh_items (pool_bufs st)). buf_bytes (heap st) (item_data it) = buf_bytes ?h (item_data it)"
    using inv p by (auto simp: pool_inv_def pooled_def intro!: bytes_other [symmetric])
  note c = ready_cong [OF this]
  show r: "pool_ready ?h hash cmp (pool_bufs st)" using c(1) inv by (simp add: pool_inv_def)
  show m: "lh_map (buf_bytes ?h) (pool_bufs st) = lh_map (buf_bytes (heap st)) (pool_bufs st)" using c(2) by simp
  have "all_live ?h (pool_bufs st) p" using inv by (auto simp: pool_inv_def all_live_def lh_items_def list_all_iff dest: pooled_live)
  moreover have "buf_bytes ?h p = buf_data b" by (simp add: buf_bytes_def)
  ultimately show "lh_CRYPTO_BUFFER_retrieve ?h (pool_bufs st) p = Some (or_null (lh_map (buf_bytes (heap st)) (pool_bufs st) (buf_data b)))"
    using pool_table.table.retrieve_view [OF r, of p] m by (simp add: lh_CRYPTO_BUFFER_retrieve_def)
qed

lemma map_live:
  assumes "pool_inv hash cmp st own" and "lh_map (buf_bytes (heap st)) (pool_bufs st) k = Some p"
  shows "heap st p \<noteq> None" "buf_bytes (heap st) p = k" "p \<noteq> 0" "pooled (heap st) p"
proof -
  obtain it where it: "it \<in> set (lh_items (pool_bufs st))" "item_data it = p" "buf_bytes (heap st) p = k"
    using assms(2) by (auto simp: lh_map_def item_map_def dest!: map_of_SomeD)
  then show "pooled (heap st) p" using assms(1) unfolding pool_inv_def by blast
  then show live: "heap st p \<noteq> None" by (rule pooled_live)
  then show "p \<noteq> 0" using assms(1) by (metis pool_inv_def)
  show "buf_bytes (heap st) p = k" by (rule it(3))
qed

text \<open>What a call that makes a buffer promises: a null result and nothing changed, or one more holder of a buffer with these bytes.\<close>

definition makes :: "addr \<Rightarrow> addr \<Rightarrow> pool_state \<Rightarrow> (addr \<Rightarrow> nat) \<Rightarrow> u8 list \<Rightarrow> (addr \<times> pool_state) option \<Rightarrow> bool" where
  "makes hash cmp st own data res \<longleftrightarrow> (\<exists>r st'. res = Some (r, st') \<and>
     (if r = 0 then st' = st else pool_inv hash cmp st' (own(r := Suc (own r))) \<and> buf_bytes (heap st') r = data))"

lemma makes_reference:
  assumes inv: "pool_inv hash cmp st own" and m: "lh_map (buf_bytes (heap st)) (pool_bufs st) data = Some p"
  shows "makes hash cmp st own data (map_option (\<lambda>st. (p, st)) (add_reference p st))"
proof -
  obtain st' where st': "add_reference p st = Some st'" "pool_inv hash cmp st' (own(p := Suc (own p)))" "buf_bytes (heap st') = buf_bytes (heap st)"
    by (rule add_reference_inv [OF inv map_live(1) [OF inv m]])
  then show ?thesis using map_live(2,3) [OF inv m] by (auto simp: makes_def)
qed

text \<open>The duplicate that is used is the buffer of the pool with these bytes.\<close>

lemma use_duplicate_cases:
  obtains "use_duplicate is_static h (or_null m) = 0" | p where "m = Some p" "p \<noteq> 0" "use_duplicate is_static h (or_null m) = p"
proof (cases "use_duplicate is_static h (or_null m) = 0")
  case False
  then have "use_duplicate is_static h (or_null m) = or_null m" by (simp add: use_duplicate_def split: if_splits)
  then show ?thesis using False that by (cases m) auto
qed (use that in blast)

lemma lookup_makes:
  assumes inv: "pool_inv hash cmp st own" and tmp: "heap st tmp = None"
  shows "makes hash cmp st own data (new_lookup tmp data is_static st)"
proof -
  let ?b = "\<lparr>in_pool = False, buf_data = data, references = 0, data_is_static = False\<rparr>"
  let ?m = "lh_map (buf_bytes (heap st)) (pool_bufs st) data"
  have r: "lh_CRYPTO_BUFFER_retrieve ((heap st)(tmp \<mapsto> ?b)) (pool_bufs st) tmp = Some (or_null ?m)"
    using retrieve_pool(1) [OF inv tmp, of ?b] by simp
  show ?thesis
  proof (cases rule: use_duplicate_cases [of is_static "(heap st)(tmp \<mapsto> ?b)" ?m])
    case 1
    then show ?thesis using r by (simp add: new_lookup_def makes_def)
  next
    case (2 p)
    then show ?thesis using r makes_reference [OF inv 2(1)] by (simp add: new_lookup_def)
  qed
qed

lemma insert_makes:
  assumes inv: "pool_inv hash cmp st own" and buf: "heap st (new_buf al) = None" and fresh: "fresh_item (for_table al) (pool_bufs st)"
  shows "makes hash cmp st own data (new_insert al data is_static st)"
proof (cases "alloc_fails al data is_static")
  case True
  then show ?thesis by (simp add: new_insert_def makes_def)
next
  case False
  let ?p = "new_buf al" and ?b = "new_buffer True data is_static"
  let ?h = "(heap st)(?p \<mapsto> ?b)"
  let ?m = "lh_map (buf_bytes (heap st)) (pool_bufs st) data"
  have b: "buf_data ?b = data" "?p \<noteq> 0" using False by (simp_all add: new_buffer_def alloc_fails_def)
  note ret = retrieve_pool [OF inv buf, of ?b, unfolded b(1)]
  show ?thesis
  proof (cases rule: use_duplicate_cases [of is_static ?h ?m])
    case 1
    obtain ok old lh where run: "OPENSSL_lh_insert (for_table al) ?p (lh_CRYPTO_BUFFER_call_hash_func ?h) (lh_CRYPTO_BUFFER_call_cmp_func ?h) (pool_bufs st)
        = ((ok, old), lh)" by (metis surj_pair)
    have res: "new_insert al data is_static st = Some (if ok then (?p, st\<lparr>pool_bufs := lh, heap := ?h\<rparr>) else (0, st\<lparr>pool_bufs := lh\<rparr>))"
      using False ret(1) 1 run by (simp add: new_insert_def Let_def)
    note im = insert_map(1) [OF callbacks_good ret(2) fresh run]
    show ?thesis
    proof (cases ok)
      case True
      have bytes: "buf_bytes ?h ?p = data" using b(1) by (simp add: buf_bytes_def)
      have lh: "pool_ready ?h hash cmp lh" "lh_map (buf_bytes ?h) lh = (lh_map (buf_bytes ?h) (pool_bufs st))(buf_bytes ?h ?p \<mapsto> ?p)"
        using im True by simp_all
      have "pooled (heap st) (item_data it) \<or> item_data it = ?p" if "it \<in> set (lh_items lh)" for it
      proof -
        have "lh_map (buf_bytes ?h) lh (buf_bytes ?h (item_data it)) = Some (item_data it)"
          using that lh(1) unfolding lh_map_def item_map_def
          by (intro map_of_is_SomeI) (auto simp: lh_ready_def lh_inv_def items_ok_def o_def)
        then show ?thesis using lh(2) ret(3) map_live(4) [OF inv] by (auto split: if_splits)
      qed
      then have "pool_inv hash cmp (st\<lparr>pool_bufs := lh, heap := ?h\<rparr>) (own(?p := Suc (own ?p)))"
        using inv lh(1) b(2) buf by (auto simp: pool_inv_def count_ok_def new_buffer_def pooled_def dest: spec [of _ ?p])
      then show ?thesis using True res b(2) bytes by (simp add: makes_def)
    next
      case False
      then have "lh = pool_bufs st" using im by simp
      then show ?thesis using False res by (simp add: makes_def)
    qed
  next
    case (2 p)
    then show ?thesis using False ret(1) makes_reference [OF inv 2(1)] by (simp add: new_insert_def)
  qed
qed

lemma alone_makes:
  assumes inv: "pool_inv hash cmp st own" and buf: "heap st (new_buf al) = None"
  shows "makes hash cmp st own data (new_alone al data is_static st)"
proof (cases "alloc_fails al data is_static")
  case True
  then show ?thesis by (simp add: new_alone_def makes_def)
next
  case False
  let ?p = "new_buf al" and ?b = "new_buffer False data is_static"
  have p: "?p \<noteq> 0" "own ?p = 0" using False inv buf by (auto simp: alloc_fails_def pool_inv_def dest: spec [of _ ?p])
  have "pool_inv hash cmp (st\<lparr>heap := (heap st)(?p := Some ?b)\<rparr>) (own(?p := Suc (own ?p)))"
    using inv buf p by (intro inv_heap [OF inv]) (auto simp: count_ok_def new_buffer_def pool_inv_def pooled_def)
  then show ?thesis using False p by (simp add: new_alone_def makes_def new_buffer_def buf_bytes_def)
qed

section \<open>Releasing\<close>

lemma table_key:
  assumes "pool_ready h hash cmp lh" and "it \<in> set (lh_items lh)"
  shows "lh_map (buf_bytes h) lh (buf_bytes h (item_data it)) = Some (item_data it)"
  unfolding lh_map_def item_map_def
  by (intro map_of_is_SomeI) (use assms in \<open>auto simp: lh_ready_def lh_inv_def items_ok_def o_def\<close>)

text \<open>After \<open>remove_from_pool\<close> the table does not point to the buffer, and has all others.\<close>

lemma remove_from_pool_ok:
  assumes r: "pool_ready (heap st) hash cmp (pool_bufs st)" and live: "\<forall>it \<in> set (lh_items (pool_bufs st)). pooled (heap st) (item_data it)" "heap st p \<noteq> None"
    and z: "heap st 0 = None"
  shows "\<exists>lh. remove_from_pool array p st = Some (st\<lparr>pool_bufs := lh\<rparr>) \<and> pool_ready (heap st) hash cmp lh
    \<and> (\<forall>it \<in> set (lh_items lh). pooled (heap st) (item_data it) \<and> item_data it \<noteq> p)"
proof -
  let ?h = "heap st" and ?lh = "pool_bufs st"
  let ?m = "lh_map (buf_bytes ?h) ?lh"
  have "all_live ?h ?lh p" using live by (auto simp: all_live_def lh_items_def list_all_iff dest: pooled_live)
  then have ret: "lh_CRYPTO_BUFFER_retrieve ?h ?lh p = Some (or_null (?m (buf_bytes ?h p)))"
    using pool_table.table.retrieve_view [OF r, of p] by (simp add: lh_CRYPTO_BUFFER_retrieve_def)
  show ?thesis
  proof (cases "?m (buf_bytes ?h p) = Some p")
    case True
    obtain old lh where del: "OPENSSL_lh_delete array p (lh_CRYPTO_BUFFER_call_hash_func ?h) (lh_CRYPTO_BUFFER_call_cmp_func ?h) ?lh = (old, lh)" by fastforce
    note d = delete_map(1) [OF callbacks_good r del]
    have "pooled ?h (item_data it) \<and> item_data it \<noteq> p" if "it \<in> set (lh_items lh)" for it
    proof -
      have m: "(?m(buf_bytes ?h p := None)) (buf_bytes ?h (item_data it)) = Some (item_data it)" using table_key [OF _ that] d by metis
      then have "?m (buf_bytes ?h (item_data it)) = Some (item_data it)" "item_data it \<noteq> p" by (auto split: if_splits)
      then show ?thesis using live(1) by (auto simp: lh_map_def item_map_def dest!: map_of_SomeD)
    qed
    then show ?thesis using ret True del d by (intro exI [of _ lh]) (simp add: remove_from_pool_def)
  next
    case False
    have n: "item_data it \<noteq> p" if "it \<in> set (lh_items ?lh)" for it using table_key [OF r that] False by auto
    have "p \<noteq> 0" using live(2) z by auto
    then have "or_null (?m (buf_bytes ?h p)) \<noteq> p" using False by (cases "?m (buf_bytes ?h p)") auto
    then have "remove_from_pool array p st = Some (st\<lparr>pool_bufs := ?lh\<rparr>)" using ret by (simp add: remove_from_pool_def)
    then show ?thesis using r live(1) n by blast
  qed
qed

lemma free_last:
  assumes inv: "pool_inv hash cmp st own" and b: "heap st p = Some b" and one: "references b = 1"
  obtains st' where "CRYPTO_BUFFER_free array p st = Some st'" "pool_inv hash cmp st' (own(p := 0))" "heap st' p = None"
proof -
  have z0: "heap st 0 = None" using inv by (simp add: pool_inv_def)
  have p: "p \<noteq> 0" using b z0 by auto
  let ?st = "st\<lparr>heap := (heap st)(p \<mapsto> b\<lparr>references := 0\<rparr>)\<rparr>"
  have bytes: "buf_bytes (heap ?st) = buf_bytes (heap st)" using b by (simp add: bytes_upd)
  have r: "pool_ready (heap ?st) hash cmp (pool_bufs st)" using ready_cong(1) [of "pool_bufs st" "heap ?st" "heap st"] bytes inv by (simp add: pool_inv_def)
  have live: "\<forall>it \<in> set (lh_items (pool_bufs st)). pooled (heap ?st) (item_data it)" using inv b by (auto simp: pool_inv_def pooled_def)
  have z: "heap ?st 0 = None" using z0 p by simp
  have gone: "pool_inv hash cmp (crypto_buffer_free_object p (?st\<lparr>pool_bufs := lh\<rparr>)) (own(p := 0))"
    if "pool_ready (heap ?st) hash cmp lh" "\<forall>it \<in> set (lh_items lh). pooled (heap ?st) (item_data it) \<and> item_data it \<noteq> p" for lh
  proof -
    have "\<forall>it \<in> set (lh_items lh). buf_bytes (heap ?st) (item_data it) = buf_bytes ((heap st)(p := None)) (item_data it)"
      using that(2) by (simp add: buf_bytes_def)
    from ready_cong(1) [OF this] show ?thesis using that inv p by (auto simp: pool_inv_def crypto_buffer_free_object_def pooled_def)
  qed
  have run: "CRYPTO_BUFFER_free array p st = (if \<not> in_pool b then Some (crypto_buffer_free_object p ?st)
      else map_option (crypto_buffer_free_object p) (remove_from_pool array p ?st))"
    using p b one by (simp add: CRYPTO_BUFFER_free_def CRYPTO_refcount_dec_and_test_zero_def CRYPTO_REFCOUNT_MAX_def)
  show thesis
  proof (cases "in_pool b")
    case True
    obtain lh where lh: "remove_from_pool array p ?st = Some (?st\<lparr>pool_bufs := lh\<rparr>)" "pool_ready (heap ?st) hash cmp lh"
      "\<forall>it \<in> set (lh_items lh). pooled (heap ?st) (item_data it) \<and> item_data it \<noteq> p"
      using remove_from_pool_ok [of ?st hash cmp p array] r live z by auto
    show ?thesis using run True lh gone [OF lh(2,3)] one
      by (intro that [of "crypto_buffer_free_object p (?st\<lparr>pool_bufs := lh\<rparr>)"]) (simp_all add: crypto_buffer_free_object_def)
  next
    case False
    then have "\<forall>it \<in> set (lh_items (pool_bufs st)). item_data it \<noteq> p" using inv b by (auto simp: pool_inv_def pooled_def)
    then show ?thesis using run False gone [of "pool_bufs st"] r live one
      by (intro that [of "crypto_buffer_free_object p ?st"]) (simp_all add: crypto_buffer_free_object_def)
  qed
qed

lemma free_ok:
  assumes inv: "pool_inv hash cmp st own" and own: "0 < own p"
  obtains st' where "CRYPTO_BUFFER_free array p st = Some st'" "pool_inv hash cmp st' (own(p := own p - 1))"
    "own p = 1 \<Longrightarrow> heap st' p = None \<or> map_option references (heap st' p) = Some CRYPTO_REFCOUNT_MAX"
proof -
  have h: "held (heap st p) (own p)" "heap st 0 = None" using inv by (simp_all add: pool_inv_def)
  then obtain b where b: "heap st p = Some b" "count_ok b (own p)" using own by (cases "heap st p") auto
  have p: "p \<noteq> 0" using b(1) h(2) by auto
  let ?st1 = "\<lambda>c. st\<lparr>heap := (heap st)(p \<mapsto> b\<lparr>references := c\<rparr>)\<rparr>"
  have keep: "pool_inv hash cmp (?st1 c) (own(p := n))" if "count_ok (b\<lparr>references := c\<rparr>) n" for c n
    using that p b(1) by (intro inv_heap [OF inv]) auto
  consider (max) "references b = CRYPTO_REFCOUNT_MAX" | (more) "references b \<noteq> CRYPTO_REFCOUNT_MAX" "unat (references b) = own p" "1 < own p"
    | (last) "references b = 1" "own p = 1" 
    using b(2) own by (cases "own p = 1") (auto simp: count_ok_def word_unat_eq_iff [of _ 1])
  then show thesis
  proof cases
    case max
    then show ?thesis using p b(1) keep [of CRYPTO_REFCOUNT_MAX "own p - 1"]
      by (intro that [of "?st1 CRYPTO_REFCOUNT_MAX"])
        (auto simp: CRYPTO_BUFFER_free_def CRYPTO_refcount_dec_and_test_zero_def CRYPTO_REFCOUNT_MAX_def count_ok_def)
  next
    case more
    have "references b \<noteq> 0" using more(2,3) by auto
    then have u: "unat (references b - 1) = own p - 1" "references b - 1 \<noteq> 0"
      using more(2,3) by (simp_all add: unat_minus_one word_unat_eq_iff [of _ 0])
    then show ?thesis using p b(1) more \<open>references b \<noteq> 0\<close> keep [of "references b - 1" "own p - 1"]
      by (intro that [of "?st1 (references b - 1)"])
        (simp_all add: CRYPTO_BUFFER_free_def CRYPTO_refcount_dec_and_test_zero_def count_ok_def)
  next
    case last
    obtain st' where "CRYPTO_BUFFER_free array p st = Some st'" "pool_inv hash cmp st' (own(p := 0))" "heap st' p = None"
      by (rule free_last [OF inv b(1) last(1)])
    then show ?thesis using last(2) by (intro that [of st']) simp_all
  qed
qed

section \<open>The machine\<close>

text \<open>
  The critical sections as steps. A step that makes a buffer gives its caller a reference; clients release
  and copy only references they hold. Addresses from \<open>malloc\<close>, and of locals, are not in use.
\<close>

datatype pool_act =
    Lookup addr "u8 list" bool
  | Insert_new pool_alloc "u8 list" bool
  | Alone pool_alloc "u8 list" bool
  | Up_ref addr
  | Release "u64 \<Rightarrow> bool" addr

primrec pool_allowed :: "pool_act \<Rightarrow> pool_state \<Rightarrow> (addr \<Rightarrow> nat) \<Rightarrow> bool" where
  "pool_allowed (Lookup tmp data is_static) st own \<longleftrightarrow> heap st tmp = None"
| "pool_allowed (Insert_new al data is_static) st own \<longleftrightarrow> heap st (new_buf al) = None \<and> fresh_item (for_table al) (pool_bufs st)"
| "pool_allowed (Alone al data is_static) st own \<longleftrightarrow> heap st (new_buf al) = None"
| "pool_allowed (Up_ref p) st own \<longleftrightarrow> 0 < own p"
| "pool_allowed (Release array p) st own \<longleftrightarrow> 0 < own p"

text \<open>The state and the holders after a step; \<open>None\<close> is a fault of the code.\<close>

definition gains :: "(addr \<Rightarrow> nat) \<Rightarrow> addr \<times> pool_state \<Rightarrow> pool_state \<times> (addr \<Rightarrow> nat)" where
  "gains own res = (snd res, if fst res = 0 then own else own(fst res := Suc (own (fst res))))"

primrec pool_perform :: "pool_act \<Rightarrow> pool_state \<Rightarrow> (addr \<Rightarrow> nat) \<Rightarrow> (pool_state \<times> (addr \<Rightarrow> nat)) option" where
  "pool_perform (Lookup tmp data is_static) st own = map_option (gains own) (new_lookup tmp data is_static st)"
| "pool_perform (Insert_new al data is_static) st own = map_option (gains own) (new_insert al data is_static st)"
| "pool_perform (Alone al data is_static) st own = map_option (gains own) (new_alone al data is_static st)"
| "pool_perform (Up_ref p) st own = map_option (\<lambda>st. (st, own(p := Suc (own p)))) (CRYPTO_BUFFER_up_ref p st)"
| "pool_perform (Release array p) st own = map_option (\<lambda>st. (st, own(p := own p - 1))) (CRYPTO_BUFFER_free array p st)"

inductive pool_reach :: "pool_state \<Rightarrow> (addr \<Rightarrow> nat) \<Rightarrow> bool" where
  start: "CRYPTO_BUFFER_POOL_new pool table array hash cmp Map.empty = Some st \<Longrightarrow> pool_reach st (\<lambda>_. 0)"
| act: "pool_reach st own \<Longrightarrow> pool_allowed a st own \<Longrightarrow> pool_perform a st own = Some (st', own') \<Longrightarrow> pool_reach st' own'"

inductive_cases pool_reachE: "pool_reach st own"

lemma held_live: "pool_inv hash cmp st own \<Longrightarrow> 0 < own p \<Longrightarrow> heap st p \<noteq> None"
  by (cases "heap st p") (auto simp: pool_inv_def dest: spec [of _ p])

lemma makes_gains:
  assumes "makes hash cmp st own data res" and "pool_inv hash cmp st own"
  shows "\<exists>st' own'. map_option (gains own) res = Some (st', own') \<and> pool_inv hash cmp st' own'"
  using assms by (auto simp: makes_def gains_def split: if_splits)

lemma pool_perform_inv:
  assumes inv: "pool_inv hash cmp st own" and a: "pool_allowed a st own"
  shows "\<exists>st' own'. pool_perform a st own = Some (st', own') \<and> pool_inv hash cmp st' own'"
proof (cases a)
  case (Lookup tmp data is_static)
  then show ?thesis using makes_gains [OF lookup_makes [OF inv] inv] a by simp
next
  case (Insert_new al data is_static)
  then show ?thesis using makes_gains [OF insert_makes [OF inv] inv] a by simp
next
  case (Alone al data is_static)
  then show ?thesis using makes_gains [OF alone_makes [OF inv] inv] a by simp
next
  case (Up_ref p)
  then show ?thesis using add_reference_inv [OF inv held_live [OF inv]] a by (auto simp: CRYPTO_BUFFER_up_ref_def)
next
  case (Release array p)
  then show ?thesis using free_ok [OF inv, of p array] a by auto
qed

lemma new_pool_inv:
  assumes "CRYPTO_BUFFER_POOL_new pool table array hash cmp Map.empty = Some st"
  shows "pool_inv hash cmp st (\<lambda>_. 0)"
proof -
  obtain lh where lh: "OPENSSL_lh_new table array hash cmp = Some lh" "st = \<lparr>pool_bufs = lh, heap = Map.empty\<rparr>"
    using assms by (auto simp: CRYPTO_BUFFER_POOL_new_def split: if_splits option.splits)
  have "lh_items lh = []" using new_ready(2) [OF lh(1), of "buf_bytes Map.empty"] by (cases "lh_items lh") (auto simp: lh_map_def)
  then show ?thesis using new_ready(1) [OF lh(1)] lh(2) by (simp add: pool_inv_def)
qed

lemma pool_reach_inv: "pool_reach st own \<Longrightarrow> \<exists>hash cmp. pool_inv hash cmp st own"
proof (induction rule: pool_reach.induct)
  case (act st own a st' own')
  then show ?case using pool_perform_inv [of _ _ st own a] by fastforce
qed (use new_pool_inv in blast)

section \<open>Interning\<close>

text \<open>A buffer made from bytes that the pool has is the buffer of the pool; otherwise the new buffer is put there.\<close>

lemma reference_map:
  assumes "pool_inv hash cmp st own" and "heap st p \<noteq> None" and "add_reference p st = Some st'"
  shows "lh_map (buf_bytes (heap st')) (pool_bufs st') = lh_map (buf_bytes (heap st)) (pool_bufs st)"
proof -
  obtain st1 where "add_reference p st = Some st1" "pool_bufs st1 = pool_bufs st" "buf_bytes (heap st1) = buf_bytes (heap st)"
    by (rule add_reference_inv [OF assms(1,2)])
  then show ?thesis using assms(3) by simp
qed

lemma lookup_found:
  assumes inv: "pool_inv hash cmp st own" and tmp: "heap st tmp = None" and m: "lh_map (buf_bytes (heap st)) (pool_bufs st) data = Some p"
  obtains st' where "new_lookup tmp data False st = Some (p, st')" "add_reference p st = Some st'"
proof -
  let ?b = "\<lparr>in_pool = False, buf_data = data, references = 0, data_is_static = False\<rparr>"
  have r: "lh_CRYPTO_BUFFER_retrieve ((heap st)(tmp \<mapsto> ?b)) (pool_bufs st) tmp = Some p"
    using retrieve_pool(1) [OF inv tmp, of ?b] m by simp
  obtain st' where "add_reference p st = Some st'" by (rule add_reference_inv [OF inv map_live(1) [OF inv m]])
  then show thesis using r map_live(3) [OF inv m] by (intro that [of st']) (simp_all add: new_lookup_def use_duplicate_def)
qed

lemma new_found:
  assumes "pool_inv hash cmp st own" and "heap st tmp = None" and "lh_map (buf_bytes (heap st)) (pool_bufs st) data = Some p"
  shows "\<exists>st'. crypto_buffer_new tmp al data False True st = Some (p, st') \<and> add_reference p st = Some st'"
proof -
  obtain st' where "new_lookup tmp data False st = Some (p, st')" "add_reference p st = Some st'" by (rule lookup_found [OF assms])
  then show ?thesis using map_live(3) [OF assms(1,3)] by (simp add: crypto_buffer_new_def)
qed

lemma new_missing:
  assumes inv: "pool_inv hash cmp st own" and tmp: "heap st tmp = None" and m: "lh_map (buf_bytes (heap st)) (pool_bufs st) data = None"
  shows "crypto_buffer_new tmp al data False True st = new_insert al data False st"
proof -
  let ?b = "\<lparr>in_pool = False, buf_data = data, references = 0, data_is_static = False\<rparr>"
  have "lh_CRYPTO_BUFFER_retrieve ((heap st)(tmp \<mapsto> ?b)) (pool_bufs st) tmp = Some 0"
    using retrieve_pool(1) [OF inv tmp, of ?b] m by simp
  then show ?thesis by (simp add: crypto_buffer_new_def new_lookup_def use_duplicate_def)
qed

lemma new_interns:
  assumes inv: "pool_inv hash cmp st own" and tmp: "heap st tmp = None" and buf: "heap st (new_buf al) = None" and fresh: "fresh_item (for_table al) (pool_bufs st)"
    and run: "crypto_buffer_new tmp al data False True st = Some (r, st')" and r: "r \<noteq> 0"
  shows "pool_inv hash cmp st' (own(r := Suc (own r))) \<and> lh_map (buf_bytes (heap st')) (pool_bufs st') data = Some r"
proof (cases "lh_map (buf_bytes (heap st)) (pool_bufs st) data")
  case None
  let ?p = "new_buf al" and ?b = "new_buffer True data False"
  let ?h = "(heap st)(?p \<mapsto> ?b)"
  have ins: "new_insert al data False st = Some (r, st')" using run new_missing [OF inv tmp None] by simp
  then have inv': "pool_inv hash cmp st' (own(r := Suc (own r)))" using insert_makes [OF inv buf fresh, of data False] r by (auto simp: makes_def)
  have b: "buf_data ?b = data" by (simp add: new_buffer_def)
  note ret = retrieve_pool [OF inv buf, of ?b, unfolded b None]
  obtain ok old lh where ins_run: "OPENSSL_lh_insert (for_table al) ?p (lh_CRYPTO_BUFFER_call_hash_func ?h) (lh_CRYPTO_BUFFER_call_cmp_func ?h) (pool_bufs st)
      = ((ok, old), lh)" by (metis surj_pair)
  have res: "ok" "r = ?p" "st' = st\<lparr>pool_bufs := lh, heap := ?h\<rparr>"
    using ins ret(1) ins_run r by (auto simp: new_insert_def Let_def use_duplicate_def split: if_splits)
  have "lh_map (buf_bytes ?h) lh = (lh_map (buf_bytes ?h) (pool_bufs st))(buf_bytes ?h ?p \<mapsto> ?p)"
    using insert_map(1) [OF callbacks_good ret(2) fresh ins_run] res(1) by simp
  moreover have "buf_bytes ?h ?p = data" using b by (simp add: buf_bytes_def)
  ultimately show ?thesis using inv' res by simp
next
  case (Some p)
  obtain st1 where st1: "crypto_buffer_new tmp al data False True st = Some (p, st1)" "add_reference p st = Some st1"
    using new_found [OF inv tmp Some] by blast
  then have eq: "r = p" "st' = st1" using run by simp_all
  have "pool_inv hash cmp st1 (own(p := Suc (own p)))"
    using add_reference_inv [OF inv map_live(1) [OF inv Some]] st1(2) by (metis option.inject)
  then show ?thesis using Some eq reference_map [OF inv map_live(1) [OF inv Some] st1(2)] by simp
qed

end
