(* ===== verification/Stack.thy ===== *)
theory Stack
  imports C_Prelude
begin

text \<open>
  BoringSSL's arrays of pointers (\<open>crypto/stack/stack.c\<close>). \<open>sk_data\<close> holds all \<open>num_alloc\<close> cells, of which the first \<open>num\<close> are
  valid. The comparison function is a function pointer (null when there is none); \<open>call_cmp_func\<close>, which the type-specific
  wrappers supply, is a parameter, and so are \<open>malloc\<close> and \<open>realloc\<close>, \<open>qsort\<close>, and the functions that copy and
  free elements. A null stack is \<open>None\<close>.
\<close>

record stack =
  sk_length :: u64
  sk_data :: "addr list"
  sk_sorted :: bool
  sk_alloc :: u64
  sk_comp :: addr

type_synonym sk_cmp = "addr \<Rightarrow> addr \<Rightarrow> addr \<Rightarrow> int"

text \<open>Whether an allocation of that many bytes succeeds, and what fresh cells hold.\<close>

record sk_env =
  can_alloc :: "u64 \<Rightarrow> bool"
  fresh_cell :: "nat \<Rightarrow> addr"

definition kMinSize :: u64 where
  "kMinSize = 4"

definition sk_new :: "bool \<Rightarrow> (u64 \<Rightarrow> bool) \<Rightarrow> addr \<Rightarrow> stack option" where
  "sk_new stack array cmp =
     (if \<not> stack then None
      else if \<not> array (8 * kMinSize) then None
      else Some \<lparr>sk_length = 0, sk_data = replicate (unat kMinSize) 0, sk_sorted = False, sk_alloc = kMinSize, sk_comp = cmp\<rparr>)"

definition sk_new_null :: "bool \<Rightarrow> (u64 \<Rightarrow> bool) \<Rightarrow> stack option" where
  "sk_new_null stack array = sk_new stack array 0"

definition sk_num :: "stack option \<Rightarrow> u64" where
  "sk_num sk = (case sk of None \<Rightarrow> 0 | Some sk \<Rightarrow> sk_length sk)"

definition sk_zero :: "stack option \<Rightarrow> stack option" where
  "sk_zero sk = map_option (\<lambda>sk.
     if sk_length sk = 0 then sk
     else sk\<lparr>sk_data := replicate (unat (sk_length sk)) 0 @ drop (unat (sk_length sk)) (sk_data sk), sk_length := 0, sk_sorted := False\<rparr>) sk"

definition sk_value :: "stack option \<Rightarrow> u64 \<Rightarrow> addr" where
  "sk_value sk i = (case sk of None \<Rightarrow> 0 | Some sk \<Rightarrow> if i \<ge> sk_length sk then 0 else sk_data sk ! unat i)"

definition sk_set :: "stack option \<Rightarrow> u64 \<Rightarrow> addr \<Rightarrow> addr \<times> stack option" where
  "sk_set sk i value =
     (case sk of
        None \<Rightarrow> (0, None)
      | Some sk \<Rightarrow> if i \<ge> sk_length sk then (0, Some sk) else (value, Some (sk\<lparr>sk_data := (sk_data sk)[unat i := value]\<rparr>)))"

text \<open>The elements that are handed to \<open>free_func\<close>, in the order of the calls; then the array and the stack are freed.\<close>

definition sk_pop_free_ex :: "stack option \<Rightarrow> addr list" where
  "sk_pop_free_ex sk = (case sk of None \<Rightarrow> [] | Some sk \<Rightarrow> filter (\<lambda>p. p \<noteq> 0) (take (unat (sk_length sk)) (sk_data sk)))"

definition sk_pop_free :: "stack option \<Rightarrow> addr list" where
  "sk_pop_free sk = sk_pop_free_ex sk"

section \<open>Inserting and deleting\<close>

text \<open>\<open>memmove\<close> of \<open>n\<close> cells within the array.\<close>

definition move_cells :: "addr list \<Rightarrow> nat \<Rightarrow> nat \<Rightarrow> nat \<Rightarrow> addr list" where
  "move_cells d dst src n = take dst d @ take n (drop src d) @ drop (dst + n) d"

definition overflowed :: "u64 \<Rightarrow> u64 \<Rightarrow> bool" where
  "overflowed new_alloc old_alloc \<longleftrightarrow> new_alloc < old_alloc \<or> new_alloc * 8 div 8 \<noteq> new_alloc"

text \<open>The array grown, when there is no room for one more element.\<close>

definition sk_grow :: "sk_env \<Rightarrow> stack \<Rightarrow> stack option" where
  "sk_grow env sk =
     (if sk_alloc sk \<le> sk_length sk + 1 then
        let doubled = push_bit 1 (sk_alloc sk);
            new_alloc = (if overflowed doubled (sk_alloc sk) then sk_alloc sk + 1 else doubled)
        in if overflowed new_alloc (sk_alloc sk) then None
           else if \<not> can_alloc env (new_alloc * 8) then None
           else Some (sk\<lparr>sk_data := sk_data sk @ map (fresh_cell env) [length (sk_data sk)..<unat new_alloc], sk_alloc := new_alloc\<rparr>)
      else Some sk)"

definition sk_insert :: "sk_env \<Rightarrow> stack option \<Rightarrow> addr \<Rightarrow> u64 \<Rightarrow> u64 \<times> stack option" where
  "sk_insert env sk p at =
     (case sk of
        None \<Rightarrow> (0, None)
      | Some sk \<Rightarrow>
          (case sk_grow env sk of
             None \<Rightarrow> (0, Some sk)
           | Some sk \<Rightarrow>
               let n = unat (sk_length sk); w = unat at;
                   d = (if at \<ge> sk_length sk then (sk_data sk)[n := p]
                        else (move_cells (sk_data sk) (w + 1) w (n - w))[w := p])
               in (sk_length sk + 1, Some (sk\<lparr>sk_data := d, sk_length := sk_length sk + 1, sk_sorted := False\<rparr>))))"

definition sk_delete :: "stack option \<Rightarrow> u64 \<Rightarrow> addr \<times> stack option" where
  "sk_delete sk at =
     (case sk of
        None \<Rightarrow> (0, None)
      | Some sk \<Rightarrow>
          if at \<ge> sk_length sk then (0, Some sk)
          else let n = unat (sk_length sk); w = unat at;
                   d = (if at \<noteq> sk_length sk - 1 then move_cells (sk_data sk) w (w + 1) (n - w - 1) else sk_data sk)
               in (sk_data sk ! w, Some (sk\<lparr>sk_data := d, sk_length := sk_length sk - 1\<rparr>)))"

text \<open>The loops that look for an element in the order of the array.\<close>

fun first_match :: "(addr \<Rightarrow> bool) \<Rightarrow> nat \<Rightarrow> addr list \<Rightarrow> nat option" where
  "first_match match i [] = None"
| "first_match match i (elem # rest) = (if match elem then Some i else first_match match (Suc i) rest)"

definition sk_delete_ptr :: "stack option \<Rightarrow> addr \<Rightarrow> addr \<times> stack option" where
  "sk_delete_ptr sk p =
     (case sk of
        None \<Rightarrow> (0, None)
      | Some s \<Rightarrow>
          (case first_match (\<lambda>elem. elem = p) 0 (take (unat (sk_length s)) (sk_data s)) of
             None \<Rightarrow> (0, sk)
           | Some i \<Rightarrow> sk_delete sk (of_nat i)))"

definition sk_shift :: "stack option \<Rightarrow> addr \<times> stack option" where
  "sk_shift sk = (case sk of None \<Rightarrow> (0, None) | Some s \<Rightarrow> if sk_length s = 0 then (0, sk) else sk_delete sk 0)"

text \<open>\<open>sk_push\<close> reads the length of a stack that must not be null.\<close>

definition sk_push :: "sk_env \<Rightarrow> stack \<Rightarrow> addr \<Rightarrow> u64 \<times> stack option" where
  "sk_push env sk p = sk_insert env (Some sk) p (sk_length sk)"

definition sk_pop :: "stack option \<Rightarrow> addr \<times> stack option" where
  "sk_pop sk = (case sk of None \<Rightarrow> (0, None) | Some s \<Rightarrow> if sk_length s = 0 then (0, sk) else sk_delete sk (sk_length s - 1))"

section \<open>Searching and sorting\<close>

definition sk_is_sorted :: "stack option \<Rightarrow> bool" where
  "sk_is_sorted sk = (case sk of None \<Rightarrow> True | Some sk \<Rightarrow> sk_sorted sk)"

text \<open>The loop of the binary search, between the indices \<open>lo\<close> and \<open>hi\<close>.\<close>

function binary_search :: "(addr \<Rightarrow> int) \<Rightarrow> addr list \<Rightarrow> nat \<Rightarrow> nat \<Rightarrow> nat option" where
  "binary_search cmp d lo hi =
     (if lo < hi then
        let mid = lo + (hi - lo - 1) div 2; r = cmp (d ! mid)
        in if r > 0 then binary_search cmp d (mid + 1) hi
           else if r < 0 then binary_search cmp d lo mid
           else if hi - lo = 1 then Some mid
           else binary_search cmp d lo (mid + 1)
      else None)"
  by auto
termination
  by (relation "measure (\<lambda>(cmp, d, lo, hi). hi - lo)") (simp_all, linarith+)

declare binary_search.simps [simp del]

definition sk_find :: "sk_cmp \<Rightarrow> stack option \<Rightarrow> addr \<Rightarrow> u64 option" where
  "sk_find call_cmp_func sk p =
     (case sk of
        None \<Rightarrow> None
      | Some s \<Rightarrow>
          let elems = take (unat (sk_length s)) (sk_data s) in
          if sk_comp s = 0 then map_option of_nat (first_match (\<lambda>elem. elem = p) 0 elems)
          else if p = 0 then None
          else if \<not> sk_is_sorted sk then map_option of_nat (first_match (\<lambda>elem. call_cmp_func (sk_comp s) p elem = 0) 0 elems)
          else map_option of_nat (binary_search (\<lambda>elem. call_cmp_func (sk_comp s) p elem) (sk_data s) 0 (unat (sk_length s))))"

text \<open>\<open>qsort\<close> of the C library sorts the first cells by the comparison function.\<close>

definition sk_sort :: "((addr \<Rightarrow> addr \<Rightarrow> int) \<Rightarrow> addr list \<Rightarrow> addr list) \<Rightarrow> sk_cmp \<Rightarrow> stack option \<Rightarrow> stack option" where
  "sk_sort sort_cells call_cmp_func sk = map_option (\<lambda>sk.
     if sk_comp sk = 0 \<or> sk_sorted sk then sk
     else let n = unat (sk_length sk);
              d = (if sk_length sk \<ge> 2 then sort_cells (call_cmp_func (sk_comp sk)) (take n (sk_data sk)) @ drop n (sk_data sk) else sk_data sk)
          in sk\<lparr>sk_data := d, sk_sorted := True\<rparr>) sk"

definition sk_set_cmp_func :: "stack \<Rightarrow> addr \<Rightarrow> addr \<times> stack" where
  "sk_set_cmp_func sk cmp = (sk_comp sk, sk\<lparr>sk_sorted := (sk_comp sk = cmp \<and> sk_sorted sk), sk_comp := cmp\<rparr>)"

section \<open>Copying\<close>

definition sk_dup :: "bool \<Rightarrow> sk_env \<Rightarrow> stack option \<Rightarrow> stack option" where
  "sk_dup stack env sk =
     (case sk of
        None \<Rightarrow> None
      | Some sk \<Rightarrow>
          if \<not> stack then None
          else if \<not> can_alloc env (8 * sk_alloc sk) then None
          else let n = unat (sk_length sk)
            in Some \<lparr>sk_length = sk_length sk, sk_data = take n (sk_data sk) @ map (fresh_cell env) [n..<unat (sk_alloc sk)],
                     sk_sorted = sk_sorted sk, sk_alloc = sk_alloc sk, sk_comp = sk_comp sk\<rparr>)"

text \<open>
  The loop of \<open>sk_deep_copy\<close>: the copied cells, or the copies that are freed when one cannot be made. \<open>copied\<close> are the cells
  before the current one.
\<close>

fun copy_cells :: "(addr \<Rightarrow> addr) \<Rightarrow> addr list \<Rightarrow> addr list \<Rightarrow> addr list + addr list" where
  "copy_cells copy_func copied [] = Inr copied"
| "copy_cells copy_func copied (p # rest) =
     (if p = 0 then copy_cells copy_func (copied @ [0]) rest
      else let q = copy_func p
           in if q = 0 then Inl (filter (\<lambda>p. p \<noteq> 0) copied) else copy_cells copy_func (copied @ [q]) rest)"

definition sk_deep_copy :: "bool \<Rightarrow> sk_env \<Rightarrow> (addr \<Rightarrow> addr) \<Rightarrow> stack option \<Rightarrow> stack option \<times> addr list" where
  "sk_deep_copy stack env copy_func sk =
     (case sk_dup stack env sk of
        None \<Rightarrow> (None, [])
      | Some ret \<Rightarrow>
          let n = unat (sk_length ret)
          in case copy_cells copy_func [] (take n (sk_data ret)) of
               Inl freed \<Rightarrow> (None, freed)
             | Inr copied \<Rightarrow> (Some (ret\<lparr>sk_data := copied @ drop n (sk_data ret)\<rparr>), []))"

end
