(* ===== verification/Stack_Correct.thy ===== *)
theory Stack_Correct
  imports Stack "HOL-Library.Multiset"
begin

text \<open>
  A stack stands for the list \<open>sk_items\<close> of its valid cells, and every operation acts on that list; \<open>sk_wf\<close> is the
  invariant that keeps the accesses inside the array. The binary search finds the same element as a search from the front when the
  list is in the order of the comparison function.
\<close>

definition sk_items :: "stack \<Rightarrow> addr list" where
  "sk_items sk = take (unat (sk_length sk)) (sk_data sk)"

definition sk_wf :: "stack \<Rightarrow> bool" where
  "sk_wf sk \<longleftrightarrow> length (sk_data sk) = unat (sk_alloc sk) \<and> sk_length sk < sk_alloc sk \<and> unat (sk_alloc sk) < 2 ^ 61"

lemma wf_length:
  assumes "sk_wf sk"
  shows "length (sk_items sk) = unat (sk_length sk)" "unat (sk_length sk) < unat (sk_alloc sk)" "unat (sk_length sk) < 2 ^ 61" "unat (sk_length sk + 1) = Suc (unat (sk_length sk))"
  using assms by (auto simp: sk_wf_def sk_items_def word_less_nat_alt unat_word_ariths)

lemma new_wf: "sk_new stack array cmp = Some sk \<Longrightarrow> sk_wf sk \<and> sk_items sk = [] \<and> sk_comp sk = cmp \<and> \<not> sk_sorted sk"
  by (auto simp: sk_new_def sk_wf_def sk_items_def kMinSize_def split: if_splits)

section \<open>Growing\<close>

lemma not_overflowed:
  assumes "\<not> overflowed n a"
  shows "a \<le> n" "unat n < 2 ^ 61"
proof -
  show "a \<le> n" using assms by (simp add: overflowed_def not_less)
  have "n * 8 div 8 = n" using assms by (simp add: overflowed_def)
  moreover have "unat (n * 8) < 2 ^ 61 * 8" using unsigned_less [of "n * 8", where 'a = nat] by simp
  then have "unat (n * 8) div 8 < 2 ^ 61" by (rule less_mult_imp_div_less)
  then have "unat (n * 8 div 8) < 2 ^ 61" by (simp add: unat_div)
  ultimately show "unat n < 2 ^ 61" by simp
qed

lemma grow_wf:
  assumes wf: "sk_wf sk" and g: "sk_grow env sk = Some sk'"
  shows "length (sk_data sk') = unat (sk_alloc sk')" "unat (sk_alloc sk') < 2 ^ 61" "Suc (unat (sk_length sk)) < unat (sk_alloc sk')"
    "sk_length sk' = sk_length sk" "sk_items sk' = sk_items sk" "sk_comp sk' = sk_comp sk" "sk_sorted sk' = sk_sorted sk"
proof -
  note l = wf_length [OF wf]
  let ?a = "sk_alloc sk"
  have a: "length (sk_data sk) = unat ?a" "unat ?a < 2 ^ 61" using wf by (simp_all add: sk_wf_def)
  have "length (sk_data sk') = unat (sk_alloc sk') \<and> unat (sk_alloc sk') < 2 ^ 61 \<and> Suc (unat (sk_length sk)) < unat (sk_alloc sk')
    \<and> sk_length sk' = sk_length sk \<and> sk_items sk' = sk_items sk \<and> sk_comp sk' = sk_comp sk \<and> sk_sorted sk' = sk_sorted sk"
  proof (cases "?a \<le> sk_length sk + 1")
    case False
    then show ?thesis using g l a by (simp add: sk_grow_def word_le_nat_alt)
  next
    case True
    let ?d = "push_bit 1 ?a"
    let ?n = "if overflowed ?d ?a then ?a + 1 else ?d"
    have eq: "unat ?a = Suc (unat (sk_length sk))" using True l by (simp add: word_le_nat_alt)
    have d: "unat ?d = 2 * unat ?a" using a(2) by (simp add: push_bit_eq_mult unat_word_ariths)
    have n: "\<not> overflowed ?n ?a" and sk': "sk' = sk\<lparr>sk_data := sk_data sk @ map (fresh_cell env) [length (sk_data sk)..<unat ?n], sk_alloc := ?n\<rparr>"
      using g True by (auto simp: sk_grow_def Let_def split: if_splits)
    have "unat ?a < unat ?n" using a(2) d eq by (auto simp: unat_word_ariths)
    then show ?thesis using not_overflowed [OF n] sk' a eq by (simp add: sk_items_def)
  qed
  then show "length (sk_data sk') = unat (sk_alloc sk')" "unat (sk_alloc sk') < 2 ^ 61" "Suc (unat (sk_length sk)) < unat (sk_alloc sk')"
    "sk_length sk' = sk_length sk" "sk_items sk' = sk_items sk" "sk_comp sk' = sk_comp sk" "sk_sorted sk' = sk_sorted sk" by simp_all
qed

section \<open>Inserting and deleting\<close>

lemma take_front: "length xs = n \<Longrightarrow> take n (xs @ ys) = xs"
  by simp

lemma insert_cell:
  assumes "w \<le> n" and "n < length d"
  shows "take (Suc n) (if w = n then d[n := p] else (move_cells d (w + 1) w (n - w))[w := p]) = take w d @ p # drop w (take n d)"
    "length (if w = n then d[n := p] else (move_cells d (w + 1) w (n - w))[w := p]) = length d"
proof -
  show "length (if w = n then d[n := p] else (move_cells d (w + 1) w (n - w))[w := p]) = length d"
    using assms by (auto simp: move_cells_def)
  show "take (Suc n) (if w = n then d[n := p] else (move_cells d (w + 1) w (n - w))[w := p]) = take w d @ p # drop w (take n d)"
  proof (cases "w = n")
    case True
    then show ?thesis using assms by (simp add: take_Suc_conv_app_nth)
  next
    case False
    have "take (w + 1) d = take w d @ [d ! w]" using assms by (simp add: take_Suc_conv_app_nth)
    then have "(move_cells d (w + 1) w (n - w))[w := p] = (take w d @ p # take (n - w) (drop w d)) @ drop (w + 1 + (n - w)) d"
      using assms by (simp add: move_cells_def list_update_append)
    moreover have "length (take w d @ p # take (n - w) (drop w d)) = Suc n" using assms by simp
    ultimately have "take (Suc n) ((move_cells d (w + 1) w (n - w))[w := p]) = take w d @ p # take (n - w) (drop w d)"
      using take_front by metis
    then show ?thesis using False by (simp add: drop_take)
  qed
qed

lemma delete_cell:
  assumes "w < n" and "n \<le> length d"
  shows "take (n - 1) (move_cells d w (w + 1) (n - w - 1)) = take w d @ drop (Suc w) (take n d)"
    "length (move_cells d w (w + 1) (n - w - 1)) = length d"
proof -
  have l: "length (take (n - w - 1) (drop (w + 1) d)) = n - w - 1" "length (take w d) = w" using assms by simp_all
  then have n: "length (take w d @ take (n - w - 1) (drop (w + 1) d)) = n - 1" using assms by simp
  have "take (n - 1) (move_cells d w (w + 1) (n - w - 1)) = take w d @ take (n - w - 1) (drop (w + 1) d)"
    unfolding move_cells_def append_assoc [symmetric] by (rule take_front [OF n])
  then show "take (n - 1) (move_cells d w (w + 1) (n - w - 1)) = take w d @ drop (Suc w) (take n d)" by (simp add: drop_take)
  show "length (move_cells d w (w + 1) (n - w - 1)) = length d" unfolding move_cells_def using l assms by simp
qed

lemma insert_items:
  assumes wf: "sk_wf sk" and run: "sk_insert env (Some sk) p at = (r, sk')"
  shows "r = 0 \<and> sk' = Some sk \<or> (\<exists>s. r = sk_length sk + 1 \<and> r \<noteq> 0 \<and> sk' = Some s \<and> sk_wf s \<and> \<not> sk_sorted s \<and> sk_comp s = sk_comp sk
    \<and> sk_items s = take (unat at) (sk_items sk) @ p # drop (unat at) (sk_items sk))"
proof (cases "sk_grow env sk")
  case None
  then show ?thesis using run by (simp add: sk_insert_def)
next
  case (Some g)
  note gw = grow_wf [OF wf Some] and l = wf_length [OF wf]
  let ?n = "unat (sk_length sk)" and ?d = "sk_data g"
  let ?w = "min (unat at) ?n"
  let ?d' = "if ?w = ?n then ?d[?n := p] else (move_cells ?d (?w + 1) ?w (?n - ?w))[?w := p]"
  let ?s = "g\<lparr>sk_data := ?d', sk_length := sk_length sk + 1, sk_sorted := False\<rparr>"
  have s: "sk' = Some ?s" "r = sk_length sk + 1"
    using run Some gw(4) by (auto simp: sk_insert_def Let_def word_le_nat_alt min_def not_le)
  have d: "take (Suc ?n) ?d' = take ?w ?d @ p # drop ?w (take ?n ?d)" "length ?d' = length ?d"
    using insert_cell [of ?w ?n ?d p] gw(1,3) by simp_all
  have wf': "sk_wf ?s" using gw(1-3) d(2) l(4) by (simp add: sk_wf_def word_less_nat_alt)
  have "sk_items ?s = take ?w ?d @ p # drop ?w (sk_items sk)" using d(1) l(4) gw(4,5) by (simp add: sk_items_def)
  moreover have "take ?w ?d = take (unat at) (sk_items sk)" using gw(4,5) by (metis min.commute sk_items_def take_take)
  moreover have "drop ?w (sk_items sk) = drop (unat at) (sk_items sk)" using l(1) by (simp add: min_def)
  moreover have "r \<noteq> 0" using s(2) l(4) by auto
  ultimately show ?thesis using s wf' gw(6) by simp
qed

lemma delete_items:
  assumes wf: "sk_wf sk" and i: "unat at < length (sk_items sk)"
  shows "\<exists>s. sk_delete (Some sk) at = (sk_items sk ! unat at, Some s) \<and> sk_wf s \<and> sk_sorted s = sk_sorted sk \<and> sk_comp s = sk_comp sk
    \<and> sk_items s = take (unat at) (sk_items sk) @ drop (Suc (unat at)) (sk_items sk)"
proof -
  note l = wf_length [OF wf]
  let ?n = "unat (sk_length sk)" and ?w = "unat at" and ?d = "sk_data sk"
  have w: "?w < ?n" "\<not> sk_length sk \<le> at" using i l(1) by (simp_all add: word_le_nat_alt)
  have dn: "?n \<le> length ?d" using wf l(2) by (simp add: sk_wf_def)
  have n1: "unat (sk_length sk - 1) = ?n - 1" using w by (intro unat_minus_one) auto
  let ?d' = "if at \<noteq> sk_length sk - 1 then move_cells ?d ?w (?w + 1) (?n - ?w - 1) else ?d"
  have d: "take (?n - 1) ?d' = take ?w ?d @ drop (Suc ?w) (take ?n ?d)" "length ?d' = length ?d"
    using delete_cell [OF w(1) dn] dn w n1 by (auto simp: drop_take)
  let ?s = "sk\<lparr>sk_data := ?d', sk_length := sk_length sk - 1\<rparr>"
  have "sk_wf ?s" using wf d(2) n1 by (auto simp: sk_wf_def word_less_nat_alt)
  moreover have "sk_items ?s = take ?w (sk_items sk) @ drop (Suc ?w) (sk_items sk)" using d(1) n1 w(1) by (simp add: sk_items_def min_def)
  moreover have "sk_delete (Some sk) at = (sk_items sk ! ?w, Some ?s)" using w by (simp add: sk_delete_def sk_items_def Let_def)
  ultimately show ?thesis by (intro exI [of _ ?s]) simp
qed

lemma push_items:
  assumes "sk_wf sk" and "sk_push env sk p = (r, sk')"
  shows "r = 0 \<and> sk' = Some sk \<or> (\<exists>s. r \<noteq> 0 \<and> sk' = Some s \<and> sk_wf s \<and> \<not> sk_sorted s \<and> sk_comp s = sk_comp sk \<and> sk_items s = sk_items sk @ [p])"
  using insert_items [OF assms(1), of env p "sk_length sk" r sk'] assms(2) wf_length(1) [OF assms(1)] by (auto simp: sk_push_def)

lemma pop_items:
  assumes wf: "sk_wf sk" and "sk_items sk = ps @ [p]"
  shows "\<exists>s. sk_pop (Some sk) = (p, Some s) \<and> sk_wf s \<and> sk_items s = ps"
proof -
  have n: "unat (sk_length sk) = Suc (length ps)" using wf_length(1) [OF wf] assms(2) by simp
  then have z: "sk_length sk \<noteq> 0" by auto
  then have "unat (sk_length sk - 1) = length ps" using n by (simp add: unat_minus_one)
  then show ?thesis using delete_items [OF wf, of "sk_length sk - 1"] assms(2) z by (auto simp: sk_pop_def nth_append)
qed

lemma shift_items:
  assumes wf: "sk_wf sk" and "sk_items sk = p # ps"
  shows "\<exists>s. sk_shift (Some sk) = (p, Some s) \<and> sk_wf s \<and> sk_items s = ps"
proof -
  have "sk_length sk \<noteq> 0" using wf_length(1) [OF wf] assms(2) by auto
  then show ?thesis using delete_items [OF wf, of 0] assms(2) by (auto simp: sk_shift_def)
qed

section \<open>The interface\<close>

text \<open>A list that grows at its end and from which elements are taken at either end.\<close>

fun push_all :: "('s \<Rightarrow> addr \<Rightarrow> 's option) \<Rightarrow> addr list \<Rightarrow> 's \<Rightarrow> 's option" where
  "push_all push [] s = Some s"
| "push_all push (p # ps) s = (case push s p of None \<Rightarrow> None | Some s \<Rightarrow> push_all push ps s)"

fun take_out :: "('s \<Rightarrow> addr \<times> 's) \<Rightarrow> nat \<Rightarrow> 's \<Rightarrow> addr list" where
  "take_out pop 0 s = []"
| "take_out pop (Suc n) s = (case pop s of (p, s) \<Rightarrow> p # take_out pop n s)"

locale pointer_list =
  fixes ok :: "'s \<Rightarrow> bool" and items :: "'s \<Rightarrow> addr list" and push :: "'s \<Rightarrow> addr \<Rightarrow> 's option"
    and pop :: "'s \<Rightarrow> addr \<times> 's" and shift :: "'s \<Rightarrow> addr \<times> 's"
  assumes push: "ok s \<Longrightarrow> push s p = Some s' \<Longrightarrow> ok s' \<and> items s' = items s @ [p]"
    and pop: "ok s \<Longrightarrow> items s = ps @ [p] \<Longrightarrow> \<exists>s'. pop s = (p, s') \<and> ok s' \<and> items s' = ps"
    and shift: "ok s \<Longrightarrow> items s = p # ps \<Longrightarrow> \<exists>s'. shift s = (p, s') \<and> ok s' \<and> items s' = ps"
begin

lemma push_all_items:
  assumes "ok s" and "push_all push ps s = Some s'"
  shows "ok s' \<and> items s' = items s @ ps"
  using assms
proof (induction ps arbitrary: s)
  case (Cons p ps)
  then obtain s1 where "push s p = Some s1" "push_all push ps s1 = Some s'" by (auto split: option.splits)
  then show ?case using Cons.IH push [OF Cons.prems(1)] by fastforce
qed simp

lemma pops_reverse: "ok s \<Longrightarrow> items s = ps \<Longrightarrow> take_out pop (length ps) s = rev ps"
proof (induction ps arbitrary: s rule: rev_induct)
  case (snoc p ps)
  then show ?case using pop [OF snoc.prems] by fastforce
qed simp

lemma shifts_in_order: "ok s \<Longrightarrow> items s = ps \<Longrightarrow> take_out shift (length ps) s = ps"
proof (induction ps arbitrary: s)
  case (Cons p ps)
  then show ?case using shift [OF Cons.prems] by fastforce
qed simp

lemma order:
  assumes "ok s" and "items s = []" and "push_all push ps s = Some s'"
  shows "take_out pop (length ps) s' = rev ps \<and> take_out shift (length ps) s' = ps"
  using push_all_items [OF assms(1,3)] assms(2) pops_reverse shifts_in_order by simp

end

text \<open>The functions of the stack in this form; a push that returns zero fails.\<close>

definition pushed :: "sk_env \<Rightarrow> stack \<Rightarrow> addr \<Rightarrow> stack option" where
  "pushed env sk p = (case sk_push env sk p of (r, sk') \<Rightarrow> if r = 0 then None else sk')"

definition taken :: "(stack option \<Rightarrow> addr \<times> stack option) \<Rightarrow> stack \<Rightarrow> addr \<times> stack" where
  "taken f sk = (case f (Some sk) of (p, None) \<Rightarrow> (p, sk) | (p, Some s) \<Rightarrow> (p, s))"

interpretation sk: pointer_list sk_wf sk_items "pushed env" "taken sk_pop" "taken sk_shift"
proof unfold_locales
  fix s p s' assume wf: "sk_wf s" and "pushed env s p = Some s'"
  then show "sk_wf s' \<and> sk_items s' = sk_items s @ [p]"
    using push_items [OF wf surjective_pairing, of env p] by (auto simp: pushed_def split: prod.splits if_splits)
next
  fix s ps p assume "sk_wf s" "sk_items s = ps @ [p]"
  then show "\<exists>s'. taken sk_pop s = (p, s') \<and> sk_wf s' \<and> sk_items s' = ps" using pop_items by (fastforce simp: taken_def)
next
  fix s p ps assume "sk_wf s" "sk_items s = p # ps"
  then show "\<exists>s'. taken sk_shift s = (p, s') \<and> sk_wf s' \<and> sk_items s' = ps" using shift_items by (fastforce simp: taken_def)
qed

section \<open>Searching\<close>

text \<open>\<open>r\<close> is the first index between two bounds at which \<open>P\<close> holds.\<close>

definition first_index :: "(nat \<Rightarrow> bool) \<Rightarrow> nat \<Rightarrow> nat \<Rightarrow> nat option \<Rightarrow> bool" where
  "first_index P lo hi r \<longleftrightarrow> (case r of None \<Rightarrow> \<forall>j. lo \<le> j \<longrightarrow> j < hi \<longrightarrow> \<not> P j
     | Some i \<Rightarrow> lo \<le> i \<and> i < hi \<and> P i \<and> (\<forall>j. lo \<le> j \<longrightarrow> j < i \<longrightarrow> \<not> P j))"

lemma first_index_unique: "first_index P lo hi r \<Longrightarrow> first_index P lo hi r' \<Longrightarrow> r = r'"
  by (auto simp: first_index_def split: option.splits) (meson linorder_neqE_nat)+

lemma first_index_Suc:
  assumes "first_index P (Suc lo) hi r" and "lo < hi"
  shows "first_index P lo hi (if P lo then Some lo else r)"
proof -
  have "lo \<le> j \<longleftrightarrow> j = lo \<or> Suc lo \<le> j" for j by auto
  then show ?thesis using assms by (auto simp: first_index_def split: option.splits)
qed

lemma first_match_first: "first_index (\<lambda>j. m (xs ! (j - i))) i (i + length xs) (first_match m i xs)"
proof (induction xs arbitrary: i)
  case (Cons x xs)
  have "(x # xs) ! (j - i) = xs ! (j - Suc i)" if "Suc i \<le> j" for j using that by (simp add: nth_Cons')
  then have "first_index (\<lambda>j. m ((x # xs) ! (j - i))) (Suc i) (i + length (x # xs)) (first_match m (Suc i) xs)"
    using Cons.IH [of "Suc i"] by (auto simp: first_index_def split: option.splits)
  from first_index_Suc [OF this] show ?case by (simp split: if_splits)
qed (simp add: first_index_def)

text \<open>Compared with what is searched, the elements are first too low, then equal, then too high.\<close>

definition falling :: "(addr \<Rightarrow> int) \<Rightarrow> addr list \<Rightarrow> nat \<Rightarrow> nat \<Rightarrow> bool" where
  "falling cmp d lo hi \<longleftrightarrow> (\<forall>i j. lo \<le> i \<longrightarrow> i < j \<longrightarrow> j < hi \<longrightarrow> (cmp (d ! j) > 0 \<longrightarrow> cmp (d ! i) > 0) \<and> (cmp (d ! i) < 0 \<longrightarrow> cmp (d ! j) < 0))"

lemma falling_part: "falling cmp d lo hi \<Longrightarrow> lo \<le> lo' \<Longrightarrow> hi' \<le> hi \<Longrightarrow> falling cmp d lo' hi'"
  unfolding falling_def by (meson order_trans less_le_trans)

lemma binary_search_first:
  assumes "falling cmp d lo hi"
  shows "first_index (\<lambda>j. cmp (d ! j) = 0) lo hi (binary_search cmp d lo hi)"
  using assms
proof (induction cmp d lo hi rule: binary_search.induct)
  case (1 cmp d lo hi)
  show ?case
  proof (cases "lo < hi")
    case True
    define mid where "mid = lo + (hi - lo - 1) div 2"
    have m: "lo \<le> mid" "mid < hi" "hi - lo = 1 \<Longrightarrow> mid = lo" using True by (auto simp: mid_def)
    have before: "cmp (d ! j) > 0" if "lo \<le> j" "j \<le> mid" "cmp (d ! mid) > 0" for j
      using 1(4) that m(2) unfolding falling_def by (metis le_neq_implies_less)
    have after: "cmp (d ! j) < 0" if "mid \<le> j" "j < hi" "cmp (d ! mid) < 0" for j
      using 1(4) that m(1) unfolding falling_def by (metis le_neq_implies_less)
    note ih = 1(1-3) [OF True mid_def refl] and mono = 1(4)
    have run: "binary_search cmp d lo hi = (if cmp (d ! mid) > 0 then binary_search cmp d (mid + 1) hi else if cmp (d ! mid) < 0 then binary_search cmp d lo mid
        else if hi - lo = 1 then Some mid else binary_search cmp d lo (mid + 1))"
      using True by (subst binary_search.simps) (simp add: mid_def Let_def)
    consider "cmp (d ! mid) > 0" | "cmp (d ! mid) < 0" | "cmp (d ! mid) = 0" "hi - lo = 1" | "cmp (d ! mid) = 0" "hi - lo \<noteq> 1" by linarith
    then show ?thesis
    proof cases
      case 1
      then have "first_index (\<lambda>j. cmp (d ! j) = 0) (mid + 1) hi (binary_search cmp d (mid + 1) hi)" using mono m(1) by (intro ih(1) falling_part [OF mono]) auto
      then show ?thesis using run 1 before m(1) by (fastforce simp: first_index_def Suc_le_eq not_le split: option.splits)
    next
      case 2
      then have "first_index (\<lambda>j. cmp (d ! j) = 0) lo mid (binary_search cmp d lo mid)" using mono m(2) by (intro ih(2) falling_part [OF mono]) auto
      then show ?thesis using run 2 after m(2) by (fastforce simp: first_index_def not_le split: option.splits)
    next
      case 3
      then show ?thesis using run m by (simp add: first_index_def)
    next
      case 4
      then have "first_index (\<lambda>j. cmp (d ! j) = 0) lo (mid + 1) (binary_search cmp d lo (mid + 1))" using mono m(2) by (intro ih(3) falling_part [OF mono]) auto
      then show ?thesis using run 4 m by (fastforce simp: first_index_def split: option.splits)
    qed
  qed (simp add: first_index_def binary_search.simps)
qed

section \<open>Order\<close>

text \<open>
  A comparison function that orders the elements of a set, which is what \<open>qsort\<close> and the search ask of it, and a sorting function that
  does what the C standard says of \<open>qsort\<close>: it rearranges the elements so that each compares less or equal to the next.
\<close>

definition sorts :: "((addr \<Rightarrow> addr \<Rightarrow> int) \<Rightarrow> addr list \<Rightarrow> addr list) \<Rightarrow> (addr \<Rightarrow> addr \<Rightarrow> int) \<Rightarrow> addr set \<Rightarrow> bool" where
  "sorts sort_cells cmp S \<longleftrightarrow> (\<forall>xs. set xs \<subseteq> S \<longrightarrow> mset (sort_cells cmp xs) = mset xs \<and> sorted_wrt (\<lambda>x y. cmp x y \<le> 0) (sort_cells cmp xs))"

locale cmp_order =
  fixes cmp :: "addr \<Rightarrow> addr \<Rightarrow> int" and S :: "addr set"
  assumes swap: "x \<in> S \<Longrightarrow> y \<in> S \<Longrightarrow> cmp x y < 0 \<longleftrightarrow> cmp y x > 0"
    and trans: "x \<in> S \<Longrightarrow> y \<in> S \<Longrightarrow> z \<in> S \<Longrightarrow> cmp x y \<le> 0 \<Longrightarrow> cmp y z \<le> 0 \<Longrightarrow> cmp x z \<le> 0"
begin

lemma sorted_falling:
  assumes "sorted_wrt (\<lambda>x y. cmp x y \<le> 0) xs" and "set xs \<subseteq> S" and "p \<in> S"
  shows "falling (cmp p) xs 0 (length xs)"
  unfolding falling_def
proof (intro allI impI conjI)
  fix i j assume ij: "i < j" "j < length xs"
  then have le: "cmp (xs ! i) (xs ! j) \<le> 0" and S: "xs ! i \<in> S" "xs ! j \<in> S"
    using assms(1,2) by (auto simp: sorted_wrt_iff_nth_less)
  show "cmp p (xs ! i) > 0" if "cmp p (xs ! j) > 0" using trans [OF assms(3) S _ le] that by force
  show "cmp p (xs ! j) < 0" if "cmp p (xs ! i) < 0"
    using trans [OF S assms(3) le] that swap [OF assms(3) S(1)] swap [OF assms(3) S(2)] swap [OF S(2) assms(3)] by linarith
qed

text \<open>The binary search on sorted elements is the search from the front.\<close>

lemma binary_search_eq:
  assumes "sorted_wrt (\<lambda>x y. cmp x y \<le> 0) xs" and "set xs \<subseteq> S" and "p \<in> S"
  shows "binary_search (cmp p) xs 0 (length xs) = first_match (\<lambda>x. cmp p x = 0) 0 xs"
  using binary_search_first [OF sorted_falling [OF assms]] first_match_first [of "\<lambda>x. cmp p x = 0" xs 0]
  by (intro first_index_unique [of "\<lambda>j. cmp p (xs ! j) = 0" 0 "length xs"]) simp_all

end

text \<open>The flag \<open>sk_sorted\<close> tells the truth.\<close>

definition sorted_ok :: "sk_cmp \<Rightarrow> stack \<Rightarrow> bool" where
  "sorted_ok call_cmp_func sk \<longleftrightarrow> (sk_sorted sk \<longrightarrow> sk_comp sk \<noteq> 0 \<and> sorted_wrt (\<lambda>x y. call_cmp_func (sk_comp sk) x y \<le> 0) (sk_items sk))"

lemma binary_search_take: "hi \<le> n \<Longrightarrow> binary_search cmp (take n d) lo hi = binary_search cmp d lo hi"
proof (induction cmp d lo hi rule: binary_search.induct)
  case (1 cmp d lo hi)
  show ?case
  proof (cases "lo < hi")
    case True
    define mid where "mid = lo + (hi - lo - 1) div 2"
    have m: "mid < hi" using True by (auto simp: mid_def)
    then have nth: "take n d ! mid = d ! mid" using 1(4) by simp
    note ih = 1(1-3) [OF True mid_def refl]
    have run: "binary_search cmp e lo hi = (if cmp (e ! mid) > 0 then binary_search cmp e (mid + 1) hi else if cmp (e ! mid) < 0 then binary_search cmp e lo mid
        else if hi - lo = 1 then Some mid else binary_search cmp e lo (mid + 1))" for e
      using True by (subst binary_search.simps) (simp add: mid_def Let_def)
    show ?thesis unfolding run nth using ih m 1(4) by auto
  qed (simp add: binary_search.simps)
qed

lemma sk_find_first:
  assumes wf: "sk_wf sk" and ok: "sorted_ok ccf sk" and ord: "cmp_order (ccf (sk_comp sk)) S" and S: "set (sk_items sk) \<subseteq> S" "p \<in> S"
    and p: "p \<noteq> 0" "sk_comp sk \<noteq> 0"
  shows "sk_find ccf (Some sk) p = map_option of_nat (first_match (\<lambda>x. ccf (sk_comp sk) p x = 0) 0 (sk_items sk))"
proof (cases "sk_sorted sk")
  case True
  have "binary_search (ccf (sk_comp sk) p) (sk_data sk) 0 (unat (sk_length sk)) = binary_search (ccf (sk_comp sk) p) (sk_items sk) 0 (length (sk_items sk))"
    using binary_search_take wf_length(1) [OF wf] by (simp add: sk_items_def)
  also have "\<dots> = first_match (\<lambda>x. ccf (sk_comp sk) p x = 0) 0 (sk_items sk)"
    using ok True by (intro cmp_order.binary_search_eq [OF ord _ S]) (simp add: sorted_ok_def)
  finally show ?thesis using True p by (simp add: sk_find_def sk_is_sorted_def)
qed (use p in \<open>simp add: sk_find_def sk_is_sorted_def sk_items_def\<close>)

lemma sort_ok:
  assumes wf: "sk_wf sk" and ok: "sorted_ok ccf sk" and q: "sorts sort_cells (ccf (sk_comp sk)) S" and S: "set (sk_items sk) \<subseteq> S"
    and c: "sk_comp sk \<noteq> 0"
  shows "\<exists>s. sk_sort sort_cells ccf (Some sk) = Some s \<and> sk_wf s \<and> sorted_ok ccf s \<and> sk_sorted s \<and> sk_comp s = sk_comp sk \<and> mset (sk_items s) = mset (sk_items sk)"
proof (cases "sk_sorted sk")
  case False
  let ?n = "unat (sk_length sk)" and ?c = "ccf (sk_comp sk)"
  let ?xs = "if sk_length sk \<ge> 2 then sort_cells ?c (sk_items sk) else sk_items sk"
  have dn: "?n \<le> length (sk_data sk)" using wf wf_length(2) [OF wf] by (simp add: sk_wf_def)
  have xs: "mset ?xs = mset (sk_items sk)" "sorted_wrt (\<lambda>x y. ?c x y \<le> 0) ?xs"
  proof -
    have s: "mset (sort_cells ?c (sk_items sk)) = mset (sk_items sk)" "sorted_wrt (\<lambda>x y. ?c x y \<le> 0) (sort_cells ?c (sk_items sk))"
      using q S by (simp_all add: sorts_def)
    have short: "length (sk_items sk) \<le> 1" if "\<not> sk_length sk \<ge> 2" using that wf_length(1) [OF wf] by (simp add: word_le_nat_alt)
    then have "sorted_wrt (\<lambda>x y. ?c x y \<le> 0) (sk_items sk)" if "\<not> sk_length sk \<ge> 2"
      using that by (cases "sk_items sk") auto
    then show "mset ?xs = mset (sk_items sk)" "sorted_wrt (\<lambda>x y. ?c x y \<le> 0) ?xs" using s by auto
  qed
  let ?s = "sk\<lparr>sk_data := ?xs @ drop ?n (sk_data sk), sk_sorted := True\<rparr>"
  have l: "length ?xs = ?n" using mset_eq_length [OF xs(1)] wf_length(1) [OF wf] by simp
  have "sk_sort sort_cells ccf (Some sk) = Some ?s" using False c by (simp add: sk_sort_def Let_def sk_items_def)
  moreover have "sk_items ?s = ?xs" using l by (simp add: sk_items_def)
  moreover have "sk_wf ?s" using wf l dn by (simp add: sk_wf_def)
  ultimately show ?thesis using xs c by (intro exI [of _ ?s]) (simp add: sorted_ok_def)
qed (use wf ok c in \<open>simp add: sk_sort_def\<close>)

section \<open>What keeps the order\<close>

lemma sorted_wrt_remove: "sorted_wrt R xs \<Longrightarrow> sorted_wrt R (take i xs @ drop j xs)" if "i \<le> j"
  using that by (induction xs arbitrary: i j) (auto simp: take_Cons' drop_Cons' dest: in_set_takeD in_set_dropD)

lemma delete_sorted_ok:
  assumes "sk_wf sk" and "sorted_ok ccf sk" and "sk_delete (Some sk) at = (r, Some s)"
  shows "sk_wf s \<and> sorted_ok ccf s"
proof (cases "unat at < length (sk_items sk)")
  case True
  then show ?thesis using delete_items [OF assms(1) True] assms(2,3) sorted_wrt_remove [of "unat at" "Suc (unat at)" _ "sk_items sk"]
    by (auto simp: sorted_ok_def)
next
  case False
  then show ?thesis using assms wf_length(1) [OF assms(1)] by (simp add: sk_delete_def word_le_nat_alt not_less)
qed

lemma insert_sorted_ok:
  assumes "sk_wf sk" and "sorted_ok ccf sk" and "sk_insert env (Some sk) p at = (r, Some s)"
  shows "sk_wf s \<and> sorted_ok ccf s"
  using insert_items [OF assms(1,3)] assms(1,2) by (auto simp: sorted_ok_def)

lemma zero_items: "sk_wf sk \<Longrightarrow> \<exists>s. sk_zero (Some sk) = Some s \<and> sk_wf s \<and> sk_items s = [] \<and> (sorted_ok ccf sk \<longrightarrow> sorted_ok ccf s)"
  using wf_length(2) [of sk] by (auto simp: sk_zero_def sk_wf_def sk_items_def sorted_ok_def word_less_nat_alt)

lemma set_items:
  assumes "sk_wf sk" and "i < sk_length sk"
  shows "\<exists>s. sk_set (Some sk) i v = (v, Some s) \<and> sk_wf s \<and> sk_items s = (sk_items sk)[unat i := v] \<and> sk_sorted s = sk_sorted sk \<and> sk_comp s = sk_comp sk"
  using assms by (auto simp: sk_set_def sk_wf_def sk_items_def take_update_swap)

lemma value_items: "sk_wf sk \<Longrightarrow> sk_value (Some sk) i = (if unat i < length (sk_items sk) then sk_items sk ! unat i else 0)"
  using wf_length(1) [of sk] by (auto simp: sk_value_def sk_items_def word_le_nat_alt)

lemma dup_items:
  assumes "sk_wf sk" and "sk_dup stack env (Some sk) = Some s"
  shows "sk_wf s \<and> sk_items s = sk_items sk \<and> sk_sorted s = sk_sorted sk \<and> sk_comp s = sk_comp sk"
  using assms wf_length(2) [OF assms(1)] by (auto simp: sk_dup_def sk_wf_def sk_items_def Let_def split: if_splits)

text \<open>A deep copy has the copies of all elements, or it frees those it made.\<close>

lemma copy_cells_spec:
  "copy_cells f copied xs = (if \<exists>x \<in> set xs. x \<noteq> 0 \<and> f x = 0
     then Inl (filter (\<lambda>p. p \<noteq> 0) (copied @ map (\<lambda>x. if x = 0 then 0 else f x) (takeWhile (\<lambda>x. x = 0 \<or> f x \<noteq> 0) xs)))
     else Inr (copied @ map (\<lambda>x. if x = 0 then 0 else f x) xs))"
  by (induction xs arbitrary: copied) (auto simp: Let_def)

lemma deep_copy_items:
  assumes wf: "sk_wf sk" and run: "sk_deep_copy stack env f (Some sk) = (Some s, freed)"
  shows "sk_wf s \<and> sk_items s = map (\<lambda>x. if x = 0 then 0 else f x) (sk_items sk) \<and> (\<forall>x \<in> set (sk_items sk). x \<noteq> 0 \<longrightarrow> f x \<noteq> 0) \<and> freed = []"
proof -
  obtain ret where ret: "sk_dup stack env (Some sk) = Some ret" using run by (auto simp: sk_deep_copy_def split: option.splits)
  note d = dup_items [OF wf ret]
  have n: "length (sk_items sk) = unat (sk_length ret)" "unat (sk_length ret) \<le> length (sk_data ret)"
    using d wf_length(1,2) [of ret] by (auto simp: sk_wf_def)
  have ok: "\<forall>x \<in> set (sk_items sk). x \<noteq> 0 \<longrightarrow> f x \<noteq> 0" and s: "s = ret\<lparr>sk_data := map (\<lambda>x. if x = 0 then 0 else f x) (sk_items sk) @ drop (unat (sk_length ret)) (sk_data ret)\<rparr>" "freed = []"
    using run ret d by (auto simp: sk_deep_copy_def Let_def copy_cells_spec sk_items_def split: if_splits)
  then show ?thesis using d n by (simp add: sk_wf_def sk_items_def)
qed

end
