(* ===== verification/X509_Ext.thy ===== *)
theory X509_Ext
  imports Stack_Correct
begin

text \<open>
  The registry of X.509 extension methods (\<open>crypto/x509v3/v3_lib.c\<close>), a client of the stack: the functions add to a
  list that is sorted when it is searched. The table \<open>standard_exts\<close> of \<open>ext_dat.h\<close>, \<open>qsort\<close>, the address of the
  comparison function and those of locals are parameters. \<open>ext_rest\<close> stands for the fields the registry does not look at.
\<close>

record ext_method =
  ext_nid :: "32 word"
  ext_flags :: "32 word"
  ext_rest :: addr

type_synonym methods = "addr \<Rightarrow> ext_method"

record ext_state =
  ext_list :: "stack option"
  ext_mem :: methods

record ext_env =
  stack_alloc :: bool
  stack_env :: sk_env
  cmp_ptr :: addr

definition X509V3_EXT_DYNAMIC :: "32 word" where
  "X509V3_EXT_DYNAMIC = 1"

definition ext_stack_cmp :: "methods \<Rightarrow> addr \<Rightarrow> addr \<Rightarrow> int" where
  "ext_stack_cmp m a b = sint (ext_nid (m a) - ext_nid (m b))"

definition ext_call_cmp :: "methods \<Rightarrow> sk_cmp" where
  "ext_call_cmp m func = ext_stack_cmp m"

text \<open>The addresses that are freed.\<close>

definition ext_list_free :: "methods \<Rightarrow> addr \<Rightarrow> addr list" where
  "ext_list_free m ext = (if ext_flags (m ext) AND X509V3_EXT_DYNAMIC \<noteq> 0 then [ext] else [])"

text \<open>The returned flag, what was freed, and the state.\<close>

definition X509V3_EXT_add :: "ext_env \<Rightarrow> addr \<Rightarrow> ext_state \<Rightarrow> bool \<times> addr list \<times> ext_state" where
  "X509V3_EXT_add env ext st =
     (let l = (if ext_list st = None then sk_new (stack_alloc env) (can_alloc (stack_env env)) (cmp_ptr env) else ext_list st)
      in case l of
           None \<Rightarrow> (False, ext_list_free (ext_mem st) ext, st)
         | Some sk \<Rightarrow>
             (case sk_push (stack_env env) sk ext of (r, sk) \<Rightarrow>
                if r = 0 then (False, ext_list_free (ext_mem st) ext, st\<lparr>ext_list := sk\<rparr>)
                else (True, [], st\<lparr>ext_list := sk\<rparr>)))"

definition ext_cmp :: "methods \<Rightarrow> addr \<Rightarrow> addr \<Rightarrow> int" where
  "ext_cmp m a b = ext_stack_cmp m a b"

text \<open>
  \<open>bsearch\<close> gives an element of the table that compares equal, if there is one; the numbers in the table are distinct.
  \<open>tmp\<close> is the address of the local method.
\<close>

definition X509V3_EXT_get_nid :: "((addr \<Rightarrow> addr \<Rightarrow> int) \<Rightarrow> addr list \<Rightarrow> addr list) \<Rightarrow> addr list \<Rightarrow> addr \<Rightarrow> 32 word \<Rightarrow> ext_state \<Rightarrow> addr \<times> ext_state" where
  "X509V3_EXT_get_nid sort_cells standard_exts tmp nid st =
     (if sint nid < 0 then (0, st)
      else let m = (ext_mem st)(tmp := (ext_mem st tmp)\<lparr>ext_nid := nid\<rparr>)
        in case find (\<lambda>e. ext_cmp m tmp e = 0) standard_exts of
             Some e \<Rightarrow> (e, st)
           | None \<Rightarrow>
               if ext_list st = None then (0, st)
               else let l = sk_sort sort_cells (ext_call_cmp m) (ext_list st); st = st\<lparr>ext_list := l\<rparr>
                 in case sk_find (ext_call_cmp m) l tmp of
                      None \<Rightarrow> (0, st)
                    | Some idx \<Rightarrow> (sk_value l idx, st))"

text \<open>The list is given up to its terminator.\<close>

fun X509V3_EXT_add_list :: "ext_env \<Rightarrow> addr list \<Rightarrow> ext_state \<Rightarrow> bool \<times> addr list \<times> ext_state" where
  "X509V3_EXT_add_list env [] st = (True, [], st)"
| "X509V3_EXT_add_list env (ext # exts) st =
     (case X509V3_EXT_add env ext st of (ok, freed, st) \<Rightarrow>
        if ok then X509V3_EXT_add_list env exts st else (False, freed, st))"

text \<open>\<open>tmpext\<close> is what \<open>malloc\<close> gives for the new method.\<close>

definition X509V3_EXT_add_alias :: "((addr \<Rightarrow> addr \<Rightarrow> int) \<Rightarrow> addr list \<Rightarrow> addr list) \<Rightarrow> addr list \<Rightarrow> addr \<Rightarrow> ext_env \<Rightarrow> addr \<Rightarrow> 32 word \<Rightarrow> 32 word
    \<Rightarrow> ext_state \<Rightarrow> bool \<times> addr list \<times> ext_state" where
  "X509V3_EXT_add_alias sort_cells standard_exts tmp env tmpext nid_to nid_from st =
     (case X509V3_EXT_get_nid sort_cells standard_exts tmp nid_from st of (ext, st) \<Rightarrow>
        if ext = 0 then (False, [], st)
        else if tmpext = 0 then (False, [], st)
        else let e = ext_mem st ext
          in X509V3_EXT_add env tmpext
               (st\<lparr>ext_mem := (ext_mem st)(tmpext := e\<lparr>ext_nid := nid_to, ext_flags := ext_flags e OR X509V3_EXT_DYNAMIC\<rparr>)\<rparr>))"

definition X509V3_EXT_cleanup :: "ext_state \<Rightarrow> addr list \<times> ext_state" where
  "X509V3_EXT_cleanup st = (concat (map (ext_list_free (ext_mem st)) (sk_pop_free_ex (ext_list st))), st\<lparr>ext_list := None\<rparr>)"

section \<open>Correctness\<close>

text \<open>Numbers that are not negative are ordered by their difference.\<close>

definition numbered :: "methods \<Rightarrow> addr set" where
  "numbered m = {a. 0 \<le> sint (ext_nid (m a))}"

lemma nid_diff:
  assumes "0 \<le> sint a" and "0 \<le> sint (b :: 32 word)"
  shows "sint (a - b) = sint a - sint b"
proof -
  have "sint a < 2 ^ 31" "sint b < 2 ^ 31" using sint_less [of a] sint_less [of b] by simp_all
  then show ?thesis using assms by (simp add: sint_word_ariths signed_take_bit_int_eq_self)
qed

interpretation ext_order: cmp_order "ext_stack_cmp m" "numbered m"
  by unfold_locales (auto simp: ext_stack_cmp_def numbered_def nid_diff)

definition registered :: "ext_state \<Rightarrow> addr list" where
  "registered st = (case ext_list st of None \<Rightarrow> [] | Some sk \<Rightarrow> sk_items sk)"

definition ext_ok :: "ext_env \<Rightarrow> ext_state \<Rightarrow> bool" where
  "ext_ok env st \<longleftrightarrow> set (registered st) \<subseteq> numbered (ext_mem st) - {0}
     \<and> (case ext_list st of None \<Rightarrow> True | Some sk \<Rightarrow> sk_wf sk \<and> sorted_ok (ext_call_cmp (ext_mem st)) sk \<and> sk_comp sk = cmp_ptr env)"

lemma registered_upd [simp]: "registered (st\<lparr>ext_list := Some sk\<rparr>) = sk_items sk"
  by (simp add: registered_def)

lemma ext_add:
  assumes ok: "ext_ok env st" and ext: "ext \<in> numbered (ext_mem st)" "ext \<noteq> 0"
    and run: "X509V3_EXT_add env ext st = (r, freed, st')"
  shows "ext_ok env st' \<and> ext_mem st' = ext_mem st \<and> registered st' = registered st @ (if r then [ext] else [])"
proof -
  let ?l = "if ext_list st = None then sk_new (stack_alloc env) (can_alloc (stack_env env)) (cmp_ptr env) else ext_list st"
  show ?thesis
  proof (cases ?l)
    case None
    then show ?thesis using run ok by (simp add: X509V3_EXT_add_def)
  next
    case (Some sk)
    have sk: "sk_wf sk" "sorted_ok (ext_call_cmp (ext_mem st)) sk" "sk_comp sk = cmp_ptr env" "sk_items sk = registered st"
      using ok Some new_wf [of "stack_alloc env" "can_alloc (stack_env env)" "cmp_ptr env" sk]
      by (auto simp: ext_ok_def registered_def sorted_ok_def split: if_splits option.splits)
    obtain r' sk' where p: "sk_push (stack_env env) sk ext = (r', sk')" by fastforce
    have run': "st' = st\<lparr>ext_list := sk'\<rparr>" "r \<longleftrightarrow> r' \<noteq> 0" using run Some p by (auto simp: X509V3_EXT_add_def Let_def split: if_splits)
    have reg: "set (registered st) \<subseteq> numbered (ext_mem st) - {0}" using ok by (simp add: ext_ok_def)
    from push_items [OF sk(1) p] show ?thesis using run' sk reg ext by (auto simp: ext_ok_def sorted_ok_def)
  qed
qed

text \<open>Changing a method that is in no list changes no comparison of the list.\<close>

lemma sorted_ok_cong:
  assumes "tmp \<notin> set (sk_items sk)"
  shows "sorted_ok (ext_call_cmp (m(tmp := v))) sk = sorted_ok (ext_call_cmp m) sk"
proof -
  have "sorted_wrt (\<lambda>x y. ext_stack_cmp (m(tmp := v)) x y \<le> 0) (sk_items sk) = sorted_wrt (\<lambda>x y. ext_stack_cmp m x y \<le> 0) (sk_items sk)"
    using assms by (intro iffI; elim sorted_wrt_mono_rel [rotated]) (auto simp: ext_stack_cmp_def split: if_splits)
  then show ?thesis by (simp add: sorted_ok_def ext_call_cmp_def)
qed

lemma cmp_zero: "ext_stack_cmp m a b = 0 \<longleftrightarrow> ext_nid (m a) = ext_nid (m b)"
  by (auto simp: ext_stack_cmp_def signed_eq_0_iff)

lemma first_match_cases:
  "case first_match P 0 xs of None \<Rightarrow> \<forall>x \<in> set xs. \<not> P x | Some i \<Rightarrow> i < length xs \<and> P (xs ! i)"
  using first_match_first [of P xs 0] by (auto simp: first_index_def in_set_conv_nth split: option.splits)

text \<open>Sorting the list and searching it.\<close>

lemma ext_search:
  assumes sk: "sk_wf sk" "sorted_ok (ext_call_cmp m) sk" "sk_comp sk \<noteq> 0" and S: "set (sk_items sk) \<subseteq> numbered m" "tmp \<in> numbered m" "tmp \<noteq> 0"
    and q: "sorts sort_cells (ext_stack_cmp m) (numbered m)"
  obtains s where "sk_sort sort_cells (ext_call_cmp m) (Some sk) = Some s" "sk_wf s" "sorted_ok (ext_call_cmp m) s" "sk_comp s = sk_comp sk" "mset (sk_items s) = mset (sk_items sk)"
    "case sk_find (ext_call_cmp m) (Some s) tmp of None \<Rightarrow> \<forall>e \<in> set (sk_items sk). ext_stack_cmp m tmp e \<noteq> 0
     | Some i \<Rightarrow> sk_value (Some s) i \<in> set (sk_items sk) \<and> ext_stack_cmp m tmp (sk_value (Some s) i) = 0"
proof -
  have c: "ext_call_cmp m f = ext_stack_cmp m" for f by (simp add: ext_call_cmp_def fun_eq_iff)
  obtain s where s: "sk_sort sort_cells (ext_call_cmp m) (Some sk) = Some s" "sk_wf s" "sorted_ok (ext_call_cmp m) s" "sk_comp s = sk_comp sk" "mset (sk_items s) = mset (sk_items sk)"
    using sort_ok [OF sk(1,2) _ S(1) sk(3), of sort_cells] q c by auto
  have set: "set (sk_items s) = set (sk_items sk)" by (rule mset_eq_setD [OF s(5)])
  have f: "sk_find (ext_call_cmp m) (Some s) tmp = map_option of_nat (first_match (\<lambda>e. ext_stack_cmp m tmp e = 0) 0 (sk_items s))"
    using sk_find_first [OF s(2,3) _ _ S(2,3)] ext_order.cmp_order_axioms set S(1) s(4) sk(3) by (simp add: c)
  have v: "sk_value (Some s) (of_nat i) = sk_items s ! i" if "i < length (sk_items s)" for i
  proof -
    have "unat (of_nat i :: u64) = i" using that wf_length(1,3) [OF s(2)] by (simp add: unat_of_nat)
    then show ?thesis using that value_items [OF s(2)] by simp
  qed
  have "case sk_find (ext_call_cmp m) (Some s) tmp of None \<Rightarrow> \<forall>e \<in> set (sk_items sk). ext_stack_cmp m tmp e \<noteq> 0
     | Some i \<Rightarrow> sk_value (Some s) i \<in> set (sk_items sk) \<and> ext_stack_cmp m tmp (sk_value (Some s) i) = 0"
    using first_match_cases [where P = "\<lambda>e. ext_stack_cmp m tmp e = 0" and xs = "sk_items s"] v set
    by (cases "first_match (\<lambda>e. ext_stack_cmp m tmp e = 0) 0 (sk_items s)") (auto simp: f)
  then show thesis using that s by blast
qed

lemma ext_get_nid:
  assumes ok: "ext_ok env st" and cmp: "cmp_ptr env \<noteq> 0" and tmp: "tmp \<noteq> 0" "tmp \<notin> set (registered st) \<union> set std" and std: "set std \<subseteq> numbered (ext_mem st) - {0}"
    and q: "\<And>m. sorts sort_cells (ext_stack_cmp m) (numbered m)"
    and run: "X509V3_EXT_get_nid sort_cells std tmp nid st = (r, st')"
  shows "ext_ok env st' \<and> mset (registered st') = mset (registered st) \<and> ext_mem st' = ext_mem st
    \<and> (if r = 0 then \<forall>e \<in> set std \<union> set (registered st). ext_nid (ext_mem st e) \<noteq> nid
       else r \<in> set std \<union> set (registered st) \<and> ext_nid (ext_mem st r) = nid)"
proof (cases "sint nid < 0")
  case True
  then show ?thesis using run ok std by (fastforce simp: X509V3_EXT_get_nid_def ext_ok_def numbered_def)
next
  case False
  let ?m = "(ext_mem st)(tmp := (ext_mem st tmp)\<lparr>ext_nid := nid\<rparr>)"
  have eq: "ext_stack_cmp ?m tmp e = 0 \<longleftrightarrow> ext_nid (ext_mem st e) = nid" if "e \<noteq> tmp" for e using that by (auto simp: cmp_zero)
  show ?thesis
  proof (cases "find (\<lambda>e. ext_cmp ?m tmp e = 0) std")
    case (Some e)
    then have "e \<in> set std" "ext_stack_cmp ?m tmp e = 0" by (auto simp: find_Some_iff ext_cmp_def)
    then show ?thesis using run Some False ok eq [of e] tmp(2) std by (auto simp: X509V3_EXT_get_nid_def)
  next
    case None
    then have no: "\<forall>e \<in> set std. ext_nid (ext_mem st e) \<noteq> nid" using eq tmp(2) unfolding find_None_iff ext_cmp_def by fastforce
    show ?thesis
    proof (cases "ext_list st")
      case None
      then show ?thesis using run False no ok \<open>find _ _ = None\<close> by (simp add: X509V3_EXT_get_nid_def registered_def)
    next
      case (Some sk)
      have sk: "sk_wf sk" "sorted_ok (ext_call_cmp (ext_mem st)) sk" "sk_comp sk = cmp_ptr env" and reg: "registered st = sk_items sk"
        "set (sk_items sk) \<subseteq> numbered (ext_mem st) - {0}" using ok Some by (simp_all add: ext_ok_def registered_def)
      have t: "tmp \<notin> set (sk_items sk)" using tmp(2) reg(1) by simp
      have S: "set (sk_items sk) \<subseteq> numbered ?m" "tmp \<in> numbered ?m" using reg(2) t False by (auto simp: numbered_def)
      have so: "sorted_ok (ext_call_cmp ?m) sk" "sk_comp sk \<noteq> 0" using sk(2,3) sorted_ok_cong [OF t] cmp by simp_all
      obtain s where s: "sk_sort sort_cells (ext_call_cmp ?m) (Some sk) = Some s" "sk_wf s" "sorted_ok (ext_call_cmp ?m) s" "sk_comp s = sk_comp sk" "mset (sk_items s) = mset (sk_items sk)"
        "case sk_find (ext_call_cmp ?m) (Some s) tmp of None \<Rightarrow> \<forall>e \<in> set (sk_items sk). ext_stack_cmp ?m tmp e \<noteq> 0
         | Some i \<Rightarrow> sk_value (Some s) i \<in> set (sk_items sk) \<and> ext_stack_cmp ?m tmp (sk_value (Some s) i) = 0"
        by (rule ext_search [OF sk(1) so S tmp(1) q])
      have set: "set (sk_items s) = set (sk_items sk)" by (rule mset_eq_setD [OF s(5)])
      have st': "st' = st\<lparr>ext_list := Some s\<rparr>" "r = (case sk_find (ext_call_cmp ?m) (Some s) tmp of None \<Rightarrow> 0 | Some i \<Rightarrow> sk_value (Some s) i)"
        using run False Some s(1) \<open>find _ _ = None\<close> by (auto simp: X509V3_EXT_get_nid_def Let_def split: option.splits)
      have "ext_ok env st'" using s(2-4) sk(3) reg(2) set t sorted_ok_cong [of tmp s "ext_mem st"] by (simp add: ext_ok_def st'(1))
      moreover have "if r = 0 then \<forall>e \<in> set std \<union> set (registered st). ext_nid (ext_mem st e) \<noteq> nid
          else r \<in> set std \<union> set (registered st) \<and> ext_nid (ext_mem st r) = nid"
      proof (cases "sk_find (ext_call_cmp ?m) (Some s) tmp")
        case None
        then have "\<forall>e \<in> set (sk_items sk). ext_nid (ext_mem st e) \<noteq> nid" using s(6) eq t by fastforce
        then show ?thesis using None no reg(1) st'(2) by auto
      next
        case (Some i)
        then have "r \<in> set (sk_items sk)" "ext_stack_cmp ?m tmp r = 0" using s(6) st'(2) by simp_all
        then show ?thesis using eq [of r] t reg by auto
      qed
      ultimately show ?thesis using s(5) reg(1) st'(1) by simp
    qed
  qed
qed

end
