(* ===== verification/Container_Properties.thy ===== *)
theory Container_Properties
  imports Lhash_Walk Pool_Correct X509_Ext
begin

text \<open>
  The properties of the hash table, of the pool of buffers built on it, of the pointer stack, and of the registry of extensions built
  on that, with a concrete instance of each.
\<close>

section \<open>The hash table\<close>

text \<open>
  C20: the table implements a map. After any sequence of insertions and deletions, however often
  the table was resized, a search gives what the map has that saw the same operations, and the count is its size.
\<close>

theorem lhash_refines_map:
  assumes "good_callbacks chf ccf hash cmp key" and "OPENSSL_lh_new table array hash cmp = Some lh" and "allowed_run (lh_step chf ccf) lh_allowed ops lh"
  shows "OPENSSL_lh_retrieve (fold (lh_step chf ccf) ops lh) d chf ccf = or_null (fold (map_step key) ops Map.empty (key d))
    \<and> unat (OPENSSL_lh_num_items (fold (lh_step chf ccf) ops lh)) = card (dom (fold (map_step key) ops Map.empty))"
  using lh_callbacks.run_search [OF lh_callbacks.intro [OF assms(1)] new_ready(1) [OF assms(2)] assms(3)] new_ready(2) [OF assms(2), of key] by simp

definition example_hash :: hash_caller where
  "example_hash func p = ucast p"

definition example_cmp :: cmp_caller where
  "example_cmp func a b = (if a = b then 0 else 1)"

lemma example_good: "good_callbacks example_hash example_cmp hash cmp id"
  by (simp add: good_callbacks_def example_hash_def example_cmp_def)

definition example_lh_alloc :: lh_alloc where
  "example_lh_alloc = \<lparr>new_item = 0x100, new_array = (\<lambda>_. True)\<rparr>"

definition example_table :: lhash where
  "example_table = \<lparr>num_items = 0, buckets = replicate 16 [], num_buckets = 16, callback_depth = 0, comp_func = 2, hash_func = 1\<rparr>"

lemma example_new: "OPENSSL_lh_new True (\<lambda>_. True) 1 2 = Some example_table"
  by (simp add: OPENSSL_lh_new_def example_table_def kMinNumBuckets_def)

theorem lhash_refines_map_witness:
  "OPENSSL_lh_retrieve (fold (lh_step example_hash example_cmp) [Insert example_lh_alloc 5, Delete (\<lambda>_. True) 7] example_table) 5 example_hash example_cmp = 5"
  using lhash_refines_map [OF example_good example_new, of "[Insert example_lh_alloc 5, Delete (\<lambda>_. True) 7]" 5]
  by (simp add: fresh_item_def lh_items_def example_table_def example_lh_alloc_def)

text \<open>
  C23: the chains stay short. With memory for the array of buckets and no traversal under way, every insertion and deletion
  leaves fewer than three items per bucket on average, and at least one when there are more buckets than the minimum; a
  new table is like that.
\<close>

theorem lhash_load_bounded:
  assumes "good_callbacks chf ccf hash cmp key" and "lh_ready chf hash cmp key lh" and "lh_allowed op lh" and "callback_depth lh = 0"
    and "case op of Insert al d \<Rightarrow> \<forall>k. new_array al k | Delete array d \<Rightarrow> \<forall>k. array k" and "unat (num_items lh) < 2 ^ 61 - 1"
    and "load_ok lh" and "OPENSSL_lh_new table array hash cmp = Some lh0"
  shows "load_ok lh0 \<and> load_ok (lh_step chf ccf op lh)"
proof -
  have "load_ok lh0" using assms(8) by (auto simp: OPENSSL_lh_new_def load_ok_def kMinNumBuckets_def split: if_splits)
  then show ?thesis using step_load [OF assms(1-7)] by blast
qed

theorem lhash_load_bounded_witness: "load_ok (lh_step example_hash example_cmp (Insert example_lh_alloc 5) example_table)"
proof -
  have "lh_ready example_hash 1 2 id example_table" "load_ok example_table"
    using new_ready(1) [OF example_new] by (auto simp: load_ok_def example_table_def kMinNumBuckets_def)
  then show ?thesis using lhash_load_bounded [OF example_good, of 1 2 example_table "Insert example_lh_alloc 5" True "\<lambda>_. True" example_table] example_new
    by (simp add: fresh_item_def lh_items_def example_table_def example_lh_alloc_def)
qed

text \<open>
  C24: a traversal comes to every item. \<open>OPENSSL_lh_doall_arg\<close> calls the callback for each item of the table once and returns, both
  with a callback that leaves the table alone and with one that deletes the item it is called for; the
  latter leaves an empty table.
\<close>

theorem lhash_doall_visits:
  assumes "good_callbacks chf ccf hash cmp key" and "lh_ready chf hash cmp key lh" and "unat (OPENSSL_lh_num_items lh) \<le> fuel"
  shows "(\<exists>lh'. OPENSSL_lh_doall_arg fuel array (\<lambda>d (lh, s). (lh, g d s)) (lh, s) = Some (lh', fold g (map item_data (lh_items lh)) s)
      \<and> lh_map key lh' = lh_map key lh)
    \<and> (\<exists>lh'. OPENSSL_lh_doall_arg fuel array (\<lambda>d (lh, s). (snd (OPENSSL_lh_delete array d chf ccf lh), g d s)) (lh, s)
      = Some (lh', fold g (map item_data (lh_items lh)) s) \<and> OPENSSL_lh_num_items lh' = 0)"
proof -
  have fuel: "length (lh_items lh) \<le> fuel" using assms(2,3) by (simp add: lh_ready_def lh_inv_def OPENSSL_lh_num_items_def)
  have id: "fold (\<lambda>d lh. lh) ds l = l" for ds :: "addr list" and l :: lhash by (induction ds) simp_all
  have "lh_map key (lh_maybe_resize array (leave_callback (enter_callback lh))) = lh_map key lh"
    using resize_ready(2) [of chf hash cmp key "leave_callback (enter_callback lh)" array] assms(2) by simp
  then show ?thesis
    using look.doall [OF assms(2) _ fuel, of array g s] doall_delete [OF assms(1,2) fuel, of array g s] by (auto simp: id)
qed

definition example_pair :: lhash where
  "example_pair = fold (lh_step example_hash example_cmp) [Insert example_lh_alloc 5] example_table"

theorem lhash_doall_visits_witness:
  "\<exists>lh'. OPENSSL_lh_doall_arg 9 (\<lambda>_. True) (\<lambda>d (lh, s). (snd (OPENSSL_lh_delete (\<lambda>_. True) d example_hash example_cmp lh), d # s)) (example_pair, [])
     = Some (lh', [5]) \<and> OPENSSL_lh_num_items lh' = 0"
proof -
  have r: "lh_ready example_hash 1 2 id example_table" by (rule new_ready(1) [OF example_new])
  have a: "allowed_run (lh_step example_hash example_cmp) lh_allowed [Insert example_lh_alloc 5] example_table"
    by (simp add: fresh_item_def lh_items_def example_table_def)
  have "lh_ready example_hash 1 2 id example_pair"
    using lh_callbacks.run_ready [OF lh_callbacks.intro [OF example_good] r a] by (simp add: example_pair_def)
  moreover have "map item_data (lh_items example_pair) = [5]" "OPENSSL_lh_num_items example_pair = 1"
    by code_simp+
  ultimately show ?thesis using lhash_doall_visits [OF example_good, of 1 2 example_pair 9 "\<lambda>_. True" "(#)" "[]"] by simp
qed

section \<open>The pool of buffers\<close>

text \<open>
  C21: the pool is safe under every interleaving of its critical sections. From any state that calls of the clients can lead to, every call that
  is allowed succeeds: it touches no buffer that was freed and decrements no count of zero. Afterwards every buffer
  that somebody holds and every buffer of the table is allocated, and a buffer nobody holds is freed, unless its count was saturated.
\<close>

theorem pool_never_faults:
  assumes "pool_reach st own" and "pool_allowed a st own"
  shows "\<exists>st' own'. pool_perform a st own = Some (st', own') \<and> pool_reach st' own'
    \<and> (\<forall>p. if 0 < own' p then CRYPTO_BUFFER_data p st' \<noteq> None
         else heap st' p = None \<or> map_option references (heap st' p) = Some CRYPTO_REFCOUNT_MAX)
    \<and> list_all (\<lambda>it. CRYPTO_BUFFER_data (item_data it) st' \<noteq> None) (lh_items (pool_bufs st'))"
proof -
  obtain hash cmp where inv: "pool_inv hash cmp st own" using pool_reach_inv [OF assms(1)] by blast
  then obtain st' own' where run: "pool_perform a st own = Some (st', own')" and inv': "pool_inv hash cmp st' own'"
    using pool_perform_inv [OF _ assms(2)] by blast
  have "pool_reach st' own'" by (rule pool_reach.act [OF assms run])
  moreover have h: "held (heap st' p) (own' p)" for p using inv' by (simp add: pool_inv_def)
  have "if 0 < own' p then CRYPTO_BUFFER_data p st' \<noteq> None
      else heap st' p = None \<or> map_option references (heap st' p) = Some CRYPTO_REFCOUNT_MAX" for p
    using held_live [OF inv', of p] h [of p] by (cases "heap st' p") (auto simp: CRYPTO_BUFFER_data_def count_ok_def)
  moreover have "list_all (\<lambda>it. CRYPTO_BUFFER_data (item_data it) st' \<noteq> None) (lh_items (pool_bufs st'))"
    using inv' pooled_live by (auto simp: pool_inv_def list_all_iff CRYPTO_BUFFER_data_def)
  ultimately show ?thesis using run by blast
qed

definition example_pool :: pool_state where
  "example_pool = \<lparr>pool_bufs = example_table, heap = Map.empty\<rparr>"

lemma example_pool_new: "CRYPTO_BUFFER_POOL_new True True (\<lambda>_. True) 1 2 Map.empty = Some example_pool"
  by (simp add: CRYPTO_BUFFER_POOL_new_def example_new example_pool_def)

definition example_buf :: pool_alloc where
  "example_buf = \<lparr>new_buf = 0x300, can_dup = True, for_table = example_lh_alloc\<rparr>"

lemma example_pool_free: "heap example_pool p = None" "fresh_item (for_table example_buf) (pool_bufs example_pool)"
  by (simp_all add: example_pool_def example_buf_def example_table_def fresh_item_def lh_items_def)

theorem pool_never_faults_witness:
  "\<exists>st' own'. pool_perform (Insert_new example_buf [1, 2] False) example_pool (\<lambda>_. 0) = Some (st', own') \<and> pool_reach st' own'"
  using pool_never_faults [OF pool_reach.start [OF example_pool_new], of "Insert_new example_buf [1, 2] False"] example_pool_free by auto



section \<open>The stack of pointers\<close>

text \<open>
  Pushed pointers come out in order. After any pushes that succeed on a new stack, \<open>sk_pop\<close> gives
  the last pointer first, and \<open>sk_shift\<close> the first one first.
\<close>

theorem stack_order:
  assumes "sk_new stack array cmp = Some sk" and "push_all (pushed env) ps sk = Some sk'"
  shows "take_out (taken sk_pop) (length ps) sk' = rev ps \<and> take_out (taken sk_shift) (length ps) sk' = ps \<and> sk_num (Some sk') = of_nat (length ps)"
proof -
  have new: "sk_wf sk" "sk_items sk = []" using new_wf [OF assms(1)] by simp_all
  have "sk_wf sk'" "sk_items sk' = ps" using sk.push_all_items [OF new(1) assms(2)] new(2) by simp_all
  then have "sk_length sk' = of_nat (length ps)" using wf_length(1) [of sk'] by simp
  then show ?thesis using sk.order [OF new assms(2)] by (simp add: sk_num_def)
qed

definition example_sk_env :: sk_env where
  "example_sk_env = \<lparr>can_alloc = (\<lambda>_. True), fresh_cell = (\<lambda>_. 0)\<rparr>"

theorem stack_order_witness:
  "\<exists>sk sk'. sk_new True (\<lambda>_. True) 9 = Some sk \<and> push_all (pushed example_sk_env) [1, 2, 3, 4, 5] sk = Some sk'
    \<and> take_out (taken sk_pop) 5 sk' = [5, 4, 3, 2, 1]"
proof -
  have "push_all (pushed example_sk_env) [1, 2, 3, 4, 5] (the (sk_new True (\<lambda>_. True) 9)) \<noteq> None" "sk_new True (\<lambda>_. True) 9 \<noteq> None"
    by code_simp+
  then obtain sk sk' where "sk_new True (\<lambda>_. True) 9 = Some sk" "push_all (pushed example_sk_env) [1, 2, 3, 4, 5] sk = Some sk'" by auto
  moreover have "length [1, 2, 3, 4, 5 :: addr] = 5" "rev [1, 2, 3, 4, 5 :: addr] = [5, 4, 3, 2, 1]" by simp_all
  ultimately show ?thesis using stack_order [of True "\<lambda>_. True" 9 sk example_sk_env "[1, 2, 3, 4, 5]" sk'] by metis
qed


definition example_stack :: stack where
  "example_stack = \<lparr>sk_length = 3, sk_data = [7, 2, 5, 0], sk_sorted = False, sk_alloc = 4, sk_comp = 9\<rparr>"

definition example_order :: sk_cmp where
  "example_order func a b = sint (a - b)"

lemma example_stack_ok: "sk_wf example_stack" "sorted_ok ccf example_stack" "sk_items example_stack = [7, 2, 5]"
  by (simp_all add: sk_wf_def sorted_ok_def sk_items_def example_stack_def)


text \<open>
  C25: a sorted stack is searched by bisection with the result of a search from the front. Given a \<open>qsort\<close> that sorts and
  a comparison that orders the elements, \<open>sk_sort\<close> puts the same pointers in order, and \<open>sk_find\<close> on what it leaves gives the index of the
  first pointer that compares equal, or nothing when there is none.
\<close>

theorem stack_sort_find:
  assumes "sk_wf sk" and "sorted_ok ccf sk" and "sk_comp sk \<noteq> 0" and "cmp_order (ccf (sk_comp sk)) S" and "sorts sort_cells (ccf (sk_comp sk)) S"
    and "set (sk_items sk) \<subseteq> S" and "p \<in> S" and "p \<noteq> 0"
  shows "\<exists>s. sk_sort sort_cells ccf (Some sk) = Some s \<and> mset (sk_items s) = mset (sk_items sk)
    \<and> sorted_wrt (\<lambda>x y. ccf (sk_comp sk) x y \<le> 0) (sk_items s)
    \<and> sk_find ccf (Some s) p = map_option of_nat (first_match (\<lambda>x. ccf (sk_comp sk) p x = 0) 0 (sk_items s))"
proof -
  obtain s where s: "sk_sort sort_cells ccf (Some sk) = Some s" "sk_wf s" "sorted_ok ccf s" "sk_sorted s" "sk_comp s = sk_comp sk"
    "mset (sk_items s) = mset (sk_items sk)" using sort_ok [OF assms(1,2,5,6,3)] by blast
  have "set (sk_items s) \<subseteq> S" using mset_eq_setD [OF s(6)] assms(6) by simp
  then show ?thesis using sk_find_first [OF s(2,3) _ _ assms(7,8)] s assms(3,4) by (intro exI [of _ s]) (auto simp: sorted_ok_def)
qed

lemma insert_by_sorts:
  assumes ord: "cmp_order cmp S" and "set (x # ys) \<subseteq> S" and "sorted_wrt (\<lambda>x y. cmp x y \<le> 0) ys"
  shows "mset (insert_by cmp x ys) = mset (x # ys)" "sorted_wrt (\<lambda>x y. cmp x y \<le> 0) (insert_by cmp x ys)"
proof -
  have m: "mset (insert_by cmp x ys) = mset (x # ys)" for ys by (induction ys) auto
  show "mset (insert_by cmp x ys) = mset (x # ys)" by (rule m)
  show "sorted_wrt (\<lambda>x y. cmp x y \<le> 0) (insert_by cmp x ys)" using assms(2,3)
  proof (induction ys)
    case (Cons y ys)
    have set: "set (insert_by cmp x ys) = insert x (set ys)" using mset_eq_setD [OF m [of ys]] by simp
    have "cmp y x \<le> 0" if "\<not> cmp x y \<le> 0" using that cmp_order.swap [OF ord, of y x] Cons.prems(1) by auto
    moreover have "cmp x z \<le> 0" if "cmp x y \<le> 0" "z \<in> set ys" for z
      using that cmp_order.trans [OF ord, of x y z] Cons.prems by auto
    ultimately show ?case using Cons set by auto
  qed simp
qed

lemma qsort_sorts:
  assumes "cmp_order cmp S"
  shows "sorts qsort cmp S"
proof -
  have "mset (qsort cmp xs) = mset xs \<and> sorted_wrt (\<lambda>x y. cmp x y \<le> 0) (qsort cmp xs)" if "set xs \<subseteq> S" for xs
    using that
  proof (induction xs)
    case (Cons x xs)
    then have "set (x # qsort cmp xs) \<subseteq> S" using mset_eq_setD [of "qsort cmp xs" xs] by auto
    from insert_by_sorts [OF assms this] show ?case using Cons by (simp add: qsort_def)
  qed (simp add: qsort_def)
  then show ?thesis by (simp add: sorts_def)
qed

definition example_small :: "addr set" where
  "example_small = {a. sint a \<in> {0..<2 ^ 31}}"

interpretation small: cmp_order "example_order func" example_small
proof -
  have "sint (a - b) = sint a - sint b" if "a \<in> example_small" "b \<in> example_small" for a b
    using that by (auto simp: example_small_def sint_word_ariths intro!: signed_take_bit_int_eq_self)
  then show "cmp_order (example_order func) example_small" by unfold_locales (auto simp: example_order_def)
qed

theorem stack_sort_find_witness:
  "\<exists>s. sk_sort qsort example_order (Some example_stack) = Some s
    \<and> sk_find example_order (Some s) 5 = map_option of_nat (first_match (\<lambda>x. example_order 9 5 x = 0) 0 (sk_items s))"
proof -
  have c: "sk_comp example_stack = 9" by (simp add: example_stack_def)
  have "{7, 2, 5} \<subseteq> example_small" by (simp add: example_small_def)
  then show ?thesis
    using stack_sort_find [OF example_stack_ok(1,2), of example_order example_small qsort 5] qsort_sorts [OF small.cmp_order_axioms]
      small.cmp_order_axioms by (auto simp: c example_stack_ok(3))
qed

text \<open>
  \<open>sk_set\<close> keeps the flag. On a sorted stack of two pointers, replacing the first by one that compares greater than the second leaves the
  flag set, and \<open>sk_find\<close> then does not find the second one, which is still there; the comment on the flag says that it
  is set only if the values are in ascending order.
\<close>

theorem stack_set_hides:
  assumes "sk_wf sk" and "sk_sorted sk" and "sk_comp sk \<noteq> 0" and "sk_items sk = [a, b]" and "b \<noteq> 0" and "ccf (sk_comp sk) b v < 0"
  shows "\<exists>s. sk_set (Some sk) 0 v = (v, Some s) \<and> sk_items s = [v, b] \<and> sk_is_sorted (Some s) \<and> sk_find ccf (Some s) b = None"
proof -
  have n: "unat (sk_length sk) = 2" using wf_length(1) [OF assms(1)] assms(4) by simp
  then have "0 < sk_length sk" by (simp add: word_less_nat_alt)
  then obtain s where s: "sk_set (Some sk) 0 v = (v, Some s)" "sk_wf s" "sk_items s = [v, b]" "sk_sorted s" "sk_comp s = sk_comp sk"
    using set_items [OF assms(1), of 0 v] assms(2,4) by auto
  have l: "unat (sk_length s) = 2" "sk_data s ! 0 = v" using wf_length(1) [OF s(2)] s(3)
    by (simp, metis nth_Cons_0 nth_take sk_items_def s(3) wf_length(1) [OF s(2)] length_Cons zero_less_Suc)
  have "binary_search (ccf (sk_comp s) b) (sk_data s) 0 2 = None"
    using assms(6) l(2) s(5) by (simp add: binary_search.simps)
  then show ?thesis using s l(1) assms(3,5) by (simp add: sk_find_def sk_is_sorted_def)
qed

definition example_sorted :: stack where
  "example_sorted = \<lparr>sk_length = 2, sk_data = [2, 5, 0, 0], sk_sorted = True, sk_alloc = 4, sk_comp = 9\<rparr>"

theorem stack_set_hides_witness:
  "sorted_ok example_order example_sorted \<and> (\<exists>s. sk_set (Some example_sorted) 0 7 = (7, Some s) \<and> sk_items s = [7, 5] \<and> sk_find example_order (Some s) 5 = None)"
  using stack_set_hides [of example_sorted 2 5 example_order 7]
  by (auto simp: example_sorted_def sk_wf_def sorted_ok_def sk_items_def example_order_def)

section \<open>The registry of extensions\<close>

text \<open>
  C27: a method that was added is found. After a successful \<open>X509V3_EXT_add\<close>, \<open>X509V3_EXT_get_nid\<close> with the number of the method gives
  a method with that number, and this very method when no other has the number; the search, which sorts the list, loses and adds nothing.
\<close>

theorem ext_add_get:
  assumes "ext_ok env st" and "ext \<in> numbered (ext_mem st)" and "ext \<noteq> 0" and "cmp_ptr env \<noteq> 0" and "tmp \<noteq> 0"
    and "tmp \<notin> insert ext (set (registered st) \<union> set std)" and "set std \<subseteq> numbered (ext_mem st) - {0}"
    and "\<And>m. sorts sort_cells (ext_stack_cmp m) (numbered m)"
    and "X509V3_EXT_add env ext st = (True, freed, st1)" and "X509V3_EXT_get_nid sort_cells std tmp (ext_nid (ext_mem st ext)) st1 = (r, st2)"
  shows "r \<noteq> 0 \<and> ext_nid (ext_mem st2 r) = ext_nid (ext_mem st ext) \<and> ext_ok env st2 \<and> mset (registered st2) = add_mset ext (mset (registered st))
    \<and> (ext_nid (ext_mem st ext) \<notin> (\<lambda>e. ext_nid (ext_mem st e)) ` (set std \<union> set (registered st)) \<longrightarrow> r = ext)"
proof -
  have add: "ext_ok env st1" "ext_mem st1 = ext_mem st" "registered st1 = registered st @ [ext]" using ext_add [OF assms(1-3,9)] by simp_all
  have "tmp \<notin> set (registered st1) \<union> set std" using assms(6) add(3) by simp
  from ext_get_nid [OF add(1) assms(4,5) this _ assms(8,10)] show ?thesis using assms(7) by (auto simp: add image_iff split: if_splits) (metis UnI1 UnI2)+
qed

definition example_methods :: methods where
  "example_methods p = \<lparr>ext_nid = (if p = 0x40 then 82 else if p = 0x50 then 90 else 100), ext_flags = 0, ext_rest = 0\<rparr>"

definition example_registry :: ext_state where
  "example_registry = \<lparr>ext_list = None, ext_mem = example_methods\<rparr>"

definition example_ext_env :: ext_env where
  "example_ext_env = \<lparr>stack_alloc = True, stack_env = example_sk_env, cmp_ptr = 9\<rparr>"

lemma example_numbered: "numbered example_methods = UNIV"
  by (auto simp: numbered_def example_methods_def)

theorem ext_add_get_witness:
  "\<exists>freed st1 st2. X509V3_EXT_add example_ext_env 0x50 example_registry = (True, freed, st1)
    \<and> X509V3_EXT_get_nid qsort [0x40] 0x60 90 st1 = (0x50, st2) \<and> ext_ok example_ext_env st2"
proof -
  have n: "ext_nid (ext_mem example_registry 0x50) = 90" "ext_nid (ext_mem example_registry 0x40) = 82" "registered example_registry = []"
    "numbered (ext_mem example_registry) = UNIV" "cmp_ptr example_ext_env = 9"
    by (simp_all add: example_registry_def example_methods_def registered_def example_numbered example_ext_env_def)
  have ok: "ext_ok example_ext_env example_registry" by (simp add: ext_ok_def n(3)) (simp add: example_registry_def)
  have "fst (X509V3_EXT_add example_ext_env 0x50 example_registry)" by code_simp
  then obtain freed st1 where "X509V3_EXT_add example_ext_env 0x50 example_registry = (True, freed, st1)" by (metis prod.collapse)
  moreover obtain r st2 where "X509V3_EXT_get_nid qsort [0x40] 0x60 90 st1 = (r, st2)" by fastforce
  ultimately show ?thesis
    using ext_add_get [OF ok, of "0x50" "0x60" "[0x40]" qsort freed st1 r st2] qsort_sorts [OF ext_order.cmp_order_axioms] by (auto simp: n)
qed

end
