(* ===== verification/Base64.thy ===== *)
theory Base64
  imports C_Prelude
begin

text \<open>
  BoringSSL's base64 (\<open>crypto/base64/base64.c\<close>), with the constant-time primitives of \<open>crypto/internal.h\<close> it is built on.
  Input is the list of the bytes read; output is the list of the bytes written, from the address \<open>out\<close> on. \<open>int\<close> results are
  integers. The array in a context has 48 cells.
\<close>

section \<open>Constant-time primitives\<close>

definition constant_time_msb_w :: "u64 \<Rightarrow> u64" where
  "constant_time_msb_w a = 0 - drop_bit 63 a"

definition constant_time_is_zero_w :: "u64 \<Rightarrow> u64" where
  "constant_time_is_zero_w a = constant_time_msb_w (NOT a AND (a - 1))"

definition constant_time_eq_w :: "u64 \<Rightarrow> u64 \<Rightarrow> u64" where
  "constant_time_eq_w a b = constant_time_is_zero_w (a XOR b)"

definition constant_time_eq_8 :: "u64 \<Rightarrow> u64 \<Rightarrow> u8" where
  "constant_time_eq_8 a b = ucast (constant_time_eq_w a b)"

definition constant_time_select_w :: "u64 \<Rightarrow> u64 \<Rightarrow> u64 \<Rightarrow> u64" where
  "constant_time_select_w sel a b = (sel AND a) OR (NOT sel AND b)"

definition constant_time_select_8 :: "u8 \<Rightarrow> u8 \<Rightarrow> u8 \<Rightarrow> u8" where
  "constant_time_select_8 sel a b = ucast (constant_time_select_w (ucast sel) (ucast a) (ucast b))"

definition constant_time_lt_args_8 :: "u8 \<Rightarrow> u8 \<Rightarrow> u8" where
  "constant_time_lt_args_8 a b = ucast (constant_time_msb_w (ucast a - ucast b))"

definition constant_time_in_range_8 :: "u8 \<Rightarrow> u8 \<Rightarrow> u8 \<Rightarrow> u8" where
  "constant_time_in_range_8 a lo hi = constant_time_lt_args_8 (a - lo) (hi - lo + 1)"

section \<open>Encoding\<close>

definition conv_bin2ascii :: "u8 \<Rightarrow> u8" where
  "conv_bin2ascii a =
     (let a = a AND 0x3F;
          ret = constant_time_select_8 (constant_time_eq_8 (ucast a) 62) 0x2B 0x2F;
          ret = constant_time_select_8 (constant_time_lt_args_8 a 62) (a - 52 + 0x30) ret;
          ret = constant_time_select_8 (constant_time_lt_args_8 a 52) (a - 26 + 0x61) ret
      in constant_time_select_8 (constant_time_lt_args_8 a 26) (a + 0x41) ret)"

definition EVP_EncodedLength :: "u64 \<Rightarrow> u64 option" where
  "EVP_EncodedLength len =
     (if len + 2 < len then None
      else let len = (len + 2) div 3 in
        if drop_bit 2 (push_bit 2 len) \<noteq> len then None
        else let len = push_bit 2 len in if len + 1 < len then None else Some (len + 1))"

text \<open>The loop of \<open>EVP_EncodeBlock\<close>.\<close>

definition shifted :: "nat \<Rightarrow> u32 \<Rightarrow> u8" where
  "shifted n l = conv_bin2ascii (ucast (drop_bit n l))"

fun encode_loop :: "u8 list \<Rightarrow> u8 list" where
  "encode_loop [] = []"
| "encode_loop [a] =
     (let l = push_bit 16 (ucast a) :: u32 in [shifted 18 l, shifted 12 l, 0x3D, 0x3D])"
| "encode_loop [a, b] =
     (let l = push_bit 16 (ucast a) OR push_bit 8 (ucast b) :: u32 in [shifted 18 l, shifted 12 l, shifted 6 l, 0x3D])"
| "encode_loop (a # b # c # rest) =
     (let l = push_bit 16 (ucast a) OR push_bit 8 (ucast b) OR ucast c :: u32
      in [shifted 18 l, shifted 12 l, shifted 6 l, shifted 0 l] @ encode_loop rest)"

text \<open>What is written, with the null byte, and the result.\<close>

definition EVP_EncodeBlock :: "u8 list \<Rightarrow> u8 list \<times> u64" where
  "EVP_EncodeBlock src = (encode_loop src @ [0], of_nat (length (encode_loop src)))"

record evp_encode_ctx =
  data_used :: u32
  ctx_data :: "u8 list"
  eof_seen :: bool
  error_encountered :: bool

definition EVP_EncodeInit :: evp_encode_ctx where
  "EVP_EncodeInit = \<lparr>data_used = 0, ctx_data = replicate 48 0, eof_seen = False, error_encountered = False\<rparr>"

definition EVP_ENCODE_CTX_new :: "bool \<Rightarrow> evp_encode_ctx option" where
  "EVP_ENCODE_CTX_new can = (if \<not> can then None else Some EVP_EncodeInit)"

definition put_at :: "u8 list \<Rightarrow> nat \<Rightarrow> u8 list \<Rightarrow> u8 list" where
  "put_at d i bs = take i d @ bs @ drop (i + length bs) d"

text \<open>A line: the characters of the block, and a newline in place of its null byte.\<close>

definition encoded_line :: "u8 list \<Rightarrow> u8 list" where
  "encoded_line src = (case EVP_EncodeBlock src of (dst, encoded) \<Rightarrow> take (unat encoded) dst @ [0xA])"

text \<open>The loop over whole blocks: what is written, the total, and the rest; \<open>None\<close> for the total when it wraps.\<close>

function lines_loop :: "u8 list \<Rightarrow> u64 \<Rightarrow> u8 list \<Rightarrow> u8 list \<times> u64 option \<times> u8 list" where
  "lines_loop out tot inp =
     (if length inp \<ge> 48 then
        let encoded = snd (EVP_EncodeBlock (take 48 inp)); out = out @ encoded_line (take 48 inp); inp = drop 48 inp
        in if tot + encoded + 1 < tot then (out, None, inp)
           else lines_loop out (tot + encoded + 1) inp
      else (out, Some tot, inp))"
  by auto
termination
  by (relation "measure (\<lambda>(out, tot, inp). length inp)") auto

declare lines_loop.simps [simp del]

text \<open>The bytes written with the null byte behind the last line, \<open>*out_len\<close>, and the context.\<close>

definition EVP_EncodeUpdate :: "evp_encode_ctx \<Rightarrow> u8 list \<Rightarrow> u8 list \<times> int \<times> evp_encode_ctx" where
  "EVP_EncodeUpdate ctx inp =
     (let used = unat (data_used ctx) in
      if inp = [] then ([], 0, ctx)
      else if 48 - used > length inp then
        ([], 0, ctx\<lparr>ctx_data := put_at (ctx_data ctx) used inp, data_used := data_used ctx + of_nat (length inp)\<rparr>)
      else
        let todo = 48 - used;
            ctx' = (if used \<noteq> 0 then ctx\<lparr>ctx_data := put_at (ctx_data ctx) used (take todo inp), data_used := 0\<rparr> else ctx);
            out = (if used \<noteq> 0 then encoded_line (ctx_data ctx') else []);
            tot = (if used \<noteq> 0 then snd (EVP_EncodeBlock (ctx_data ctx')) + 1 else 0);
            inp = (if used \<noteq> 0 then drop todo inp else inp)
        in case lines_loop out tot inp of
             (out, None, inp) \<Rightarrow> (out @ [0], 0, ctx')
           | (out, Some tot, inp) \<Rightarrow>
               (out @ [0], if tot > 0x7FFFFFFF then 0 else uint tot,
                ctx'\<lparr>ctx_data := (if inp \<noteq> [] then put_at (ctx_data ctx') 0 inp else ctx_data ctx'), data_used := of_nat (length inp)\<rparr>))"

definition EVP_EncodeFinal :: "evp_encode_ctx \<Rightarrow> u8 list \<times> int \<times> evp_encode_ctx" where
  "EVP_EncodeFinal ctx =
     (if data_used ctx = 0 then ([], 0, ctx)
      else let src = take (unat (data_used ctx)) (ctx_data ctx)
        in (encoded_line src @ [0], uint (snd (EVP_EncodeBlock src) + 1), ctx\<lparr>data_used := 0\<rparr>))"

section \<open>Decoding\<close>

definition EVP_DecodedLength :: "u64 \<Rightarrow> u64 option" where
  "EVP_DecodedLength len = (if len mod 4 \<noteq> 0 then None else Some (len div 4 * 3))"

definition EVP_DecodeInit :: evp_encode_ctx where
  "EVP_DecodeInit = \<lparr>data_used = 0, ctx_data = replicate 48 0, eof_seen = False, error_encountered = False\<rparr>"

definition base64_ascii_to_bin :: "u8 \<Rightarrow> u8" where
  "base64_ascii_to_bin a =
     (let is_upper = constant_time_in_range_8 a 0x41 0x5A;
          is_lower = constant_time_in_range_8 a 0x61 0x7A;
          is_digit = constant_time_in_range_8 a 0x30 0x39;
          is_plus = constant_time_eq_8 (ucast a) 0x2B;
          is_slash = constant_time_eq_8 (ucast a) 0x2F;
          is_equals = constant_time_eq_8 (ucast a) 0x3D;
          ret = 0 OR (is_upper AND (a - 0x41));
          ret = ret OR (is_lower AND (a - 0x61 + 26));
          ret = ret OR (is_digit AND (a - 0x30 + 52));
          ret = ret OR (is_plus AND 62);
          ret = ret OR (is_slash AND 63);
          is_valid = is_upper OR is_lower OR is_digit OR is_plus OR is_slash OR is_equals
      in ret OR NOT is_valid)"

text \<open>The bytes written, one to three.\<close>

definition base64_decode_quad :: "u8 list \<Rightarrow> u8 list option" where
  "base64_decode_quad inp =
     (let a = base64_ascii_to_bin (inp ! 0); b = base64_ascii_to_bin (inp ! 1);
          c = base64_ascii_to_bin (inp ! 2); d = base64_ascii_to_bin (inp ! 3)
      in if a = 0xFF \<or> b = 0xFF \<or> c = 0xFF \<or> d = 0xFF then None
         else
           let v = push_bit 18 (ucast a) OR push_bit 12 (ucast b) OR push_bit 6 (ucast c) OR ucast d :: u32;
               padding_pattern = map (\<lambda>x. x = 0x3D) (take 4 inp);
               out = [ucast (drop_bit 16 v), ucast (drop_bit 8 v), ucast v]
           in if padding_pattern = [False, False, False, False] then Some out
              else if padding_pattern = [False, False, False, True] then Some (take 2 out)
              else if padding_pattern = [False, False, True, True] then Some (take 1 out)
              else None)"

definition is_space :: "u8 \<Rightarrow> bool" where
  "is_space c \<longleftrightarrow> c = 0x20 \<or> c = 0x9 \<or> c = 0xD \<or> c = 0xA"

text \<open>The loop of \<open>EVP_DecodeUpdate\<close>: the bytes written, and whether it came to the end.\<close>

fun b64_decode_loop :: "evp_encode_ctx \<Rightarrow> u8 list \<Rightarrow> u8 list \<Rightarrow> bool \<times> u8 list \<times> evp_encode_ctx" where
  "b64_decode_loop ctx out [] = (True, out, ctx)"
| "b64_decode_loop ctx out (c # inp) =
     (if is_space c then b64_decode_loop ctx out inp
      else if eof_seen ctx then (False, out, ctx\<lparr>error_encountered := True\<rparr>)
      else
        let ctx = ctx\<lparr>ctx_data := (ctx_data ctx)[unat (data_used ctx) := c], data_used := data_used ctx + 1\<rparr>
        in if data_used ctx = 4 then
             (case base64_decode_quad (take 4 (ctx_data ctx)) of
                None \<Rightarrow> (False, out, ctx\<lparr>error_encountered := True\<rparr>)
              | Some bytes \<Rightarrow>
                  b64_decode_loop (ctx\<lparr>data_used := 0, eof_seen := eof_seen ctx \<or> length bytes < 3\<rparr>) (out @ bytes) inp)
           else b64_decode_loop ctx out inp)"

text \<open>The result, the bytes written, \<open>*out_len\<close>, and the context.\<close>

definition EVP_DecodeUpdate :: "evp_encode_ctx \<Rightarrow> u8 list \<Rightarrow> int \<times> u8 list \<times> int \<times> evp_encode_ctx" where
  "EVP_DecodeUpdate ctx inp =
     (if error_encountered ctx then (- 1, [], 0, ctx)
      else case b64_decode_loop ctx [] inp of
        (False, out, ctx) \<Rightarrow> (- 1, out, 0, ctx)
      | (True, out, ctx) \<Rightarrow>
          if length out > 0x7FFFFFFF then (- 1, out, 0, ctx\<lparr>error_encountered := True\<rparr>)
          else (if eof_seen ctx then 0 else 1, out, int (length out), ctx))"

definition EVP_DecodeFinal :: "evp_encode_ctx \<Rightarrow> int \<times> int" where
  "EVP_DecodeFinal ctx = (if error_encountered ctx \<or> data_used ctx \<noteq> 0 then (- 1, 0) else (1, 0))"

fun decode_quads :: "u8 list \<Rightarrow> u8 list option" where
  "decode_quads (a # b # c # d # inp) =
     (case base64_decode_quad [a, b, c, d] of
        None \<Rightarrow> None
      | Some bytes \<Rightarrow>
          if length bytes \<noteq> 3 \<and> inp \<noteq> [] then None
          else map_option (\<lambda>out. bytes @ out) (decode_quads inp))"
| "decode_quads _ = Some []"

definition EVP_DecodeBase64 :: "u64 \<Rightarrow> u8 list \<Rightarrow> u8 list option" where
  "EVP_DecodeBase64 max_out inp =
     (let in_len = of_nat (length inp) :: u64 in
      if in_len mod 4 \<noteq> 0 then None
      else case EVP_DecodedLength in_len of
        None \<Rightarrow> None
      | Some max_len \<Rightarrow> if max_out < max_len then None else decode_quads inp)"

definition EVP_DecodeBlock :: "u8 list \<Rightarrow> (u8 list \<times> int) option" where
  "EVP_DecodeBlock src =
     (let src = dropWhile (\<lambda>c. c = 0x20 \<or> c = 0x9) src;
          src = rev (dropWhile is_space (rev src))
      in case EVP_DecodedLength (of_nat (length src)) of
           None \<Rightarrow> None
         | Some dst_len \<Rightarrow>
             if dst_len > 0x7FFFFFFF then None
             else (case EVP_DecodeBase64 dst_len src of
                     None \<Rightarrow> None
                   | Some out \<Rightarrow>
                       let out = out @ replicate ((3 - length out mod 3) mod 3) 0 in Some (out, int (length out))))"

end
