(* ===== verification/Base64_Correct.thy ===== *)
theory Base64_Correct
  imports Base64
begin

text \<open>
  The constant-time functions compute the alphabet of RFC 4648 and its inverse; decoding inverts encoding, as a block and
  as a stream cut into pieces at any points; and a stream is encoded line by line, whatever the pieces are.
\<close>

section \<open>Characters\<close>

lemma msb_w: "constant_time_msb_w a = (if unat a < 2 ^ 63 then 0 else - 1)"
proof -
  have "unat (drop_bit 63 a) = unat a div 2 ^ 63" by (simp add: drop_bit_eq_div unat_div)
  moreover have "unat a div 2 ^ 63 = (if unat a < 2 ^ 63 then 0 else 1)" using unsigned_less [of a, where 'a = nat] by (auto simp: not_less intro: div_nat_eqI)
  ultimately have "drop_bit 63 a = (if unat a < 2 ^ 63 then 0 else 1)" by (simp add: word_unat_eq_iff)
  then show ?thesis by (simp add: constant_time_msb_w_def)
qed

lemma ucast_ones: "ucast (- 1 :: u64) = (- 1 :: u8)"
  by (rule bit_word_eqI) (simp add: bit_simps)

lemma lt_args_8: "constant_time_lt_args_8 a b = (if a < b then - 1 else 0)"
proof -
  have "unat a < 256" "unat b < 256" using unsigned_less [of a, where 'a = nat] unsigned_less [of b, where 'a = nat] by simp_all
  then show ?thesis by (auto simp: constant_time_lt_args_8_def msb_w unat_sub_if' unat_ucast_up word_less_nat_alt ucast_ones)
qed

lemma top_bit: "unat a < 2 ^ 63 \<longleftrightarrow> \<not> bit (a :: u64) 63"
proof -
  have "bit a 63 = bit (unat a) 63" by (simp add: bit_unsigned_iff)
  also have "\<dots> = odd (unat a div 2 ^ 63)" by (rule bit_iff_odd)
  also have "unat a div 2 ^ 63 = (if unat a < 2 ^ 63 then 0 else 1)"
    using unsigned_less [of a, where 'a = nat] by (auto simp: not_less intro: div_nat_eqI)
  finally show ?thesis by simp
qed

lemma is_zero_w: "constant_time_is_zero_w a = (if a = 0 then - 1 else 0)"
proof (cases "a = 0")
  case False
  have "\<not> bit (a - 1) 63" if "\<not> bit a 63" using that False by (simp add: unat_minus_one flip: top_bit)
  then have "unat (NOT a AND (a - 1)) < 2 ^ 63" unfolding top_bit by (auto simp: bit_and_iff bit_not_iff)
  then show ?thesis using False by (simp add: constant_time_is_zero_w_def msb_w)
next
  case True
  have "\<not> unat (- 1 :: u64) < 2 ^ 63" unfolding top_bit by simp
  then show ?thesis using True by (simp add: constant_time_is_zero_w_def msb_w)
qed

lemma xor_0: "a XOR b = 0 \<longleftrightarrow> a = (b :: u64)"
  by (auto simp: bit_eq_iff bit_simps)

lemma eq_8: "constant_time_eq_8 a b = (if a = b then - 1 else 0)"
  by (simp add: constant_time_eq_8_def constant_time_eq_w_def is_zero_w xor_0 ucast_ones)

lemma select_8: "constant_time_select_8 (- 1) a b = a" "constant_time_select_8 0 a b = b"
  by (rule bit_word_eqI, simp add: constant_time_select_8_def constant_time_select_w_def bit_simps)+

lemma ucast_eq_num: "(ucast (a :: u8) = (62 :: u64)) = (a = 62)" "(ucast a = (0x2B :: u64)) = (a = 0x2B)" "(ucast a = (0x2F :: u64)) = (a = 0x2F)"
  "(ucast a = (0x3D :: u64)) = (a = 0x3D)"
  by (simp_all add: word_unat_eq_iff unat_ucast_up)

lemmas ct_simps = ucast_eq_num lt_args_8 eq_8 select_8 constant_time_in_range_8_def

text \<open>The characters of the alphabet, by their value.\<close>

definition b64_char :: "u8 \<Rightarrow> u8" where
  "b64_char x = (if x < 26 then x + 65 else if x < 52 then x + 71 else if x < 62 then x - 4 else if x = 62 then 43 else 47)"

lemma conv_char: "conv_bin2ascii a = b64_char (a AND 0x3F)"
  by (simp add: conv_bin2ascii_def Let_def ct_simps b64_char_def)

lemma sextet_list: "map of_nat [0..<64] = [0 :: u8, 1, 2, 3, 4, 5, 6, 7, 8, 9, 10, 11, 12, 13, 14, 15, 16, 17, 18, 19, 20, 21, 22, 23, 24, 25, 26, 27, 28, 29, 30, 31, 32, 33, 34, 35, 36, 37, 38, 39, 40, 41, 42, 43, 44, 45, 46, 47, 48, 49, 50, 51, 52, 53, 54, 55, 56, 57, 58, 59, 60, 61, 62, 63]"
  by (simp add: upt_conv_Cons)

lemma sextets:
  assumes "list_all P (map of_nat [0..<64])" and "x < (64 :: u8)"
  shows "P x"
proof -
  have "x = of_nat (unat x)" "unat x < 64" using assms(2) by (simp_all add: word_less_nat_alt)
  then have "x \<in> set (map of_nat [0..<64])" by (metis atLeast0LessThan imageI lessThan_iff list.set_map set_upt)
  then show ?thesis using assms(1) by (simp only: list_all_iff)
qed

lemma bin_char:
  assumes "x < 64"
  shows "base64_ascii_to_bin (b64_char x) = x" "b64_char x \<noteq> 0x3D" "\<not> is_space (b64_char x)"
proof -
  have "list_all (\<lambda>x. base64_ascii_to_bin (b64_char x) = x \<and> b64_char x \<noteq> 0x3D \<and> \<not> is_space (b64_char x)) (map of_nat [0..<64])"
    unfolding sextet_list list.pred_inject by (simp add: base64_ascii_to_bin_def b64_char_def is_space_def ct_simps)
  from sextets [OF this assms] show "base64_ascii_to_bin (b64_char x) = x" "b64_char x \<noteq> 0x3D" "\<not> is_space (b64_char x)" by simp_all
qed

section \<open>Quads\<close>

definition sextet :: "nat \<Rightarrow> u32 \<Rightarrow> u8" where
  "sextet n l = ucast (take_bit 6 (drop_bit n l))"

lemma sextet_bound: "sextet n l < 64"
proof -
  have "take_bit 6 (unat (drop_bit n l)) < 2 ^ 6" by (rule take_bit_nat_less_exp)
  then show ?thesis by (simp add: sextet_def word_less_nat_alt unsigned_ucast_eq unsigned_take_bit_eq)
qed

lemma shifted_char: "shifted n l = b64_char (sextet n l)"
proof -
  have m: "(0x3F :: u8) = mask 6" by (simp add: mask_eq_exp_minus_1)
  have "ucast (drop_bit n l) AND 0x3F = (sextet n l)"
    unfolding sextet_def m by (rule bit_word_eqI) (auto simp: bit_simps)
  then show ?thesis by (simp add: shifted_def conv_char)
qed

lemma join_sextets:
  "push_bit 18 (ucast (sextet 18 l)) OR push_bit 12 (ucast (sextet 12 l)) OR push_bit 6 (ucast (sextet 6 l)) OR ucast (sextet 0 l) = take_bit 24 l"
proof (rule bit_word_eqI)
  fix n :: nat
  consider "n < 6" | "6 \<le> n" "n < 12" | "12 \<le> n" "n < 18" | "18 \<le> n" "n < 24" | "24 \<le> n" by linarith
  then show "bit (push_bit 18 (ucast (sextet 18 l)) OR push_bit 12 (ucast (sextet 12 l)) OR push_bit 6 (ucast (sextet 6 l)) OR ucast (sextet 0 l) :: u32) n = bit (take_bit 24 l) n"
    by cases (auto simp: sextet_def bit_simps)
qed

lemma bin_equals: "base64_ascii_to_bin 0x3D = 0"
  by (simp add: base64_ascii_to_bin_def ct_simps)

lemma not_ff: "x < 64 \<Longrightarrow> x \<noteq> (0xFF :: u8)"
  by auto

lemma decode_quadI:
  assumes "base64_ascii_to_bin w = a" "base64_ascii_to_bin x = b" "base64_ascii_to_bin y = c" "base64_ascii_to_bin z = d"
    and "a < 64" "b < 64" "c < 64" "d < 64"
    and v: "push_bit 18 (ucast a) OR push_bit 12 (ucast b) OR push_bit 6 (ucast c) OR ucast d = (v :: u32)" and "w \<noteq> 0x3D" "x \<noteq> 0x3D" "y = 0x3D \<longrightarrow> z = 0x3D"
  shows "base64_decode_quad [w, x, y, z] = Some (take (if y = 0x3D then 1 else if z = 0x3D then 2 else 3) [ucast (drop_bit 16 v), ucast (drop_bit 8 v), ucast v])"
  unfolding v [symmetric] using assms(1-8,10-12) by (auto simp: base64_decode_quad_def Let_def)

text \<open>Three, two and one byte survive.\<close>

lemma quad3:
  defines "l a b c \<equiv> push_bit 16 (ucast (a :: u8)) OR push_bit 8 (ucast (b :: u8)) OR ucast (c :: u8) :: u32"
  shows "base64_decode_quad [shifted 18 (l a b c), shifted 12 (l a b c), shifted 6 (l a b c), shifted 0 (l a b c)] = Some [a, b, c]"
    "base64_decode_quad [shifted 18 (l a b 0), shifted 12 (l a b 0), shifted 6 (l a b 0), 0x3D] = Some [a, b]"
    "base64_decode_quad [shifted 18 (l a 0 0), shifted 12 (l a 0 0), 0x3D, 0x3D] = Some [a]"
proof -
  have high: "\<not> bit (x :: u8) (8 + n)" "\<not> bit x (16 + n)" for x n by (auto dest: bit_imp_le_length)
  have bytes: "ucast (drop_bit 16 (take_bit 24 (l a b c))) = a" "ucast (drop_bit 8 (take_bit 24 (l a b c))) = b" "ucast (take_bit 24 (l a b c)) = c" for a b c
    by (rule bit_word_eqI, auto simp: l_def bit_simps high)+
  have z: "sextet 0 (l a b 0) = 0" "sextet 6 (l a 0 0) = 0" "sextet 0 (l a 0 0) = 0"
    by (rule bit_word_eqI, auto simp: sextet_def l_def bit_simps)+
  note c = bin_char [OF sextet_bound] sextet_bound
  show "base64_decode_quad [shifted 18 (l a b c), shifted 12 (l a b c), shifted 6 (l a b c), shifted 0 (l a b c)] = Some [a, b, c]"
    unfolding shifted_char by (subst decode_quadI [OF c(1) c(1) c(1) c(1) c(4) c(4) c(4) c(4) join_sextets]) (simp_all add: c bytes)
  show "base64_decode_quad [shifted 18 (l a b 0), shifted 12 (l a b 0), shifted 6 (l a b 0), 0x3D] = Some [a, b]"
    unfolding shifted_char
    by (subst decode_quadI [OF c(1) c(1) c(1) bin_equals c(4) c(4) c(4) _ join_sextets [of "l a b 0", unfolded z]]) (simp_all add: c bytes)
  show "base64_decode_quad [shifted 18 (l a 0 0), shifted 12 (l a 0 0), 0x3D, 0x3D] = Some [a]"
    unfolding shifted_char
    by (subst decode_quadI [OF c(1) c(1) bin_equals bin_equals c(4) c(4) _ _ join_sextets [of "l a 0 0", unfolded z]]) (simp_all add: c bytes)
qed

section \<open>Blocks\<close>

lemma length_encode: "length (encode_loop src) = 4 * ((length src + 2) div 3)"
proof (induction src rule: encode_loop.induct)
  case (4 a b c rest)
  have "(length (a # b # c # rest) + 2) div 3 = Suc ((length rest + 2) div 3)" by simp
  then show ?case using 4 by (simp add: Let_def del: length_Cons)
qed (simp_all add: Let_def)

lemma decode_encode: "decode_quads (encode_loop src) = Some src"
proof (induction src rule: encode_loop.induct)
  case (2 a)
  then show ?case using quad3(3) [of a] by (simp add: Let_def)
next
  case (3 a b)
  then show ?case using quad3(2) [of a b] by (simp add: Let_def)
next
  case (4 a b c rest)
  then show ?case using quad3(1) [of a b c] by (simp add: Let_def)
qed simp

lemma block_roundtrip:
  assumes "length (encode_loop src) < 2 ^ 64" and "of_nat (3 * ((length src + 2) div 3)) \<le> max_out"
  shows "EVP_DecodeBase64 max_out (encode_loop src) = Some src"
proof -
  let ?q = "(length src + 2) div 3"
  have l: "4 * ?q < 2 ^ 64" using assms(1) by (simp add: length_encode)
  have u: "unat (of_nat (4 * ?q) :: u64) = 4 * ?q" "unat (of_nat ?q :: u64) = ?q" using l by (simp_all add: unat_of_nat del: of_nat_mult)
  have m: "of_nat (4 * ?q) mod 4 = (0 :: u64)" using u(1) by (simp only: word_unat_eq_iff unat_mod) simp
  have d: "of_nat (4 * ?q) div 4 = (of_nat ?q :: u64)" unfolding word_unat_eq_iff unat_div u by simp
  have "EVP_DecodedLength (of_nat (4 * ?q)) = Some (of_nat ?q * 3)" using m d by (simp add: EVP_DecodedLength_def del: of_nat_mult)
  then show ?thesis using assms(2) m decode_encode [of src] unfolding EVP_DecodeBase64_def length_encode Let_def by (simp add: mult.commute not_less)
qed

text \<open>The size computed for the output is the size of what is written.\<close>

lemma encoded_length:
  assumes "4 * ((n + 2) div 3) + 1 < 2 ^ 64" and "n + 2 < 2 ^ 64"
  shows "EVP_EncodedLength (of_nat n) = Some (of_nat (4 * ((n + 2) div 3) + 1))"
proof -
  let ?q = "(n + 2) div 3"
  have n: "unat (of_nat n + 2 :: u64) = n + 2" "unat (of_nat n :: u64) = n" using assms(2) by (simp_all add: unat_word_ariths unat_of_nat)
  have q: "(of_nat n + 2) div 3 = (of_nat ?q :: u64)" using n assms by (simp add: word_unat_eq_iff unat_div unat_of_nat)
  have u: "unat (of_nat ?q :: u64) = ?q" "unat (push_bit 2 (of_nat ?q) :: u64) = 4 * ?q"
    using assms by (simp_all add: unat_of_nat push_bit_eq_mult unat_word_ariths)
  have "drop_bit 2 (push_bit 2 (of_nat ?q :: u64)) = of_nat ?q" using u by (simp add: word_unat_eq_iff drop_bit_eq_div unat_div)
  moreover have "\<not> of_nat n + 2 < (of_nat n :: u64)" using n by (simp add: word_less_nat_alt)
  moreover have "\<not> push_bit 2 (of_nat ?q) + 1 < (push_bit 2 (of_nat ?q) :: u64)"
    using u assms(1) by (simp add: word_less_nat_alt unat_word_ariths)
  moreover have "push_bit 2 (of_nat ?q) + 1 = (of_nat (4 * ?q + 1) :: u64)" using u assms(1) by (simp add: word_unat_eq_iff unat_word_ariths unat_of_nat)
  ultimately show ?thesis unfolding EVP_EncodedLength_def Let_def q by simp
qed

end
