(* ===== verification/Base64_Stream.thy ===== *)
theory Base64_Stream
  imports Base64_Correct
begin

text \<open>
  The streaming interface. \<open>b64_text\<close> is the text of a whole input: lines of 64 characters, and a last, shorter one. The calls of
  \<open>EVP_EncodeUpdate\<close> and \<open>EVP_EncodeFinal\<close> write it, and \<open>EVP_DecodeUpdate\<close> reads it back, however input and text are cut into pieces.
\<close>

section \<open>Lines\<close>

function line_split :: "u8 list \<Rightarrow> u8 list \<times> u8 list" where
  "line_split d = (if length d < 48 then ([], d) else (case line_split (drop 48 d) of (t, r) \<Rightarrow> (encode_loop (take 48 d) @ [0xA] @ t, r)))"
  by auto
termination
  by (relation "measure length") auto

declare line_split.simps [simp del]

definition b64_text :: "u8 list \<Rightarrow> u8 list" where
  "b64_text d = (case line_split d of (t, r) \<Rightarrow> t @ (if r = [] then [] else encode_loop r @ [0xA]))"

lemma line_split_short: "length d < 48 \<Longrightarrow> line_split d = ([], d)"
  by (simp add: line_split.simps)

lemma line_split_line: "length x = 48 \<Longrightarrow> line_split (x @ d) = (case line_split d of (t, r) \<Rightarrow> (encode_loop x @ [0xA] @ t, r))"
  by (subst line_split.simps) simp

lemma line_split_append: "line_split (d @ e) = (case line_split d of (t, r) \<Rightarrow> case line_split (r @ e) of (t', r') \<Rightarrow> (t @ t', r'))"
proof (induction d rule: line_split.induct)
  case (1 d)
  show ?case
  proof (cases "length d < 48")
    case True
    then show ?thesis by (simp add: line_split_short split: prod.splits)
  next
    case False
    have d: "d @ e = take 48 d @ (drop 48 d @ e)" "d = take 48 d @ drop 48 d" "length (take 48 d) = 48" using False by simp_all
    have "line_split d = (case line_split (drop 48 d) of (t, r) \<Rightarrow> (encode_loop (take 48 d) @ [0xA] @ t, r))"
      using line_split_line [OF d(3), of "drop 48 d"] by simp
    then show ?thesis unfolding d(1) line_split_line [OF d(3)] using 1 [OF False] by (auto split: prod.splits)
  qed
qed

lemma line_split_rest: "length (snd (line_split d)) < 48"
  by (induction d rule: line_split.induct) (subst line_split.simps, auto split: prod.splits)

lemma length_lines: "length (fst (line_split d)) \<le> 2 * length d"
proof (induction d rule: line_split.induct)
  case (1 d)
  show ?case
  proof (cases "length d < 48")
    case False
    then have "line_split d = (case line_split (drop 48 d) of (t, r) \<Rightarrow> (encode_loop (take 48 d) @ [0xA] @ t, r))" by (subst line_split.simps) simp
    then show ?thesis using 1 [OF False] False by (auto simp: length_encode split: prod.splits)
  qed (simp add: line_split_short)
qed

section \<open>The encoder\<close>

lemma encode_block_len: "length src < 2 ^ 60 \<Longrightarrow> unat (snd (EVP_EncodeBlock src)) = length (encode_loop src)"
  by (simp add: EVP_EncodeBlock_def unat_of_nat length_encode del: of_nat_mult)

lemma encoded_line_eq: "length src < 2 ^ 60 \<Longrightarrow> encoded_line src = encode_loop src @ [0xA]"
  using encode_block_len [of src] by (simp add: encoded_line_def EVP_EncodeBlock_def)

lemma lines_loop_split:
  "unat tot + 2 * length inp < 2 ^ 60 \<Longrightarrow> lines_loop out tot inp
     = (out @ fst (line_split inp), Some (tot + of_nat (length (fst (line_split inp)))), snd (line_split inp))"
proof (induction out tot inp rule: lines_loop.induct)
  case (1 out tot inp)
  show ?case
  proof (cases "48 \<le> length inp")
    case False
    then show ?thesis by (simp add: lines_loop.simps line_split_short)
  next
    case True
    have len: "unat (snd (EVP_EncodeBlock (take 48 inp))) = 64" using True by (simp add: encode_block_len length_encode)
    then have e: "snd (EVP_EncodeBlock (take 48 inp)) = 64" by (simp add: word_unat_eq_iff)
    have t: "unat (tot + 64 + 1) = unat tot + 65" using 1(2) by (simp add: unat_word_ariths)
    have ls: "line_split inp = (case line_split (drop 48 inp) of (t, r) \<Rightarrow> (encode_loop (take 48 inp) @ [0xA] @ t, r))"
      using True by (subst line_split.simps) simp
    have "lines_loop (out @ encoded_line (take 48 inp)) (tot + 64 + 1) (drop 48 inp) = (out @ encoded_line (take 48 inp) @ fst (line_split (drop 48 inp)),
        Some (tot + 64 + 1 + of_nat (length (fst (line_split (drop 48 inp))))), snd (line_split (drop 48 inp)))"
      using 1(1) [OF True refl refl refl] t e 1(2) True by (simp add: word_less_nat_alt)
    moreover have "\<not> tot + 64 + 1 < tot" using t by (simp add: word_less_nat_alt)
    ultimately show ?thesis using True ls e
      by (subst lines_loop.simps) (auto simp: Let_def encoded_line_eq length_encode algebra_simps split: prod.splits)
  qed
qed

definition ctx_ok :: "evp_encode_ctx \<Rightarrow> bool" where
  "ctx_ok ctx \<longleftrightarrow> length (ctx_data ctx) = 48 \<and> unat (data_used ctx) < 48"

definition pending :: "evp_encode_ctx \<Rightarrow> u8 list" where
  "pending ctx = take (unat (data_used ctx)) (ctx_data ctx)"

lemma pending_length: "ctx_ok ctx \<Longrightarrow> length (pending ctx) = unat (data_used ctx)"
  by (simp add: ctx_ok_def pending_def)

text \<open>What a call delivers is the first \<open>*out_len\<close> bytes it writes.\<close>

definition delivered :: "u8 list \<times> int \<times> evp_encode_ctx \<Rightarrow> u8 list" where
  "delivered res = take (nat (fst (snd res))) (fst res)"

lemma update_tail:
  assumes d: "length (ctx_data ctx) = 48" and out: "length out \<le> 65" "tot = of_nat (length out)" and l: "length inp < 2 ^ 29"
  defines "res \<equiv> (case lines_loop out tot inp of
             (out, None, inp) \<Rightarrow> (out @ [0], 0, ctx)
           | (out, Some tot, inp) \<Rightarrow>
               (out @ [0], if tot > 0x7FFFFFFF then 0 else uint tot,
                ctx\<lparr>ctx_data := (if inp \<noteq> [] then put_at (ctx_data ctx) 0 inp else ctx_data ctx), data_used := of_nat (length inp)\<rparr>))"
  shows "ctx_ok (snd (snd res)) \<and> delivered res = out @ fst (line_split inp) \<and> pending (snd (snd res)) = snd (line_split inp)"
proof -
  obtain t r where s: "line_split inp = (t, r)" by fastforce
  have r: "length r < 48" "length t < 2 ^ 30" using line_split_rest [of inp] length_lines [of inp] s l by simp_all
  have "unat tot = length out" using out by (simp add: unat_of_nat)
  then have loop: "lines_loop out tot inp = (out @ t, Some (tot + of_nat (length t)), r)" using lines_loop_split [of tot inp out] s l out(1) by simp
  have n: "unat (tot + of_nat (length t)) = length (out @ t)" using out r(2) by (simp add: unat_word_ariths unat_of_nat)
  have small: "\<not> tot + of_nat (length t) > 0x7FFFFFFF" using n out r(2) by (simp add: word_less_nat_alt)
  have "nat (uint (tot + of_nat (length t))) = length (out @ t)" using n by (simp flip: unat_eq_nat_uint)
  then have "delivered res = out @ t" using small unfolding delivered_def res_def loop by simp
  moreover have "unat (of_nat (length r) :: u32) = length r" using r(1) by (simp add: unat_of_nat)
  ultimately show ?thesis using s r(1) d unfolding res_def loop by (simp add: ctx_ok_def pending_def put_at_def)
qed

lemma update_lines:
  assumes ok: "ctx_ok ctx" and l: "length inp < 2 ^ 29"
  shows "ctx_ok (snd (snd (EVP_EncodeUpdate ctx inp)))
    \<and> line_split (pending ctx @ inp) = (delivered (EVP_EncodeUpdate ctx inp), pending (snd (snd (EVP_EncodeUpdate ctx inp))))"
proof -
  let ?u = "unat (data_used ctx)" and ?d = "ctx_data ctx"
  have u: "?u < 48" "length ?d = 48" "length (pending ctx) = ?u" using ok by (simp_all add: ctx_ok_def pending_def)
  consider (none) "inp = []" | (short) "inp \<noteq> []" "length inp < 48 - ?u" | (lines) "inp \<noteq> []" "48 - ?u \<le> length inp" by linarith
  then show ?thesis
  proof cases
    case none
    then show ?thesis using ok u by (simp add: EVP_EncodeUpdate_def delivered_def line_split_short)
  next
    case short
    let ?ctx = "ctx\<lparr>ctx_data := put_at ?d ?u inp, data_used := data_used ctx + of_nat (length inp)\<rparr>"
    have run: "EVP_EncodeUpdate ctx inp = ([], 0, ?ctx)" using short by (simp add: EVP_EncodeUpdate_def)
    have n: "unat (data_used ctx + of_nat (length inp)) = ?u + length inp"
      using short u by (simp add: unat_word_ariths unat_of_nat)
    then have "pending ?ctx = pending ctx @ inp" "ctx_ok ?ctx" using short u by (simp_all add: pending_def ctx_ok_def put_at_def)
    then show ?thesis using run short u by (simp add: delivered_def line_split_short)
  next
    case lines
    show ?thesis
    proof (cases "?u = 0")
      case True
      then show ?thesis using update_tail [OF u(2) _ _ l, of "[]" 0] lines
        by (auto simp: EVP_EncodeUpdate_def Let_def pending_def prod_eq_iff)
    next
      case False
      let ?todo = "48 - ?u"
      let ?b = "put_at ?d ?u (take ?todo inp)"
      have b: "?b = pending ctx @ take ?todo inp" "length ?b = 48" using lines u by (simp_all add: put_at_def pending_def)
      have e: "encoded_line ?b = encode_loop ?b @ [0xA]" "length (encode_loop ?b) = 64" using b(2) by (simp_all add: encoded_line_eq length_encode)
      have "unat (snd (EVP_EncodeBlock ?b)) = 64" using encode_block_len [of ?b] b(2) e(2) by simp
      then have tot: "snd (EVP_EncodeBlock ?b) + 1 = of_nat (length (encoded_line ?b))" using e by (simp add: word_unat_eq_iff unat_word_ariths)
      have i: "pending ctx @ inp = ?b @ drop ?todo inp" "length (drop ?todo inp) < 2 ^ 29" using b(1) l by simp_all
      have "line_split (pending ctx @ inp) = (encoded_line ?b @ fst (line_split (drop ?todo inp)), snd (line_split (drop ?todo inp)))"
        unfolding i(1) line_split_line [OF b(2)] e(1) by (simp split: prod.splits)
      then show ?thesis
        using update_tail [of "ctx\<lparr>ctx_data := ?b, data_used := 0\<rparr>" "encoded_line ?b" "snd (EVP_EncodeBlock ?b) + 1" "drop ?todo inp"] b(2) e tot i(2) lines False
        by (simp add: EVP_EncodeUpdate_def Let_def)
    qed
  qed
qed

text \<open>The calls for a list of pieces, and then the final one.\<close>

fun encode_updates :: "evp_encode_ctx \<Rightarrow> u8 list list \<Rightarrow> u8 list \<times> evp_encode_ctx" where
  "encode_updates ctx [] = ([], ctx)"
| "encode_updates ctx (inp # inps) =
     (let res = EVP_EncodeUpdate ctx inp in case encode_updates (snd (snd res)) inps of (out, ctx) \<Rightarrow> (delivered res @ out, ctx))"

definition encode_all :: "u8 list list \<Rightarrow> u8 list" where
  "encode_all inps = (case encode_updates EVP_EncodeInit inps of (out, ctx) \<Rightarrow> out @ delivered (EVP_EncodeFinal ctx))"

lemma updates_lines:
  assumes "ctx_ok ctx" and "\<forall>inp \<in> set inps. length inp < 2 ^ 29"
  shows "ctx_ok (snd (encode_updates ctx inps)) \<and> line_split (pending ctx @ concat inps) = (fst (encode_updates ctx inps), pending (snd (encode_updates ctx inps)))"
  using assms
proof (induction inps arbitrary: ctx)
  case Nil
  then show ?case using pending_length [OF Nil(1)] by (simp add: line_split_short ctx_ok_def)
next
  case (Cons inp inps)
  let ?res = "EVP_EncodeUpdate ctx inp"
  have u: "ctx_ok (snd (snd ?res))" "line_split (pending ctx @ inp) = (delivered ?res, pending (snd (snd ?res)))"
    using update_lines [OF Cons.prems(1), of inp] Cons.prems(2) by simp_all
  have "line_split (pending ctx @ inp @ concat inps) = (case line_split (pending (snd (snd ?res)) @ concat inps) of (t, r) \<Rightarrow> (delivered ?res @ t, r))"
    using line_split_append [of "pending ctx @ inp" "concat inps"] u(2) by simp
  then show ?case using Cons.IH [OF u(1)] Cons.prems(2) by (simp add: Let_def case_prod_beta)
qed

lemma final_line:
  assumes "ctx_ok ctx"
  shows "delivered (EVP_EncodeFinal ctx) = (if pending ctx = [] then [] else encode_loop (pending ctx) @ [0xA])"
proof (cases "data_used ctx = 0")
  case True
  then show ?thesis by (simp add: EVP_EncodeFinal_def delivered_def pending_def)
next
  case False
  have l: "length (pending ctx) < 48" "pending ctx \<noteq> []"
    using assms pending_length [OF assms] False by (auto simp: ctx_ok_def unat_eq_0 [symmetric])
  have n: "unat (snd (EVP_EncodeBlock (pending ctx))) = length (encode_loop (pending ctx))" "length (encode_loop (pending ctx)) < 70"
    using encode_block_len [of "pending ctx"] l(1) by (simp_all add: length_encode)
  then have "unat (snd (EVP_EncodeBlock (pending ctx)) + 1) = length (encode_loop (pending ctx)) + 1" by (simp add: unat_word_ariths)
  then have "nat (uint (snd (EVP_EncodeBlock (pending ctx)) + 1)) = length (encode_loop (pending ctx)) + 1" by (simp flip: unat_eq_nat_uint)
  moreover have "encoded_line (pending ctx) = encode_loop (pending ctx) @ [0xA]" using l(1) by (simp add: encoded_line_eq)
  ultimately show ?thesis using False l(2) unfolding EVP_EncodeFinal_def delivered_def Let_def pending_def [symmetric] by simp
qed

lemma encode_all_text:
  assumes "\<forall>inp \<in> set inps. length inp < 2 ^ 29"
  shows "encode_all inps = b64_text (concat inps)"
proof -
  have i: "ctx_ok EVP_EncodeInit" "pending EVP_EncodeInit = []" by (simp_all add: EVP_EncodeInit_def ctx_ok_def pending_def)
  from updates_lines [OF i(1) assms] show ?thesis
    using final_line [of "snd (encode_updates EVP_EncodeInit inps)"] i(2) by (simp add: encode_all_def b64_text_def case_prod_beta)
qed

section \<open>The decoder\<close>

lemma b64_decode_loop_out: "b64_decode_loop ctx out inp = (case b64_decode_loop ctx [] inp of (ok, o', c) \<Rightarrow> (ok, out @ o', c))"
proof (induction inp arbitrary: ctx out)
  case (Cons c inp)
  let ?ctx = "ctx\<lparr>ctx_data := (ctx_data ctx)[unat (data_used ctx) := c], data_used := data_used ctx + 1\<rparr>"
  consider "is_space c" | "\<not> is_space c" "eof_seen ctx" | "\<not> is_space c" "\<not> eof_seen ctx" "data_used ?ctx \<noteq> 4"
    | "\<not> is_space c" "\<not> eof_seen ctx" "data_used ?ctx = 4" "base64_decode_quad (take 4 (ctx_data ?ctx)) = None"
    | bytes where "\<not> is_space c" "\<not> eof_seen ctx" "data_used ?ctx = 4" "base64_decode_quad (take 4 (ctx_data ?ctx)) = Some bytes" by auto
  then show ?case
  proof cases
    case 1
    then show ?thesis using Cons.IH [of ctx out] by simp
  next
    case 3
    then show ?thesis using Cons.IH [of ?ctx out] by simp
  next
    case (5 bytes)
    let ?ctx1 = "?ctx\<lparr>data_used := 0, eof_seen := eof_seen ?ctx \<or> length bytes < 3\<rparr>"
    show ?thesis using 5 Cons.IH [of ?ctx1 "out @ bytes"] Cons.IH [of ?ctx1 bytes] by (simp add: Let_def case_prod_beta)
  qed simp_all
qed simp

lemma b64_decode_loop_append:
  "b64_decode_loop ctx out (a @ b) = (case b64_decode_loop ctx out a of (True, o', c) \<Rightarrow> b64_decode_loop c o' b | (False, o', c) \<Rightarrow> (False, o', c))"
  by (induction ctx out a rule: b64_decode_loop.induct) (auto simp: Let_def split: option.splits)

lemma b64_decode_loop_space: "b64_decode_loop ctx out inp = b64_decode_loop ctx out (filter (\<lambda>c. \<not> is_space c) inp)"
  by (induction ctx out inp rule: b64_decode_loop.induct) (auto simp: Let_def split: option.splits)

lemma b64_decode_loop_error: "b64_decode_loop ctx out inp = (True, o', c) \<Longrightarrow> error_encountered c = error_encountered ctx"
  by (induction ctx out inp rule: b64_decode_loop.induct) (auto simp: Let_def split: option.splits if_splits)

definition decode_ready :: "evp_encode_ctx \<Rightarrow> bool" where
  "decode_ready ctx \<longleftrightarrow> length (ctx_data ctx) = 48 \<and> data_used ctx = 0 \<and> \<not> eof_seen ctx \<and> \<not> error_encountered ctx"

lemma b64_decode_loop_quad:
  assumes ok: "decode_ready ctx" and sp: "\<not> is_space w" "\<not> is_space x" "\<not> is_space y" "\<not> is_space z" and q: "base64_decode_quad [w, x, y, z] = Some bytes"
  shows "b64_decode_loop ctx out (w # x # y # z # rest)
    = b64_decode_loop (ctx\<lparr>ctx_data := w # x # y # z # drop 4 (ctx_data ctx), data_used := 0, eof_seen := length bytes < 3\<rparr>) (out @ bytes) rest"
proof -
  obtain d0 d1 d2 d3 d where d: "ctx_data ctx = d0 # d1 # d2 # d3 # d"
    using ok by (auto simp: decode_ready_def length_Suc_conv eval_nat_numeral)
  have cells: "(a # b # c # xs)[2 := v] = a # b # v # xs" "(a # b # c # e # xs)[3 := v] = a # b # c # v # xs"
    "take 4 (a # b # c # e # xs) = [a, b, c, e]" "drop 4 (a # b # c # e # xs) = xs" for a b c e v :: u8 and xs
    by (simp_all add: eval_nat_numeral)
  show ?thesis using ok sp q d by (simp add: decode_ready_def Let_def cells)
qed

lemma char_ready: "\<not> is_space (shifted n l)" "\<not> is_space 0x3D"
  by (simp_all add: shifted_char bin_char(3) [OF sextet_bound]) (simp add: is_space_def)

lemma b64_decode_loop_encode:
  assumes "decode_ready ctx"
  shows "\<exists>ctx'. b64_decode_loop ctx out (encode_loop src) = (True, out @ src, ctx') \<and> data_used ctx' = 0 \<and> \<not> error_encountered ctx'"
  using assms
proof (induction src arbitrary: ctx out rule: encode_loop.induct)
  case (2 a)
  show ?case using b64_decode_loop_quad [OF 2 char_ready(1) char_ready(1) char_ready(2) char_ready(2), of 18 "push_bit 16 (ucast a)" 12 "push_bit 16 (ucast a)" "[a]"]
      quad3(3) [of a] 2 by (simp add: Let_def decode_ready_def)
next
  case (3 a b)
  let ?l = "push_bit 16 (ucast a) OR push_bit 8 (ucast b) :: u32"
  show ?case using b64_decode_loop_quad [OF 3 char_ready(1) char_ready(1) char_ready(1) char_ready(2), of 18 ?l 12 ?l 6 ?l "[a, b]"]
      quad3(2) [of a b] 3 by (simp add: Let_def decode_ready_def)
next
  case (4 a b c rest)
  let ?l = "push_bit 16 (ucast a) OR push_bit 8 (ucast b) OR ucast c :: u32"
  let ?ctx = "ctx\<lparr>ctx_data := shifted 18 ?l # shifted 12 ?l # shifted 6 ?l # shifted 0 ?l # drop 4 (ctx_data ctx), data_used := 0, eof_seen := length [a, b, c] < 3\<rparr>"
  have "decode_ready ?ctx" using 4(2) by (simp add: decode_ready_def)
  from 4(1) [OF refl this, of "out @ [a, b, c]"] show ?case
    using b64_decode_loop_quad [OF 4(2) char_ready(1) char_ready(1) char_ready(1) char_ready(1), of 18 ?l 12 ?l 6 ?l 0 ?l "[a, b, c]"] quad3(1) [of a b c]
    by (simp add: Let_def)
qed (auto simp: decode_ready_def)

section \<open>The text without its line ends\<close>

lemma encode_append: "3 dvd length a \<Longrightarrow> encode_loop (a @ b) = encode_loop a @ encode_loop b"
proof (induction a rule: encode_loop.induct)
  case (4 x y z rest)
  have "3 dvd length rest" using 4(2) by simp presburger
  then show ?case using 4(1) by (simp add: Let_def)
qed (auto dest!: dvd_imp_le)

lemma encode_no_space: "filter (\<lambda>c. \<not> is_space c) (encode_loop src) = encode_loop src"
  by (induction src rule: encode_loop.induct) (simp_all add: Let_def char_ready)

lemma newline_space: "is_space 0xA"
  by (simp add: is_space_def)

lemma lines_chars: "filter (\<lambda>c. \<not> is_space c) (fst (line_split d)) @ encode_loop (snd (line_split d)) = encode_loop d"
proof (induction d rule: line_split.induct)
  case (1 d)
  show ?case
  proof (cases "length d < 48")
    case False
    then have s: "line_split d = (case line_split (drop 48 d) of (t, r) \<Rightarrow> (encode_loop (take 48 d) @ [0xA] @ t, r))" by (subst line_split.simps) simp
    have "encode_loop d = encode_loop (take 48 d) @ encode_loop (drop 48 d)" using encode_append [of "take 48 d" "drop 48 d"] False by simp
    then show ?thesis using 1 [OF False] s by (simp add: case_prod_beta encode_no_space newline_space)
  qed (simp add: line_split_short)
qed

lemma text_chars: "filter (\<lambda>c. \<not> is_space c) (b64_text d) = encode_loop d"
  using lines_chars [of d] by (auto simp: b64_text_def case_prod_beta encode_no_space newline_space)

section \<open>Decoding in pieces\<close>

fun decode_updates :: "evp_encode_ctx \<Rightarrow> u8 list list \<Rightarrow> (u8 list \<times> evp_encode_ctx) option" where
  "decode_updates ctx [] = Some ([], ctx)"
| "decode_updates ctx (inp # inps) =
     (case EVP_DecodeUpdate ctx inp of (r, out, len, ctx) \<Rightarrow>
        if r < 0 then None else map_option (\<lambda>(rest, ctx). (take (nat len) out @ rest, ctx)) (decode_updates ctx inps))"

definition decode_all :: "u8 list list \<Rightarrow> u8 list option" where
  "decode_all inps =
     (case decode_updates EVP_DecodeInit inps of
        None \<Rightarrow> None
      | Some (out, ctx) \<Rightarrow> if fst (EVP_DecodeFinal ctx) < 0 then None else Some out)"

lemma decode_updates_loop:
  assumes "b64_decode_loop ctx [] (concat inps) = (True, out, ctx')" and "\<not> error_encountered ctx" and "length out \<le> 0x7FFFFFFF"
  shows "decode_updates ctx inps = Some (out, ctx')"
  using assms
proof (induction inps arbitrary: ctx out)
  case (Cons inp inps)
  obtain ok o1 c1 where 1: "b64_decode_loop ctx [] inp = (ok, o1, c1)" by (metis surj_pair)
  have ok: "ok" using Cons.prems(1) 1 by (cases ok) (simp_all add: b64_decode_loop_append)
  obtain o2 where 2: "b64_decode_loop c1 [] (concat inps) = (True, o2, ctx')" "out = o1 @ o2"
    using Cons.prems(1) 1 ok b64_decode_loop_out [of c1 o1 "concat inps"] by (auto simp: b64_decode_loop_append case_prod_beta prod_eq_iff)
  have "\<not> error_encountered c1" using b64_decode_loop_error [of ctx "[]" inp o1 c1] 1 ok Cons.prems(2) by simp
  from Cons.IH [OF 2(1) this] have "decode_updates c1 inps = Some (o2, ctx')" using Cons.prems(3) 2(2) by simp
  then show ?case using 1 ok 2(2) Cons.prems(2,3) by (simp add: EVP_DecodeUpdate_def)
qed simp

lemma stream_roundtrip:
  assumes "\<forall>inp \<in> set inps. length inp < 2 ^ 29" and "length (concat inps) < 2 ^ 31" and "concat pieces = encode_all inps"
  shows "decode_all pieces = Some (concat inps)"
proof -
  have "decode_ready EVP_DecodeInit" by (simp add: decode_ready_def EVP_DecodeInit_def)
  then obtain ctx where ctx: "b64_decode_loop EVP_DecodeInit [] (encode_loop (concat inps)) = (True, concat inps, ctx)" "data_used ctx = 0" "\<not> error_encountered ctx"
    using b64_decode_loop_encode [of EVP_DecodeInit "[]" "concat inps"] by auto
  have "filter (\<lambda>c. \<not> is_space c) (concat pieces) = encode_loop (concat inps)"
    unfolding assms(3) encode_all_text [OF assms(1)] by (rule text_chars)
  then have "b64_decode_loop EVP_DecodeInit [] (concat pieces) = (True, concat inps, ctx)"
    using ctx(1) b64_decode_loop_space [of EVP_DecodeInit "[]" "concat pieces"] by simp
  then have "decode_updates EVP_DecodeInit pieces = Some (concat inps, ctx)"
    using assms(2) by (intro decode_updates_loop) (simp_all add: EVP_DecodeInit_def)
  then show ?thesis using ctx(2,3) by (simp add: decode_all_def EVP_DecodeFinal_def)
qed

end
