(* ===== verification/Base64_Properties.thy ===== *)
theory Base64_Properties
  imports Base64_Stream
begin

text \<open>The properties of the Base64 coder, with a concrete instance of each.\<close>

text \<open>
  C28: the stream coder round-trips. The calls of \<open>EVP_EncodeUpdate\<close> and \<open>EVP_EncodeFinal\<close> write the text of the whole input
  in lines of 64 characters however the input is cut, and feeding that text to \<open>EVP_DecodeUpdate\<close>, cut into any pieces, gives the input back without an error.
\<close>

theorem base64_stream_roundtrip:
  assumes "\<forall>inp \<in> set inps. length inp < 2 ^ 29" and "length (concat inps) < 2 ^ 31" and "concat pieces = encode_all inps"
  shows "encode_all inps = b64_text (concat inps) \<and> decode_all pieces = Some (concat inps)"
  using encode_all_text [OF assms(1)] stream_roundtrip [OF assms] by simp

theorem base64_stream_roundtrip_witness:
  "encode_all [[0x66], [0x6F, 0x6F, 0x62]] = [0x5A, 0x6D, 0x39, 0x76, 0x59, 0x67, 0x3D, 0x3D, 0xA]
    \<and> decode_all [[0x5A, 0x6D, 0x39], [0x76, 0x59, 0x67, 0x3D], [0x3D, 0xA]] = Some [0x66, 0x6F, 0x6F, 0x62]"
proof -
  have e: "encode_all [[0x66], [0x6F, 0x6F, 0x62]] = [0x5A, 0x6D, 0x39, 0x76, 0x59, 0x67, 0x3D, 0x3D, 0xA]" by code_simp
  then show ?thesis
    using base64_stream_roundtrip [of "[[0x66], [0x6F, 0x6F, 0x62]]" "[[0x5A, 0x6D, 0x39], [0x76, 0x59, 0x67, 0x3D], [0x3D, 0xA]]"] by simp
qed

text \<open>
  C29: the block coder round-trips within its bounds. \<open>EVP_EncodeBlock\<close> writes the text and a terminator, exactly as many bytes as
  \<open>EVP_EncodedLength\<close> computes without an overflow, and \<open>EVP_DecodeBase64\<close> on the text gives the input back into any
  buffer of the size that \<open>EVP_DecodedLength\<close> asks for.
\<close>

theorem base64_block_roundtrip:
  assumes "length src < 2 ^ 60" and "EVP_EncodeBlock src = (out, n)" and "EVP_DecodedLength n = Some m" and "m \<le> max_out"
  shows "EVP_EncodedLength (of_nat (length src)) = Some (of_nat (length out)) \<and> length out = unat n + 1
    \<and> EVP_DecodeBase64 max_out (take (unat n) out) = Some src"
proof -
  let ?q = "(length src + 2) div 3"
  have l: "length (encode_loop src) = 4 * ?q" by (rule length_encode)
  have q: "4 * ?q < 2 ^ 62" using assms(1) by simp
  have out: "out = encode_loop src @ [0]" "unat n = 4 * ?q" "n = of_nat (4 * ?q)"
    using assms(2) q l by (auto simp: EVP_EncodeBlock_def unat_of_nat simp del: of_nat_mult)
  have "EVP_EncodedLength (of_nat (length src)) = Some (of_nat (4 * ?q + 1))" using assms(1) q by (intro encoded_length) simp_all
  moreover have "of_nat (3 * ?q) = m"
  proof -
    have "n div 4 = of_nat ?q" using out(2) q by (simp add: word_unat_eq_iff unat_div unat_of_nat)
    then show ?thesis using assms(3) by (auto simp: EVP_DecodedLength_def split: if_splits)
  qed
  then have "EVP_DecodeBase64 max_out (encode_loop src) = Some src" using assms(4) l q by (intro block_roundtrip) simp_all
  ultimately show ?thesis using out l by simp
qed

theorem base64_block_roundtrip_witness:
  "EVP_EncodeBlock [0x66, 0x6F] = ([0x5A, 0x6D, 0x38, 0x3D, 0], 4) \<and> EVP_DecodeBase64 3 [0x5A, 0x6D, 0x38, 0x3D] = Some [0x66, 0x6F]"
proof -
  have "EVP_EncodeBlock [0x66, 0x6F] = ([0x5A, 0x6D, 0x38, 0x3D, 0], 4)" "EVP_DecodedLength 4 = Some 3" by code_simp+
  then show ?thesis using base64_block_roundtrip [of "[0x66, 0x6F]" "[0x5A, 0x6D, 0x38, 0x3D, 0]" 4 3 3] by simp
qed

end
