(* ===== verification/Uv_Heap.thy ===== *)
theory Uv_Heap
  imports C_Prelude
begin

text \<open>
  libuv's binary heap (\<open>src/heap-inl.h\<close>), a complete binary tree of nodes that are linked by pointers and
  embedded in the objects of the client. The nodes are a store from addresses to records. A
  \<open>struct heap_node **\<close> is a slot: the root of the heap or a field of a node. Following a null pointer gives \<open>None\<close>; the loops, which end
  only in a tree that is well formed, give \<open>None\<close> when they do not return.
\<close>

record heap_node =
  node_left :: addr
  node_right :: addr
  node_parent :: addr

record uv_heap =
  heap_root :: addr
  nelts :: u32

record heap_state =
  the_heap :: uv_heap
  nodes :: "addr \<Rightarrow> heap_node"

type_synonym heap_compare = "addr \<Rightarrow> addr \<Rightarrow> bool"

definition set_left :: "addr \<Rightarrow> addr \<Rightarrow> heap_state \<Rightarrow> heap_state" where
  "set_left p v st = st\<lparr>nodes := (nodes st)(p := (nodes st p)\<lparr>node_left := v\<rparr>)\<rparr>"

definition set_right :: "addr \<Rightarrow> addr \<Rightarrow> heap_state \<Rightarrow> heap_state" where
  "set_right p v st = st\<lparr>nodes := (nodes st)(p := (nodes st p)\<lparr>node_right := v\<rparr>)\<rparr>"

definition set_parent :: "addr \<Rightarrow> addr \<Rightarrow> heap_state \<Rightarrow> heap_state" where
  "set_parent p v st = st\<lparr>nodes := (nodes st)(p := (nodes st p)\<lparr>node_parent := v\<rparr>)\<rparr>"

definition set_root :: "addr \<Rightarrow> heap_state \<Rightarrow> heap_state" where
  "set_root v st = st\<lparr>the_heap := (the_heap st)\<lparr>heap_root := v\<rparr>\<rparr>"

definition set_nelts :: "u32 \<Rightarrow> heap_state \<Rightarrow> heap_state" where
  "set_nelts n st = st\<lparr>the_heap := (the_heap st)\<lparr>nelts := n\<rparr>\<rparr>"

definition heap_init :: "heap_state \<Rightarrow> heap_state" where
  "heap_init st = set_nelts 0 (set_root 0 st)"

definition heap_min :: "heap_state \<Rightarrow> addr" where
  "heap_min st = heap_root (the_heap st)"

text \<open>The last part of a swap, and of a removal: what points to a node is changed to point to another.\<close>

definition relink :: "addr \<Rightarrow> addr \<Rightarrow> addr \<Rightarrow> heap_state \<Rightarrow> heap_state" where
  "relink p old new st =
     (if p = 0 then set_root new st
      else if node_left (nodes st p) = old then set_left p new st
      else set_right p new st)"

definition heap_node_swap :: "addr \<Rightarrow> addr \<Rightarrow> heap_state \<Rightarrow> heap_state" where
  "heap_node_swap parent child st =
     (let st = st\<lparr>nodes := (nodes st)(parent := nodes st child, child := nodes st parent)\<rparr>;
          st = set_parent parent child st;
          (st, sibling) =
            (if node_left (nodes st child) = child
             then let st = set_left child parent st in (st, node_right (nodes st child))
             else let st = set_right child parent st in (st, node_left (nodes st child)));
          st = (if sibling \<noteq> 0 then set_parent sibling child st else st);
          st = (if node_left (nodes st parent) \<noteq> 0 then set_parent (node_left (nodes st parent)) parent st else st);
          st = (if node_right (nodes st parent) \<noteq> 0 then set_parent (node_right (nodes st parent)) parent st else st)
      in relink (node_parent (nodes st child)) parent child st)"

section \<open>The path to a position\<close>

datatype slot = Root | At_left addr | At_right addr

fun read_slot :: "slot \<Rightarrow> heap_state \<Rightarrow> addr" where
  "read_slot Root st = heap_root (the_heap st)"
| "read_slot (At_left p) st = node_left (nodes st p)"
| "read_slot (At_right p) st = node_right (nodes st p)"

fun write_slot :: "slot \<Rightarrow> addr \<Rightarrow> heap_state \<Rightarrow> heap_state" where
  "write_slot Root v st = set_root v st"
| "write_slot (At_left p) v st = set_left p v st"
| "write_slot (At_right p) v st = set_right p v st"

text \<open>The loop that reverses the bits of the position; the result is the path and its length.\<close>

function path_loop :: "u32 \<Rightarrow> u32 \<Rightarrow> u32 \<Rightarrow> u32 \<times> u32" where
  "path_loop path k n = (if n \<ge> 2 then path_loop (push_bit 1 path OR (n AND 1)) (k + 1) (n div 2) else (path, k))"
  by auto
termination
proof (relation "measure (\<lambda>(path, k, n). unat n)")
  fix n :: u32
  assume "n \<ge> 2"
  then have "0 < unat n" by (simp add: word_le_nat_alt)
  then show "((path', k', n div 2), (path, k, n)) \<in> measure (\<lambda>(path, k, n). unat n)" for path path' k k' :: u32
    by (simp add: unat_div)
qed simp

declare path_loop.simps [simp del]

text \<open>The loop that follows the path; the result is the last slot and the one before it.\<close>

primrec walk :: "nat \<Rightarrow> u32 \<Rightarrow> slot \<Rightarrow> slot \<Rightarrow> heap_state \<Rightarrow> (slot \<times> slot) option" where
  "walk 0 path parent child st = Some (parent, child)"
| "walk (Suc k) path parent child st =
     (let p = read_slot child st
      in if p = 0 then None
         else walk k (drop_bit 1 path) child (if path AND 1 \<noteq> 0 then At_right p else At_left p) st)"

definition find_slot :: "u32 \<Rightarrow> heap_state \<Rightarrow> (slot \<times> slot) option" where
  "find_slot n st = (case path_loop 0 0 n of (path, k) \<Rightarrow> walk (unat k) path Root Root st)"

section \<open>Inserting and removing\<close>

partial_function (option) move_up :: "heap_compare \<Rightarrow> addr \<Rightarrow> heap_state \<Rightarrow> heap_state option" where
  [code]: "move_up before node st =
     (let p = node_parent (nodes st node)
      in if p \<noteq> 0 \<and> before node p then move_up before node (heap_node_swap p node st) else Some st)"

definition smallest :: "heap_compare \<Rightarrow> addr \<Rightarrow> heap_state \<Rightarrow> addr" where
  "smallest before child st =
     (let n = nodes st child;
          s = (if node_left n \<noteq> 0 \<and> before (node_left n) child then node_left n else child)
      in if node_right n \<noteq> 0 \<and> before (node_right n) s then node_right n else s)"

partial_function (option) move_down :: "heap_compare \<Rightarrow> addr \<Rightarrow> heap_state \<Rightarrow> heap_state option" where
  [code]: "move_down before child st =
     (let s = smallest before child st
      in if s = child then Some st else move_down before child (heap_node_swap child s st))"

definition heap_insert :: "addr \<Rightarrow> heap_compare \<Rightarrow> heap_state \<Rightarrow> heap_state option" where
  "heap_insert newnode before st =
     (let st = st\<lparr>nodes := (nodes st)(newnode := \<lparr>node_left = 0, node_right = 0, node_parent = 0\<rparr>)\<rparr>
      in case find_slot (1 + nelts (the_heap st)) st of
           None \<Rightarrow> None
         | Some (parent, child) \<Rightarrow>
             let st = set_parent newnode (read_slot parent st) st;
                 st = write_slot child newnode st;
                 st = set_nelts (nelts (the_heap st) + 1) st
             in move_up before newnode st)"

text \<open>The node that was last takes the place of the one that is removed.\<close>

definition take_place :: "addr \<Rightarrow> addr \<Rightarrow> heap_state \<Rightarrow> heap_state" where
  "take_place child node st =
     (let n = nodes st node;
          st = st\<lparr>nodes := (nodes st)(child := \<lparr>node_left = node_left n, node_right = node_right n, node_parent = node_parent n\<rparr>)\<rparr>;
          st = (if node_left (nodes st child) \<noteq> 0 then set_parent (node_left (nodes st child)) child st else st);
          st = (if node_right (nodes st child) \<noteq> 0 then set_parent (node_right (nodes st child)) child st else st)
      in relink (node_parent (nodes st node)) node child st)"

definition heap_remove :: "addr \<Rightarrow> heap_compare \<Rightarrow> heap_state \<Rightarrow> heap_state option" where
  "heap_remove node before st =
     (if nelts (the_heap st) = 0 then Some st
      else case find_slot (nelts (the_heap st)) st of
        None \<Rightarrow> None
      | Some (_, slot) \<Rightarrow>
          let st = set_nelts (nelts (the_heap st) - 1) st;
              child = read_slot slot st;
              st = write_slot slot 0 st
          in if child = node then Some (if child = heap_root (the_heap st) then set_root 0 st else st)
             else if child = 0 then None
             else case move_down before child (take_place child node st) of
               None \<Rightarrow> None | Some st \<Rightarrow> move_up before child st)"

definition heap_dequeue :: "heap_compare \<Rightarrow> heap_state \<Rightarrow> heap_state option" where
  "heap_dequeue before st = heap_remove (heap_root (the_heap st)) before st"

end
