(* ===== verification/Uv_Heap_Correct.thy ===== *)
theory Uv_Heap_Correct
  imports Uv_Heap
begin

text \<open>
  The linked tree implements a heap in an array. \<open>tree_rep\<close> says that the nodes are linked as the positions \<open>1\<close> to \<open>n\<close> of an array
  \<open>at\<close> are in the usual numbering, in which \<open>2 * k\<close> and \<open>2 * k + 1\<close> are the children of \<open>k\<close>; the tree is then complete.
\<close>

section \<open>The representation\<close>

definition tree_rep :: "heap_state \<Rightarrow> nat \<Rightarrow> (nat \<Rightarrow> addr) \<Rightarrow> bool" where
  "tree_rep st n at \<longleftrightarrow> inj_on at {1..n} \<and> (\<forall>k. at k \<noteq> 0 \<longleftrightarrow> 1 \<le> k \<and> k \<le> n) \<and> unat (nelts (the_heap st)) = n \<and> heap_root (the_heap st) = at 1
     \<and> (\<forall>k. 1 \<le> k \<longrightarrow> k \<le> n \<longrightarrow> nodes st (at k) = \<lparr>node_left = at (2 * k), node_right = at (2 * k + 1), node_parent = at (k div 2)\<rparr>)"

lemma rep_eq: "tree_rep st n at \<Longrightarrow> at i = at j \<longleftrightarrow> i = j \<or> at i = 0 \<and> at j = 0"
  unfolding tree_rep_def inj_on_def by (metis atLeastAtMost_iff)

lemma rep_null: "tree_rep st n at \<Longrightarrow> at k = 0 \<longleftrightarrow> k = 0 \<or> n < k"
  unfolding tree_rep_def by (metis One_nat_def Suc_leI not_gr_zero not_le not_less_eq_eq)

lemma rep_node:
  "tree_rep st n at \<Longrightarrow> 1 \<le> k \<Longrightarrow> k \<le> n \<Longrightarrow> nodes st (at k) = \<lparr>node_left = at (2 * k), node_right = at (2 * k + 1), node_parent = at (k div 2)\<rparr>"
  by (simp add: tree_rep_def)

lemma repI:
  assumes "\<And>i j. at i = at j \<Longrightarrow> at i \<noteq> 0 \<Longrightarrow> i = j" and "\<And>k. at k \<noteq> 0 \<longleftrightarrow> 1 \<le> k \<and> k \<le> n" and "unat (nelts (the_heap st)) = n" and "heap_root (the_heap st) = at 1"
    and "\<And>k. 1 \<le> k \<Longrightarrow> k \<le> n \<Longrightarrow> nodes st (at k) = \<lparr>node_left = at (2 * k), node_right = at (2 * k + 1), node_parent = at (k div 2)\<rparr>"
  shows "tree_rep st n at"
proof -
  have "inj_on at {1..n}" using assms(1,2) by (intro inj_onI) (metis atLeastAtMost_iff)
  then show ?thesis using assms(2-5) by (simp add: tree_rep_def)
qed

section \<open>Swapping\<close>

definition maybe_parent :: "addr \<Rightarrow> addr \<Rightarrow> heap_state \<Rightarrow> heap_state" where
  "maybe_parent a v st = (if a \<noteq> 0 then set_parent a v st else st)"

lemmas setters = set_left_def set_right_def set_parent_def set_root_def set_nelts_def

lemma maybe_parent_fields [simp]:
  "node_left (nodes (maybe_parent a v st) b) = node_left (nodes st b)" "node_right (nodes (maybe_parent a v st) b) = node_right (nodes st b)"
  "node_parent (nodes (maybe_parent a v st) b) = (if b = a \<and> a \<noteq> 0 then v else node_parent (nodes st b))" "the_heap (maybe_parent a v st) = the_heap st"
  by (simp_all add: maybe_parent_def set_parent_def)

lemma swap_first:
  assumes p: "nodes st p = \<lparr>node_left = lp, node_right = rp, node_parent = g\<rparr>" and c: "nodes st c = \<lparr>node_left = lc, node_right = rc, node_parent = p\<rparr>"
    and pc: "p \<noteq> c" "c = lp \<or> c = rp" "lp \<noteq> rp"
  shows "heap_node_swap p c st =
    (let st = st\<lparr>nodes := (nodes st)(p := \<lparr>node_left = lc, node_right = rc, node_parent = c\<rparr>,
           c := \<lparr>node_left = if c = lp then p else lp, node_right = if c = lp then rp else p, node_parent = g\<rparr>)\<rparr>;
         st = maybe_parent (if c = lp then rp else lp) c st;
         st = maybe_parent (node_left (nodes st p)) p st;
         st = maybe_parent (node_right (nodes st p)) p st
     in relink (node_parent (nodes st c)) p c st)"
proof -
  have u: "(nodes st)(p := a, c := b, p := a', c := b') = (nodes st)(p := a', c := b')" for a a' b b' using pc(1) by (auto simp: fun_eq_iff)
  have v: "((nodes st)(p := a, c := b)) (p := a') = (nodes st)(p := a', c := b)" for a a' b using pc(1) by (auto simp: fun_eq_iff)
  show ?thesis
  proof (cases "c = lp")
    case True
    then show ?thesis using assms by (simp add: heap_node_swap_def maybe_parent_def [symmetric] Let_def set_parent_def [of p] set_left_def v)
  next
    case False
    then show ?thesis using assms by (simp add: heap_node_swap_def maybe_parent_def [symmetric] Let_def set_parent_def [of p] set_right_def v)
  qed
qed

lemma swap_eq:
  assumes "nodes st p = \<lparr>node_left = lp, node_right = rp, node_parent = g\<rparr>" and "nodes st c = \<lparr>node_left = lc, node_right = rc, node_parent = p\<rparr>"
    and pc: "p \<noteq> c" "c = lp \<or> c = rp" "lp \<noteq> rp" and d: "c \<notin> {if c = lp then rp else lp, lc, rc}"
  shows "heap_node_swap p c st = relink g p c (maybe_parent rc p (maybe_parent lc p (maybe_parent (if c = lp then rp else lp) c
    (st\<lparr>nodes := (nodes st)(p := \<lparr>node_left = lc, node_right = rc, node_parent = c\<rparr>,
       c := \<lparr>node_left = if c = lp then p else lp, node_right = if c = lp then rp else p, node_parent = g\<rparr>)\<rparr>))))"
  unfolding swap_first [OF assms(1-5)] Let_def using d pc(1) by (auto simp del: if_splits)

lemma relink_fields [simp]:
  "node_left (nodes (relink g p c st) b) = (if g \<noteq> 0 \<and> b = g \<and> node_left (nodes st g) = p then c else node_left (nodes st b))"
  "node_right (nodes (relink g p c st) b) = (if g \<noteq> 0 \<and> b = g \<and> node_left (nodes st g) \<noteq> p then c else node_right (nodes st b))"
  "node_parent (nodes (relink g p c st) b) = node_parent (nodes st b)"
  "heap_root (the_heap (relink g p c st)) = (if g = 0 then c else heap_root (the_heap st))" "nelts (the_heap (relink g p c st)) = nelts (the_heap st)"
  by (simp_all add: relink_def setters)

lemma node_eqI: "node_left n = l \<Longrightarrow> node_right n = r \<Longrightarrow> node_parent n = p \<Longrightarrow> n = \<lparr>node_left = l, node_right = r, node_parent = p\<rparr>"
  by (cases n) simp

lemma swap_rep:
  assumes rep: "tree_rep st n at" and i: "1 \<le> i" and j: "j = 2 * i \<or> j = 2 * i + 1" "j \<le> n"
  shows "tree_rep (heap_node_swap (at i) (at j) st) n (at(i := at j, j := at i))"
proof -
  note eq = rep_eq [OF rep] and null = rep_null [OF rep]
  let ?at = "at(i := at j, j := at i)"
  have ni: "nodes st (at i) = \<lparr>node_left = at (2 * i), node_right = at (2 * i + 1), node_parent = at (i div 2)\<rparr>"
    and nj: "nodes st (at j) = \<lparr>node_left = at (2 * j), node_right = at (2 * j + 1), node_parent = at i\<rparr>"
    using rep_node [OF rep, of i] rep_node [OF rep, of j] i j by auto
  have ij: "i < j" "i \<le> n" using i j by auto
  define s where "s = (if at j = at (2 * i) then at (2 * i + 1) else at (2 * i))"
  let ?Y = "st\<lparr>nodes := (nodes st)(at i := \<lparr>node_left = at (2 * j), node_right = at (2 * j + 1), node_parent = at j\<rparr>,
       at j := \<lparr>node_left = if at j = at (2 * i) then at i else at (2 * i), node_right = if at j = at (2 * i) then at (2 * i + 1) else at i, node_parent = at (i div 2)\<rparr>)\<rparr>"
  define X where "X = maybe_parent (at (2 * j + 1)) (at i) (maybe_parent (at (2 * j)) (at i) (maybe_parent s (at j) ?Y))"
  have run: "heap_node_swap (at i) (at j) st = relink (at (i div 2)) (at i) (at j) X"
    unfolding X_def s_def using i j by (intro swap_eq [OF ni nj]) (auto simp: eq null)
  have nz: "at i \<noteq> 0" "at j \<noteq> 0" using i ij j by (auto simp: null)
  have dij: "at i \<noteq> at j" "at (i div 2) \<noteq> at i" "at (i div 2) \<noteq> at j" using i ij nz by (auto simp: eq)
  have j2: "at j = at (2 * i) \<longleftrightarrow> j = 2 * i" using nz by (simp add: eq)
  have Xl: "node_left (nodes X a) = (if a = at j then if j = 2 * i then at i else at (2 * i) else if a = at i then at (2 * j) else node_left (nodes st a))"
    and Xr: "node_right (nodes X a) = (if a = at j then if j = 2 * i then at (2 * i + 1) else at i else if a = at i then at (2 * j + 1) else node_right (nodes st a))"
    and Xh: "heap_root (the_heap X) = heap_root (the_heap st)" "nelts (the_heap X) = nelts (the_heap st)" for a
    unfolding X_def maybe_parent_fields j2 by simp_all
  have Xp: "node_parent (nodes X a) = (if a = at (2 * j + 1) \<and> at (2 * j + 1) \<noteq> 0 then at i else if a = at (2 * j) \<and> at (2 * j) \<noteq> 0 then at i
      else if a = s \<and> s \<noteq> 0 then at j else if a = at j then at (i div 2) else if a = at i then at j else node_parent (nodes st a))" for a
  proof -
    have "node_parent (nodes ?Y a) = (if a = at j then at (i div 2) else if a = at i then at j else node_parent (nodes st a))" by simp
    then show ?thesis unfolding X_def maybe_parent_fields by (rule arg_cong)
  qed
  let ?g = "at (i div 2)" and ?swap = "heap_node_swap (at i) (at j) st"
  have gX: "node_left (nodes X ?g) = node_left (nodes st ?g)" unfolding Xl using dij by simp
  have L: "node_left (nodes ?swap a) = (if ?g \<noteq> 0 \<and> a = ?g \<and> node_left (nodes st ?g) = at i then at j else node_left (nodes X a))"
    and R: "node_right (nodes ?swap a) = (if ?g \<noteq> 0 \<and> a = ?g \<and> node_left (nodes st ?g) \<noteq> at i then at j else node_right (nodes X a))"
    and P: "node_parent (nodes ?swap a) = node_parent (nodes X a)" for a
    unfolding run relink_fields gX by (rule refl)+
  show ?thesis
  proof (rule repI)
    show "x = y" if "?at x = ?at y" "?at x \<noteq> 0" for x y using that by (auto simp: eq split: if_splits)
    show "?at k \<noteq> 0 \<longleftrightarrow> 1 \<le> k \<and> k \<le> n" for k using ij i j by (auto simp: null)
    have root: "heap_root (the_heap st) = at 1" "unat (nelts (the_heap st)) = n" using rep by (simp_all add: tree_rep_def)
    have "at (i div 2) = 0 \<longleftrightarrow> i = 1" using i ij by (auto simp: null)
    then show "heap_root (the_heap (heap_node_swap (at i) (at j) st)) = ?at 1" using root ij i by (simp add: run Xh)
    show "unat (nelts (the_heap (heap_node_swap (at i) (at j) st))) = n" using root by (simp add: run Xh)
    fix k assume k: "1 \<le> k" "k \<le> n"
    have d: "i div 2 \<noteq> i" "i div 2 \<noteq> j" "2 * j \<noteq> i" "2 * j \<noteq> j" "2 * j + 1 \<noteq> j" "2 * j + 1 \<noteq> i" "2 * i \<noteq> i" "2 * i + 1 \<noteq> i" "i \<noteq> j" "j div 2 = i"
      using i j ij by auto
    show "nodes (heap_node_swap (at i) (at j) st) (?at k) = \<lparr>node_left = ?at (2 * k), node_right = ?at (2 * k + 1), node_parent = ?at (k div 2)\<rparr>"
    proof (cases "k = i \<or> k = j")
      case True
      have sib: "at i \<noteq> s \<or> s = 0" "at j \<noteq> s \<or> s = 0" "at i \<noteq> at (2 * j)" "at i \<noteq> at (2 * j + 1)" "at j \<noteq> at (2 * j)" "at j \<noteq> at (2 * j + 1)"
        using d j(1) nz by (auto simp: s_def eq)
      have l: "node_left (nodes (heap_node_swap (at i) (at j) st) (at j)) = ?at (2 * i)" "node_left (nodes (heap_node_swap (at i) (at j) st) (at i)) = ?at (2 * j)"
        unfolding L Xl using dij d j(1) by auto
      have r: "node_right (nodes (heap_node_swap (at i) (at j) st) (at j)) = ?at (2 * i + 1)" "node_right (nodes (heap_node_swap (at i) (at j) st) (at i)) = ?at (2 * j + 1)"
        unfolding R Xr using dij d j(1) by auto
      have p: "node_parent (nodes (heap_node_swap (at i) (at j) st) (at j)) = ?at (i div 2)" "node_parent (nodes (heap_node_swap (at i) (at j) st) (at i)) = ?at (j div 2)"
        unfolding P Xp using dij d sib by auto
      show ?thesis using True d(9) node_eqI [OF l(1) r(1) p(1)] node_eqI [OF l(2) r(2) p(2)] by (elim disjE) simp_all
    next
      case False
      have g: "nodes st (at (i div 2)) = \<lparr>node_left = at (2 * (i div 2)), node_right = at (2 * (i div 2) + 1), node_parent = at (i div 2 div 2)\<rparr>" if "1 < i"
        using rep_node [OF rep, of "i div 2"] that ij by auto
      have kz: "at k \<noteq> 0" using k by (auto simp: null)
      then have dk: "at k \<noteq> at i" "at k \<noteq> at j" using False by (auto simp: eq)
      have up: "at (i div 2) \<noteq> 0 \<and> at k = at (i div 2) \<longleftrightarrow> 1 < i \<and> k = i div 2" using kz k by (auto simp: eq)
      have side: "node_left (nodes st (at (i div 2))) = at i \<longleftrightarrow> even i" if "1 < i"
      proof -
        have "node_left (nodes st (at (i div 2))) = at i \<longleftrightarrow> 2 * (i div 2) = i" using g [OF that] nz(1) by (simp add: eq)
        then show ?thesis using even_two_times_div_two [of i] by (metis dvd_triv_left)
      qed
      have nk: "nodes st (at k) = \<lparr>node_left = at (2 * k), node_right = at (2 * k + 1), node_parent = at (k div 2)\<rparr>" by (rule rep_node [OF rep k])
      have "node_left (nodes (heap_node_swap (at i) (at j) st) (at k)) = ?at (2 * k)"
      proof (cases "1 < i \<and> k = i div 2")
        case True
        then have "node_left (nodes (heap_node_swap (at i) (at j) st) (at k)) = (if even i then at j else at (2 * k))"
          unfolding L Xl using up side dk nk by simp
        moreover have "2 * k = i \<longleftrightarrow> even i" using True even_two_times_div_two [of i] by (metis dvd_triv_left)
        moreover have "2 * k \<noteq> j" using True ij(1) by auto
        ultimately show ?thesis by simp
      next
        case no: False
        then have "node_left (nodes (heap_node_swap (at i) (at j) st) (at k)) = at (2 * k)" unfolding L Xl using up dk nk by auto
        moreover have "2 * k \<noteq> i" "2 * k \<noteq> j" using no k(1) False j(1) by auto
        ultimately show ?thesis by simp
      qed
      moreover have "node_right (nodes (heap_node_swap (at i) (at j) st) (at k)) = ?at (2 * k + 1)"
      proof (cases "1 < i \<and> k = i div 2")
        case True
        then have "node_right (nodes (heap_node_swap (at i) (at j) st) (at k)) = (if even i then at (2 * k + 1) else at j)"
          unfolding R Xr using up side dk nk by simp
        moreover have "2 * k + 1 = i \<longleftrightarrow> odd i" "2 * k + 1 \<noteq> j" using True j(1) i by (auto elim: oddE)
        ultimately show ?thesis by simp
      next
        case no: False
        then have "node_right (nodes (heap_node_swap (at i) (at j) st) (at k)) = at (2 * k + 1)" unfolding R Xr using up dk nk by auto
        moreover have "2 * k + 1 \<noteq> i" "2 * k + 1 \<noteq> j" using no k(1) False j(1) by auto
        ultimately show ?thesis by simp
      qed
      moreover have "node_parent (nodes (heap_node_swap (at i) (at j) st) (at k)) = ?at (k div 2)"
      proof -
        let ?si = "if j = 2 * i then 2 * i + 1 else 2 * i"
        have "s = at ?si" by (simp add: s_def j2)
        moreover have "k = ?si \<longleftrightarrow> k div 2 = i" using False j(1) by auto
        ultimately have sk: "at k = s \<and> s \<noteq> 0 \<longleftrightarrow> k div 2 = i" using kz by (auto simp: eq)
        have c: "at k = at (2 * j + 1) \<and> at (2 * j + 1) \<noteq> 0 \<longleftrightarrow> k = 2 * j + 1" "at k = at (2 * j) \<and> at (2 * j) \<noteq> 0 \<longleftrightarrow> k = 2 * j" using kz by (auto simp: eq)
        have "node_parent (nodes (heap_node_swap (at i) (at j) st) (at k)) = (if k = 2 * j + 1 then at i else if k = 2 * j then at i else if k div 2 = i then at j else at (k div 2))"
          unfolding P Xp c sk using dk nk by simp
        moreover have "k div 2 = j \<longleftrightarrow> k = 2 * j + 1 \<or> k = 2 * j" by auto
        ultimately show ?thesis using d(9) by (metis fun_upd_def)
      qed
      ultimately show ?thesis using False by (intro node_eqI) simp_all
    qed
  qed
qed

section \<open>The path to a position\<close>

definition slot_of :: "(nat \<Rightarrow> addr) \<Rightarrow> nat \<Rightarrow> slot" where
  "slot_of at i = (if i \<le> 1 then Root else if even i then At_left (at (i div 2)) else At_right (at (i div 2)))"

primrec path_index :: "nat \<Rightarrow> nat \<Rightarrow> nat \<Rightarrow> nat" where
  "path_index 0 p i = i"
| "path_index (Suc k) p i = path_index k (p div 2) (2 * i + p mod 2)"

lemma read_slot_of:
  assumes rep: "tree_rep st n at" and "1 \<le> i" "i div 2 \<le> n"
  shows "read_slot (slot_of at i) st = at i"
proof (cases "i = 1")
  case False
  then have "1 \<le> i div 2" using assms(2) by simp
  from rep_node [OF rep this assms(3)] show ?thesis using False assms(2) by (auto simp: slot_of_def elim!: oddE)
qed (use rep in \<open>simp add: slot_of_def tree_rep_def\<close>)

lemma path_index_le: "i \<le> path_index k p i"
proof (induction k arbitrary: p i)
  case (Suc k)
  have "2 * i + p mod 2 \<le> path_index k (p div 2) (2 * i + p mod 2)" by (rule Suc.IH)
  then show ?case by simp
qed simp

lemma walk_rep:
  assumes rep: "tree_rep st n at" and "1 \<le> i" and "path_index k (unat path) i div 2 \<le> n"
  shows "walk k path (slot_of at (i div 2)) (slot_of at i) st
    = Some (slot_of at (path_index k (unat path) i div 2), slot_of at (path_index k (unat path) i))"
  using assms(2,3)
proof (induction k arbitrary: path i)
  case (Suc k)
  let ?i = "2 * i + unat path mod 2"
  have "?i \<le> path_index k (unat path div 2) ?i" by (rule path_index_le)
  then have i: "i \<le> n" using Suc.prems(2) by simp
  then have r: "read_slot (slot_of at i) st = at i" "at i \<noteq> 0" using read_slot_of [OF rep Suc.prems(1)] rep_null [OF rep, of i] Suc.prems(1) by auto
  have odd: "path AND 1 \<noteq> 0 \<longleftrightarrow> odd (unat path)" by (simp add: and_one_eq odd_iff_mod_2_eq_one word_unat_eq_iff unat_mod)
  have d: "unat (drop_bit 1 path) = unat path div 2" by (simp add: drop_bit_eq_div unat_div)
  have s: "(if path AND 1 \<noteq> 0 then At_right (at i) else At_left (at i)) = slot_of at ?i"
    using Suc.prems(1) odd by (auto simp: slot_of_def odd_iff_mod_2_eq_one)
  have "walk k (drop_bit 1 path) (slot_of at (?i div 2)) (slot_of at ?i) st
      = Some (slot_of at (path_index (Suc k) (unat path) i div 2), slot_of at (path_index (Suc k) (unat path) i))"
    using Suc.IH [of ?i "drop_bit 1 path"] Suc.prems d by simp
  then show ?case using r s by (simp add: Let_def)
qed simp

lemma push_path:
  assumes "unat path < 2 ^ 31"
  shows "unat (push_bit 1 path OR (n AND 1) :: u32) = 2 * unat path + unat n mod 2"
proof -
  have p: "unat (push_bit 1 path) = 2 * unat path" using assms by (simp add: push_bit_eq_mult unat_word_ariths)
  have "unat (push_bit 1 path OR (n AND 1)) = (2 * unat path) OR (unat n mod 2)" using p by (simp add: unsigned_or_eq and_one_eq unat_mod)
  also have "\<dots> = 2 * unat path + unat n mod 2" by (cases "even (unat n)") (simp_all add: or_Suc_0_eq odd_iff_mod_2_eq_one)
  finally show ?thesis .
qed

lemma path_loop_index:
  assumes "path_loop path k n = (path', k')" and "1 \<le> n" and "unat path < 2 ^ unat k" and "2 ^ unat k * unat n < 2 ^ 32"
  shows "path_index (unat k') (unat path') 1 = path_index (unat k) (unat path) (unat n)"
  using assms
proof (induction path k n arbitrary: path' k' rule: path_loop.induct)
  case (1 path k n)
  show ?case
  proof (cases "n \<ge> 2")
    case True
    let ?p = "push_bit 1 path OR (n AND 1)"
    have n: "2 \<le> unat n" using True by (simp add: word_le_nat_alt)
    then have "(2::nat) ^ unat k * 2 \<le> 2 ^ unat k * unat n" by simp
    then have "(2::nat) ^ unat k * 2 < 2 ^ 32" using "1.prems"(4) by (rule le_less_trans)
    then have k31: "(2::nat) ^ unat k < 2 ^ 31" by simp
    then have k: "unat k < 31" by (rule power_less_imp_less_exp [rotated]) simp
    have k1: "unat (k + 1) = Suc (unat k)" using k by (simp add: unat_word_ariths)
    have p: "unat ?p = 2 * unat path + unat n mod 2" using "1.prems"(3) k31 by (intro push_path) simp
    have d: "unat (n div 2) = unat n div 2" by (simp add: unat_div)
    have "path_loop ?p (k + 1) (n div 2) = (path', k')" using "1.prems"(1) True by (simp add: path_loop.simps [of path k n])
    moreover have "1 \<le> n div 2" using n d by (simp add: word_le_nat_alt)
    moreover have "unat ?p < 2 ^ unat (k + 1)" using "1.prems"(3) p k1 by simp
    moreover have "2 ^ unat (k + 1) * unat (n div 2) \<le> 2 ^ unat k * unat n" using k1 d by simp
    then have "2 ^ unat (k + 1) * unat (n div 2) < 2 ^ 32" using "1.prems"(4) by (rule le_less_trans)
    ultimately have "path_index (unat k') (unat path') 1 = path_index (unat (k + 1)) (unat ?p) (unat (n div 2))" by (rule "1.IH" [OF True])
    then show ?thesis using k1 p d by simp
  next
    case False
    then have "unat n = 1" using "1.prems"(2) by (simp add: word_le_nat_alt)
    then show ?thesis using "1.prems"(1) False by (simp add: path_loop.simps [of path k n])
  qed
qed

lemma find_slot_rep:
  assumes rep: "tree_rep st n at" and "1 \<le> m" and "unat m div 2 \<le> n"
  shows "find_slot m st = Some (slot_of at (unat m div 2), slot_of at (unat m))"
proof -
  obtain path k where pk: "path_loop 0 0 m = (path, k)" by fastforce
  have "path_index (unat k) (unat path) 1 = unat m"
    using path_loop_index [OF pk assms(2)] unsigned_less [of m, where 'a = nat] by simp
  then show ?thesis using walk_rep [OF rep, of 1 "unat k" path] pk assms(3) by (simp add: find_slot_def slot_of_def)
qed

section \<open>Linking and unlinking\<close>

lemma rep_other:
  assumes rep: "tree_rep st n at" and a: "a \<notin> at ` {1..n}"
  shows "tree_rep (st\<lparr>nodes := (nodes st)(a := v)\<rparr>) n at"
proof -
  have "at k \<noteq> a" if "1 \<le> k" "k \<le> n" for k using a that by auto
  then show ?thesis using rep by (simp add: tree_rep_def)
qed

lemma write_slot_fields [simp]:
  "nelts (the_heap (write_slot s v st)) = nelts (the_heap st)" "node_parent (nodes (write_slot s v st) b) = node_parent (nodes st b)"
  "heap_root (the_heap (write_slot s v st)) = (if s = Root then v else heap_root (the_heap st))"
  "node_left (nodes (write_slot s v st) b) = (if s = At_left b then v else node_left (nodes st b))"
  "node_right (nodes (write_slot s v st) b) = (if s = At_right b then v else node_right (nodes st b))"
  by (cases s; simp add: setters)+

lemma slot_of_simps [simp]:
  "slot_of at k = Root \<longleftrightarrow> k \<le> 1" "slot_of at k = At_left b \<longleftrightarrow> 1 < k \<and> even k \<and> at (k div 2) = b"
  "slot_of at k = At_right b \<longleftrightarrow> 1 < k \<and> odd k \<and> at (k div 2) = b"
  by (auto simp: slot_of_def)

lemma link_rep:
  assumes rep: "tree_rep st n at" and new: "a \<notin> at ` {1..n}" "a \<noteq> 0" and n: "Suc n < 2 ^ 32"
    and a: "nodes st a = \<lparr>node_left = 0, node_right = 0, node_parent = at (Suc n div 2)\<rparr>"
  shows "tree_rep (set_nelts (nelts (the_heap st) + 1) (write_slot (slot_of at (Suc n)) a st)) (Suc n) (at(Suc n := a))"
proof (rule repI)
  note eq = rep_eq [OF rep] and null = rep_null [OF rep]
  let ?at = "at(Suc n := a)" and ?st = "set_nelts (nelts (the_heap st) + 1) (write_slot (slot_of at (Suc n)) a st)"
  have ne: "at k \<noteq> a" for k using new null [of k] by (cases "k \<in> {1..n}") auto
  show "i = j" if "?at i = ?at j" "?at i \<noteq> 0" for i j using that ne ne [symmetric] by (auto simp: eq split: if_splits)
  show "?at k \<noteq> 0 \<longleftrightarrow> 1 \<le> k \<and> k \<le> Suc n" for k using new(2) by (auto simp: null)
  have c: "unat (nelts (the_heap st)) = n" using rep by (simp add: tree_rep_def)
  show "unat (nelts (the_heap ?st)) = Suc n" using n c by (simp add: setters unat_word_ariths)
  show "heap_root (the_heap ?st) = ?at 1" using rep by (auto simp: setters tree_rep_def)
  fix k assume k: "1 \<le> k" "k \<le> Suc n"
  show "nodes ?st (?at k) = \<lparr>node_left = ?at (2 * k), node_right = ?at (2 * k + 1), node_parent = ?at (k div 2)\<rparr>"
  proof (cases "k = Suc n")
    case True
    have "at (2 * k) = 0" "at (2 * k + 1) = 0" "2 * k \<noteq> Suc n" "2 * k + 1 \<noteq> Suc n" "Suc n div 2 \<noteq> Suc n" using True by (auto simp: null)
    then show ?thesis using True a ne by (intro node_eqI) (auto simp: setters)
  next
    case False
    then have nk: "nodes st (at k) = \<lparr>node_left = at (2 * k), node_right = at (2 * k + 1), node_parent = at (k div 2)\<rparr>" using rep_node [OF rep] k by simp
    have z: "at k \<noteq> 0" "k div 2 \<noteq> Suc n" using False k by (auto simp: null)
    then have "at (Suc n div 2) = at k \<longleftrightarrow> Suc n div 2 = k" by (simp add: eq)
    then show ?thesis using False nk z k by (intro node_eqI) (auto simp: setters elim!: evenE oddE)
  qed
qed

lemma unlink_rep:
  assumes rep: "tree_rep st n at" and n: "1 \<le> n"
  shows "tree_rep (write_slot (slot_of at n) 0 (set_nelts (nelts (the_heap st) - 1) st)) (n - 1) (at(n := 0))"
proof (rule repI)
  note eq = rep_eq [OF rep] and null = rep_null [OF rep]
  let ?at = "at(n := 0)" and ?st = "write_slot (slot_of at n) 0 (set_nelts (nelts (the_heap st) - 1) st)"
  show "i = j" if "?at i = ?at j" "?at i \<noteq> 0" for i j using that by (auto simp: eq split: if_splits)
  show "?at k \<noteq> 0 \<longleftrightarrow> 1 \<le> k \<and> k \<le> n - 1" for k using n by (auto simp: null)
  have c: "unat (nelts (the_heap st)) = n" using rep by (simp add: tree_rep_def)
  then have "nelts (the_heap st) \<noteq> 0" using n by auto
  then show "unat (nelts (the_heap ?st)) = n - 1" using c by (simp add: setters unat_minus_one)
  show "heap_root (the_heap ?st) = ?at 1" using rep n by (auto simp: setters tree_rep_def)
  fix k assume k: "1 \<le> k" "k \<le> n - 1"
  then have nk: "nodes st (at k) = \<lparr>node_left = at (2 * k), node_right = at (2 * k + 1), node_parent = at (k div 2)\<rparr>" using rep_node [OF rep] by simp
  have z: "at k \<noteq> 0" "k \<noteq> n" "k div 2 \<noteq> n" using k by (auto simp: null)
  then have "at (n div 2) = at k \<longleftrightarrow> n div 2 = k" by (simp add: eq)
  then show "nodes ?st (?at k) = \<lparr>node_left = ?at (2 * k), node_right = ?at (2 * k + 1), node_parent = ?at (k div 2)\<rparr>"
    using nk z k by (intro node_eqI) (auto simp: setters elim!: evenE oddE)
qed

lemma take_place_rep:
  assumes rep: "tree_rep st n at" and m: "1 \<le> m" "m \<le> n" and c: "c \<notin> at ` {1..n}" "c \<noteq> 0"
  shows "tree_rep (take_place c (at m) st) n (at(m := c))"
proof -
  note eq = rep_eq [OF rep] and null = rep_null [OF rep]
  let ?at = "at(m := c)"
  let ?st0 = "st\<lparr>nodes := (nodes st)(c := \<lparr>node_left = at (2 * m), node_right = at (2 * m + 1), node_parent = at (m div 2)\<rparr>)\<rparr>"
  have ne: "at k \<noteq> c" for k using c null [of k] by (cases "k \<in> {1..n}") auto
  have run: "take_place c (at m) st = relink (at (m div 2)) (at m) c (maybe_parent (at (2 * m + 1)) c (maybe_parent (at (2 * m)) c ?st0))"
  proof -
    have "at m \<noteq> at (2 * m)" "at m \<noteq> at (2 * m + 1)" using m by (auto simp: eq null)
    then show ?thesis unfolding take_place_def rep_node [OF rep m] Let_def maybe_parent_def [symmetric]
      using rep_node [OF rep m] ne ne [symmetric] by simp
  qed
  show ?thesis
  proof (rule repI)
    show "i = j" if "?at i = ?at j" "?at i \<noteq> 0" for i j using that ne ne [symmetric] by (auto simp: eq split: if_splits)
    show "?at k \<noteq> 0 \<longleftrightarrow> 1 \<le> k \<and> k \<le> n" for k using m c(2) by (auto simp: null)
    show "unat (nelts (the_heap (take_place c (at m) st))) = n" using rep unfolding run by (simp add: tree_rep_def)
    show "heap_root (the_heap (take_place c (at m) st)) = ?at 1" using rep m unfolding run by (auto simp: tree_rep_def null)
    fix k assume k: "1 \<le> k" "k \<le> n"
    have nk: "nodes st (at k) = \<lparr>node_left = at (2 * k), node_right = at (2 * k + 1), node_parent = at (k div 2)\<rparr>" using rep_node [OF rep] k by simp
    show "nodes (take_place c (at m) st) (?at k) = \<lparr>node_left = ?at (2 * k), node_right = ?at (2 * k + 1), node_parent = ?at (k div 2)\<rparr>"
    proof (cases "k = m")
      case True
      have "2 * m \<noteq> m" "2 * m + 1 \<noteq> m" "m div 2 \<noteq> m" using m by auto
      then show ?thesis using True ne ne [symmetric] unfolding run by (intro node_eqI) auto
    next
      case False
      have g: "nodes st (at (m div 2)) = \<lparr>node_left = at (2 * (m div 2)), node_right = at (2 * (m div 2) + 1), node_parent = at (m div 2 div 2)\<rparr>" if "1 < m"
        using rep_node [OF rep, of "m div 2"] that m by auto
      have z: "at k \<noteq> 0" "at m \<noteq> 0" using k m by (auto simp: null)
      have l: "node_left (nodes (take_place c (at m) st) (at k)) = ?at (2 * k)" using False nk ne ne [symmetric] g z m k by (auto simp: run eq null)
      have r: "node_right (nodes (take_place c (at m) st) (at k)) = ?at (2 * k + 1)" using False nk ne ne [symmetric] g z m k by (auto simp: run eq null)
      have "node_parent (nodes (take_place c (at m) st) (at k)) = ?at (k div 2)" using False nk ne ne [symmetric] z m k by (auto simp: run eq null)
      then show ?thesis using False l r by (intro node_eqI) simp_all
    qed
  qed
qed

end
