(* ===== verification/Uv_Heap_Order.thy ===== *)
theory Uv_Heap_Order
  imports Uv_Heap_Correct
begin

text \<open>
  The order of the heap, and what its operations do to the set of nodes in it. A node that is out of place moves up or down
  until the order holds again; the invariants of the two loops allow for one node out of place.
\<close>

definition ordered :: "heap_compare \<Rightarrow> nat \<Rightarrow> (nat \<Rightarrow> addr) \<Rightarrow> bool" where
  "ordered before n at \<longleftrightarrow> (\<forall>k. 2 \<le> k \<longrightarrow> k \<le> n \<longrightarrow> \<not> before (at k) (at (k div 2)))"

text \<open>The children of the node at \<open>i\<close> are in order with its parent.\<close>

definition bridged :: "heap_compare \<Rightarrow> nat \<Rightarrow> (nat \<Rightarrow> addr) \<Rightarrow> nat \<Rightarrow> bool" where
  "bridged before n at i \<longleftrightarrow> (\<forall>k. 2 \<le> i \<longrightarrow> k \<le> n \<longrightarrow> k div 2 = i \<longrightarrow> \<not> before (at k) (at (i div 2)))"

definition up_inv :: "heap_compare \<Rightarrow> nat \<Rightarrow> (nat \<Rightarrow> addr) \<Rightarrow> nat \<Rightarrow> bool" where
  "up_inv before n at i \<longleftrightarrow> (\<forall>k. 2 \<le> k \<longrightarrow> k \<le> n \<longrightarrow> k \<noteq> i \<longrightarrow> \<not> before (at k) (at (k div 2))) \<and> bridged before n at i"

definition down_inv :: "heap_compare \<Rightarrow> nat \<Rightarrow> (nat \<Rightarrow> addr) \<Rightarrow> nat \<Rightarrow> bool" where
  "down_inv before n at i \<longleftrightarrow>
     (\<forall>k. 2 \<le> k \<longrightarrow> k \<le> n \<longrightarrow> k \<noteq> i \<longrightarrow> k div 2 \<noteq> i \<longrightarrow> \<not> before (at k) (at (k div 2))) \<and> bridged before n at i"

lemma swap_image:
  assumes "i \<in> A" and "j \<in> A"
  shows "(at(i := at j, j := at i)) ` A = at ` A"
proof (intro equalityI subsetI)
  show "x \<in> at ` A" if "x \<in> (at(i := at j, j := at i)) ` A" for x using that assms by (auto split: if_splits)
  fix x assume "x \<in> at ` A"
  then obtain k where k: "k \<in> A" "x = at k" by blast
  then have "x = (at(i := at j, j := at i)) (if k = i then j else if k = j then i else k)" by auto
  moreover have "(if k = i then j else if k = j then i else k) \<in> A" using k(1) assms by auto
  ultimately show "x \<in> (at(i := at j, j := at i)) ` A" by blast
qed

text \<open>A comparison that the heap can rely on.\<close>

locale heap_order =
  fixes before :: heap_compare
  assumes asym: "before x y \<Longrightarrow> \<not> before y x"
    and trans: "\<not> before y x \<Longrightarrow> \<not> before z y \<Longrightarrow> \<not> before z x"
begin

lemma irrefl: "\<not> before x x"
  using asym by blast

lemma up_step:
  assumes inv: "up_inv before n at i" and i: "2 \<le> i" "i \<le> n" and b: "before (at i) (at (i div 2))"
  shows "up_inv before n (at(i div 2 := at i, i := at (i div 2))) (i div 2)"
proof -
  let ?at = "at(i div 2 := at i, i := at (i div 2))"
  have u: "\<not> before (at k) (at (k div 2))" if "2 \<le> k" "k \<le> n" "k \<noteq> i" for k using inv that by (simp add: up_inv_def)
  have br: "\<not> before (at k) (at (i div 2))" if "k \<le> n" "k div 2 = i" for k using inv i(1) that by (simp add: up_inv_def bridged_def)
  have "\<not> before (?at k) (?at (k div 2))" if k: "2 \<le> k" "k \<le> n" "k \<noteq> i div 2" for k
  proof -
    consider "k = i" | "k \<noteq> i" "k div 2 = i" | "k \<noteq> i" "k div 2 = i div 2" | "k \<noteq> i" "k div 2 \<noteq> i" "k div 2 \<noteq> i div 2" by blast
    then show ?thesis
    proof cases
      case 1
      then show ?thesis using i asym [OF b] by auto
    next
      case 2
      then show ?thesis using k br by auto
    next
      case 3
      have "\<not> before (at k) (at i)" by (rule trans [OF asym [OF b]]) (use u [OF k(1,2) 3(1)] 3(2) in simp)
      then show ?thesis using 3 k i by auto
    next
      case 4
      then show ?thesis using k u [OF k(1,2)] by auto
    qed
  qed
  moreover have "\<not> before (?at k) (?at (i div 2 div 2))" if k: "2 \<le> i div 2" "k \<le> n" "k div 2 = i div 2" for k
  proof -
    have p: "\<not> before (at (i div 2)) (at (i div 2 div 2))" using u [of "i div 2"] k(1) i by auto
    have "\<not> before (at k) (at (i div 2))" if "k \<noteq> i" using u [of k] k that by auto
    then have "\<not> before (at k) (at (i div 2 div 2))" if "k \<noteq> i" using that trans [OF p] by blast
    then show ?thesis using p k i by auto
  qed
  ultimately show ?thesis unfolding up_inv_def bridged_def by blast
qed

lemma move_up_rep:
  assumes "tree_rep st n at" and "1 \<le> i" and "i \<le> n" and "up_inv before n at i"
  shows "\<exists>st' at'. move_up before (at i) st = Some st' \<and> tree_rep st' n at' \<and> ordered before n at' \<and> at' ` {1..n} = at ` {1..n}"
  using assms
proof (induction i arbitrary: st at rule: less_induct)
  case (less i)
  note rep = less.prems(1)
  have p: "node_parent (nodes st (at i)) = at (i div 2)" using rep_node [OF rep less.prems(2,3)] by simp
  have nz: "at (i div 2) \<noteq> 0 \<longleftrightarrow> 2 \<le> i" using rep_null [OF rep, of "i div 2"] less.prems(2,3) by auto
  show ?case
  proof (cases "2 \<le> i \<and> before (at i) (at (i div 2))")
    case True
    let ?at = "at(i div 2 := at i, i := at (i div 2))" and ?st = "heap_node_swap (at (i div 2)) (at i) st"
    have "tree_rep ?st n ?at" using True less.prems(3) by (intro swap_rep [OF rep]) auto
    moreover have "up_inv before n ?at (i div 2)" using True less.prems by (intro up_step) auto
    moreover have "?at (i div 2) = at i" using True by auto
    moreover have "?at ` {1..n} = at ` {1..n}" using True less.prems(3) by (intro swap_image) auto
    ultimately obtain st' at' where "move_up before (at i) ?st = Some st'" "tree_rep st' n at'" "ordered before n at'" "at' ` {1..n} = at ` {1..n}"
      using less.IH [of "i div 2" ?st ?at] True less.prems(3) by fastforce
    moreover have "move_up before (at i) st = move_up before (at i) ?st" using p nz True by (subst move_up.simps) (simp add: Let_def)
    ultimately show ?thesis by auto
  next
    case False
    then have "move_up before (at i) st = Some st" using p nz by (subst move_up.simps) (auto simp: Let_def)
    moreover have "ordered before n at" using less.prems(4) False unfolding up_inv_def ordered_def by blast
    ultimately show ?thesis using rep by blast
  qed
qed

lemma down_step:
  assumes inv: "down_inv before n at i" and i: "1 \<le> i" and c: "c \<le> n" "c div 2 = i" and b: "before (at c) (at i)"
    and least: "\<And>k. k \<le> n \<Longrightarrow> k div 2 = i \<Longrightarrow> \<not> before (at k) (at c)"
  shows "down_inv before n (at(i := at c, c := at i)) c"
proof -
  let ?at = "at(i := at c, c := at i)"
  have u: "\<not> before (at k) (at (k div 2))" if "2 \<le> k" "k \<le> n" "k \<noteq> i" "k div 2 \<noteq> i" for k using inv that by (simp add: down_inv_def)
  have br: "\<not> before (at k) (at (i div 2))" if "2 \<le> i" "k \<le> n" "k div 2 = i" for k using inv that by (simp add: down_inv_def bridged_def)
  have d: "c \<noteq> i" "i div 2 \<noteq> i" "i div 2 \<noteq> c" "2 \<le> c" using c(2) i by auto
  have "\<not> before (?at k) (?at (k div 2))" if k: "2 \<le> k" "k \<le> n" "k \<noteq> c" "k div 2 \<noteq> c" for k
  proof -
    consider "k = i" | "k \<noteq> i" "k div 2 = i" | "k \<noteq> i" "k div 2 \<noteq> i" by blast
    then show ?thesis
    proof cases
      case 1
      then show ?thesis using br [OF _ c] k d by auto
    next
      case 2
      then show ?thesis using least k d by auto
    next
      case 3
      then show ?thesis using u [OF k(1,2)] k by auto
    qed
  qed
  moreover have "\<not> before (?at k) (?at (c div 2))" if "k \<le> n" "k div 2 = c" for k
  proof -
    have "k \<noteq> i" "k \<noteq> c" "2 \<le> k" using that(2) c(2) d by auto
    then show ?thesis using u [of k] that c(2) d by auto
  qed
  ultimately show ?thesis unfolding down_inv_def bridged_def by blast
qed

lemma smallest_rep:
  assumes rep: "tree_rep st n at" and i: "1 \<le> i" "i \<le> n"
  obtains "smallest before (at i) st = at i" "\<And>k. k \<le> n \<Longrightarrow> k div 2 = i \<Longrightarrow> \<not> before (at k) (at i)"
  | c where "smallest before (at i) st = at c" "c = 2 * i \<or> c = 2 * i + 1" "c \<le> n" "before (at c) (at i)" "at c \<noteq> at i"
      "\<And>k. k \<le> n \<Longrightarrow> k div 2 = i \<Longrightarrow> \<not> before (at k) (at c)"
proof -
  let ?l = "2 * i" and ?r = "2 * i + 1"
  have kids: "k div 2 = i \<longleftrightarrow> k = ?l \<or> k = ?r" for k by auto
  note n = rep_node [OF rep i] and null = rep_null [OF rep]
  let ?s = "if ?l \<le> n \<and> before (at ?l) (at i) then ?l else i"
  let ?t = "if ?r \<le> n \<and> before (at ?r) (at ?s) then ?r else ?s"
  have run: "smallest before (at i) st = at ?t" using i by (auto simp: smallest_def n null Let_def)
  have ne: "at c \<noteq> at i" if "before (at c) (at i)" for c using that irrefl by metis
  show thesis
  proof (cases "?t = i")
    case True
    then have "\<not> before (at k) (at i)" if "k \<le> n" "k div 2 = i" for k using that i(1) irrefl unfolding kids by (auto split: if_splits)
    then show ?thesis using that(1) run True by simp
  next
    case False
    have rl: "before (at ?r) (at i)" if "before (at ?l) (at i)" "before (at ?r) (at ?l)" using that asym trans by blast
    have b: "before (at ?t) (at i)" using False rl by (auto split: if_splits)
    have lr: "\<not> before (at ?l) (at ?r)" if "before (at ?r) (at i)" "\<not> before (at ?l) (at i)" using trans [OF asym [OF that(1)] that(2)] .
    have "\<not> before (at k) (at ?t)" if k: "k \<le> n" "k div 2 = i" for k
    proof (cases "k = ?l")
      case True
      then show ?thesis using False k(1) lr irrefl [of "at ?l"] asym [of "at ?r" "at ?l"] by (auto split: if_splits)
    next
      case r: False
      then have "k = ?r" using k(2) kids by blast
      then show ?thesis using False k(1) irrefl [of "at ?r"] by (auto split: if_splits)
    qed
    moreover have "?t = ?l \<or> ?t = ?r" "?t \<le> n" using False by (auto split: if_splits)
    ultimately show ?thesis using run b ne [OF b] by (intro that(2) [of ?t])
  qed
qed

lemma move_down_rep:
  assumes "tree_rep st n at" and "1 \<le> i" and "i \<le> n" and "down_inv before n at i"
  shows "\<exists>st' at' j. move_down before (at i) st = Some st' \<and> tree_rep st' n at' \<and> 1 \<le> j \<and> j \<le> n \<and> at' j = at i \<and> up_inv before n at' j \<and> at' ` {1..n} = at ` {1..n}"
  using assms
proof (induction "n - i" arbitrary: st at i rule: less_induct)
  case less
  note rep = less.prems(1)
  show ?case
  proof (cases rule: smallest_rep [OF less.prems(1-3)])
    case 1
    then have "move_down before (at i) st = Some st" by (subst move_down.simps) (simp add: Let_def)
    moreover have "up_inv before n at i" using less.prems(4) 1(2) unfolding up_inv_def down_inv_def by metis
    ultimately show ?thesis using less.prems(2,3) rep by blast
  next
    case (2 c)
    let ?at = "at(i := at c, c := at i)" and ?st = "heap_node_swap (at i) (at c) st"
    have c: "1 \<le> c" "c div 2 = i" "i < c" using 2(2) less.prems(2) by auto
    have "tree_rep ?st n ?at" using 2(2,3) less.prems(2) by (intro swap_rep [OF rep])
    moreover have "down_inv before n ?at c" using 2 c less.prems by (intro down_step) auto
    moreover have "?at ` {1..n} = at ` {1..n}" using 2(3) c less.prems by (intro swap_image) auto
    moreover have "n - c < n - i" using c 2(3) by linarith
    ultimately obtain st' at' j where "move_down before (at i) ?st = Some st'" "tree_rep st' n at'" "1 \<le> j" "j \<le> n" "at' j = at i" "up_inv before n at' j" "at' ` {1..n} = at ` {1..n}"
      using less.hyps [of c ?st ?at] c(1) 2(3) by auto
    moreover have "move_down before (at i) st = move_down before (at i) ?st" using 2(1,5) by (subst move_down.simps) (simp add: Let_def)
    ultimately show ?thesis by auto
  qed
qed

lemma ordered_root:
  assumes "ordered before n at" and "1 \<le> k" and "k \<le> n"
  shows "\<not> before (at k) (at 1)"
  using assms(2,3)
proof (induction k rule: less_induct)
  case (less k)
  show ?case
  proof (cases "k = 1")
    case False
    then have "\<not> before (at k) (at (k div 2))" "\<not> before (at (k div 2)) (at 1)"
      using assms(1) less.IH [of "k div 2"] less.prems by (auto simp: ordered_def)
    then show ?thesis using trans by blast
  qed (use irrefl in simp)
qed

end

section \<open>The heap as a set of nodes\<close>

definition heap_ok :: "heap_compare \<Rightarrow> heap_state \<Rightarrow> addr set \<Rightarrow> bool" where
  "heap_ok before st A \<longleftrightarrow> (\<exists>n at. tree_rep st n at \<and> ordered before n at \<and> A = at ` {1..n})"

lemma heap_okI: "tree_rep st n at \<Longrightarrow> ordered before n at \<Longrightarrow> A = at ` {1..n} \<Longrightarrow> heap_ok before st A"
  by (auto simp: heap_ok_def)

lemma heap_okE:
  assumes "heap_ok before st A"
  obtains n at where "tree_rep st n at" "ordered before n at" "A = at ` {1..n}" "card A = n" "finite A" "0 \<notin> A"
proof -
  obtain n at where r: "tree_rep st n at" "ordered before n at" "A = at ` {1..n}" using assms by (auto simp: heap_ok_def)
  then have "card A = n" by (simp add: card_image tree_rep_def)
  moreover have "0 \<notin> A" using r rep_null [OF r(1)] by fastforce
  ultimately show thesis using that r by simp
qed

lemma heap_ok_nelts: "heap_ok before st A \<Longrightarrow> unat (nelts (the_heap st)) = card A"
  by (elim heap_okE) (simp add: tree_rep_def)

lemma read_nelts: "read_slot s (set_nelts c st) = read_slot s st"
  by (cases s) (simp_all add: setters)

lemma init_ok: "heap_ok before (heap_init st) {}"
  unfolding heap_ok_def
  by (intro exI [of _ 0] exI [of _ "\<lambda>_. 0"]) (auto simp: tree_rep_def ordered_def heap_init_def setters)

text \<open>Only the comparisons of nodes in the heap matter.\<close>

lemma heap_ok_cong:
  assumes "heap_ok before st A" and "\<And>x y. x \<in> A \<Longrightarrow> y \<in> A \<Longrightarrow> before' x y = before x y"
  shows "heap_ok before' st A"
proof -
  obtain n at where r: "tree_rep st n at" "ordered before n at" "A = at ` {1..n}" by (rule heap_okE [OF assms(1)])
  have "before' (at k) (at (k div 2)) = before (at k) (at (k div 2))" if "2 \<le> k" "k \<le> n" for k
    using that r(3) by (intro assms(2)) (auto intro!: imageI)
  then have "ordered before' n at" using r(2) by (simp add: ordered_def)
  then show ?thesis using r by (auto simp: heap_ok_def)
qed

context heap_order
begin

lemma min_ok:
  assumes "heap_ok before st A"
  shows "heap_min st = 0 \<longleftrightarrow> A = {}" "A \<noteq> {} \<Longrightarrow> heap_min st \<in> A \<and> (\<forall>a \<in> A. \<not> before a (heap_min st))"
proof -
  obtain n at where r: "tree_rep st n at" "ordered before n at" "A = at ` {1..n}" by (rule heap_okE [OF assms])
  have m: "heap_min st = at 1" using r(1) by (simp add: heap_min_def tree_rep_def)
  show "heap_min st = 0 \<longleftrightarrow> A = {}" using rep_null [OF r(1), of 1] r(3) m by auto
  show "heap_min st \<in> A \<and> (\<forall>a \<in> A. \<not> before a (heap_min st))" if "A \<noteq> {}" using that ordered_root [OF r(2)] r(3) m by auto
qed

lemma insert_ok:
  assumes ok: "heap_ok before st A" and new: "a \<notin> A" "a \<noteq> 0" and n: "Suc (card A) < 2 ^ 32"
  shows "\<exists>st'. heap_insert a before st = Some st' \<and> heap_ok before st' (insert a A)"
proof -
  obtain n at where r: "tree_rep st n at" "ordered before n at" "A = at ` {1..n}" "card A = n" by (rule heap_okE [OF ok])
  let ?v = "\<lparr>node_left = 0, node_right = 0, node_parent = 0\<rparr>" and ?m = "1 + nelts (the_heap st)"
  let ?st0 = "st\<lparr>nodes := (nodes st)(a := ?v)\<rparr>"
  have a: "a \<notin> at ` {1..n}" using new(1) r(3) by simp
  have rep0: "tree_rep ?st0 n at" by (rule rep_other [OF r(1) a])
  have m: "unat ?m = Suc n" using r(1,4) n by (simp add: tree_rep_def unat_word_ariths)
  then have "1 \<le> ?m" by (simp add: word_le_nat_alt)
  then have find: "find_slot ?m ?st0 = Some (slot_of at (Suc n div 2), slot_of at (Suc n))" using find_slot_rep [OF rep0, of ?m] m by simp
  have parent: "read_slot (slot_of at (Suc n div 2)) ?st0 = at (Suc n div 2)"
  proof (cases "n = 0")
    case True
    have "heap_root (the_heap ?st0) = at 1" using rep0 unfolding tree_rep_def by blast
    then show ?thesis using True rep_null [OF rep0, of 0] rep_null [OF rep0, of 1] by (simp add: slot_of_def)
  qed (rule read_slot_of [OF rep0], auto)
  let ?st1 = "set_parent a (at (Suc n div 2)) ?st0"
  have "?st1 = st\<lparr>nodes := (nodes st)(a := \<lparr>node_left = 0, node_right = 0, node_parent = at (Suc n div 2)\<rparr>)\<rparr>" by (simp add: set_parent_def)
  then have rep1: "tree_rep ?st1 n at" "nodes ?st1 a = \<lparr>node_left = 0, node_right = 0, node_parent = at (Suc n div 2)\<rparr>"
    using rep_other [OF r(1) a] by simp_all
  let ?at = "at(Suc n := a)" and ?st2 = "set_nelts (nelts (the_heap ?st1) + 1) (write_slot (slot_of at (Suc n)) a ?st1)"
  have rep2: "tree_rep ?st2 (Suc n) ?at" using n r(4) by (intro link_rep [OF rep1(1) a new(2) _ rep1(2)]) simp
  have "up_inv before (Suc n) ?at (Suc n)" using r(2) unfolding up_inv_def bridged_def ordered_def by auto
  from move_up_rep [OF rep2 _ _ this] obtain st' at' where st': "move_up before a ?st2 = Some st'" "tree_rep st' (Suc n) at'" "ordered before (Suc n) at'"
    "at' ` {1..Suc n} = ?at ` {1..Suc n}" by auto
  have "?at ` {1..Suc n} = insert a A" using r(3) by (auto simp: atLeastAtMostSuc_conv)
  then have "heap_ok before st' (insert a A)" using st' by (auto simp: heap_ok_def intro!: exI [of _ "Suc n"] exI [of _ at'])
  moreover have "heap_insert a before st = Some st'" using find parent st'(1) by (simp add: heap_insert_def Let_def)
  ultimately show ?thesis by blast
qed

lemma remove_ok:
  assumes ok: "heap_ok before st A" and a: "a \<in> A"
  shows "\<exists>st'. heap_remove a before st = Some st' \<and> heap_ok before st' (A - {a})"
proof -
  obtain n at where r: "tree_rep st n at" "ordered before n at" "A = at ` {1..n}" "card A = n" by (rule heap_okE [OF ok])
  note eq = rep_eq [OF r(1)] and null = rep_null [OF r(1)]
  obtain m where m: "1 \<le> m" "m \<le> n" "a = at m" using a r(3) by auto
  let ?c = "nelts (the_heap st)" and ?at = "at(n := 0)"
  have c: "unat ?c = n" using r(1) by (simp add: tree_rep_def)
  have c1: "1 \<le> ?c" "?c \<noteq> 0" using c m by (auto simp: word_le_nat_alt)
  have find: "find_slot ?c st = Some (slot_of at (n div 2), slot_of at n)" using find_slot_rep [OF r(1) c1(1)] c by simp
  let ?st1 = "set_nelts (?c - 1) st"
  have child: "read_slot (slot_of at n) ?st1 = at n" using read_slot_of [OF r(1), of n] m by (simp add: read_nelts)
  let ?st2 = "write_slot (slot_of at n) 0 ?st1"
  have rep2: "tree_rep ?st2 (n - 1) ?at" using m by (intro unlink_rep [OF r(1)]) simp
  have cn: "at n \<noteq> 0" using m by (simp add: null)
  show ?thesis
  proof (cases "m = n")
    case True
    have "heap_root (the_heap ?st2) \<noteq> at n" using rep2 cn by (auto simp: tree_rep_def eq split: if_splits)
    then have "heap_remove a before st = Some ?st2" using find child c1(2) m(3) True by (simp add: heap_remove_def Let_def)
    moreover have "ordered before (n - 1) ?at" using r(2) by (auto simp: ordered_def)
    moreover have "A - {a} = ?at ` {1..n - 1}"
    proof -
      have "{1..n} = insert n {1..n - 1}" using m by auto
      then have A: "A = insert (at n) (at ` {1..n - 1})" using r(3) by simp
      have "at n \<notin> at ` {1..n - 1}" using cn by (auto simp: eq)
      moreover have "?at ` {1..n - 1} = at ` {1..n - 1}" by (intro image_cong) auto
      ultimately show ?thesis using A True m(3) by simp
    qed
    ultimately show ?thesis using heap_okI [OF rep2] by blast
  next
    case False
    let ?at3 = "?at(m := at n)" and ?st3 = "take_place (at n) (at m) ?st2"
    have am: "?at m = at m" using False by simp
    have "at n \<notin> ?at ` {1..n - 1}" using cn by (auto simp: eq)
    then have rep3: "tree_rep ?st3 (n - 1) ?at3" using take_place_rep [OF rep2, of m "at n"] m cn False am by simp
    have o: "\<not> before (at k) (at (k div 2))" if "2 \<le> k" "k \<le> n" for k using r(2) that by (simp add: ordered_def)
    have "\<not> before (at k) (at (m div 2))" if "2 \<le> m" "k \<le> n" "k div 2 = m" for k
      using o [of k] o [of m] m that trans by auto
    moreover have "m div 2 \<noteq> n" "m div 2 \<noteq> m" using m by auto
    ultimately have "down_inv before (n - 1) ?at3 m" using o False unfolding down_inv_def bridged_def by auto
    moreover have mn: "m \<le> n - 1" using False m by simp
    ultimately obtain st4 at4 j where d: "move_down before (at n) ?st3 = Some st4" "tree_rep st4 (n - 1) at4" "1 \<le> j" "j \<le> n - 1" "at4 j = at n"
      "up_inv before (n - 1) at4 j" "at4 ` {1..n - 1} = ?at3 ` {1..n - 1}"
      using move_down_rep [OF rep3 m(1)] by auto
    from move_up_rep [OF d(2-4,6)] obtain st5 at5 where u: "move_up before (at n) st4 = Some st5" "tree_rep st5 (n - 1) at5" "ordered before (n - 1) at5"
      "at5 ` {1..n - 1} = at4 ` {1..n - 1}" using d(5) by auto
    have "heap_remove a before st = Some st5" using find child c1(2) m cn False d(1) u(1) by (simp add: heap_remove_def Let_def eq)
    moreover have "?at3 ` {1..n - 1} = A - {a}"
    proof -
      have "{1..n} = insert m (insert n ({1..n - 1} - {m}))" using m False by auto
      then have A: "A = insert (at m) (insert (at n) (at ` ({1..n - 1} - {m})))" using r(3) by simp
      have "at m \<noteq> 0" using m by (simp add: null)
      then have "at m \<notin> insert (at n) (at ` ({1..n - 1} - {m}))" using False cn by (auto simp: eq)
      then have "A - {a} = insert (at n) (at ` ({1..n - 1} - {m}))" using A m(3) by simp
      moreover have "{1..n - 1} = insert m ({1..n - 1} - {m})" using m mn by auto
      then have "?at3 ` {1..n - 1} = insert (at n) (?at3 ` ({1..n - 1} - {m}))" by (metis fun_upd_same image_insert)
      moreover have "?at3 ` ({1..n - 1} - {m}) = at ` ({1..n - 1} - {m})" by (intro image_cong) auto
      ultimately show ?thesis by simp
    qed
    ultimately show ?thesis using heap_okI [OF u(2,3)] u(4) d(7) by simp
  qed
qed

lemma dequeue_ok:
  assumes "heap_ok before st A" and "A \<noteq> {}"
  shows "\<exists>st'. heap_dequeue before st = Some st' \<and> heap_ok before st' (A - {heap_min st})"
  using remove_ok [OF assms(1)] min_ok(2) [OF assms] by (simp add: heap_dequeue_def heap_min_def)

end

end
