(* ===== verification/Uv_Common.thy ===== *)
theory Uv_Common
  imports C_Prelude
begin

text \<open>
  The error codes of libuv that the modelled files return (\<open>include/uv/errno.h\<close>): the negated \<open>errno\<close> values of Darwin.
\<close>

definition UV_EINVAL :: int where
  "UV_EINVAL = - 22"

definition UV_E2BIG :: int where
  "UV_E2BIG = - 7"

end
