(* ===== verification/Uv_Timer.thy ===== *)
theory Uv_Timer
  imports Uv_Heap_Order Uv_Common
begin

text \<open>
  libuv's timers (\<open>src/timer.c\<close>), a client of the heap. A timer is named by the address of its \<open>heap_node\<close>, so that \<open>container_of\<close> is the
  identity; the loop has the heap, the clock and the store of the timers. Flags and the count of active handles are kept as the
  macros of \<open>uv-common.h\<close> do; the queue of all handles is left out, since nothing here reads it. Callbacks are function
  pointers; what calling one does to the loop, and to a state of the client, is a parameter.
\<close>

record uv_timer =
  timer_flags :: u32
  timer_cb :: addr
  timeout :: u64
  timer_repeat :: u64
  start_id :: u64

record uv_loop =
  timer_heap :: heap_state
  timers :: "addr \<Rightarrow> uv_timer"
  timer_counter :: u64
  loop_time :: u64
  active_handles :: u32

definition UV_HANDLE_CLOSING :: u32 where
  "UV_HANDLE_CLOSING = 1"

definition UV_HANDLE_CLOSED :: u32 where
  "UV_HANDLE_CLOSED = 2"

definition UV_HANDLE_ACTIVE :: u32 where
  "UV_HANDLE_ACTIVE = 4"

definition UV_HANDLE_REF :: u32 where
  "UV_HANDLE_REF = 8"

definition set_timer :: "addr \<Rightarrow> uv_timer \<Rightarrow> uv_loop \<Rightarrow> uv_loop" where
  "set_timer h t lp = lp\<lparr>timers := (timers lp)(h := t)\<rparr>"

definition uv__is_active :: "uv_timer \<Rightarrow> bool" where
  "uv__is_active t \<longleftrightarrow> timer_flags t AND UV_HANDLE_ACTIVE \<noteq> 0"

definition uv__is_closing :: "uv_timer \<Rightarrow> bool" where
  "uv__is_closing t \<longleftrightarrow> timer_flags t AND (UV_HANDLE_CLOSING OR UV_HANDLE_CLOSED) \<noteq> 0"

definition uv__has_ref :: "uv_timer \<Rightarrow> bool" where
  "uv__has_ref t \<longleftrightarrow> timer_flags t AND UV_HANDLE_REF \<noteq> 0"

definition uv__handle_start :: "addr \<Rightarrow> uv_loop \<Rightarrow> uv_loop" where
  "uv__handle_start h lp =
     (let t = timers lp h
      in if uv__is_active t then lp
         else let lp = set_timer h (t\<lparr>timer_flags := timer_flags t OR UV_HANDLE_ACTIVE\<rparr>) lp
           in if uv__has_ref (timers lp h) then lp\<lparr>active_handles := active_handles lp + 1\<rparr> else lp)"

definition uv__handle_stop :: "addr \<Rightarrow> uv_loop \<Rightarrow> uv_loop" where
  "uv__handle_stop h lp =
     (let t = timers lp h
      in if \<not> uv__is_active t then lp
         else let lp = set_timer h (t\<lparr>timer_flags := timer_flags t AND NOT UV_HANDLE_ACTIVE\<rparr>) lp
           in if uv__has_ref (timers lp h) then lp\<lparr>active_handles := active_handles lp - 1\<rparr> else lp)"

definition timer_less_than :: "(addr \<Rightarrow> uv_timer) \<Rightarrow> heap_compare" where
  "timer_less_than ts ha hb =
     (if timeout (ts ha) < timeout (ts hb) then True
      else if timeout (ts hb) < timeout (ts ha) then False
      else start_id (ts ha) < start_id (ts hb))"

definition uv_timer_init :: "addr \<Rightarrow> uv_loop \<Rightarrow> int \<times> uv_loop" where
  "uv_timer_init h lp = (0, set_timer h ((timers lp h)\<lparr>timer_flags := UV_HANDLE_REF, timer_cb := 0, timer_repeat := 0\<rparr>) lp)"

text \<open>Calls on the heap may, as far as this model goes, not return.\<close>

definition uv_timer_stop :: "addr \<Rightarrow> uv_loop \<Rightarrow> (int \<times> uv_loop) option" where
  "uv_timer_stop h lp =
     (if \<not> uv__is_active (timers lp h) then Some (0, lp)
      else case heap_remove h (timer_less_than (timers lp)) (timer_heap lp) of
        None \<Rightarrow> None
      | Some hp \<Rightarrow> Some (0, uv__handle_stop h (lp\<lparr>timer_heap := hp\<rparr>)))"

definition uv_timer_start :: "addr \<Rightarrow> addr \<Rightarrow> u64 \<Rightarrow> u64 \<Rightarrow> uv_loop \<Rightarrow> (int \<times> uv_loop) option" where
  "uv_timer_start h cb delay interval lp =
     (if uv__is_closing (timers lp h) \<or> cb = 0 then Some (UV_EINVAL, lp)
      else case (if uv__is_active (timers lp h) then uv_timer_stop h lp else Some (0, lp)) of
        None \<Rightarrow> None
      | Some (_, lp) \<Rightarrow>
          let clamped_timeout = loop_time lp + delay;
              clamped_timeout = (if clamped_timeout < delay then - 1 else clamped_timeout);
              lp = set_timer h ((timers lp h)\<lparr>timer_cb := cb, timeout := clamped_timeout, timer_repeat := interval, start_id := timer_counter lp\<rparr>) lp;
              lp = lp\<lparr>timer_counter := timer_counter lp + 1\<rparr>
          in case heap_insert h (timer_less_than (timers lp)) (timer_heap lp) of
               None \<Rightarrow> None
             | Some hp \<Rightarrow> Some (0, uv__handle_start h (lp\<lparr>timer_heap := hp\<rparr>)))"

definition uv_timer_again :: "addr \<Rightarrow> uv_loop \<Rightarrow> (int \<times> uv_loop) option" where
  "uv_timer_again h lp =
     (if timer_cb (timers lp h) = 0 then Some (UV_EINVAL, lp)
      else if timer_repeat (timers lp h) \<noteq> 0 then
        (case uv_timer_stop h lp of
           None \<Rightarrow> None
         | Some (_, lp) \<Rightarrow>
             let t = timers lp h
             in case uv_timer_start h (timer_cb t) (timer_repeat t) (timer_repeat t) lp of None \<Rightarrow> None | Some (_, lp) \<Rightarrow> Some (0, lp))
      else Some (0, lp))"

definition uv_timer_set_repeat :: "addr \<Rightarrow> u64 \<Rightarrow> uv_loop \<Rightarrow> uv_loop" where
  "uv_timer_set_repeat h interval lp = set_timer h ((timers lp h)\<lparr>timer_repeat := interval\<rparr>) lp"

definition uv_timer_get_repeat :: "addr \<Rightarrow> uv_loop \<Rightarrow> u64" where
  "uv_timer_get_repeat h lp = timer_repeat (timers lp h)"

definition INT_MAX64 :: u64 where
  "INT_MAX64 = 0x7FFFFFFF"

definition uv__next_timeout :: "uv_loop \<Rightarrow> int" where
  "uv__next_timeout lp =
     (let h = heap_min (timer_heap lp)
      in if h = 0 then - 1
         else let t = timers lp h
           in if timeout t \<le> loop_time lp then 0
              else let diff = timeout t - loop_time lp in uint (if diff > INT_MAX64 then INT_MAX64 else diff))"

text \<open>\<open>call cb h\<close> is the effect of calling the function \<open>cb\<close> with the handle \<open>h\<close>.\<close>

type_synonym 's timer_caller = "addr \<Rightarrow> addr \<Rightarrow> uv_loop \<times> 's \<Rightarrow> uv_loop \<times> 's"

partial_function (option) uv__run_timers :: "'s timer_caller \<Rightarrow> uv_loop \<times> 's \<Rightarrow> (uv_loop \<times> 's) option" where
  [code]: "uv__run_timers call st =
     (let h = heap_min (timer_heap (fst st))
      in if h = 0 then Some st
         else if timeout (timers (fst st) h) > loop_time (fst st) then Some st
         else case uv_timer_stop h (fst st) of
           None \<Rightarrow> None
         | Some (_, lp) \<Rightarrow>
             (case uv_timer_again h lp of
                None \<Rightarrow> None
              | Some (_, lp) \<Rightarrow> uv__run_timers call (call (timer_cb (timers lp h)) h (lp, snd st))))"

definition uv__timer_close :: "addr \<Rightarrow> uv_loop \<Rightarrow> uv_loop option" where
  "uv__timer_close h lp = map_option snd (uv_timer_stop h lp)"

end
