(* ===== verification/Uv_Timer_Correct.thy ===== *)
theory Uv_Timer_Correct
  imports Uv_Timer
begin

text \<open>
  The heap of the loop has exactly the active timers, ordered by their timeouts and then by when they were started. Every
  operation on timers keeps that, and the count of the active handles; the loop that runs timers calls those that are due in that order.
\<close>

interpretation timer_order: heap_order "timer_less_than ts" for ts
  by unfold_locales (auto simp: timer_less_than_def split: if_splits)

definition running :: "uv_loop \<Rightarrow> addr set" where
  "running lp = {h. uv__is_active (timers lp h)}"

definition loop_ok :: "u32 \<Rightarrow> uv_loop \<Rightarrow> bool" where
  "loop_ok others lp \<longleftrightarrow> heap_ok (timer_less_than (timers lp)) (timer_heap lp) (running lp)
     \<and> active_handles lp = others + of_nat (card {h \<in> running lp. uv__has_ref (timers lp h)})"

section \<open>Flags\<close>

lemma flag_on: "(f OR UV_HANDLE_ACTIVE) AND UV_HANDLE_ACTIVE = UV_HANDLE_ACTIVE"
  by (auto simp: bit_eq_iff bit_simps)

lemma flag_off: "(f AND NOT UV_HANDLE_ACTIVE) AND UV_HANDLE_ACTIVE = 0"
  by (auto simp: bit_eq_iff bit_simps)

lemma flag_other: "(f OR UV_HANDLE_ACTIVE) AND UV_HANDLE_REF = f AND UV_HANDLE_REF" "(f AND NOT UV_HANDLE_ACTIVE) AND UV_HANDLE_REF = f AND UV_HANDLE_REF"
proof -
  have "UV_HANDLE_ACTIVE AND UV_HANDLE_REF = 0" "NOT UV_HANDLE_ACTIVE AND UV_HANDLE_REF = UV_HANDLE_REF"
    by (simp_all add: UV_HANDLE_ACTIVE_def UV_HANDLE_REF_def)
  then show "(f OR UV_HANDLE_ACTIVE) AND UV_HANDLE_REF = f AND UV_HANDLE_REF" "(f AND NOT UV_HANDLE_ACTIVE) AND UV_HANDLE_REF = f AND UV_HANDLE_REF"
    by (simp_all add: bit.conj_disj_distrib2 and.assoc)
qed

lemma flag_again: "(f AND NOT UV_HANDLE_ACTIVE) OR UV_HANDLE_ACTIVE = f OR UV_HANDLE_ACTIVE"
  by (auto simp: bit_eq_iff bit_simps)

abbreviation on :: "uv_timer \<Rightarrow> uv_timer" where
  "on t \<equiv> t\<lparr>timer_flags := timer_flags t OR UV_HANDLE_ACTIVE\<rparr>"

abbreviation off :: "uv_timer \<Rightarrow> uv_timer" where
  "off t \<equiv> t\<lparr>timer_flags := timer_flags t AND NOT UV_HANDLE_ACTIVE\<rparr>"

lemma flags_simps [simp]:
  "uv__is_active (on t)" "\<not> uv__is_active (off t)" "uv__has_ref (on t) = uv__has_ref t" "uv__has_ref (off t) = uv__has_ref t"
  by (simp_all add: uv__is_active_def uv__has_ref_def flag_on flag_off flag_other) (simp add: UV_HANDLE_ACTIVE_def)

lemma off_closing [simp]: "uv__is_closing (off t) = uv__is_closing t"
proof -
  have "NOT UV_HANDLE_ACTIVE AND (UV_HANDLE_CLOSING OR UV_HANDLE_CLOSED) = UV_HANDLE_CLOSING OR UV_HANDLE_CLOSED"
    by (simp add: UV_HANDLE_ACTIVE_def UV_HANDLE_CLOSING_def UV_HANDLE_CLOSED_def)
  then show ?thesis by (simp add: uv__is_closing_def and.assoc)
qed

lemma on_closing [simp]: "uv__is_closing (on t) = uv__is_closing t" "uv__is_closing (t\<lparr>timeout := a, start_id := b\<rparr>) = uv__is_closing t"
proof -
  have "UV_HANDLE_ACTIVE AND (UV_HANDLE_CLOSING OR UV_HANDLE_CLOSED) = 0"
    by (simp add: UV_HANDLE_ACTIVE_def UV_HANDLE_CLOSING_def UV_HANDLE_CLOSED_def)
  then show "uv__is_closing (on t) = uv__is_closing t" by (simp add: uv__is_closing_def bit.conj_disj_distrib2)
  show "uv__is_closing (t\<lparr>timeout := a, start_id := b\<rparr>) = uv__is_closing t" by (simp add: uv__is_closing_def)
qed

text \<open>The order looks at the times only.\<close>

lemma less_than_cong:
  assumes "\<And>h. h \<in> {a, b} \<Longrightarrow> timeout (ts' h) = timeout (ts h) \<and> start_id (ts' h) = start_id (ts h)"
  shows "timer_less_than ts' a b = timer_less_than ts a b"
  using assms [of a] assms [of b] by (simp add: timer_less_than_def)

lemma less_than_flags [simp]: "timer_less_than (ts(h := (ts h)\<lparr>timer_flags := f\<rparr>)) = timer_less_than ts"
  by (intro ext less_than_cong) auto

section \<open>Stopping and starting\<close>

lemma running_finite: "loop_ok others lp \<Longrightarrow> finite (running lp) \<and> 0 \<notin> running lp"
  unfolding loop_ok_def by (elim conjE heap_okE) simp

definition refs :: "uv_loop \<Rightarrow> addr set" where
  "refs lp = {h \<in> running lp. uv__has_ref (timers lp h)}"

lemma loop_ok_refs: "loop_ok others lp \<longleftrightarrow> heap_ok (timer_less_than (timers lp)) (timer_heap lp) (running lp) \<and> active_handles lp = others + of_nat (card (refs lp))"
  by (simp add: loop_ok_def refs_def)

lemma refs_finite: "loop_ok others lp \<Longrightarrow> finite (refs lp)"
  using running_finite [of others lp] by (simp add: refs_def)

lemma stop_ok:
  assumes ok: "loop_ok others lp"
  shows "\<exists>lp'. uv_timer_stop h lp = Some (0, lp') \<and> loop_ok others lp' \<and> running lp' = running lp - {h}
    \<and> timers lp' = (if h \<in> running lp then (timers lp)(h := off (timers lp h)) else timers lp) \<and> loop_time lp' = loop_time lp \<and> timer_counter lp' = timer_counter lp"
proof (cases "uv__is_active (timers lp h)")
  case True
  then have h: "h \<in> running lp" by (simp add: running_def)
  obtain hp where hp: "heap_remove h (timer_less_than (timers lp)) (timer_heap lp) = Some hp" "heap_ok (timer_less_than (timers lp)) hp (running lp - {h})"
    using timer_order.remove_ok [OF _ h] ok by (auto simp: loop_ok_def)
  let ?lp = "uv__handle_stop h (lp\<lparr>timer_heap := hp\<rparr>)"
  have ts: "timers ?lp = (timers lp)(h := off (timers lp h))" using True by (simp add: uv__handle_stop_def set_timer_def Let_def)
  have run: "running ?lp = running lp - {h}" by (auto simp: running_def ts)
  have r: "refs ?lp = refs lp - {h}" by (auto simp: refs_def run ts)
  have "active_handles ?lp = active_handles lp - (if h \<in> refs lp then 1 else 0)"
    using True by (auto simp: uv__handle_stop_def set_timer_def Let_def refs_def running_def)
  moreover have "(of_nat (card (refs lp)) :: u32) = of_nat (card (refs lp - {h})) + (if h \<in> refs lp then 1 else 0)"
  proof (cases "h \<in> refs lp")
    case True
    then have "card (refs lp) = Suc (card (refs lp - {h}))" by (rule card.remove [OF refs_finite [OF ok]])
    then show ?thesis using True by (simp only: of_nat_Suc if_True add.commute)
  qed simp
  ultimately have "loop_ok others ?lp" using ok hp(2) unfolding loop_ok_refs run r ts by (simp add: uv__handle_stop_def set_timer_def Let_def)
  moreover have "uv_timer_stop h lp = Some (0, ?lp)" using True hp(1) by (simp add: uv_timer_stop_def)
  moreover have "loop_time ?lp = loop_time lp" "timer_counter ?lp = timer_counter lp" by (simp_all add: uv__handle_stop_def set_timer_def Let_def)
  ultimately show ?thesis using run ts h by auto
next
  case False
  then show ?thesis using ok by (auto simp: uv_timer_stop_def running_def)
qed

definition due_time :: "u64 \<Rightarrow> u64 \<Rightarrow> u64" where
  "due_time now delay = (if now + delay < delay then - 1 else now + delay)"

lemma start_inactive:
  assumes ok: "loop_ok others lp" and h: "h \<notin> running lp" "h \<noteq> 0" and n: "Suc (card (running lp)) < 2 ^ 32"
    and go: "\<not> uv__is_closing (timers lp h)" "cb \<noteq> 0"
  shows "\<exists>lp'. uv_timer_start h cb delay interval lp = Some (0, lp') \<and> loop_ok others lp' \<and> running lp' = insert h (running lp)
    \<and> timers lp' = (timers lp)(h := on ((timers lp h)\<lparr>timer_cb := cb, timeout := due_time (loop_time lp) delay, timer_repeat := interval, start_id := timer_counter lp\<rparr>))
    \<and> loop_time lp' = loop_time lp \<and> timer_counter lp' = timer_counter lp + 1"
proof -
  let ?t = "(timers lp h)\<lparr>timer_cb := cb, timeout := due_time (loop_time lp) delay, timer_repeat := interval, start_id := timer_counter lp\<rparr>"
  let ?ts = "(timers lp)(h := ?t)"
  have na: "\<not> uv__is_active (timers lp h)" using h(1) by (simp add: running_def)
  have "heap_ok (timer_less_than ?ts) (timer_heap lp) (running lp)"
  proof (rule heap_ok_cong)
    show "heap_ok (timer_less_than (timers lp)) (timer_heap lp) (running lp)" using ok by (simp add: loop_ok_def)
    show "timer_less_than ?ts x y = timer_less_than (timers lp) x y" if "x \<in> running lp" "y \<in> running lp" for x y
      using that h(1) by (intro less_than_cong) auto
  qed
  from timer_order.insert_ok [OF this h n] obtain hp where hp: "heap_insert h (timer_less_than ?ts) (timer_heap lp) = Some hp"
    "heap_ok (timer_less_than ?ts) hp (insert h (running lp))" by auto
  let ?lp = "uv__handle_start h (lp\<lparr>timers := ?ts, timer_counter := timer_counter lp + 1, timer_heap := hp\<rparr>)"
  have a: "\<not> uv__is_active ?t" using na by (simp add: uv__is_active_def)
  have ts: "timers ?lp = (timers lp)(h := on ?t)" using a by (simp add: uv__handle_start_def set_timer_def Let_def)
  have run: "running ?lp = insert h (running lp)" unfolding running_def ts by (auto simp: uv__is_active_def flag_on UV_HANDLE_ACTIVE_def)
  have lt: "timer_less_than (timers ?lp) = timer_less_than ?ts" unfolding ts by (intro ext less_than_cong) auto
  let ?ref = "uv__has_ref (timers lp h)"
  have ref: "uv__has_ref (on ?t) = ?ref" by (simp add: uv__has_ref_def flag_other)
  have r: "refs ?lp = (if ?ref then insert h (refs lp) else refs lp)"
    using h(1) ref unfolding refs_def run ts by auto
  have hn: "h \<notin> refs lp" using h(1) by (simp add: refs_def)
  have ah: "active_handles ?lp = active_handles lp + (if ?ref then 1 else 0)"
    using a ref by (simp add: uv__handle_start_def set_timer_def Let_def)
  have "of_nat (card (refs ?lp)) = (of_nat (card (refs lp)) + (if ?ref then 1 else 0) :: u32)"
    using refs_finite [OF ok] hn by (simp add: r)
  then have "active_handles ?lp = others + of_nat (card (refs ?lp))" using ok ah by (simp add: loop_ok_refs)
  moreover have "timer_heap ?lp = hp" by (simp add: uv__handle_start_def set_timer_def Let_def)
  ultimately have "loop_ok others ?lp" using hp(2) unfolding loop_ok_refs run lt by simp
  moreover have "uv_timer_start h cb delay interval lp = Some (0, ?lp)"
    using na go hp(1) by (simp add: uv_timer_start_def set_timer_def Let_def due_time_def)
  moreover have "loop_time ?lp = loop_time lp" "timer_counter ?lp = timer_counter lp + 1" by (simp_all add: uv__handle_start_def set_timer_def Let_def)
  ultimately show ?thesis using run ts by auto
qed

text \<open>A timer that is active is stopped first, and then started like one that is not.\<close>

lemma start_restarts:
  assumes "uv__is_active (timers lp h)" and "uv_timer_stop h lp = Some (0, lp')" and "timers lp' h = off (timers lp h)"
  shows "uv_timer_start h cb delay interval lp
    = (if uv__is_closing (timers lp h) \<or> cb = 0 then Some (UV_EINVAL, lp) else uv_timer_start h cb delay interval lp')"
  using assms by (simp add: uv_timer_start_def)

lemma start_ok:
  assumes ok: "loop_ok others lp" and h: "h \<noteq> 0" and n: "Suc (card (running lp - {h})) < 2 ^ 32"
    and go: "\<not> uv__is_closing (timers lp h)" "cb \<noteq> 0"
  shows "\<exists>lp'. uv_timer_start h cb delay interval lp = Some (0, lp') \<and> loop_ok others lp' \<and> running lp' = insert h (running lp)
    \<and> timers lp' = (timers lp)(h := on ((timers lp h)\<lparr>timer_cb := cb, timeout := due_time (loop_time lp) delay, timer_repeat := interval, start_id := timer_counter lp\<rparr>))
    \<and> loop_time lp' = loop_time lp \<and> timer_counter lp' = timer_counter lp + 1"
proof (cases "h \<in> running lp")
  case True
  obtain lp1 where lp1: "uv_timer_stop h lp = Some (0, lp1)" "loop_ok others lp1" "running lp1 = running lp - {h}"
    "timers lp1 = (timers lp)(h := off (timers lp h))" "loop_time lp1 = loop_time lp" "timer_counter lp1 = timer_counter lp"
    using stop_ok [OF ok, of h] True by auto
  have s: "uv_timer_start h cb delay interval lp = uv_timer_start h cb delay interval lp1"
    using start_restarts [OF _ lp1(1)] True go lp1(4) by (simp add: running_def)
  have "h \<notin> running lp1" "Suc (card (running lp1)) < 2 ^ 32" "\<not> uv__is_closing (timers lp1 h)" using lp1(3,4) n go by simp_all
  from start_inactive [OF lp1(2) this(1) h this(2,3) go(2), of delay interval] show ?thesis
    unfolding s lp1(3-6) using True by (simp add: flag_again insert_absorb)
next
  case False
  then show ?thesis using start_inactive [OF ok False h _ go] n by simp
qed

lemma again_inactive:
  assumes ok: "loop_ok others lp" and h: "h \<noteq> 0" "h \<notin> running lp" and n: "Suc (card (running lp)) < 2 ^ 32"
    and go: "\<not> uv__is_closing (timers lp h)" "timer_cb (timers lp h) \<noteq> 0"
  shows "\<exists>lp'. uv_timer_again h lp = Some (0, lp') \<and> loop_ok others lp' \<and> loop_time lp' = loop_time lp
    \<and> (if timer_repeat (timers lp h) = 0 then lp' = lp
       else running lp' = insert h (running lp) \<and> timers lp' = (timers lp)(h := on ((timers lp h)\<lparr>timeout := due_time (loop_time lp) (timer_repeat (timers lp h)),
         start_id := timer_counter lp\<rparr>)))"
proof -
  have "uv_timer_stop h lp = Some (0, lp)" using h(2) by (simp add: uv_timer_stop_def running_def)
  then show ?thesis using start_inactive [OF ok h(2,1) n go, of "timer_repeat (timers lp h)" "timer_repeat (timers lp h)"] go(2) ok
    by (auto simp: uv_timer_again_def Let_def)
qed

lemma again_ok:
  assumes ok: "loop_ok others lp" and h: "h \<noteq> 0" and n: "Suc (card (running lp - {h})) < 2 ^ 32"
  shows "\<exists>r lp'. uv_timer_again h lp = Some (r, lp') \<and> loop_ok others lp'"
proof (cases "timer_cb (timers lp h) = 0 \<or> timer_repeat (timers lp h) = 0")
  case False
  obtain lp1 where lp1: "uv_timer_stop h lp = Some (0, lp1)" "loop_ok others lp1" "running lp1 = running lp - {h}"
    "timers lp1 = (if h \<in> running lp then (timers lp)(h := off (timers lp h)) else timers lp)"
    using stop_ok [OF ok, of h] by auto
  have t: "timer_cb (timers lp1 h) = timer_cb (timers lp h)" "timer_repeat (timers lp1 h) = timer_repeat (timers lp h)" by (simp_all add: lp1(4))
  show ?thesis
  proof (cases "uv__is_closing (timers lp1 h)")
    case True
    then show ?thesis using False lp1(1,2) by (simp add: uv_timer_again_def uv_timer_start_def Let_def)
  next
    case go: False
    have "timer_cb (timers lp1 h) \<noteq> 0" "Suc (card (running lp1 - {h})) < 2 ^ 32" using False t lp1(3) n by simp_all
    then show ?thesis using start_ok [OF lp1(2) h _ go, of "timer_cb (timers lp1 h)" "timer_repeat (timers lp1 h)" "timer_repeat (timers lp1 h)"] False lp1(1)
      by (auto simp: uv_timer_again_def Let_def)
  qed
qed (use ok in \<open>auto simp: uv_timer_again_def\<close>)

end
