(* ===== verification/Uv_Timer_Run.thy ===== *)
theory Uv_Timer_Run
  imports Uv_Timer_Correct
begin

text \<open>
  The timers of a loop as a machine whose steps are the calls of a client, the time to wait, and the loop
  that runs the timers that are due.
\<close>

datatype timer_act =
    Init addr
  | Start addr addr u64 u64
  | Stop addr
  | Again addr
  | Set_repeat addr u64
  | Close addr
  | Advance u64

text \<open>A timer is initialised before it is started; there are fewer timers than the count of the heap can hold.\<close>

primrec timer_allowed :: "timer_act \<Rightarrow> uv_loop \<Rightarrow> bool" where
  "timer_allowed (Init h) lp \<longleftrightarrow> h \<notin> running lp"
| "timer_allowed (Start h cb delay interval) lp \<longleftrightarrow> h \<noteq> 0 \<and> Suc (card (running lp - {h})) < 2 ^ 32"
| "timer_allowed (Stop h) lp \<longleftrightarrow> True"
| "timer_allowed (Again h) lp \<longleftrightarrow> h \<noteq> 0 \<and> Suc (card (running lp - {h})) < 2 ^ 32"
| "timer_allowed (Set_repeat h interval) lp \<longleftrightarrow> True"
| "timer_allowed (Close h) lp \<longleftrightarrow> True"
| "timer_allowed (Advance now) lp \<longleftrightarrow> True"

primrec timer_perform :: "timer_act \<Rightarrow> uv_loop \<Rightarrow> uv_loop option" where
  "timer_perform (Init h) lp = Some (snd (uv_timer_init h lp))"
| "timer_perform (Start h cb delay interval) lp = map_option snd (uv_timer_start h cb delay interval lp)"
| "timer_perform (Stop h) lp = map_option snd (uv_timer_stop h lp)"
| "timer_perform (Again h) lp = map_option snd (uv_timer_again h lp)"
| "timer_perform (Set_repeat h interval) lp = Some (uv_timer_set_repeat h interval lp)"
| "timer_perform (Close h) lp = uv__timer_close h lp"
| "timer_perform (Advance now) lp = Some (lp\<lparr>loop_time := now\<rparr>)"

inductive loop_reach :: "u32 \<Rightarrow> uv_loop \<Rightarrow> bool" where
  start: "\<forall>h. \<not> uv__is_active (ts h) \<Longrightarrow>
    loop_reach others \<lparr>timer_heap = heap_init hs, timers = ts, timer_counter = 0, loop_time = now, active_handles = others\<rparr>"
| act: "loop_reach others lp \<Longrightarrow> timer_allowed a lp \<Longrightarrow> timer_perform a lp = Some lp' \<Longrightarrow> loop_reach others lp'"

lemma loop_ok_same:
  assumes "loop_ok others lp" and "timer_less_than (timers lp') = timer_less_than (timers lp)" and "running lp' = running lp" and "refs lp' = refs lp"
    and "timer_heap lp' = timer_heap lp" and "active_handles lp' = active_handles lp"
  shows "loop_ok others lp'"
  using assms by (simp add: loop_ok_refs)

lemma timer_perform_ok:
  assumes ok: "loop_ok others lp" and a: "timer_allowed a lp"
  shows "\<exists>lp'. timer_perform a lp = Some lp' \<and> loop_ok others lp'"
proof (cases a)
  case (Init h)
  let ?lp = "snd (uv_timer_init h lp)"
  have ts: "timers ?lp = (timers lp)(h := (timers lp h)\<lparr>timer_flags := UV_HANDLE_REF, timer_cb := 0, timer_repeat := 0\<rparr>)"
    by (simp add: uv_timer_init_def set_timer_def)
  have na: "\<not> uv__is_active ((timers lp h)\<lparr>timer_flags := UV_HANDLE_REF, timer_cb := 0, timer_repeat := 0\<rparr>)"
    by (simp add: uv__is_active_def UV_HANDLE_REF_def UV_HANDLE_ACTIVE_def)
  have h: "\<not> uv__is_active (timers lp h)" using a Init by (simp add: running_def)
  have run: "running ?lp = running lp" unfolding running_def ts using na h by auto
  have "refs ?lp = refs lp" unfolding refs_def run ts using h by (auto simp: running_def)
  moreover have "timer_less_than (timers ?lp) = timer_less_than (timers lp)" unfolding ts by (intro ext less_than_cong) auto
  moreover have "timer_heap ?lp = timer_heap lp" "active_handles ?lp = active_handles lp" by (simp_all add: uv_timer_init_def set_timer_def)
  ultimately show ?thesis using loop_ok_same [OF ok _ run] Init by simp
next
  case (Start h cb delay interval)
  then show ?thesis
  proof (cases "uv__is_closing (timers lp h) \<or> cb = 0")
    case False
    then show ?thesis using start_ok [OF ok, of h cb delay interval] a Start by auto
  qed (use ok in \<open>simp add: uv_timer_start_def\<close>)
next
  case (Stop h)
  then show ?thesis using stop_ok [OF ok, of h] by auto
next
  case (Again h)
  then show ?thesis using again_ok [OF ok, of h] a by auto
next
  case (Set_repeat h interval)
  let ?lp = "uv_timer_set_repeat h interval lp"
  have ts: "timers ?lp = (timers lp)(h := (timers lp h)\<lparr>timer_repeat := interval\<rparr>)" by (simp add: uv_timer_set_repeat_def set_timer_def)
  have run: "running ?lp = running lp" unfolding running_def ts by (auto simp: uv__is_active_def)
  have "refs ?lp = refs lp" unfolding refs_def run ts by (auto simp: uv__has_ref_def)
  moreover have "timer_less_than (timers ?lp) = timer_less_than (timers lp)" unfolding ts by (intro ext less_than_cong) auto
  moreover have "timer_heap ?lp = timer_heap lp" "active_handles ?lp = active_handles lp" by (simp_all add: uv_timer_set_repeat_def set_timer_def)
  ultimately show ?thesis using loop_ok_same [OF ok _ run] Set_repeat by simp
next
  case (Close h)
  then show ?thesis using stop_ok [OF ok, of h] by (auto simp: uv__timer_close_def)
next
  case (Advance now)
  then show ?thesis using ok by (simp add: loop_ok_def running_def)
qed

lemma loop_reach_ok: "loop_reach others lp \<Longrightarrow> loop_ok others lp"
proof (induction rule: loop_reach.induct)
  case (start ts others hs now)
  then have "running \<lparr>timer_heap = heap_init hs, timers = ts, timer_counter = 0, loop_time = now, active_handles = others\<rparr> = {}"
    by (simp add: running_def)
  then show ?case using init_ok by (simp add: loop_ok_def)
next
  case (act others lp a lp')
  then show ?case using timer_perform_ok by fastforce
qed

section \<open>The next timeout\<close>

lemma least_timeout:
  assumes ok: "loop_ok others lp" and ne: "running lp \<noteq> {}"
  shows "heap_min (timer_heap lp) \<in> running lp" "heap_min (timer_heap lp) \<noteq> 0"
    "timeout (timers lp (heap_min (timer_heap lp))) = Min ((\<lambda>h. timeout (timers lp h)) ` running lp)"
proof -
  have hp: "heap_ok (timer_less_than (timers lp)) (timer_heap lp) (running lp)" using ok by (simp add: loop_ok_def)
  note m = timer_order.min_ok [OF hp]
  show "heap_min (timer_heap lp) \<in> running lp" "heap_min (timer_heap lp) \<noteq> 0" using m ne by simp_all
  have "\<not> timeout (timers lp h) < timeout (timers lp (heap_min (timer_heap lp)))" if "h \<in> running lp" for h
    using m(2) [OF ne] that by (auto simp: timer_less_than_def)
  then show "timeout (timers lp (heap_min (timer_heap lp))) = Min ((\<lambda>h. timeout (timers lp h)) ` running lp)"
    using m(2) [OF ne] running_finite [OF ok] by (intro Min_eqI [symmetric]) (auto simp: not_less)
qed

lemma next_timeout_exact:
  assumes ok: "loop_ok others lp"
  shows "uv__next_timeout lp = (if running lp = {} then - 1
    else min 0x7FFFFFFF (max 0 (uint (Min ((\<lambda>h. timeout (timers lp h)) ` running lp)) - uint (loop_time lp))))"
proof (cases "running lp = {}")
  case True
  have "heap_min (timer_heap lp) = 0" using timer_order.min_ok(1) [of "timers lp" "timer_heap lp" "running lp"] ok True by (simp add: loop_ok_def)
  then show ?thesis using True by (simp add: uv__next_timeout_def)
next
  case False
  let ?t = "timeout (timers lp (heap_min (timer_heap lp)))"
  have d: "uint (?t - loop_time lp) = uint ?t - uint (loop_time lp)" if "loop_time lp < ?t" using that by (simp add: uint_sub_if' word_less_def)
  show ?thesis
    using False least_timeout(2) [OF ok False] least_timeout(3) [OF ok False, symmetric] d
    by (auto simp: uv__next_timeout_def Let_def INT_MAX64_def word_le_def word_less_def min_def max_def not_le)
qed

section \<open>Running the timers\<close>

lemma due_later:
  assumes "delay \<noteq> 0" and "now \<noteq> - 1"
  shows "now < due_time now delay"
proof (cases "now + delay < delay")
  case True
  then show ?thesis using assms(2) by (simp add: due_time_def word_order.not_eq_extremum)
next
  case False
  then have "unat (now + delay) = unat now + unat delay" by (simp add: not_less no_olen_add_nat [symmetric] unat_plus_simple [symmetric] add.commute)
  then show ?thesis using False assms(1) by (simp add: due_time_def word_less_nat_alt unat_gt_0)
qed

definition due :: "uv_loop \<Rightarrow> addr set" where
  "due lp = {h \<in> running lp. timeout (timers lp h) \<le> loop_time lp}"

definition callable :: "uv_loop \<Rightarrow> bool" where
  "callable lp \<longleftrightarrow> (\<forall>h \<in> running lp. \<not> uv__is_closing (timers lp h) \<and> timer_cb (timers lp h) \<noteq> 0)"

lemma running_card: "loop_ok others lp \<Longrightarrow> card (running lp) < 2 ^ 32"
  using heap_ok_nelts [of "timer_less_than (timers lp)" "timer_heap lp" "running lp"] unsigned_less [of "nelts (the_heap (timer_heap lp))", where 'a = nat]
  by (simp add: loop_ok_def)

lemma due_min:
  assumes ok: "loop_ok others lp" and "due lp \<noteq> {}"
  shows "heap_min (timer_heap lp) \<in> due lp" "heap_min (timer_heap lp) \<noteq> 0"
    "\<And>h. h \<in> running lp \<Longrightarrow> \<not> timer_less_than (timers lp) h (heap_min (timer_heap lp))"
proof -
  obtain h0 where h0: "h0 \<in> running lp" "timeout (timers lp h0) \<le> loop_time lp" using assms(2) by (auto simp: due_def)
  then have ne: "running lp \<noteq> {}" by auto
  have hp: "heap_ok (timer_less_than (timers lp)) (timer_heap lp) (running lp)" using ok by (simp add: loop_ok_def)
  note m = timer_order.min_ok [OF hp]
  show "heap_min (timer_heap lp) \<noteq> 0" using m ne by simp
  show b: "\<not> timer_less_than (timers lp) h (heap_min (timer_heap lp))" if "h \<in> running lp" for h using m(2) [OF ne] that by simp
  have "timeout (timers lp (heap_min (timer_heap lp))) \<le> timeout (timers lp h0)" using b [OF h0(1)] by (auto simp: timer_less_than_def not_less split: if_splits)
  then show "heap_min (timer_heap lp) \<in> due lp" using m(2) [OF ne] h0(2) by (simp add: due_def)
qed

text \<open>One round, up to the call of the callback.\<close>

definition timer_round :: "uv_loop \<Rightarrow> addr \<Rightarrow> uv_loop \<Rightarrow> bool" where
  "timer_round lp h lp' \<longleftrightarrow> h = heap_min (timer_heap lp) \<and> h \<noteq> 0 \<and> \<not> timeout (timers lp h) > loop_time lp
     \<and> (\<exists>r lp1 r'. uv_timer_stop h lp = Some (r, lp1) \<and> uv_timer_again h lp1 = Some (r', lp'))"

lemma round_run: "timer_round lp h lp' \<Longrightarrow> uv__run_timers call (lp, s) = uv__run_timers call (call (timer_cb (timers lp' h)) h (lp', s))"
  by (subst uv__run_timers.simps) (auto simp: timer_round_def Let_def)

lemma run_round:
  assumes ok: "loop_ok others lp" and c: "callable lp" and d: "due lp \<noteq> {}"
  shows "\<exists>h lp' t'. h \<in> due lp \<and> h \<noteq> 0 \<and> (\<forall>k \<in> running lp. \<not> timer_less_than (timers lp) k h)
    \<and> timer_round lp h lp'
    \<and> loop_ok others lp' \<and> loop_time lp' = loop_time lp \<and> timers lp' = (timers lp)(h := t') \<and> timer_cb t' = timer_cb (timers lp h) \<and> \<not> uv__is_closing t'
    \<and> (if timer_repeat (timers lp h) = 0 then running lp' = running lp - {h}
       else running lp' = running lp \<and> timeout t' = due_time (loop_time lp) (timer_repeat (timers lp h)))"
proof -
  let ?h = "heap_min (timer_heap lp)"
  note m = due_min [OF ok d]
  have h: "?h \<in> running lp" "timeout (timers lp ?h) \<le> loop_time lp" using m(1) by (simp_all add: due_def)
  obtain lp1 where lp1: "uv_timer_stop ?h lp = Some (0, lp1)" "loop_ok others lp1" "running lp1 = running lp - {?h}"
    "timers lp1 = (timers lp)(?h := off (timers lp ?h))" "loop_time lp1 = loop_time lp" using stop_ok [OF ok, of ?h] h(1) by auto
  let ?t = "timers lp ?h"
  have t1: "timers lp1 ?h = off ?t" using lp1(4) by simp
  have "card (running lp) = Suc (card (running lp1))" using card.remove [OF _ h(1)] running_finite [OF ok] lp1(3) by simp
  then have n: "Suc (card (running lp1)) < 2 ^ 32" using running_card [OF ok] by simp
  have go: "\<not> uv__is_closing (timers lp1 ?h)" "timer_cb (timers lp1 ?h) \<noteq> 0" using c h(1) t1 by (simp_all add: callable_def)
  have "?h \<notin> running lp1" using lp1(3) by simp
  from again_inactive [OF lp1(2) m(2) this n go] obtain lp2 where lp2: "uv_timer_again ?h lp1 = Some (0, lp2)" "loop_ok others lp2" "loop_time lp2 = loop_time lp1"
    "if timer_repeat (off ?t) = 0 then lp2 = lp1
     else running lp2 = insert ?h (running lp1) \<and> timers lp2 = (timers lp1)(?h := on ((off ?t)\<lparr>timeout := due_time (loop_time lp1) (timer_repeat (off ?t)),
         start_id := timer_counter lp1\<rparr>))" unfolding t1 by blast
  let ?t' = "if timer_repeat ?t = 0 then off ?t else on ((off ?t)\<lparr>timeout := due_time (loop_time lp) (timer_repeat ?t), start_id := timer_counter lp1\<rparr>)"
  have ts: "timers lp2 = (timers lp)(?h := ?t')" using lp2(4) lp1(4,5) by (auto split: if_splits)
  have cl: "\<not> uv__is_closing ?t'"
  proof -
    have "\<not> uv__is_closing ?t" using c h(1) by (simp add: callable_def)
    then have "\<not> uv__is_closing (off ?t)" by simp
    moreover from this have "\<not> uv__is_closing (on ((off ?t)\<lparr>timeout := due_time (loop_time lp) (timer_repeat ?t), start_id := timer_counter lp1\<rparr>))"
      by (simp only: on_closing not_False_eq_True)
    ultimately show ?thesis unfolding if_split [of "\<lambda>x. \<not> uv__is_closing x"] by blast
  qed
  have cb: "timer_cb ?t' = timer_cb ?t" by simp
  have run: "timer_round lp ?h lp2" using lp1(1) lp2(1) m(2) h(2) by (auto simp: timer_round_def not_less)
  have "if timer_repeat ?t = 0 then running lp2 = running lp - {?h}
     else running lp2 = running lp \<and> timeout ?t' = due_time (loop_time lp) (timer_repeat ?t)"
    using lp2(4) lp1(3) h(1) by (auto split: if_splits)
  moreover have "\<forall>k \<in> running lp. \<not> timer_less_than (timers lp) k ?h" using m(3) by blast
  ultimately show ?thesis using lp2(2,3) lp1(5) m(1,2) ts run cl cb by metis
qed

lemma due_finite: "loop_ok others lp \<Longrightarrow> finite (due lp)"
  using running_finite [of others lp] by (simp add: due_def)

lemma run_idle:
  assumes ok: "loop_ok others lp" and d: "due lp = {}"
  shows "uv__run_timers call (lp, s) = Some (lp, s)"
proof (cases "running lp = {}")
  case True
  have "heap_min (timer_heap lp) = 0" using timer_order.min_ok(1) [of "timers lp" "timer_heap lp" "running lp"] ok True by (simp add: loop_ok_def)
  then show ?thesis by (subst uv__run_timers.simps) simp
next
  case False
  have "heap_min (timer_heap lp) \<in> running lp" by (rule least_timeout(1) [OF ok False])
  then have "loop_time lp < timeout (timers lp (heap_min (timer_heap lp)))" using d by (auto simp: due_def not_le)
  then show ?thesis by (subst uv__run_timers.simps) (simp add: Let_def)
qed

text \<open>With callbacks that leave the loop alone, every timer that is due is called once, in the order of the timers.\<close>

lemma run_timers_fold:
  assumes "loop_ok others lp" and "callable lp" and "loop_time lp \<noteq> - 1"
  shows "\<exists>lp' hs. uv__run_timers (\<lambda>cb h (lp, s). (lp, g cb h s)) (lp, s) = Some (lp', fold (\<lambda>h. g (timer_cb (timers lp h)) h) hs s)
    \<and> distinct hs \<and> set hs = due lp \<and> sorted_wrt (\<lambda>a b. \<not> timer_less_than (timers lp) b a) hs
    \<and> loop_ok others lp' \<and> running lp' = running lp - {h \<in> due lp. timer_repeat (timers lp h) = 0} \<and> due lp' = {} \<and> loop_time lp' = loop_time lp"
  using assms
proof (induction "card (due lp)" arbitrary: lp s)
  case 0
  then have "due lp = {}" using due_finite by simp
  then show ?case using run_idle [OF 0(2)] 0(2) by (intro exI [of _ lp] exI [of _ "[]"]) simp
next
  case (Suc n)
  have d: "due lp \<noteq> {}" using Suc.hyps(2) by auto
  obtain h lp1 t' where h: "h \<in> due lp" "h \<noteq> 0" "\<forall>k \<in> running lp. \<not> timer_less_than (timers lp) k h"
    and run: "timer_round lp h lp1"
    and lp1: "loop_ok others lp1" "loop_time lp1 = loop_time lp" "timers lp1 = (timers lp)(h := t')" "timer_cb t' = timer_cb (timers lp h)" "\<not> uv__is_closing t'"
      "if timer_repeat (timers lp h) = 0 then running lp1 = running lp - {h}
       else running lp1 = running lp \<and> timeout t' = due_time (loop_time lp) (timer_repeat (timers lp h))"
    using run_round [OF Suc.prems(1,2) d] by blast
  have hr: "h \<in> running lp" using h(1) by (simp add: due_def)
  have "\<not> timeout t' \<le> loop_time lp" if "timer_repeat (timers lp h) \<noteq> 0"
    using due_later [OF that Suc.prems(3)] lp1(6) that by simp
  then have due1: "due lp1 = due lp - {h}" using lp1(2,3,6) by (auto simp: due_def split: if_splits)
  then have "n = card (due lp1)" using Suc.hyps(2) h(1) by simp
  moreover have "callable lp1" using Suc.prems(2) lp1(3-6) hr by (auto simp: callable_def split: if_splits)
  moreover have "loop_time lp1 \<noteq> - 1" using Suc.prems(3) lp1(2) by simp
  ultimately obtain lp' hs where ih: "uv__run_timers (\<lambda>cb h (lp, s). (lp, g cb h s)) (lp1, g (timer_cb (timers lp h)) h s)
      = Some (lp', fold (\<lambda>h. g (timer_cb (timers lp1 h)) h) hs (g (timer_cb (timers lp h)) h s))"
    "distinct hs" "set hs = due lp1" "sorted_wrt (\<lambda>a b. \<not> timer_less_than (timers lp1) b a) hs"
    "loop_ok others lp'" "running lp' = running lp1 - {h \<in> due lp1. timer_repeat (timers lp1 h) = 0}" "due lp' = {}" "loop_time lp' = loop_time lp1"
    using Suc.hyps(1) [OF _ lp1(1), of "g (timer_cb (timers lp h)) h s"] by blast
  have nh: "k \<noteq> h" if "k \<in> set hs" for k using that ih(3) due1 by auto
  have same: "timer_less_than (timers lp1) b a = timer_less_than (timers lp) b a" if "a \<in> set hs" "b \<in> set hs" for a b
    using nh [OF that(1)] nh [OF that(2)] lp1(3) by (intro less_than_cong) auto
  have "fold (\<lambda>h. g (timer_cb (timers lp1 h)) h) hs x = fold (\<lambda>h. g (timer_cb (timers lp h)) h) hs x" for x
    using nh lp1(3) by (intro fold_cong) auto
  moreover have "timer_cb (timers lp1 h) = timer_cb (timers lp h)" using lp1(3,4) by simp
  ultimately have "uv__run_timers (\<lambda>cb h (lp, s). (lp, g cb h s)) (lp, s) = Some (lp', fold (\<lambda>h. g (timer_cb (timers lp h)) h) (h # hs) s)"
    using round_run [OF run, of "\<lambda>cb h (lp, s). (lp, g cb h s)" s] ih(1) by simp
  moreover have "sorted_wrt (\<lambda>a b. \<not> timer_less_than (timers lp) b a) hs"
    using ih(4) by (rule sorted_wrt_mono_rel [rotated]) (simp add: same)
  moreover have "set hs \<subseteq> running lp" using ih(3) due1 by (auto simp: due_def)
  then have "\<forall>k \<in> set hs. \<not> timer_less_than (timers lp) k h" using h(3) by blast
  moreover have "running lp' = running lp - {h \<in> due lp. timer_repeat (timers lp h) = 0}"
    using ih(6) lp1(3,6) due1 h(1) by (auto split: if_splits)
  moreover have "set (h # hs) = due lp" "distinct (h # hs)" using ih(2,3) due1 h(1) by auto
  ultimately show ?case using ih(5,7,8) lp1(2) by (intro exI [of _ lp'] exI [of _ "h # hs"]) simp
qed

text \<open>A callback that starts its timer again without a delay: then a timer is always due, and the loop does not return.\<close>

definition restart_at_once :: "'s timer_caller" where
  "restart_at_once cb h st = (case uv_timer_start h cb 0 0 (fst st) of None \<Rightarrow> st | Some (_, lp) \<Rightarrow> (lp, snd st))"

lemma restart_due:
  assumes ok: "loop_ok others lp" and c: "callable lp" and d: "due lp \<noteq> {}"
  obtains h lp' lp'' where "timer_round lp h lp'" "\<And>s. restart_at_once (timer_cb (timers lp' h)) h (lp', s :: 's) = (lp'', s)"
    "loop_ok others lp''" "callable lp''" "due lp'' \<noteq> {}"
proof -
  obtain h lp1 t' where h: "h \<in> due lp" "h \<noteq> 0"
    and run: "timer_round lp h lp1"
    and lp1: "loop_ok others lp1" "timers lp1 = (timers lp)(h := t')" "timer_cb t' = timer_cb (timers lp h)" "\<not> uv__is_closing t'"
      "if timer_repeat (timers lp h) = 0 then running lp1 = running lp - {h}
       else running lp1 = running lp \<and> timeout t' = due_time (loop_time lp) (timer_repeat (timers lp h))"
    using run_round [OF ok c d] by blast
  have hr: "h \<in> running lp" using h(1) by (simp add: due_def)
  have run1: "running lp1 - {h} = running lp - {h}" using lp1(5) by (auto split: if_splits)
  have "card (running lp) = Suc (card (running lp1 - {h}))" using card.remove [OF _ hr] running_finite [OF ok] run1 by simp
  then have n: "Suc (card (running lp1 - {h})) < 2 ^ 32" using running_card [OF ok] by simp
  have cb: "timer_cb (timers lp h) \<noteq> 0" using c hr by (simp add: callable_def)
  have "\<not> uv__is_closing (timers lp1 h)" using lp1(2,4) by simp
  from start_ok [OF lp1(1) h(2) n this cb, of 0 0] obtain lp2 where lp2: "uv_timer_start h (timer_cb (timers lp h)) 0 0 lp1 = Some (0, lp2)" "loop_ok others lp2"
    "running lp2 = insert h (running lp1)"
    "timers lp2 = (timers lp1)(h := on ((timers lp1 h)\<lparr>timer_cb := timer_cb (timers lp h), timeout := due_time (loop_time lp1) 0, timer_repeat := 0, start_id := timer_counter lp1\<rparr>))"
    "loop_time lp2 = loop_time lp1" by blast
  have "restart_at_once (timer_cb (timers lp1 h)) h (lp1, s :: 's) = (lp2, s)" for s
    using lp1(2,3) lp2(1) by (simp add: restart_at_once_def)
  moreover have "timeout (timers lp2 h) \<le> loop_time lp2" unfolding lp2(4,5) by (simp add: due_time_def)
  then have "due lp2 \<noteq> {}" using lp2(3) unfolding due_def by blast
  moreover have "callable lp2"
  proof -
    have "\<not> uv__is_closing (timers lp2 h)" unfolding lp2(4) using lp1(2,4)
      by (simp only: fun_upd_same on_closing) (simp add: uv__is_closing_def)
    moreover have "\<not> uv__is_closing (timers lp2 k) \<and> timer_cb (timers lp2 k) \<noteq> 0" if "k \<in> running lp2" "k \<noteq> h" for k
    proof -
      have "k \<in> running lp" "timers lp2 k = timers lp k" using that lp2(3,4) lp1(2) run1 by auto
      then show ?thesis using c by (simp add: callable_def)
    qed
    moreover have "timer_cb (timers lp2 h) \<noteq> 0" unfolding lp2(4) using cb by simp
    ultimately show ?thesis unfolding callable_def by blast
  qed
  ultimately show thesis using lp2(2) run by (intro that)
qed

lemma run_forever:
  assumes "loop_ok others lp" and "callable lp" and "due lp \<noteq> {}"
  shows "uv__run_timers restart_at_once (lp, s) = None"
proof -
  let ?Q = "\<lambda>call st. call = restart_at_once \<and> loop_ok others (fst st) \<and> callable (fst st) \<and> due (fst st) \<noteq> {}"
  have "\<not> ?Q call st" if "uv__run_timers call st = Some y" for call :: "'a timer_caller" and st y
  proof (rule uv__run_timers.raw_induct [OF _ that], rule notI)
    fix f :: "'a timer_caller \<Rightarrow> uv_loop \<times> 'a \<Rightarrow> (uv_loop \<times> 'a) option" and call st y
    assume ih: "\<And>call st y. f call st = Some y \<Longrightarrow> \<not> ?Q call st" and Q: "?Q call st"
      and run: "(let h = heap_min (timer_heap (fst st))
        in if h = 0 then Some st
           else if loop_time (fst st) < timeout (timers (fst st) h) then Some st
           else case uv_timer_stop h (fst st) of None \<Rightarrow> None
             | Some (_, lp) \<Rightarrow> (case uv_timer_again h lp of None \<Rightarrow> None | Some (_, lp) \<Rightarrow> f call (call (timer_cb (timers lp h)) h (lp, snd st)))) = Some y"
    obtain h lp1 lp2 where r: "timer_round (fst st) h lp1" "\<And>s :: 'a. restart_at_once (timer_cb (timers lp1 h)) h (lp1, s) = (lp2, s)"
      "loop_ok others lp2" "callable lp2" "due lp2 \<noteq> {}"
      by (rule restart_due [of others "fst st"]) (use Q in auto)
    then have "f call (lp2, snd st) = Some y" using run Q by (auto simp: timer_round_def Let_def)
    then show False using ih [of call "(lp2, snd st)" y] Q r(3-5) by simp
  qed
  then show ?thesis using assms by (cases "uv__run_timers restart_at_once (lp, s)") auto
qed

end
