(* ===== verification/Uv_Properties.thy ===== *)
theory Uv_Properties
  imports Uv_Timer_Run "HOL-Library.Multiset"
begin

text \<open>
  The properties of libuv's heap and timers.
\<close>

section \<open>The heap\<close>

text \<open>A client that inserts nodes one after the other, and one that takes the smallest node until the heap is empty.\<close>

primrec insert_all :: "heap_compare \<Rightarrow> addr list \<Rightarrow> heap_state \<Rightarrow> heap_state option" where
  "insert_all before [] st = Some st"
| "insert_all before (a # as) st = (case heap_insert a before st of None \<Rightarrow> None | Some st \<Rightarrow> insert_all before as st)"

primrec take_all :: "nat \<Rightarrow> heap_compare \<Rightarrow> heap_state \<Rightarrow> (addr list \<times> heap_state) option" where
  "take_all 0 before st = Some ([], st)"
| "take_all (Suc n) before st =
     (case heap_dequeue before st of
        None \<Rightarrow> None
      | Some st' \<Rightarrow> map_option (\<lambda>(as, st''). (heap_min st # as, st'')) (take_all n before st'))"

lemma insert_all_ok:
  assumes "heap_ok (timer_less_than ts) st A" and "distinct as" and "set as \<inter> A = {}" and "0 \<notin> set as" and "card A + length as < 2 ^ 32"
  shows "\<exists>st'. insert_all (timer_less_than ts) as st = Some st' \<and> heap_ok (timer_less_than ts) st' (A \<union> set as)"
  using assms
proof (induction as arbitrary: st A)
  case (Cons a as)
  have a: "a \<notin> A" "a \<noteq> 0" "Suc (card A) < 2 ^ 32" using Cons.prems(3-5) by auto
  obtain st1 where st1: "heap_insert a (timer_less_than ts) st = Some st1" "heap_ok (timer_less_than ts) st1 (insert a A)"
    using timer_order.insert_ok [OF Cons.prems(1) a] by blast
  have "finite A" by (rule heap_okE [OF Cons.prems(1)])
  then have "card (insert a A) + length as < 2 ^ 32" using Cons.prems(5) a(1) by simp
  then obtain st' where "insert_all (timer_less_than ts) as st1 = Some st'" "heap_ok (timer_less_than ts) st' (insert a A \<union> set as)"
    using Cons.IH [OF st1(2)] Cons.prems(2-4) by auto
  then show ?case using st1(1) by auto
qed simp

lemma take_all_ok:
  assumes "heap_ok (timer_less_than ts) st A" and "card A = n"
  shows "\<exists>as st'. take_all n (timer_less_than ts) st = Some (as, st') \<and> distinct as \<and> set as = A
    \<and> sorted_wrt (\<lambda>a b. \<not> timer_less_than ts b a) as \<and> heap_ok (timer_less_than ts) st' {}"
  using assms
proof (induction n arbitrary: st A)
  case 0
  have "finite A" by (rule heap_okE [OF 0(1)])
  then show ?case using 0 by simp
next
  case (Suc n)
  have fin: "finite A" by (rule heap_okE [OF Suc.prems(1)])
  have ne: "A \<noteq> {}" using Suc.prems(2) by auto
  let ?m = "heap_min st"
  note m = timer_order.min_ok(2) [OF Suc.prems(1) ne]
  obtain st1 where st1: "heap_dequeue (timer_less_than ts) st = Some st1" "heap_ok (timer_less_than ts) st1 (A - {?m})"
    using timer_order.dequeue_ok [OF Suc.prems(1) ne] by blast
  have "card (A - {?m}) = n" using Suc.prems(2) m by simp
  then obtain as st' where as: "take_all n (timer_less_than ts) st1 = Some (as, st')" "distinct as" "set as = A - {?m}"
    "sorted_wrt (\<lambda>a b. \<not> timer_less_than ts b a) as" "heap_ok (timer_less_than ts) st' {}"
    using Suc.IH [OF st1(2)] by blast
  moreover have "distinct (?m # as)" "set (?m # as) = A" "sorted_wrt (\<lambda>a b. \<not> timer_less_than ts b a) (?m # as)" using as(2-4) m by auto
  ultimately show ?case using st1(1) by (intro exI [of _ "?m # as"] exI [of _ st']) simp
qed

text \<open>
  C30: The heap is a priority queue: on a heap that holds the set \<open>A\<close> of nodes, \<open>heap_min\<close> gives a null pointer exactly when \<open>A\<close> is
  empty and otherwise a node of \<open>A\<close> that no other precedes; \<open>heap_insert\<close> and \<open>heap_remove\<close> return, with a heap that
  holds the set with the node and without it; \<open>heap_dequeue\<close> takes the smallest node.
\<close>

theorem heap_is_priority_queue:
  assumes "heap_ok (timer_less_than ts) st A"
  shows "(heap_min st = 0) = (A = {})
    \<and> (A \<noteq> {} \<longrightarrow> heap_min st \<in> A \<and> (\<forall>b \<in> A. \<not> timer_less_than ts b (heap_min st)))
    \<and> (a \<notin> A \<and> a \<noteq> 0 \<and> Suc (card A) < 2 ^ 32
        \<longrightarrow> (\<exists>st'. heap_insert a (timer_less_than ts) st = Some st' \<and> heap_ok (timer_less_than ts) st' (insert a A)))
    \<and> (a \<in> A \<longrightarrow> (\<exists>st'. heap_remove a (timer_less_than ts) st = Some st' \<and> heap_ok (timer_less_than ts) st' (A - {a})))
    \<and> (A \<noteq> {} \<longrightarrow> (\<exists>st'. heap_dequeue (timer_less_than ts) st = Some st' \<and> heap_ok (timer_less_than ts) st' (A - {heap_min st})))"
  using timer_order.min_ok [OF assms] timer_order.insert_ok [OF assms] timer_order.remove_ok [OF assms] timer_order.dequeue_ok [OF assms] by blast

definition no_nodes :: heap_state where
  "no_nodes = heap_init \<lparr>the_heap = \<lparr>heap_root = 7, nelts = 3\<rparr>, nodes = \<lambda>_. \<lparr>node_left = 0, node_right = 0, node_parent = 0\<rparr>\<rparr>"

definition times :: "addr \<Rightarrow> uv_timer" where
  "times h = \<lparr>timer_flags = UV_HANDLE_REF, timer_cb = 0, timeout = (if h = 16 then 40 else 90), timer_repeat = 0, start_id = ucast h\<rparr>"

theorem heap_is_priority_queue_witness:
  "\<exists>st. heap_insert 8 (timer_less_than times) no_nodes = Some st \<and> heap_ok (timer_less_than times) st {8}
    \<and> heap_min st = 8 \<and> (\<exists>st'. heap_remove 8 (timer_less_than times) st = Some st' \<and> heap_ok (timer_less_than times) st' {})"
proof -
  have ok: "heap_ok (timer_less_than times) no_nodes {}" by (simp add: no_nodes_def init_ok)
  obtain st where st: "heap_insert 8 (timer_less_than times) no_nodes = Some st" "heap_ok (timer_less_than times) st {8}"
    using heap_is_priority_queue [OF ok, of 8] by auto
  then show ?thesis using heap_is_priority_queue [OF st(2), of 8] by auto
qed

text \<open>
  C31: Inserting the nodes of a list into an empty heap and dequeuing as many gives the same nodes in the order of the
  comparison, for any list of fewer than \<open>2^32\<close> different nodes, and leaves the heap empty: no node is lost or doubled in the pointer surgery.
\<close>

theorem heap_sorts:
  assumes "distinct as" and "0 \<notin> set as" and "length as < 2 ^ 32"
  shows "\<exists>st1 bs st2. insert_all (timer_less_than ts) as (heap_init st) = Some st1
    \<and> take_all (length as) (timer_less_than ts) st1 = Some (bs, st2)
    \<and> mset bs = mset as \<and> sorted_wrt (\<lambda>a b. \<not> timer_less_than ts b a) bs \<and> heap_min st2 = 0"
proof -
  obtain st1 where st1: "insert_all (timer_less_than ts) as (heap_init st) = Some st1" "heap_ok (timer_less_than ts) st1 (set as)"
    using insert_all_ok [OF init_ok, of as ts st] assms by auto
  obtain bs st2 where bs: "take_all (length as) (timer_less_than ts) st1 = Some (bs, st2)" "distinct bs" "set bs = set as"
    "sorted_wrt (\<lambda>a b. \<not> timer_less_than ts b a) bs" "heap_ok (timer_less_than ts) st2 {}"
    using take_all_ok [OF st1(2) distinct_card [OF assms(1)]] by blast
  have "mset bs = mset as" using set_eq_iff_mset_eq_distinct [OF bs(2) assms(1)] bs(3) by simp
  then show ?thesis using st1(1) bs(1,4) timer_order.min_ok(1) [OF bs(5)] by blast
qed

theorem heap_sorts_witness:
  "\<exists>st1 bs st2. insert_all (timer_less_than times) [8, 24, 16] (heap_init no_nodes) = Some st1
    \<and> take_all 3 (timer_less_than times) st1 = Some (bs, st2) \<and> mset bs = mset [8, 24, 16]
    \<and> sorted_wrt (\<lambda>a b. \<not> timer_less_than times b a) bs \<and> heap_min st2 = 0"
proof -
  have "length [8, 24, 16 :: addr] = 3" by simp
  from heap_sorts [of "[8, 24, 16]" times no_nodes, unfolded this] show ?thesis by (simp del: insert_all.simps take_all.simps)
qed

section \<open>Timers\<close>

lemma due_time_unat: "unat (due_time now delay) = min (unat now + unat delay) (2 ^ 64 - 1)"
proof (cases "unat now + unat delay < 2 ^ 64")
  case True
  then have "unat (now + delay) = unat now + unat delay" by (simp add: unat_word_ariths)
  then show ?thesis using True by (simp add: due_time_def word_less_nat_alt)
next
  case False
  have b: "unat now < 2 ^ 64" "unat delay < 2 ^ 64" using unsigned_less [of now, where 'a = nat] unsigned_less [of delay, where 'a = nat] by simp_all
  have "unat (now + delay) = (unat now + unat delay) mod 2 ^ 64" by (simp add: unat_word_ariths)
  also have "\<dots> = unat now + unat delay - 2 ^ 64" using False b by (simp add: mod_if)
  finally have "unat (now + delay) < unat delay" using False b by simp
  then have "due_time now delay = - 1" by (simp add: due_time_def word_less_nat_alt)
  moreover have "unat (- 1 :: u64) = 2 ^ 64 - 1" by (simp add: unsigned_minus_1_eq_mask mask_eq_exp_minus_1)
  ultimately show ?thesis using False by simp
qed

text \<open>Every timer that is active has a callback and is not being closed.\<close>

lemma start_callable:
  assumes ok: "loop_ok others lp" and c: "callable lp" and h: "h \<noteq> 0" "Suc (card (running lp - {h})) < 2 ^ 32"
    and run: "uv_timer_start h cb delay interval lp = Some (r, lp')"
  shows "callable lp'"
proof (cases "uv__is_closing (timers lp h) \<or> cb = 0")
  case True
  then show ?thesis using run c by (simp add: uv_timer_start_def)
next
  case False
  let ?t = "on ((timers lp h)\<lparr>timer_cb := cb, timeout := due_time (loop_time lp) delay, timer_repeat := interval, start_id := timer_counter lp\<rparr>)"
  have lp': "running lp' = insert h (running lp)" "timers lp' = (timers lp)(h := ?t)" using start_ok [OF ok h, of cb delay interval] False run by auto
  have cl: "\<not> uv__is_closing (timers lp' h)" unfolding lp'(2)
    using False by (simp only: fun_upd_same on_closing) (simp add: uv__is_closing_def)
  have "timer_cb (timers lp' h) \<noteq> 0" using False lp'(2) by simp
  moreover have "timers lp' k = timers lp k" if "k \<noteq> h" for k using that lp'(2) by simp
  ultimately show ?thesis using c cl lp'(1) unfolding callable_def by (metis insert_iff)
qed

lemma stop_callable:
  assumes ok: "loop_ok others lp" and c: "callable lp" and run: "uv_timer_stop h lp = Some (r, lp')"
  shows "callable lp'"
proof -
  have "running lp' = running lp - {h}" "\<And>k. k \<noteq> h \<Longrightarrow> timers lp' k = timers lp k" using stop_ok [OF ok, of h] run by (auto split: if_splits)
  then show ?thesis using c by (simp add: callable_def)
qed

lemma perform_callable:
  assumes ok: "loop_ok others lp" and c: "callable lp" and a: "timer_allowed a lp" and run: "timer_perform a lp = Some lp'"
  shows "callable lp'"
proof (cases a)
  case (Init h)
  have "timers lp' k = timers lp k" if "k \<noteq> h" for k using that run Init by (auto simp: uv_timer_init_def set_timer_def)
  moreover have "h \<notin> running lp'" "h \<notin> running lp" using run Init a
    by (auto simp: uv_timer_init_def set_timer_def running_def uv__is_active_def UV_HANDLE_REF_def UV_HANDLE_ACTIVE_def)
  ultimately show ?thesis using c unfolding callable_def running_def by (metis mem_Collect_eq)
next
  case (Start h cb delay interval)
  then show ?thesis using start_callable [OF ok c] a run by auto
next
  case (Stop h)
  then show ?thesis using stop_callable [OF ok c] run by auto
next
  case (Again h)
  show ?thesis
  proof (cases "timer_cb (timers lp h) = 0 \<or> timer_repeat (timers lp h) = 0")
    case True
    then have "lp' = lp" using run Again by (auto simp: uv_timer_again_def split: if_splits)
    then show ?thesis using c by simp
  next
    case False
    obtain lp1 where lp1: "uv_timer_stop h lp = Some (0, lp1)" "loop_ok others lp1" "running lp1 = running lp - {h}" using stop_ok [OF ok, of h] by auto
    obtain r where "uv_timer_start h (timer_cb (timers lp1 h)) (timer_repeat (timers lp1 h)) (timer_repeat (timers lp1 h)) lp1 = Some (r, lp')"
      using False run Again lp1(1) by (auto simp: uv_timer_again_def Let_def split: option.splits)
    moreover have "h \<noteq> 0" "Suc (card (running lp1 - {h})) < 2 ^ 32" using a Again lp1(3) by simp_all
    ultimately show ?thesis using start_callable [OF lp1(2) stop_callable [OF ok c lp1(1)]] by blast
  qed
next
  case (Set_repeat h interval)
  then show ?thesis using c run by (auto simp: callable_def running_def uv_timer_set_repeat_def set_timer_def uv__is_active_def uv__is_closing_def split: if_splits)
next
  case (Close h)
  then show ?thesis using stop_callable [OF ok c] run by (auto simp: uv__timer_close_def)
next
  case (Advance now)
  then show ?thesis using c run by (auto simp: callable_def running_def)
qed

lemma reach_callable: "loop_reach others lp \<Longrightarrow> callable lp"
proof (induction rule: loop_reach.induct)
  case (start ts others hs now)
  then show ?case by (simp add: callable_def running_def)
next
  case (act others lp a lp')
  then show ?case using perform_callable [OF loop_reach_ok] by blast
qed

text \<open>A loop to try the properties on: it has no timer that runs.\<close>

definition fresh_loop :: uv_loop where
  "fresh_loop = \<lparr>timer_heap = heap_init no_nodes, timers = times, timer_counter = 0, loop_time = 50, active_handles = 3\<rparr>"

lemma fresh_reach: "loop_reach 3 fresh_loop" and fresh_running: "running fresh_loop = {}"
proof -
  have off: "\<not> uv__is_active (times h)" for h by (simp add: times_def uv__is_active_def UV_HANDLE_REF_def UV_HANDLE_ACTIVE_def)
  then show "loop_reach 3 fresh_loop" unfolding fresh_loop_def by (intro loop_reach.start) simp
  show "running fresh_loop = {}" using off by (simp add: running_def fresh_loop_def)
qed

text \<open>The same with two timers: one is due, and repeats; the other is later.\<close>

lemma two_timers:
  "\<exists>lp. loop_reach 3 lp \<and> running lp = {8, 16} \<and> loop_time lp = 50 \<and> timeout (timers lp 8) = 50 \<and> timeout (timers lp 16) = 60
    \<and> timer_repeat (timers lp 8) = 7 \<and> timer_repeat (timers lp 16) = 0 \<and> timer_cb (timers lp 8) = 256
    \<and> \<not> uv__is_closing (timers lp 24)"
proof -
  have nc: "\<not> uv__is_closing (times h)" for h by (simp add: times_def uv__is_closing_def UV_HANDLE_REF_def UV_HANDLE_CLOSING_def UV_HANDLE_CLOSED_def)
  have "\<exists>lp. uv_timer_start 8 256 0 7 fresh_loop = Some (0, lp) \<and> loop_ok 3 lp \<and> running lp = {8}
    \<and> timers lp = times(8 := on ((times 8)\<lparr>timer_cb := 256, timeout := due_time 50 0, timer_repeat := 7, start_id := 0\<rparr>))
    \<and> loop_time lp = 50 \<and> timer_counter lp = 1"
    using start_ok [OF loop_reach_ok [OF fresh_reach], of 8 256 0 7] nc unfolding fresh_running by (simp add: fresh_loop_def)
  then obtain lp1 where lp1: "uv_timer_start 8 256 0 7 fresh_loop = Some (0, lp1)" "loop_ok 3 lp1" "running lp1 = {8}"
    "timers lp1 = times(8 := on ((times 8)\<lparr>timer_cb := 256, timeout := due_time 50 0, timer_repeat := 7, start_id := 0\<rparr>))" "loop_time lp1 = 50" by blast
  have r1: "loop_reach 3 lp1" by (rule loop_reach.act [OF fresh_reach, of "Start 8 256 0 7"]) (simp_all add: fresh_running lp1(1))
  have "\<exists>lp. uv_timer_start 16 257 10 0 lp1 = Some (0, lp) \<and> running lp = {8, 16}
    \<and> timers lp = (timers lp1)(16 := on ((timers lp1 16)\<lparr>timer_cb := 257, timeout := due_time 50 10, timer_repeat := 0, start_id := timer_counter lp1\<rparr>))
    \<and> loop_time lp = 50"
    using start_ok [OF lp1(2), of 16 257 10 0] nc [of 16] by (auto simp: lp1(3-5) insert_commute)
  then obtain lp2 where lp2: "uv_timer_start 16 257 10 0 lp1 = Some (0, lp2)" "running lp2 = {8, 16}"
    "timers lp2 = (timers lp1)(16 := on ((timers lp1 16)\<lparr>timer_cb := 257, timeout := due_time 50 10, timer_repeat := 0, start_id := timer_counter lp1\<rparr>))"
    "loop_time lp2 = 50" by blast
  have "loop_reach 3 lp2" by (rule loop_reach.act [OF r1, of "Start 16 257 10 0"]) (simp_all add: lp1(3) lp2(1))
  then show ?thesis using lp2(2,4) using nc [of 24] by (intro exI [of _ lp2]) (simp add: lp2(3) lp1(4) due_time_def)
qed

text \<open>
  C32: Whatever calls a client makes on the timers of a loop (initialising one that does not run, starting, stopping, restarting,
  changing the interval, closing, and letting time pass): the heap holds exactly the active timers, ordered; the count of active
  handles is that of the other handles plus the active timers with a reference; active timers have a callback and are not
  closing; and every further call returns.
\<close>

theorem timers_invariant:
  assumes "loop_reach others lp"
  shows "heap_ok (timer_less_than (timers lp)) (timer_heap lp) (running lp)
    \<and> active_handles lp = others + of_nat (card {h \<in> running lp. uv__has_ref (timers lp h)})
    \<and> (\<forall>h \<in> running lp. h \<noteq> 0 \<and> \<not> uv__is_closing (timers lp h) \<and> timer_cb (timers lp h) \<noteq> 0)
    \<and> (timer_allowed a lp \<longrightarrow> (\<exists>lp'. timer_perform a lp = Some lp' \<and> loop_reach others lp'))"
proof -
  have ok: "loop_ok others lp" by (rule loop_reach_ok [OF assms])
  have "\<forall>h \<in> running lp. h \<noteq> 0 \<and> \<not> uv__is_closing (timers lp h) \<and> timer_cb (timers lp h) \<noteq> 0"
    using reach_callable [OF assms] running_finite [OF ok] by (auto simp: callable_def)
  moreover have "\<exists>lp'. timer_perform a lp = Some lp' \<and> loop_reach others lp'" if "timer_allowed a lp"
    using timer_perform_ok [OF ok that] loop_reach.act [OF assms that] by blast
  ultimately show ?thesis using ok by (simp add: loop_ok_def)
qed

theorem timers_invariant_witness:
  "\<exists>lp. loop_reach 3 lp \<and> running lp = {8, 16} \<and> heap_ok (timer_less_than (timers lp)) (timer_heap lp) {8, 16}
    \<and> (\<exists>lp'. timer_perform (Again 8) lp = Some lp' \<and> loop_reach 3 lp')"
proof -
  obtain lp where lp: "loop_reach 3 lp" "running lp = {8, 16}" using two_timers by blast
  then have "timer_allowed (Again 8) lp" by (simp add: insert_Diff_if)
  then show ?thesis using timers_invariant [OF lp(1), of "Again 8"] lp by (intro exI [of _ lp]) simp
qed

text \<open>
  C33: Starting a timer, on every branch: a timer that is closing, or a null callback, is refused and nothing changes; otherwise
  the timer runs, whether it did before or not, with the given callback and interval; its time is the time of the loop
  plus the delay, or the largest one when that sum wraps around; no other timer changes.
\<close>

theorem uv_timer_start_exact:
  assumes "loop_reach others lp" and "h \<noteq> 0" and "Suc (card (running lp - {h})) < 2 ^ 32"
  shows "if uv__is_closing (timers lp h) \<or> cb = 0 then uv_timer_start h cb delay interval lp = Some (UV_EINVAL, lp)
    else \<exists>lp'. uv_timer_start h cb delay interval lp = Some (0, lp') \<and> running lp' = insert h (running lp)
      \<and> (\<forall>k. k \<noteq> h \<longrightarrow> timers lp' k = timers lp k)
      \<and> timer_cb (timers lp' h) = cb \<and> timer_repeat (timers lp' h) = interval \<and> start_id (timers lp' h) = timer_counter lp
      \<and> unat (timeout (timers lp' h)) = min (unat (loop_time lp) + unat delay) (2 ^ 64 - 1)
      \<and> timer_counter lp' = timer_counter lp + 1 \<and> loop_time lp' = loop_time lp"
proof -
  have t: "unat (due_time (loop_time lp) delay) = min (unat (loop_time lp) + unat delay) (2 ^ 64 - 1)" by (rule due_time_unat)
  show ?thesis
  proof (cases "uv__is_closing (timers lp h) \<or> cb = 0")
    case True
    then show ?thesis by (simp add: uv_timer_start_def)
  next
    case False
    obtain lp' where "uv_timer_start h cb delay interval lp = Some (0, lp')" "running lp' = insert h (running lp)"
      "timers lp' = (timers lp)(h := on ((timers lp h)\<lparr>timer_cb := cb, timeout := due_time (loop_time lp) delay, timer_repeat := interval, start_id := timer_counter lp\<rparr>))"
      "loop_time lp' = loop_time lp" "timer_counter lp' = timer_counter lp + 1"
      using start_ok [OF loop_reach_ok [OF assms(1)] assms(2,3), of cb delay interval] False by blast
    then show ?thesis using False t by (simp only: if_False) (intro exI [of _ lp'], simp)
  qed
qed

theorem uv_timer_start_exact_witness:
  "\<exists>lp lp'. loop_reach 3 lp \<and> uv_timer_start 24 258 (- 1) 5 lp = Some (0, lp') \<and> running lp' = {8, 16, 24}
    \<and> unat (timeout (timers lp' 24)) = 2 ^ 64 - 1"
proof -
  obtain lp where lp: "loop_reach 3 lp" "running lp = {8, 16}" "loop_time lp = 50" "\<not> uv__is_closing (timers lp 24)" using two_timers by blast
  have "running lp - {24} = {8, 16}" using lp(2) by auto
  then have "Suc (card (running lp - {24})) < 2 ^ 32" by simp
  from uv_timer_start_exact [OF lp(1) _ this, of 258 "- 1" 5] obtain lp' where "uv_timer_start 24 258 (- 1) 5 lp = Some (0, lp')"
    "running lp' = {8, 16, 24}" "unat (timeout (timers lp' 24)) = min (unat (loop_time lp) + unat (- 1 :: u64)) (2 ^ 64 - 1)" using lp(2,4) by auto
  moreover have "unat (- 1 :: u64) = 2 ^ 64 - 1" by (simp add: unsigned_minus_1_eq_mask mask_eq_exp_minus_1)
  ultimately show ?thesis using lp(1) by auto
qed

text \<open>
  C34: The time that the loop may wait: none is indefinitely, when no timer is active; otherwise it is the distance from
  the time of the loop to the earliest time of an active timer, zero if that has passed, and at most the largest \<open>int\<close>.
\<close>

theorem uv__next_timeout_exact:
  assumes "loop_reach others lp"
  shows "uv__next_timeout lp = (if running lp = {} then - 1
    else min 0x7FFFFFFF (max 0 (uint (Min ((\<lambda>h. timeout (timers lp h)) ` running lp)) - uint (loop_time lp))))"
  by (rule next_timeout_exact [OF loop_reach_ok [OF assms]])

theorem uv__next_timeout_exact_witness:
  "uv__next_timeout fresh_loop = - 1
    \<and> (\<exists>lp. loop_reach 3 lp \<and> running lp = {8, 16} \<and> loop_time lp = 50 \<and> uv__next_timeout lp = 0)"
proof -
  obtain lp where lp: "loop_reach 3 lp" "running lp = {8, 16}" "loop_time lp = 50" "timeout (timers lp 8) = 50" "timeout (timers lp 16) = 60"
    using two_timers by blast
  then have "uv__next_timeout lp = 0" using uv__next_timeout_exact [OF lp(1)] by (simp add: min_def)
  then show ?thesis using uv__next_timeout_exact [OF fresh_reach] fresh_running lp(1-3) by auto
qed

text \<open>
  C35: \<open>uv__run_timers\<close> returns when the callbacks leave the loop alone and the clock is not at its very end: each timer that was due is
  called exactly once, with the callback it was started with, the earlier ones first and of equal times the one that was
  started first; the others are not called; those that repeat are active again, later than now, the rest are stopped.
\<close>

theorem uv__run_timers_calls_due:
  assumes "loop_reach others lp" and "loop_time lp \<noteq> - 1"
  shows "\<exists>lp' hs. uv__run_timers (\<lambda>cb h (lp, s). (lp, g cb h s)) (lp, s) = Some (lp', fold (\<lambda>h. g (timer_cb (timers lp h)) h) hs s)
    \<and> distinct hs \<and> set hs = {h \<in> running lp. timeout (timers lp h) \<le> loop_time lp}
    \<and> sorted_wrt (\<lambda>a b. \<not> timer_less_than (timers lp) b a) hs
    \<and> running lp' = running lp - {h \<in> set hs. timer_repeat (timers lp h) = 0}
    \<and> (\<forall>h \<in> running lp'. loop_time lp' < timeout (timers lp' h)) \<and> loop_time lp' = loop_time lp"
proof -
  obtain lp' hs where r: "uv__run_timers (\<lambda>cb h (lp, s). (lp, g cb h s)) (lp, s) = Some (lp', fold (\<lambda>h. g (timer_cb (timers lp h)) h) hs s)"
    "distinct hs" "set hs = due lp" "sorted_wrt (\<lambda>a b. \<not> timer_less_than (timers lp) b a) hs"
    "running lp' = running lp - {h \<in> due lp. timer_repeat (timers lp h) = 0}" "due lp' = {}" "loop_time lp' = loop_time lp"
    using run_timers_fold [OF loop_reach_ok [OF assms(1)] reach_callable [OF assms(1)] assms(2), of g s] by blast
  have "loop_time lp' < timeout (timers lp' h)" if "h \<in> running lp'" for h using r(6) that unfolding due_def by force
  moreover have "set hs = {h \<in> running lp. timeout (timers lp h) \<le> loop_time lp}" using r(3) by (simp only: due_def)
  moreover have "running lp' = running lp - {h \<in> set hs. timer_repeat (timers lp h) = 0}" using r(5) by (simp only: r(3))
  ultimately show ?thesis using r(1,2,4,7) by (intro exI [of _ lp'] exI [of _ hs] conjI ballI)
qed

theorem uv__run_timers_calls_due_witness:
  "\<exists>lp lp'. loop_reach 3 lp \<and> running lp = {8, 16}
    \<and> uv__run_timers (\<lambda>cb h (lp, s). (lp, s @ [(cb, h)])) (lp, []) = Some (lp', [(256, 8)]) \<and> running lp' = {8, 16}"
proof -
  obtain lp where lp: "loop_reach 3 lp" "running lp = {8, 16}" "loop_time lp = 50" "timeout (timers lp 8) = 50" "timeout (timers lp 16) = 60"
    "timer_repeat (timers lp 8) = 7" "timer_cb (timers lp 8) = 256" using two_timers by blast
  have "loop_time lp \<noteq> - 1" using lp(3) by simp
  from uv__run_timers_calls_due [OF lp(1) this, of "\<lambda>cb h s. s @ [(cb, h)]" "[]"] obtain lp' hs where r:
    "uv__run_timers (\<lambda>cb h (lp, s). (lp, s @ [(cb, h)])) (lp, []) = Some (lp', fold (\<lambda>h s. s @ [(timer_cb (timers lp h), h)]) hs [])"
    "distinct hs" "set hs = {h \<in> running lp. timeout (timers lp h) \<le> loop_time lp}"
    "running lp' = running lp - {h \<in> set hs. timer_repeat (timers lp h) = 0}" by blast
  have "set hs = {8}" using lp(2-5) r(3) by auto
  then have "hs = [8]" using r(2) by (cases hs; cases "tl hs") auto
  then have "running lp' = {8, 16}" using r(4) lp(2,6) by auto
  then show ?thesis using r(1) lp(1,2,7) \<open>hs = [8]\<close> by (intro exI [of _ lp] exI [of _ lp'] conjI) simp_all
qed

text \<open>
  C36: \<open>uv__run_timers\<close> does not return when a timer is due and each callback starts its own timer again without a delay: the
  timer that was started is due at once and is run by the same call, for ever.
\<close>

theorem uv__run_timers_may_not_return:
  assumes "loop_reach others lp" and "h \<in> running lp" and "timeout (timers lp h) \<le> loop_time lp"
  shows "uv__run_timers restart_at_once (lp, s) = None"
proof -
  have "due lp \<noteq> {}" using assms(2,3) by (auto simp: due_def)
  then show ?thesis by (rule run_forever [OF loop_reach_ok [OF assms(1)] reach_callable [OF assms(1)]])
qed

theorem uv__run_timers_may_not_return_witness:
  "\<exists>lp. loop_reach 3 lp \<and> running lp = {8, 16} \<and> uv__run_timers restart_at_once (lp, ()) = None"
proof -
  obtain lp where lp: "loop_reach 3 lp" "running lp = {8, 16}" "loop_time lp = 50" "timeout (timers lp 8) = 50" using two_timers by blast
  then show ?thesis using uv__run_timers_may_not_return [OF lp(1), of 8 "()"] by (intro exI [of _ lp]) simp
qed

end
