(* ===== verification/Uv_Idna.thy ===== *)
theory Uv_Idna
  imports Uv_Common
begin

text \<open>
  libuv's conversion of host names to ASCII (\<open>src/idna.c\<close>): a decoder of UTF-8 and the Punycode encoder, which \<open>uv_getaddrinfo\<close>
  calls. The characters that the program may read are a list of bytes; a pointer into them is an index, and reading past their
  end gives \<open>None\<close>. The output is the list of bytes written so far, of at most \<open>de\<close>.
\<close>

definition byte_at :: "u8 list \<Rightarrow> nat \<Rightarrow> u32 option" where
  "byte_at buf p = (if p < length buf then Some (ucast (buf ! p)) else None)"

section \<open>The decoder\<close>

text \<open>What follows the \<open>switch\<close>: the bytes \<open>b\<close>, \<open>c\<close> and \<open>d\<close> are joined and checked.\<close>

definition decode_check :: "u32 \<Rightarrow> u32 \<Rightarrow> u32 \<Rightarrow> u32 \<Rightarrow> u32 \<Rightarrow> u32" where
  "decode_check least a b c d =
     (if 0xC0 AND (b XOR c XOR d) \<noteq> 0x80 then - 1
      else let a = push_bit 18 a OR push_bit 12 (b AND 63) OR push_bit 6 (c AND 63) OR (d AND 63)
        in if a < least then - 1
           else if a > 0x10FFFF then - 1
           else if a \<ge> 0xD800 \<and> a \<le> 0xDFFF then - 1
           else a)"

text \<open>The labels of the \<open>switch\<close>; each falls through to the next.\<close>

definition decode_case1 :: "u8 list \<Rightarrow> nat \<Rightarrow> u32 \<Rightarrow> (u32 \<times> nat) option" where
  "decode_case1 buf p a =
     (if a > 0xBF then
        case byte_at buf p of None \<Rightarrow> None | Some d \<Rightarrow> Some (decode_check 0x80 0 0x80 (0x80 OR (a AND 31)) d, p + 1)
      else Some (- 1, p))"

definition decode_case2 :: "u8 list \<Rightarrow> nat \<Rightarrow> u32 \<Rightarrow> (u32 \<times> nat) option" where
  "decode_case2 buf p a =
     (if a > 0xDF then
        case byte_at buf p of None \<Rightarrow> None | Some c \<Rightarrow>
        (case byte_at buf (p + 1) of None \<Rightarrow> None | Some d \<Rightarrow> Some (decode_check 0x800 0 (0x80 OR (a AND 15)) c d, p + 2))
      else decode_case1 buf p a)"

definition decode_default :: "u8 list \<Rightarrow> nat \<Rightarrow> u32 \<Rightarrow> (u32 \<times> nat) option" where
  "decode_default buf p a =
     (if a > 0xEF then
        case byte_at buf p of None \<Rightarrow> None | Some b \<Rightarrow>
        (case byte_at buf (p + 1) of None \<Rightarrow> None | Some c \<Rightarrow>
        (case byte_at buf (p + 2) of None \<Rightarrow> None | Some d \<Rightarrow> Some (decode_check 0x10000 (a AND 7) b c d, p + 3)))
      else decode_case2 buf p a)"

definition uv__utf8_decode1_slow :: "u8 list \<Rightarrow> nat \<Rightarrow> nat \<Rightarrow> u32 \<Rightarrow> (u32 \<times> nat) option" where
  "uv__utf8_decode1_slow buf p pe a =
     (if a > 0xF7 then Some (- 1, p)
      else let left = int p - int pe
        in if left = 2 then decode_case2 buf p a else if left = 1 then decode_case1 buf p a else decode_default buf p a)"

definition uv__utf8_decode1 :: "u8 list \<Rightarrow> nat \<Rightarrow> nat \<Rightarrow> (u32 \<times> nat) option" where
  "uv__utf8_decode1 buf p pe =
     (case byte_at buf p of
        None \<Rightarrow> None
      | Some a \<Rightarrow> if a < 128 then Some (a, p + 1) else uv__utf8_decode1_slow buf (p + 1) pe a)"

lemma decode_progress: "uv__utf8_decode1 buf p pe = Some (c, p') \<Longrightarrow> p < p'"
  by (auto simp: uv__utf8_decode1_def uv__utf8_decode1_slow_def decode_default_def decode_case2_def decode_case1_def Let_def
      split: option.splits if_splits)

section \<open>The loop over the code points of a label\<close>

datatype 's flow = Next 's | Break 's | Exit int 's

text \<open>The result is \<open>Inr\<close> when the loop has ended, \<open>Inl\<close> when its body has returned from the function.\<close>

function foreach_codepoint :: "(u32 \<Rightarrow> 's \<Rightarrow> 's flow) \<Rightarrow> u8 list \<Rightarrow> nat \<Rightarrow> nat \<Rightarrow> 's \<Rightarrow> (int \<times> 's + 's) option" where
  "foreach_codepoint body buf pe p s =
     (if p \<le> pe then
        case uv__utf8_decode1 buf p pe of
          None \<Rightarrow> None
        | Some (c, p') \<Rightarrow>
            if p' \<le> pe then
              (case body c s of
                 Next s' \<Rightarrow> foreach_codepoint body buf pe p' s'
               | Break s' \<Rightarrow> Some (Inr s')
               | Exit r s' \<Rightarrow> Some (Inl (r, s')))
            else Some (Inr s)
      else Some (Inr s))"
  by auto
termination
  by (relation "measure (\<lambda>(body, buf, pe, p, s). Suc pe - p)") (auto dest!: decode_progress)

declare foreach_codepoint.simps [simp del]

section \<open>The encoder\<close>

definition put_byte :: "nat \<Rightarrow> u8 \<Rightarrow> u8 list \<Rightarrow> u8 list" where
  "put_byte de b out = (if length out < de then out @ [b] else out)"

definition alphabet :: "u8 list" where
  "alphabet = map (\<lambda>i. of_nat (97 + i)) [0..<26] @ map (\<lambda>i. of_nat (48 + i)) [0..<10]"

text \<open>The digits of a number; the result is the last one, and the output.\<close>

function digit_loop :: "u32 \<Rightarrow> nat \<Rightarrow> u32 \<Rightarrow> u32 \<Rightarrow> u8 list \<Rightarrow> u32 \<times> u8 list" where
  "digit_loop bias de k q out =
     (let t = (if k > bias then k - bias else 1);
          t = (if t > 26 then 26 else t)
      in if q < t then (q, out)
         else let x = q - t; y = 36 - t; q = x div y; t = t + x mod y
           in digit_loop bias de (k + 36) q (put_byte de (alphabet ! unat t) out))"
  by auto
termination
proof (relation "measure (\<lambda>(bias, de, k, q, out). unat q)", simp)
  fix bias k q t t' x y q' :: u32 and de t'' and out :: "u8 list"
  assume "t = (if k > bias then k - bias else 1)" "t' = (if t > 26 then 26 else t)" "\<not> q < t'" "x = q - t'" "y = 36 - t'" "q' = x div y"
  moreover have "k - bias \<noteq> 0" if "k > bias" using that by auto
  ultimately have t: "1 \<le> unat t'" "unat t' \<le> 26" "unat t' \<le> unat q"
    by (auto simp: word_le_nat_alt word_less_nat_alt not_less unat_gt_0 Suc_le_eq split: if_splits)
  have "unat x = unat q - unat t'" using \<open>x = _\<close> t(3) by (simp add: unat_sub word_le_nat_alt)
  moreover have "unat q' \<le> unat x" using \<open>q' = _\<close> by (simp add: unat_div)
  ultimately show "((bias, de, k + 36, q', put_byte de (alphabet ! unat t'') out), (bias, de, k, q, out)) \<in> measure (\<lambda>(bias, de, k, q, out). unat q)"
    using t by simp
qed

declare digit_loop.simps [simp del]

function bias_loop :: "u32 \<Rightarrow> u32 \<Rightarrow> u32 \<times> u32" where
  "bias_loop bias delta = (if delta > 35 * 26 div 2 then bias_loop (bias + 36) (delta div 35) else (bias, delta))"
  by auto
termination
  by (relation "measure (\<lambda>(bias, delta). unat delta)") (auto simp: unat_div word_less_nat_alt)

declare bias_loop.simps [simp del]

record puny =
  puny_delta :: u32
  puny_h :: u32
  puny_bias :: u32
  puny_first :: bool
  puny_todo :: u32
  puny_out :: "u8 list"

text \<open>What is done for a code point that is the next to encode.\<close>

definition emit_delta :: "nat \<Rightarrow> puny \<Rightarrow> puny" where
  "emit_delta de st =
     (case digit_loop (puny_bias st) de 36 (puny_delta st) (puny_out st) of
        (q, out) \<Rightarrow>
          let out = put_byte de (alphabet ! unat q) out;
              delta = puny_delta st div 2;
              delta = (if puny_first st then delta div 350 else delta);
              h = puny_h st + 1;
              delta = delta + delta div h
          in case bias_loop 0 delta of
               (bias, delta) \<Rightarrow>
                 \<lparr>puny_delta = 0, puny_h = h, puny_bias = bias + 36 * delta div (delta + 38), puny_first = False,
                  puny_todo = puny_todo st - 1, puny_out = out\<rparr>)"

definition encode_body :: "nat \<Rightarrow> u32 \<Rightarrow> u32 \<Rightarrow> puny \<Rightarrow> puny flow" where
  "encode_body de n c st =
     (let st' = (if c < n then st\<lparr>puny_delta := puny_delta st + 1\<rparr> else st)
      in if c < n \<and> puny_delta st' = 0 then Exit UV_E2BIG st'
         else if c \<noteq> n then Next st'
         else Next (emit_delta de st'))"

definition least_body :: "u32 \<Rightarrow> u32 \<Rightarrow> u32 \<Rightarrow> u32 flow" where
  "least_body n c m = Next (if c \<ge> n then if c < m then c else m else m)"

partial_function (option) encode_loop :: "u8 list \<Rightarrow> nat \<Rightarrow> nat \<Rightarrow> nat \<Rightarrow> u32 \<Rightarrow> puny \<Rightarrow> (int \<times> u8 list) option" where
  [code]: "encode_loop buf ss se de n st =
     (if puny_todo st = 0 then Some (0, puny_out st)
      else case foreach_codepoint (least_body n) buf se ss (- 1) of
        None \<Rightarrow> None
      | Some r \<Rightarrow>
          let m = case_sum snd id r; x = m - n; y = puny_h st + 1
          in if x > NOT (puny_delta st) div y then Some (UV_E2BIG, puny_out st)
             else case foreach_codepoint (encode_body de m) buf se ss (st\<lparr>puny_delta := puny_delta st + x * y\<rparr>) of
               None \<Rightarrow> None
             | Some (Inl (rc, st)) \<Rightarrow> Some (rc, puny_out st)
             | Some (Inr st) \<Rightarrow> encode_loop buf ss se de (m + 1) (st\<lparr>puny_delta := puny_delta st + 1\<rparr>))"

definition count_body :: "u32 \<Rightarrow> u32 \<times> u32 \<Rightarrow> (u32 \<times> u32) flow" where
  "count_body c st =
     (case st of (h, todo) \<Rightarrow> if c < 128 then Next (h + 1, todo) else if c = - 1 then Exit UV_EINVAL (h, todo) else Next (h, todo + 1))"

definition copy_body :: "nat \<Rightarrow> u32 \<Rightarrow> u32 \<Rightarrow> u32 \<times> u8 list \<Rightarrow> (u32 \<times> u8 list) flow" where
  "copy_body de h c st =
     (case st of (x, out) \<Rightarrow>
        if c > 127 then Next (x, out)
        else let out = put_byte de (ucast c) out; x = x + 1 in if x = h then Break (x, out) else Next (x, out))"

definition uv__idna_toascii_label :: "u8 list \<Rightarrow> nat \<Rightarrow> nat \<Rightarrow> nat \<Rightarrow> u8 list \<Rightarrow> (int \<times> u8 list) option" where
  "uv__idna_toascii_label buf s se de out =
     (case foreach_codepoint count_body buf se s (0, 0) of
        None \<Rightarrow> None
      | Some (Inl (rc, _)) \<Rightarrow> Some (rc, out)
      | Some (Inr (h, todo)) \<Rightarrow>
          let out = (if todo > 0 then put_byte de 0x2D (put_byte de 0x2D (put_byte de 0x6E (put_byte de 0x78 out))) else out)
          in case foreach_codepoint (copy_body de h) buf se s (0, out) of
               None \<Rightarrow> None
             | Some r \<Rightarrow>
                 let out = snd (case_sum snd id r)
                 in if todo = 0 then Some (sint h, out)
                    else let out = (if h > 0 then put_byte de 0x2D out else out)
                      in encode_loop buf s se de 128
                           \<lparr>puny_delta = 0, puny_h = h, puny_bias = 72, puny_first = True, puny_todo = todo, puny_out = out\<rparr>)"

section \<open>The labels of a name\<close>

text \<open>The result of the loop is the start of the last label, or the error that ends the call.\<close>

function label_loop :: "u8 list \<Rightarrow> nat \<Rightarrow> nat \<Rightarrow> nat \<Rightarrow> nat \<Rightarrow> u8 list \<Rightarrow> ((int + nat) \<times> u8 list) option" where
  "label_loop buf se de si s out =
     (if si < se then
        case uv__utf8_decode1 buf si se of
          None \<Rightarrow> None
        | Some (c, si') \<Rightarrow>
            if c \<noteq> 0x2E \<and> c \<noteq> 0x3002 \<and> c \<noteq> 0xFF0E \<and> c \<noteq> 0xFF61 then label_loop buf se de si' s out
            else (case uv__idna_toascii_label buf s si de out of
              None \<Rightarrow> None
            | Some (rc, out) \<Rightarrow> if rc < 0 then Some (Inl rc, out) else label_loop buf se de si' si' (put_byte de 0x2E out))
      else Some (Inr s, out))"
  by auto
termination
  by (relation "measure (\<lambda>(buf, se, de, si, s, out). se - si)") (auto dest!: decode_progress)

declare label_loop.simps [simp del]

definition uv__idna_toascii :: "u8 list \<Rightarrow> nat \<Rightarrow> nat \<Rightarrow> nat \<Rightarrow> (int \<times> u8 list) option" where
  "uv__idna_toascii buf s se de =
     (case label_loop buf se de s s [] of
        None \<Rightarrow> None
      | Some (Inl rc, out) \<Rightarrow> Some (rc, out)
      | Some (Inr s, out) \<Rightarrow>
          (case (if s < se then uv__idna_toascii_label buf s se de out else Some (0, out)) of
             None \<Rightarrow> None
           | Some (rc, out) \<Rightarrow>
               if rc < 0 then Some (rc, out)
               else let out = put_byte de 0 out in Some (int (length out), out)))"

end
