(* ===== verification/Uv_Idna_Decode.thy ===== *)
theory Uv_Idna_Decode
  imports Uv_Idna Unicode
begin

text \<open>
  What libuv's decoder of UTF-8 does on the shortest encoding of a code point, which is the one of \<open>Unicode\<close>, and on other bytes.
\<close>

definition scalar :: "u32 \<Rightarrow> bool" where
  "scalar u \<longleftrightarrow> u \<le> 0x10FFFF \<and> \<not> (0xD800 \<le> u \<and> u \<le> 0xDFFF)"

text \<open>The check of the three bytes.\<close>

lemma low_field:
  fixes x :: u32
  assumes "take_bit 6 x = x"
  shows "(0x80 OR x) AND 63 = x" "0xC0 AND (0x80 OR x) = 0x80"
proof -
  have m: "(mask 6 :: u32) = 63" by (simp add: mask_eq_exp_minus_1)
  show "(0x80 OR x) AND 63 = x" using field_bits(1) [of "0x80 :: u32" 6 x] assms by (simp add: m)
  have "0xC0 AND x = 0xC0 AND (x AND 63)" using assms by (simp add: take_bit_eq_mask m)
  also have "\<dots> = (0xC0 AND 63) AND x" by (simp only: and.assoc and.commute and.left_commute)
  finally have "0xC0 AND x = 0" by simp
  then show "0xC0 AND (0x80 OR x) = 0x80" by (simp add: bit.conj_disj_distrib)
qed

definition joined :: "u32 \<Rightarrow> u32 \<Rightarrow> u32" where
  "joined least v = (if v < least \<or> \<not> scalar v then - 1 else v)"

lemma check_joined:
  "0xC0 AND (b XOR c XOR d) = 0x80 \<Longrightarrow>
    decode_check least a b c d = joined least (push_bit 18 a OR push_bit 12 (b AND 63) OR push_bit 6 (c AND 63) OR (d AND 63))"
  by (auto simp: decode_check_def joined_def scalar_def Let_def not_le)

lemma check_fields:
  assumes "take_bit 6 b = b" "take_bit 6 c = c" "take_bit 6 d = d"
  shows "decode_check least a (0x80 OR b) (0x80 OR c) (0x80 OR d) = joined least (push_bit 18 a OR push_bit 12 b OR push_bit 6 c OR d)"
proof -
  have "0xC0 AND ((0x80 OR b) XOR (0x80 OR c) XOR (0x80 OR d)) = 0x80"
    unfolding bit.conj_xor_distrib low_field(2) [OF assms(1)] low_field(2) [OF assms(2)] low_field(2) [OF assms(3)] by simp
  from check_joined [OF this] show ?thesis unfolding low_field(1) [OF assms(1)] low_field(1) [OF assms(2)] low_field(1) [OF assms(3)] .
qed

text \<open>The byte that starts a sequence.\<close>

lemma lead_field:
  fixes a y :: u8
  assumes a: "a AND mask j = 0" "unat a + 2 ^ j \<le> 256" and y: "take_bit j y = y" and j: "j \<le> 8"
  shows "unat (ucast (a OR y) :: u32) = unat a + unat y" "unat y < 2 ^ j" "(ucast (a OR y) :: u32) AND mask j = ucast y"
proof -
  have "a AND y = (a AND mask j) AND y" using y by (metis and.assoc and.commute take_bit_eq_mask)
  then have s: "a OR y = a + y" using a(1) word_plus_and_or [of a y] by simp
  have "unat (take_bit j y) < 2 ^ j" by (simp add: unsigned_take_bit_eq)
  then show "unat y < 2 ^ j" using y by simp
  then have "unat a + unat y < 256" using a(2) by simp
  then show "unat (ucast (a OR y) :: u32) = unat a + unat y" unfolding s by (simp add: unat_ucast_up unat_word_ariths)
  have "(ucast (a OR y) :: u32) AND mask j = ucast ((a OR y) AND mask j)" using j by (intro bit_word_eqI) (auto simp: bit_simps)
  then show "(ucast (a OR y) :: u32) AND mask j = ucast y" using field_bits(1) [OF a(1) y] by simp
qed

text \<open>A continuation byte, as it is read.\<close>

lemma tail_byte: "(ucast ((0x80 :: u8) OR ucast (take_bit 6 x)) :: u32) = 0x80 OR take_bit 6 (x :: u32)"
proof -
  have "(ucast ((0x80 :: u8) OR ucast (take_bit 6 x)) :: u32) = ucast (0x80 :: u8) OR ucast (ucast (take_bit 6 x) :: u8)" by (simp add: unsigned_or_eq)
  then show ?thesis by (simp add: low_byte(2))
qed

lemma scalar_cases:
  assumes "scalar u"
  obtains "unat u < 2 ^ 7" "u \<le> 0x7F" | "unat u < 2 ^ 11" "0x80 \<le> u" "\<not> u \<le> 0x7F" "u \<le> 0x7FF"
  | "unat u < 2 ^ 16" "0x800 \<le> u" "\<not> u \<le> 0x7F" "\<not> u \<le> 0x7FF" "u \<le> 0xFFFF"
  | "unat u < 2 ^ 21" "0x10000 \<le> u" "\<not> u \<le> 0x7F" "\<not> u \<le> 0x7FF" "\<not> u \<le> 0xFFFF"
  using assms unfolding scalar_def word_le_nat_alt word_less_nat_alt by simp linarith

lemma byte_at_append: "byte_at (pre @ b # post) (length pre) = Some (ucast b)"
  by (simp add: byte_at_def)

lemma byte_at_in: "p < length buf \<Longrightarrow> byte_at buf p = Some (ucast (buf ! p))"
  by (simp add: byte_at_def)

text \<open>The head of a sequence of \<open>k\<close> continuation bytes holds the bits above them.\<close>

lemma head_field:
  fixes u :: u32
  assumes u: "unat u < 2 ^ (m + j)" and a: "(a :: u8) AND mask j = 0" "unat a + 2 ^ j \<le> 256" and j: "j \<le> 5"
  defines "h \<equiv> (ucast (a OR ucast (drop_bit m u)) :: u32)"
  shows "unat a \<le> unat h" "unat h < unat a + 2 ^ j" "h AND mask j = drop_bit m u" "take_bit j (drop_bit m u) = drop_bit m u"
proof -
  have "unat (drop_bit m u) = unat u div 2 ^ m" by (metis unat_drop_bit_eq drop_bit_eq_div)
  then have "unat (drop_bit m u) < 2 ^ j" using u by (simp add: less_mult_imp_div_less power_add mult.commute)
  then show t: "take_bit j (drop_bit m u) = drop_bit m u" by (rule take_bit_small)
  then have y: "take_bit j (ucast (drop_bit m u) :: u8) = ucast (drop_bit m u)" using j by (simp add: low_byte)
  note f = lead_field [OF a y]
  show "unat a \<le> unat h" "unat h < unat a + 2 ^ j" unfolding h_def using f j by simp_all
  have "ucast (ucast (drop_bit m u) :: u8) = drop_bit m u" using low_byte(2) [of j "drop_bit m u"] j t by simp
  then show "h AND mask j = drop_bit m u" unfolding h_def using f(3) j by simp
qed

lemma masks32: "(mask 5 :: u32) = 31" "(mask 4 :: u32) = 15" "(mask 3 :: u32) = 7"
  by (simp_all add: mask_eq_exp_minus_1)

lemma join2: "push_bit 6 (drop_bit 6 u) OR take_bit 6 u = (u :: u32)"
  by (rule join_bits)

lemma join3: "push_bit 12 (drop_bit 12 u) OR push_bit 6 (take_bit 6 (drop_bit 6 u)) OR take_bit 6 u = (u :: u32)"
proof (rule bit_word_eqI)
  fix n assume "n < LENGTH(32)"
  then show "bit (push_bit 12 (drop_bit 12 u) OR push_bit 6 (take_bit 6 (drop_bit 6 u)) OR take_bit 6 u) n = bit u n"
    by (cases "n < 6"; cases "n < 12") (auto simp: bit_simps)
qed

lemma join4: "push_bit 18 (drop_bit 18 u) OR push_bit 12 (take_bit 6 (drop_bit 12 u)) OR push_bit 6 (take_bit 6 (drop_bit 6 u)) OR take_bit 6 u = (u :: u32)"
proof (rule bit_word_eqI)
  fix n assume "n < LENGTH(32)"
  then show "bit (push_bit 18 (drop_bit 18 u) OR push_bit 12 (take_bit 6 (drop_bit 12 u)) OR push_bit 6 (take_bit 6 (drop_bit 6 u)) OR take_bit 6 u) n = bit u n"
    by (cases "n < 6"; cases "n < 12"; cases "n < 18") (auto simp: bit_simps)
qed

text \<open>Inside the buffer, the labels of the \<open>switch\<close> are never reached but by falling through from the first.\<close>

lemma byte_at_skip: "byte_at (pre @ x) (length pre + i) = byte_at x i"
  by (simp add: byte_at_def nth_append)

lemma decode_inside:
  assumes "length pre < pe"
  shows "uv__utf8_decode1 (pre @ x # post) (length pre) pe = (let a = ucast x
    in if a < 128 then Some (a, length pre + 1) else if a > 0xF7 then Some (- 1, length pre + 1) else decode_default (pre @ x # post) (length pre + 1) a)"
  using assms by (simp add: uv__utf8_decode1_def uv__utf8_decode1_slow_def byte_at_append Let_def)

lemma decode_two:
  assumes "a > 0xBF" "\<not> a > 0xDF"
  shows "decode_default buf p a = map_option (\<lambda>d. (decode_check 0x80 0 0x80 (0x80 OR (a AND 31)) d, p + 1)) (byte_at buf p)"
proof -
  have "\<not> a > 0xEF" using assms(2) by (auto simp: word_less_nat_alt)
  then show ?thesis using assms by (simp add: decode_default_def decode_case2_def decode_case1_def split: option.split)
qed

lemma decode_three:
  assumes "a > 0xDF" "\<not> a > 0xEF" "byte_at buf p = Some c"
  shows "decode_default buf p a = map_option (\<lambda>d. (decode_check 0x800 0 (0x80 OR (a AND 15)) c d, p + 2)) (byte_at buf (p + 1))"
  using assms by (simp add: decode_default_def decode_case2_def split: option.split)

lemma decode_four:
  assumes "a > 0xEF" "byte_at buf p = Some b" "byte_at buf (p + 1) = Some c"
  shows "decode_default buf p a = map_option (\<lambda>d. (decode_check 0x10000 (a AND 7) b c d, p + 3)) (byte_at buf (p + 2))"
  using assms by (simp add: decode_default_def split: option.split)

lemma tails:
  "utf8_tail 1 u = [0x80 OR ucast (take_bit 6 u)]"
  "utf8_tail 2 u = [0x80 OR ucast (take_bit 6 (drop_bit 6 u)), 0x80 OR ucast (take_bit 6 u)]"
  "utf8_tail 3 u = [0x80 OR ucast (take_bit 6 (drop_bit 12 u)), 0x80 OR ucast (take_bit 6 (drop_bit 6 u)), 0x80 OR ucast (take_bit 6 u)]"
  by (simp_all add: numeral_eq_Suc)

lemma narrow_field: "j \<le> 6 \<Longrightarrow> take_bit j y = y \<Longrightarrow> take_bit 6 y = (y :: u32)"
  by (metis min.absorb2 take_bit_take_bit min.commute)

lemma decode_utf8_two:
  assumes u: "unat u < 2 ^ 11" "0x80 \<le> u" "scalar u" and p: "length pre < pe"
  shows "uv__utf8_decode1 (pre @ (0xC0 OR ucast (drop_bit 6 u)) # utf8_tail 1 u @ post) (length pre) pe = Some (u, length pre + 2)"
proof -
  let ?h = "ucast ((0xC0 :: u8) OR ucast (drop_bit 6 u)) :: u32" and ?buf = "pre @ (0xC0 OR ucast (drop_bit 6 u)) # utf8_tail 1 u @ post"
  have "unat u < 2 ^ (6 + 5)" "(0xC0 :: u8) AND mask 5 = 0" "unat (0xC0 :: u8) + 2 ^ 5 \<le> 256" using u(1) by (simp_all add: masks8)
  note h = head_field [OF this]
  have r: "\<not> ?h < 128" "\<not> ?h > 0xF7" "?h > 0xBF" "\<not> ?h > 0xDF" using h(1,2) by (simp_all add: word_less_nat_alt)
  have f: "?h AND 31 = drop_bit 6 u" using h(3) by (simp add: masks32)
  have t: "take_bit 6 (drop_bit 6 u) = drop_bit 6 u" using narrow_field [OF _ h(4)] by simp
  have d: "decode_check 0x80 0 0x80 (0x80 OR drop_bit 6 u) (0x80 OR take_bit 6 u) = u"
    using check_fields [OF _ t, of 0 "take_bit 6 u" "0x80" 0] leD [OF u(2)] u(3) by (simp add: joined_def join2)
  have "byte_at ?buf (length pre + 1) = Some (0x80 OR take_bit 6 u)"
    unfolding byte_at_skip by (simp add: byte_at_def tails tail_byte)
  then have "decode_default ?buf (length pre + 1) ?h = Some (u, length pre + 2)" unfolding decode_two [OF r(3,4)] f by (simp add: d)
  then show ?thesis unfolding decode_inside [OF p] Let_def using r(1,2) by simp
qed

lemma decode_utf8_three:
  assumes u: "unat u < 2 ^ 16" "0x800 \<le> u" "scalar u" and p: "length pre < pe"
  shows "uv__utf8_decode1 (pre @ (0xE0 OR ucast (drop_bit 12 u)) # utf8_tail 2 u @ post) (length pre) pe = Some (u, length pre + 3)"
proof -
  let ?h = "ucast ((0xE0 :: u8) OR ucast (drop_bit 12 u)) :: u32" and ?buf = "pre @ (0xE0 OR ucast (drop_bit 12 u)) # utf8_tail 2 u @ post"
  have "unat u < 2 ^ (12 + 4)" "(0xE0 :: u8) AND mask 4 = 0" "unat (0xE0 :: u8) + 2 ^ 4 \<le> 256" using u(1) by (simp_all add: masks8)
  note h = head_field [OF this]
  have r: "\<not> ?h < 128" "\<not> ?h > 0xF7" "?h > 0xDF" "\<not> ?h > 0xEF" using h(1,2) by (simp_all add: word_less_nat_alt)
  have f: "?h AND 15 = drop_bit 12 u" using h(3) by (simp add: masks32)
  have t: "take_bit 6 (drop_bit 12 u) = drop_bit 12 u" using narrow_field [OF _ h(4)] by simp
  have d: "decode_check 0x800 0 (0x80 OR drop_bit 12 u) (0x80 OR take_bit 6 (drop_bit 6 u)) (0x80 OR take_bit 6 u) = u"
    using check_fields [OF t, of "take_bit 6 (drop_bit 6 u)" "take_bit 6 u" "0x800" 0] leD [OF u(2)] u(3) by (simp add: joined_def join3)
  have "byte_at ?buf (length pre + 1) = Some (0x80 OR take_bit 6 (drop_bit 6 u))"
    unfolding byte_at_skip by (simp add: byte_at_def tails tail_byte)
  moreover have "byte_at ?buf (length pre + 1 + 1) = Some (0x80 OR take_bit 6 u)"
    unfolding add.assoc byte_at_skip by (simp add: byte_at_def tails tail_byte)
  ultimately have "decode_default ?buf (length pre + 1) ?h = Some (u, length pre + 3)" using decode_three [OF r(3,4)] f by (simp add: d)
  then show ?thesis unfolding decode_inside [OF p] Let_def using r(1,2) by simp
qed

lemma decode_utf8_four:
  assumes u: "unat u < 2 ^ 21" "0x10000 \<le> u" "scalar u" and p: "length pre < pe"
  shows "uv__utf8_decode1 (pre @ (0xF0 OR ucast (drop_bit 18 u)) # utf8_tail 3 u @ post) (length pre) pe = Some (u, length pre + 4)"
proof -
  let ?h = "ucast ((0xF0 :: u8) OR ucast (drop_bit 18 u)) :: u32" and ?buf = "pre @ (0xF0 OR ucast (drop_bit 18 u)) # utf8_tail 3 u @ post"
  have "unat u < 2 ^ (18 + 3)" "(0xF0 :: u8) AND mask 3 = 0" "unat (0xF0 :: u8) + 2 ^ 3 \<le> 256" using u(1) by (simp_all add: masks8)
  note h = head_field [OF this]
  have r: "\<not> ?h < 128" "\<not> ?h > 0xF7" "?h > 0xEF" using h(1,2) by (simp_all add: word_less_nat_alt)
  have f: "?h AND 7 = drop_bit 18 u" using h(3) by (simp add: masks32)
  have d: "decode_check 0x10000 (drop_bit 18 u) (0x80 OR take_bit 6 (drop_bit 12 u)) (0x80 OR take_bit 6 (drop_bit 6 u)) (0x80 OR take_bit 6 u) = u"
    using check_fields [of "take_bit 6 (drop_bit 12 u)" "take_bit 6 (drop_bit 6 u)" "take_bit 6 u" "0x10000" "drop_bit 18 u"] leD [OF u(2)] u(3) by (simp add: joined_def join4)
  have "byte_at ?buf (length pre + 1) = Some (0x80 OR take_bit 6 (drop_bit 12 u))"
    unfolding byte_at_skip by (simp add: byte_at_def tails tail_byte)
  moreover have "byte_at ?buf (length pre + 1 + 1) = Some (0x80 OR take_bit 6 (drop_bit 6 u))"
    unfolding add.assoc byte_at_skip by (simp add: byte_at_def tails tail_byte)
  moreover have "byte_at ?buf (length pre + 1 + 2) = Some (0x80 OR take_bit 6 u)"
    unfolding add.assoc byte_at_skip by (simp add: byte_at_def tails tail_byte)
  ultimately have "decode_default ?buf (length pre + 1) ?h = Some (u, length pre + 4)" using decode_four [OF r(3)] f by (simp add: d)
  then show ?thesis unfolding decode_inside [OF p] Let_def using r(1,2) by simp
qed

lemma decode_utf8_bytes:
  assumes ok: "scalar u" and p: "length pre < pe"
  shows "uv__utf8_decode1 (pre @ utf8_bytes u @ post) (length pre) pe = Some (u, length pre + length (utf8_bytes u))"
proof (cases rule: scalar_cases [OF ok])
  case 1
  then have "take_bit 7 u = u" by (intro take_bit_small)
  then have "ucast (ucast u :: u8) = u" using low_byte(2) [of 7 u] by simp
  moreover have "u < 128" using 1(1) by (simp add: word_less_nat_alt)
  moreover have "utf8_bytes u = [ucast u]" using 1(2) by (simp add: utf8_bytes_def)
  ultimately show ?thesis using decode_inside [OF p, of "ucast u" post] by simp
next
  case 2
  then show ?thesis using decode_utf8_two [OF 2(1,2) ok p, of post] by (simp add: utf8_bytes_def tails)
next
  case 3
  then show ?thesis using decode_utf8_three [OF 3(1,2) ok p, of post] by (simp add: utf8_bytes_def tails)
next
  case 4
  then show ?thesis using decode_utf8_four [OF 4(1,2) ok p, of post] by (simp add: utf8_bytes_def tails)
qed

section \<open>Loops over a string of code points\<close>

definition utf8_string :: "u32 list \<Rightarrow> u8 list" where
  "utf8_string cps = concat (map utf8_bytes cps)"

lemma utf8_string_simps [simp]:
  "utf8_string [] = []" "utf8_string (c # cs) = utf8_bytes c @ utf8_string cs" "utf8_string (xs @ ys) = utf8_string xs @ utf8_string ys"
  by (simp_all add: utf8_string_def)

lemma utf8_bytes_ne: "utf8_bytes u \<noteq> []"
  by (simp add: utf8_bytes_def)

text \<open>The loop decodes once more at the end of the string, where it reads one byte, and another when that starts a sequence.\<close>

definition end_ok :: "u8 list \<Rightarrow> bool" where
  "end_ok post \<longleftrightarrow> (\<exists>x xs. post = x # xs \<and> (x \<le> 0xBF \<or> xs \<noteq> []))"

lemma end_ok_Cons: "end_ok (x # xs) \<longleftrightarrow> x \<le> 0xBF \<or> xs \<noteq> []"
  by (simp add: end_ok_def)

lemma decode_at_end:
  assumes "end_ok post"
  shows "\<exists>c p'. uv__utf8_decode1 (pre @ post) (length pre) (length pre) = Some (c, p') \<and> length pre < p'"
proof -
  obtain x xs where post: "post = x # xs" "x \<le> 0xBF \<or> xs \<noteq> []" using assms by (auto simp: end_ok_def)
  have nxt: "byte_at (pre @ x # xs) (length pre + 1) \<noteq> None" if "xs \<noteq> []" using that unfolding byte_at_skip by (cases xs) (simp_all add: byte_at_def)
  have "\<not> (ucast x :: u32) > 0xBF" if "x \<le> 0xBF" using that by (simp add: word_less_nat_alt word_le_nat_alt unat_ucast_up)
  then have "\<exists>c p'. decode_case1 (pre @ x # xs) (length pre + 1) (ucast x) = Some (c, p') \<and> length pre < p'"
    using nxt post(2) by (auto simp: decode_case1_def split: option.split)
  then show ?thesis unfolding post(1) uv__utf8_decode1_def uv__utf8_decode1_slow_def byte_at_append by (simp add: Let_def)
qed

primrec fold_flow :: "(u32 \<Rightarrow> 's \<Rightarrow> 's flow) \<Rightarrow> u32 list \<Rightarrow> 's \<Rightarrow> int \<times> 's + 's" where
  "fold_flow body [] s = Inr s"
| "fold_flow body (c # cs) s = (case body c s of Next s' \<Rightarrow> fold_flow body cs s' | Break s' \<Rightarrow> Inr s' | Exit r s' \<Rightarrow> Inl (r, s'))"

lemma foreach_codepoints:
  assumes "\<forall>c \<in> set cps. scalar c" and "end_ok post"
  shows "foreach_codepoint body (pre @ utf8_string cps @ post) (length (pre @ utf8_string cps)) (length pre) s = Some (fold_flow body cps s)"
  using assms(1)
proof (induction cps arbitrary: pre s)
  case Nil
  obtain c p' where "uv__utf8_decode1 (pre @ post) (length pre) (length pre) = Some (c, p')" "length pre < p'"
    using decode_at_end [OF assms(2)] by blast
  then show ?case by (subst foreach_codepoint.simps) simp
next
  case (Cons c cs)
  let ?buf = "pre @ utf8_string (c # cs) @ post" and ?pe = "length (pre @ utf8_string (c # cs))"
  have "length pre < ?pe" using utf8_bytes_ne [of c] by simp
  then have d: "uv__utf8_decode1 ?buf (length pre) ?pe = Some (c, length (pre @ utf8_bytes c))"
    using decode_utf8_bytes [of c pre ?pe "utf8_string cs @ post"] Cons.prems by simp
  have "foreach_codepoint body ?buf ?pe (length (pre @ utf8_bytes c)) s' = Some (fold_flow body cs s')" for s'
    using Cons.IH [of "pre @ utf8_bytes c" s'] Cons.prems by simp
  then show ?case using d by (subst foreach_codepoint.simps) (simp split: flow.split)
qed

end
