(* ===== verification/Uv_Puny.thy ===== *)
theory Uv_Puny
  imports Uv_Idna_Decode
begin

text \<open>
  Punycode as RFC 3492 defines it by its decoder, on natural numbers, and the digits, the bias and the output of
  libuv's encoder on its terms.
\<close>

section \<open>The decoder of the RFC\<close>

definition digit_value :: "u8 \<Rightarrow> nat option" where
  "digit_value b =
     (if 97 \<le> b \<and> b \<le> 122 then Some (unat b - 97)
      else if 65 \<le> b \<and> b \<le> 90 then Some (unat b - 65)
      else if 48 \<le> b \<and> b \<le> 57 then Some (unat b - 22)
      else None)"

definition thr :: "nat \<Rightarrow> nat \<Rightarrow> nat" where
  "thr bias k = (if k \<le> bias then 1 else if k \<ge> bias + 26 then 26 else k - bias)"

fun get_delta :: "nat \<Rightarrow> nat \<Rightarrow> nat \<Rightarrow> u8 list \<Rightarrow> (nat \<times> u8 list) option" where
  "get_delta bias k w [] = None"
| "get_delta bias k w (b # bs) =
     (case digit_value b of
        None \<Rightarrow> None
      | Some d \<Rightarrow>
          if d < thr bias k then Some (d * w, bs)
          else map_option (\<lambda>(i, rest). (d * w + i, rest)) (get_delta bias (k + 36) (w * (36 - thr bias k)) bs))"

lemma get_delta_shorter: "get_delta bias k w bs = Some (d, rest) \<Longrightarrow> length rest < length bs"
  by (induction bias k w bs arbitrary: d rest rule: get_delta.induct) (auto split: option.splits if_splits intro: less_SucI)

function skew :: "nat \<Rightarrow> nat \<Rightarrow> nat" where
  "skew k delta = (if delta > 455 then skew (k + 36) (delta div 35) else k + 36 * delta div (delta + 38))"
  by auto
termination by (relation "measure snd") auto

declare skew.simps [simp del]

definition adapt :: "nat \<Rightarrow> nat \<Rightarrow> bool \<Rightarrow> nat" where
  "adapt delta points first_time = (let delta = (if first_time then delta div 700 else delta div 2) in skew 0 (delta + delta div points))"

function puny_insert :: "nat \<Rightarrow> nat \<Rightarrow> nat \<Rightarrow> u32 list \<Rightarrow> u8 list \<Rightarrow> u32 list option" where
  "puny_insert n i bias cps bs =
     (if bs = [] then Some cps
      else case get_delta bias 36 1 bs of
        None \<Rightarrow> None
      | Some (d, rest) \<Rightarrow>
          let len = length cps + 1; n = n + (i + d) div len; j = (i + d) mod len
          in puny_insert n (j + 1) (adapt d len (i = 0)) (take j cps @ of_nat n # drop j cps) rest)"
  by auto
termination by (relation "measure (\<lambda>(n, i, bias, cps, bs). length bs)") (auto dest: get_delta_shorter)

declare puny_insert.simps [simp del]

definition puny_decode :: "u8 list \<Rightarrow> u32 list option" where
  "puny_decode bs =
     (if 0x2D \<in> set bs
      then puny_insert 128 0 72 (map ucast (rev (tl (dropWhile (\<lambda>b. b \<noteq> 0x2D) (rev bs))))) (rev (takeWhile (\<lambda>b. b \<noteq> 0x2D) (rev bs)))
      else puny_insert 128 0 72 [] bs)"

lemma puny_decode_split: "0x2D \<notin> set ext \<Longrightarrow> puny_decode (basic @ 0x2D # ext) = puny_insert 128 0 72 (map ucast basic) ext"
  by (simp add: puny_decode_def dropWhile_append takeWhile_append) 

lemma puny_decode_ext: "0x2D \<notin> set ext \<Longrightarrow> puny_decode ext = puny_insert 128 0 72 [] ext"
  by (simp add: puny_decode_def)

section \<open>Digits\<close>

lemma thr_range: "1 \<le> thr bias k" "thr bias k \<le> 26"
  by (auto simp: thr_def)

function digits :: "nat \<Rightarrow> nat \<Rightarrow> nat \<Rightarrow> u8 list" where
  "digits bias k q =
     (let t = thr bias k
      in if q < t then [alphabet ! q] else (alphabet ! (t + (q - t) mod (36 - t))) # digits bias (k + 36) ((q - t) div (36 - t)))"
  by auto
termination
proof (relation "measure (\<lambda>(bias, k, q). q)", simp)
  show "((bias, k + 36, (q - t) div (36 - t)), bias, k, q) \<in> measure (\<lambda>(bias, k, q). q)" if "t = thr bias k" "\<not> q < t" for bias k q t
  proof -
    have "(q - t) div (36 - t) \<le> q - t" by (rule div_le_dividend)
    moreover have "q - t < q" using that thr_range(1) [of bias k] by simp
    ultimately show ?thesis by (simp only: in_measure split)
  qed
qed

declare digits.simps [simp del]

lemma alphabet_value: "i < 36 \<Longrightarrow> digit_value (alphabet ! i) = Some i"
  and alphabet_range: "i < 36 \<Longrightarrow> alphabet ! i \<noteq> 0x2D \<and> alphabet ! i < 128"
proof -
  have a: "\<forall>i \<in> {0..<36}. digit_value (alphabet ! i) = Some i \<and> alphabet ! i \<noteq> 0x2D \<and> alphabet ! i < 128"
    by (simp add: atLeastLessThan_nat_numeral alphabet_def upt_rec digit_value_def)
  show "i < 36 \<Longrightarrow> digit_value (alphabet ! i) = Some i" "i < 36 \<Longrightarrow> alphabet ! i \<noteq> 0x2D \<and> alphabet ! i < 128" using a by simp_all
qed

text \<open>Reading the digits of a number gives it back.\<close>

lemma get_digits: "get_delta bias k w (digits bias k q @ rest) = Some (q * w, rest)"
proof (induction bias k q arbitrary: w rule: digits.induct)
  case (1 bias k q)
  let ?t = "thr bias k"
  show ?case
  proof (cases "q < ?t")
    case True
    then have "q < 36" using thr_range(2) [of bias k] by simp
    then show ?thesis using True by (subst digits.simps) (simp add: alphabet_value)
  next
    case False
    let ?y = "36 - ?t" and ?x = "q - ?t"
    have y: "0 < ?y" using thr_range(2) [of bias k] by simp
    then have d: "?t + ?x mod ?y < 36" using mod_less_divisor [OF y, of ?x] by linarith
    have "(?t + ?x mod ?y) * w + ?x div ?y * (w * ?y) = (?t + (?x mod ?y + ?y * (?x div ?y))) * w" by (simp add: algebra_simps)
    also have "\<dots> = q * w" using False by simp
    finally have s: "(?t + ?x mod ?y) * w + ?x div ?y * (w * ?y) = q * w" .
    have dg: "digits bias k q = (alphabet ! (?t + ?x mod ?y)) # digits bias (k + 36) (?x div ?y)" using False by (subst digits.simps) (simp add: Let_def)
    have "\<not> ?t + ?x mod ?y < ?t" by simp
    then show ?thesis unfolding dg using 1 [OF refl False, of "w * ?y"] alphabet_value [OF d] s by simp
  qed
qed

lemma digits_range: "b \<in> set (digits bias k q) \<Longrightarrow> b \<noteq> 0x2D \<and> b < 128"
proof (induction bias k q rule: digits.induct)
  case (1 bias k q)
  let ?t = "thr bias k"
  show ?case
  proof (cases "q < ?t")
    case True
    then have "q < 36" using thr_range(2) [of bias k] by simp
    moreover have "b = alphabet ! q" using 1(2) True by (subst (asm) digits.simps) (simp add: Let_def)
    ultimately show ?thesis using alphabet_range by simp
  next
    case False
    have y: "0 < 36 - ?t" using thr_range(2) [of bias k] by simp
    then have d: "?t + (q - ?t) mod (36 - ?t) < 36" using mod_less_divisor [OF y, of "q - ?t"] by linarith
    have "b = alphabet ! (?t + (q - ?t) mod (36 - ?t)) \<or> b \<in> set (digits bias (k + 36) ((q - ?t) div (36 - ?t)))"
      using 1(2) False by (subst (asm) digits.simps) (auto simp: Let_def)
    then show ?thesis using 1(1) [OF refl False] alphabet_range [OF d] by (elim disjE) simp_all
  qed
qed

lemma digits_ne: "digits bias k q \<noteq> []"
  by (subst digits.simps) (simp add: Let_def)

section \<open>The output\<close>

text \<open>What is written is cut off at the end of the buffer.\<close>

lemma put_take: "put_byte de b (take de out) = take de (out @ [b])"
  by (cases "length out < de") (simp_all add: put_byte_def)

lemma take_take_append: "take de (take de a @ b) = take de (a @ b)"
  by (cases "length a < de") simp_all

definition threshold :: "u32 \<Rightarrow> u32 \<Rightarrow> u32" where
  "threshold bias k = (let t = (if k > bias then k - bias else 1) in if t > 26 then 26 else t)"

lemma threshold_thr: "unat (threshold bias k) = thr (unat bias) (unat k)"
proof (cases "k > bias")
  case True
  then have "unat (k - bias) = unat k - unat bias" by (simp add: unat_sub word_le_nat_alt word_less_nat_alt)
  then show ?thesis using True by (auto simp: threshold_def thr_def word_less_nat_alt)
qed (simp add: threshold_def thr_def word_less_nat_alt)

lemma digit_loop_step:
  "digit_loop bias de k q out = (let t = threshold bias k in if q < t then (q, out)
     else digit_loop bias de (k + 36) ((q - t) div (36 - t)) (put_byte de (alphabet ! unat (t + (q - t) mod (36 - t))) out))"
  by (subst digit_loop.simps) (simp add: threshold_def Let_def)

lemma digit_values:
  assumes "t = threshold bias k" and "\<not> q < t"
  shows "unat (t + (q - t) mod (36 - t)) = unat t + (unat q - unat t) mod (36 - unat t)"
    "unat ((q - t) div (36 - t)) = (unat q - unat t) div (36 - unat t)"
proof -
  have t: "1 \<le> unat t" "unat t \<le> 26" using thr_range assms(1) by (simp_all add: threshold_thr)
  have q: "unat (q - t) = unat q - unat t" using assms(2) by (simp add: unat_sub word_le_nat_alt word_less_nat_alt)
  have y: "unat (36 - t) = 36 - unat t" using t by (simp add: unat_sub word_le_nat_alt)
  have "(unat q - unat t) mod (36 - unat t) < 36 - unat t" using t by simp
  then show "unat (t + (q - t) mod (36 - t)) = unat t + (unat q - unat t) mod (36 - unat t)"
    by (simp add: unat_word_ariths unat_mod_distrib unat_mod q y)
  show "unat ((q - t) div (36 - t)) = (unat q - unat t) div (36 - unat t)" by (simp add: unat_div q y)
qed

text \<open>A number of 32 bits has few enough digits for the position of a digit not to wrap around.\<close>

lemma digit_loop_digits:
  assumes "unat q < 2 ^ j" and "unat k + 36 * j < 2 ^ 32"
  shows "(case digit_loop bias de k q (take de out) of (q', out') \<Rightarrow> put_byte de (alphabet ! unat q') out')
    = take de (out @ digits (unat bias) (unat k) (unat q))"
  using assms
proof (induction j arbitrary: k q out)
  case 0
  then have "unat q < thr (unat bias) (unat k)" using thr_range(1) [of "unat bias" "unat k"] by simp
  then show ?case by (subst digit_loop_step, subst digits.simps) (simp add: Let_def word_less_nat_alt threshold_thr put_take)
next
  case (Suc j)
  let ?t = "threshold bias k"
  show ?case
  proof (cases "q < ?t")
    case True
    then show ?thesis by (subst digit_loop_step, subst digits.simps) (simp add: Let_def word_less_nat_alt threshold_thr put_take)
  next
    case False
    let ?T = "thr (unat bias) (unat k)" and ?q = "(q - ?t) div (36 - ?t)"
    note v = digit_values [OF refl False, unfolded threshold_thr]
    have y: "2 \<le> 36 - ?T" using thr_range(2) [of "unat bias" "unat k"] by simp
    have "unat ?q \<le> unat q div (36 - ?T)" unfolding v by (intro div_le_mono) simp
    also have "\<dots> \<le> unat q div 2" using y by (intro div_le_mono2) simp_all
    finally have q: "unat ?q < 2 ^ j" using Suc.prems(1) by simp
    have k: "unat (k + 36) = unat k + 36" using Suc.prems(2) by (simp add: unat_word_ariths)
    have nq: "\<not> unat q < ?T" using False by (simp add: word_less_nat_alt threshold_thr)
    have "unat (k + 36) + 36 * j < 2 ^ 32" using Suc.prems(2) k by simp
    from Suc.IH [OF q this, of "out @ [alphabet ! (?T + (unat q - ?T) mod (36 - ?T))]"] False nq show ?thesis
      by (subst digit_loop_step, subst digits.simps) (simp add: Let_def v k put_take)
  qed
qed

section \<open>The bias\<close>

lemma bias_loop_skew:
  assumes "unat delta < 2 ^ j" and "unat bias + 36 * j + 40 < 2 ^ 32"
  shows "(case bias_loop bias delta of (b, d) \<Rightarrow> unat (b + 36 * d div (d + 38))) = skew (unat bias) (unat delta)"
  using assms
proof (induction j arbitrary: bias delta)
  case 0
  then show ?case by (subst bias_loop.simps, subst skew.simps) (simp add: word_less_nat_alt unat_eq_0)
next
  case (Suc j)
  show ?case
  proof (cases "delta > 455")
    case True
    have d: "unat (delta div 35) = unat delta div 35" by (simp add: unat_div)
    have b: "unat (bias + 36) = unat bias + 36" using Suc.prems(2) by (simp add: unat_word_ariths)
    have "unat (delta div 35) < 2 ^ j" "unat (bias + 36) + 36 * j + 40 < 2 ^ 32" using Suc.prems d b by simp_all
    from Suc.IH [OF this] True show ?thesis by (subst bias_loop.simps, subst skew.simps) (simp add: d b word_less_nat_alt)
  next
    case False
    then have s: "unat delta \<le> 455" by (simp add: word_less_nat_alt)
    then have "unat (36 * delta) = 36 * unat delta" "unat (delta + 38) = unat delta + 38" by (simp_all add: unat_word_ariths)
    then have f: "unat (36 * delta div (delta + 38)) = 36 * unat delta div (unat delta + 38)" by (simp add: unat_div)
    have "36 * unat delta div (unat delta + 38) < 37" by (simp add: div_less_iff_less_mult)
    then have "unat (bias + 36 * delta div (delta + 38)) = unat bias + 36 * unat delta div (unat delta + 38)"
      using Suc.prems(2) by (subst unat_word_ariths(1), subst f, intro mod_less) simp
    then show ?thesis using False by (subst bias_loop.simps, subst skew.simps) (simp add: word_less_nat_alt)
  qed
qed

end
