(* ===== verification/Uv_Idna_Correct.thy ===== *)
theory Uv_Idna_Correct
  imports Uv_Puny
begin

text \<open>
  libuv's encoder is the inverse of the decoder of RFC 3492: the state of the encoder is matched with that of a decoder that has
  read what is written so far. A label of code points is converted without a read outside the name, and the decoder gives it back.
\<close>

section \<open>One number\<close>

lemma add_quotient:
  fixes d h :: u32
  assumes "unat d < 2 ^ 31"
  shows "unat (d + d div h) = unat d + unat d div unat h"
proof -
  have "unat d div unat h \<le> unat d" by (rule div_le_dividend)
  moreover have "unat d + unat d < 2 ^ LENGTH(32)" using assms by simp
  ultimately have "unat d + unat (d div h) < 2 ^ LENGTH(32)" by (simp only: unat_div)
  then show ?thesis by (simp only: unat_word_ariths(1) mod_less unat_div)
qed

lemma emit_delta_exact:
  assumes out: "puny_out st = take de out" and h: "unat (puny_h st) < 2 ^ 31"
  shows "\<exists>bias. emit_delta de st = \<lparr>puny_delta = 0, puny_h = puny_h st + 1, puny_bias = bias, puny_first = False, puny_todo = puny_todo st - 1,
      puny_out = take de (out @ digits (unat (puny_bias st)) 36 (unat (puny_delta st)))\<rparr>
    \<and> unat bias = adapt (unat (puny_delta st)) (unat (puny_h st) + 1) (puny_first st)"
proof -
  let ?h = "puny_h st + 1"
  obtain q o' where dl: "digit_loop (puny_bias st) de 36 (puny_delta st) (take de out) = (q, o')" by fastforce
  have "unat (puny_delta st) < 2 ^ 32" using unsigned_less [of "puny_delta st", where 'a = nat] by simp
  from digit_loop_digits [OF this, of 36 de "puny_bias st" out] dl
  have o': "put_byte de (alphabet ! unat q) o' = take de (out @ digits (unat (puny_bias st)) 36 (unat (puny_delta st)))" by simp
  let ?d = "if puny_first st then puny_delta st div 2 div 350 else puny_delta st div 2"
  have d: "unat ?d = (if puny_first st then unat (puny_delta st) div 700 else unat (puny_delta st) div 2)"
    by (simp add: unat_div div_mult2_eq [symmetric])
  have half: "unat (puny_delta st) div 2 < 2 ^ 31" using unsigned_less [of "puny_delta st", where 'a = nat] by (simp add: div_less_iff_less_mult)
  have "unat (puny_delta st) div 700 \<le> unat (puny_delta st) div 2" by (intro div_le_mono2) simp_all
  then have dh: "unat ?d < 2 ^ 31" using half d by (simp split: if_splits)
  have h1: "unat ?h = unat (puny_h st) + 1" using h by (simp add: unat_word_ariths)
  have s: "unat (?d + ?d div ?h) = unat ?d + unat ?d div (unat (puny_h st) + 1)" using add_quotient [OF dh, of ?h] by (simp only: h1)
  obtain b r where bl: "bias_loop 0 (?d + ?d div ?h) = (b, r)" by fastforce
  have "unat (?d + ?d div ?h) < 2 ^ 32" using unsigned_less [of "?d + ?d div ?h", where 'a = nat] by simp
  from bias_loop_skew [OF this, of 0] bl have "unat (b + 36 * r div (r + 38)) = skew 0 (unat (?d + ?d div ?h))" by simp
  also have "\<dots> = adapt (unat (puny_delta st)) (unat (puny_h st) + 1) (puny_first st)" unfolding s d adapt_def Let_def ..
  finally show ?thesis using dl o' bl
    by (intro exI [of _ "b + 36 * r div (r + 38)"]) (simp add: emit_delta_def out Let_def)
qed

section \<open>One pass over the label\<close>

definition handled :: "u32 \<Rightarrow> u32 list \<Rightarrow> u32 list \<Rightarrow> u32 list" where
  "handled m pre suf = filter (\<lambda>c. c \<le> m) pre @ filter (\<lambda>c. c < m) suf"

text \<open>The decoder's position \<open>n\<close>, \<open>i\<close> and the encoder's \<open>delta\<close> add up to where the encoder is.\<close>

definition matches :: "u32 \<Rightarrow> u32 list \<Rightarrow> u32 list \<Rightarrow> puny \<Rightarrow> nat \<Rightarrow> nat \<Rightarrow> bool" where
  "matches m pre suf st n i \<longleftrightarrow>
     unat (puny_h st) = length (handled m pre suf) \<and> puny_first st = (i = 0) \<and> i \<le> length (handled m pre suf)
     \<and> n * Suc (unat (puny_h st)) + i + unat (puny_delta st) = unat m * Suc (unat (puny_h st)) + length (filter (\<lambda>c. c \<le> m) pre)"

lemma handled_length: "length (handled m pre suf) \<le> length (pre @ suf)"
  by (simp add: handled_def add_mono)

lemma matches_bound:
  assumes "matches m pre suf st n i" and "m \<le> 0x10FFFF" and "length (pre @ suf) < 3000"
  shows "unat (puny_delta st) < 2 ^ 32 - 2" "unat (puny_h st) < 3000"
proof -
  show h: "unat (puny_h st) < 3000" using assms(1,3) handled_length [of m pre suf] by (simp add: matches_def)
  have "unat m \<le> 0x10FFFF" using assms(2) by (simp add: word_le_nat_alt)
  then have "unat m * Suc (unat (puny_h st)) \<le> 0x10FFFF * 3000" using h by (intro mult_mono) simp_all
  moreover have "length pre < 3000" using assms(3) by simp
  then have "length (filter (\<lambda>c. c \<le> m) pre) < 3000" by (rule le_less_trans [OF length_filter_le])
  moreover have "n * Suc (unat (puny_h st)) + i + unat (puny_delta st) = unat m * Suc (unat (puny_h st)) + length (filter (\<lambda>c. c \<le> m) pre)"
    using assms(1) unfolding matches_def by (elim conjE)
  ultimately have "unat (puny_delta st) < 4294967294" by linarith
  then show "unat (puny_delta st) < 2 ^ 32 - 2" by simp
qed

text \<open>The decoder finds the code point and the place of the next number.\<close>

lemma decode_place:
  fixes n m i d h j :: nat
  assumes eq: "n * Suc h + i + d = m * Suc h + j" and j: "j \<le> h"
  shows "n + (i + d) div (h + 1) = m" "(i + d) mod (h + 1) = j"
proof -
  have "n * Suc h \<le> m * Suc h + j" using eq by simp
  also have "\<dots> < Suc m * Suc h" using j by simp
  finally have "n < Suc m" by (simp only: mult_less_cancel2)
  then have n: "n \<le> m" by simp
  then have "m * Suc h = (m - n) * Suc h + n * Suc h" by (simp only: add_mult_distrib [symmetric] le_add_diff_inverse2)
  then have id: "i + d = j + Suc h * (m - n)" using eq by (simp add: mult.commute)
  have jh: "j < h + 1" using j by simp
  have id: "i + d = j + (m - n) * (h + 1)" using id by (simp only: mult.commute Suc_eq_plus1)
  have "(i + d) div (h + 1) = m - n" unfolding id using jh by (subst div_mult_self1) simp_all
  then show "n + (i + d) div (h + 1) = m" using n by simp
  show "(i + d) mod (h + 1) = j" unfolding id mod_mult_self1 using jh by (rule mod_less)
qed

lemma insert_digits:
  assumes eq: "n * Suc h + i + d = unat m * Suc h + j" and h: "h = length (as @ bs)" and j: "j = length as"
  shows "puny_insert n i bias (as @ bs) (digits bias 36 d @ X) = puny_insert (unat m) (Suc j) (adapt d (Suc h) (i = 0)) (as @ m # bs) X"
proof -
  have jh: "j \<le> h" using h j by simp
  note p = decode_place [OF eq jh]
  have "get_delta bias 36 1 (digits bias 36 d @ X) = Some (d, X)" using get_digits [of bias 36 1 d X] by simp
  moreover have "length (as @ bs) + 1 = h + 1" using h by simp
  moreover have "take j (as @ bs) = as" "drop j (as @ bs) = bs" using j by simp_all
  moreover have "digits bias 36 d @ X \<noteq> []" using digits_ne by simp
  ultimately show ?thesis by (subst puny_insert.simps) (simp only: Let_def if_False option.case split p Suc_eq_plus1 of_nat_unat ucast_id)
qed

lemma encode_pass:
  assumes "matches m pre suf st n i" and "m \<le> 0x10FFFF" and "length (pre @ suf) < 3000" and "puny_out st = take de out"
  shows "\<exists>st' n' i' E. fold_flow (encode_body de m) suf st = Inr st' \<and> matches m (pre @ suf) [] st' n' i'
    \<and> puny_todo st' = puny_todo st - of_nat (count_list suf m) \<and> puny_out st' = take de (out @ E) \<and> (\<forall>b \<in> set E. b \<noteq> 0x2D \<and> b < 128)
    \<and> (\<forall>X. puny_insert n i (unat (puny_bias st)) (handled m pre suf) (E @ X)
          = puny_insert n' i' (unat (puny_bias st')) (handled m (pre @ suf) []) X)"
  using assms
proof (induction suf arbitrary: pre st n i out)
  case Nil
  then show ?case by (intro exI [of _ st] exI [of _ n] exI [of _ i] exI [of _ "[]"]) simp
next
  case (Cons c suf)
  note bound = matches_bound [OF Cons.prems(1-3)]
  have len: "length ((pre @ [c]) @ suf) < 3000" using Cons.prems(3) by simp
  consider "c < m" | "c = m" | "m < c" by fastforce
  then show ?case
  proof cases
    case 1
    let ?st = "st\<lparr>puny_delta := puny_delta st + 1\<rparr>"
    have d: "unat (puny_delta st + 1) = unat (puny_delta st) + 1" using bound(1) by (simp add: unat_word_ariths)
    then have ne: "puny_delta st + 1 \<noteq> 0" by (metis Suc_eq_plus1 nat.distinct(1) unsigned_0)
    have hd: "handled m (pre @ [c]) suf = handled m pre (c # suf)" using 1 by (simp add: handled_def)
    have "filter (\<lambda>c. c \<le> m) (pre @ [c]) = filter (\<lambda>c. c \<le> m) pre @ [c]" using 1 by simp
    then have "matches m (pre @ [c]) suf ?st n i" using Cons.prems(1) hd d unfolding matches_def by (elim conjE) (simp only:, simp)
    from Cons.IH [OF this Cons.prems(2) len, of out] Cons.prems(4) hd
    obtain st' n' i' E where ih: "fold_flow (encode_body de m) suf ?st = Inr st'" "matches m (pre @ c # suf) [] st' n' i'"
      "puny_todo st' = puny_todo st - of_nat (count_list suf m)" "puny_out st' = take de (out @ E)" "\<forall>b \<in> set E. b \<noteq> 0x2D \<and> b < 128"
      "\<forall>X. puny_insert n i (unat (puny_bias st)) (handled m pre (c # suf)) (E @ X) = puny_insert n' i' (unat (puny_bias st')) (handled m (pre @ c # suf) []) X"
      by auto
    moreover have "fold_flow (encode_body de m) (c # suf) st = Inr st'" using ih(1) 1 ne by (auto simp: encode_body_def Let_def)
    moreover have "count_list (c # suf) m = count_list suf m" using 1 by auto
    ultimately show ?thesis by (intro exI [of _ st'] exI [of _ n'] exI [of _ i'] exI [of _ E] conjI) simp_all
  next
    case 2
    obtain bias where e: "emit_delta de st = \<lparr>puny_delta = 0, puny_h = puny_h st + 1, puny_bias = bias, puny_first = False, puny_todo = puny_todo st - 1,
        puny_out = take de (out @ digits (unat (puny_bias st)) 36 (unat (puny_delta st)))\<rparr>"
      "unat bias = adapt (unat (puny_delta st)) (unat (puny_h st) + 1) (puny_first st)"
      using emit_delta_exact [OF Cons.prems(4)] bound(2) by fastforce
    let ?st = "emit_delta de st" and ?as = "filter (\<lambda>c. c \<le> m) pre" and ?bs = "filter (\<lambda>c. c < m) suf"
    have hd: "handled m pre (c # suf) = ?as @ ?bs" "handled m (pre @ [c]) suf = ?as @ m # ?bs" using 2 by (simp_all add: handled_def)
    have m: "n * Suc (unat (puny_h st)) + i + unat (puny_delta st) = unat m * Suc (unat (puny_h st)) + length ?as"
      "unat (puny_h st) = length (?as @ ?bs)" "puny_first st = (i = 0)" using Cons.prems(1) unfolding matches_def hd by blast+
    have h: "unat (puny_h st + 1) = Suc (unat (puny_h st))" using bound(2) by (simp add: unat_word_ariths)
    have "matches m (pre @ [c]) suf ?st (unat m) (Suc (length ?as))" unfolding matches_def hd e(1) using m(2) h 2 by simp
    from Cons.IH [OF this Cons.prems(2) len, of "out @ digits (unat (puny_bias st)) 36 (unat (puny_delta st))"] e(1)
    obtain st' n' i' E where ih: "fold_flow (encode_body de m) suf ?st = Inr st'" "matches m (pre @ c # suf) [] st' n' i'"
      "puny_todo st' = puny_todo ?st - of_nat (count_list suf m)" "puny_out st' = take de (out @ digits (unat (puny_bias st)) 36 (unat (puny_delta st)) @ E)"
      "\<forall>b \<in> set E. b \<noteq> 0x2D \<and> b < 128"
      "\<And>X. puny_insert (unat m) (Suc (length ?as)) (unat (puny_bias ?st)) (?as @ m # ?bs) (E @ X) = puny_insert n' i' (unat (puny_bias st')) (handled m (pre @ c # suf) []) X"
      unfolding hd by auto
    let ?E = "digits (unat (puny_bias st)) 36 (unat (puny_delta st)) @ E"
    have "puny_insert n i (unat (puny_bias st)) (handled m pre (c # suf)) (?E @ X) = puny_insert n' i' (unat (puny_bias st')) (handled m (pre @ c # suf) []) X" for X
      unfolding hd ih(6) [symmetric] using insert_digits [OF m(1,2) refl, of "unat (puny_bias st)" "E @ X"] e m(3) by simp
    moreover have "\<forall>b \<in> set ?E. b \<noteq> 0x2D \<and> b < 128" using ih(5) digits_range unfolding set_append by blast
    moreover have "puny_todo st' = puny_todo st - of_nat (count_list (c # suf) m)" using ih(3) 2 e(1) by simp
    moreover have "fold_flow (encode_body de m) (c # suf) st = Inr st'" using ih(1) 2 by (simp add: encode_body_def)
    ultimately show ?thesis using ih(2,4) by (intro exI [of _ st'] exI [of _ n'] exI [of _ i'] exI [of _ ?E] conjI) simp_all
  next
    case 3
    then have "\<not> c \<le> m" "\<not> c < m" "c \<noteq> m" by auto
    note c = this
    have hd: "handled m (pre @ [c]) suf = handled m pre (c # suf)" using c by (simp add: handled_def)
    have f: "filter (\<lambda>c. c \<le> m) (pre @ [c]) = filter (\<lambda>c. c \<le> m) pre" using c by simp
    have "matches m (pre @ [c]) suf st n i" using Cons.prems(1) unfolding matches_def hd f .
    from Cons.IH [OF this Cons.prems(2) len, of out] Cons.prems(4) hd
    obtain st' n' i' E where ih: "fold_flow (encode_body de m) suf st = Inr st'" "matches m (pre @ c # suf) [] st' n' i'"
      "puny_todo st' = puny_todo st - of_nat (count_list suf m)" "puny_out st' = take de (out @ E)" "\<forall>b \<in> set E. b \<noteq> 0x2D \<and> b < 128"
      "\<forall>X. puny_insert n i (unat (puny_bias st)) (handled m pre (c # suf)) (E @ X) = puny_insert n' i' (unat (puny_bias st')) (handled m (pre @ c # suf) []) X"
      by auto
    moreover have "fold_flow (encode_body de m) (c # suf) st = Inr st'" using ih(1) c by (simp add: encode_body_def)
    moreover have "count_list (c # suf) m = count_list suf m" using c by auto
    ultimately show ?thesis by (intro exI [of _ st'] exI [of _ n'] exI [of _ i'] exI [of _ E] conjI) simp_all
  qed
qed

section \<open>All passes\<close>

lemma least_fold: "fold_flow (least_body n) cs m = Inr (fold (\<lambda>c m. if n \<le> c \<and> c < m then c else m) cs m)"
  by (induction cs arbitrary: m) (auto simp: least_body_def)

lemma fold_least:
  "(fold (\<lambda>c m. if n \<le> c \<and> c < m then c else m) cs m \<in> {c \<in> set cs. n \<le> c} \<or> fold (\<lambda>c m. if n \<le> c \<and> c < m then c else m) cs m = m)
    \<and> fold (\<lambda>c m. if n \<le> c \<and> c < m then c else m) cs m \<le> m
    \<and> (\<forall>c \<in> set cs. n \<le> c \<longrightarrow> fold (\<lambda>c m. if n \<le> c \<and> c < m then c else m) cs m \<le> (c :: u32))"
proof (induction cs arbitrary: m)
  case (Cons a cs)
  let ?m = "if n \<le> a \<and> a < m then a else m"
  have "?m \<le> m" "n \<le> a \<Longrightarrow> ?m \<le> a" by auto
  then show ?case using Cons.IH [of ?m] by (auto split: if_splits intro: order_trans)
qed simp

text \<open>The code point that the next pass handles.\<close>

lemma least_codepoint:
  assumes "c0 \<in> set cps" and "n \<le> c0" and "\<forall>c \<in> set cps. scalar c"
  shows "\<exists>m. fold_flow (least_body n) cps (- 1) = Inr m \<and> m \<in> set cps \<and> n \<le> m \<and> (\<forall>c \<in> set cps. n \<le> c \<longrightarrow> m \<le> c)"
proof -
  let ?m = "fold (\<lambda>c m. if n \<le> c \<and> c < m then c else m) cps (- 1)"
  note f = fold_least [of n cps "- 1"]
  have "c0 < - 1" using assms(1,3) by (auto simp: scalar_def word_less_nat_alt word_le_nat_alt unsigned_minus_1_eq_mask mask_eq_exp_minus_1)
  then have "?m \<noteq> - 1" using f assms(1,2) by (metis not_le)
  then show ?thesis using f least_fold [of n cps "- 1"] by auto
qed

lemma filter_less_least: "(\<And>c. c \<in> set cps \<Longrightarrow> n \<le> c \<Longrightarrow> m \<le> c) \<Longrightarrow> n \<le> m \<Longrightarrow> filter (\<lambda>c. c < m) cps = filter (\<lambda>c. c < (n :: u32)) cps"
  by (intro filter_cong) (auto simp: not_le [symmetric] dest: order_trans)

lemma scalar_bound: "scalar c \<Longrightarrow> unat c \<le> 0x10FFFF"
  by (simp add: scalar_def word_le_nat_alt)

lemma unat_complement: "unat (NOT d) = 2 ^ LENGTH(32) - 1 - unat (d :: u32)"
proof -
  have "NOT d = - 1 - d" by (simp add: not_eq_complement)
  then show ?thesis by (simp add: unat_sub unsigned_minus_1_eq_mask mask_eq_exp_minus_1)
qed

lemma encode_loop_correct:
  assumes cps: "\<forall>c \<in> set cps. scalar c" "length cps < 3000" and post: "end_ok post" and n: "unat n \<le> 0x110000"
    and m: "matches n [] cps st nd i" and todo: "puny_todo st = of_nat (length (filter (\<lambda>c. n \<le> c) cps))" and out: "puny_out st = take de out"
  shows "\<exists>E. encode_loop (pre @ utf8_string cps @ post) (length pre) (length (pre @ utf8_string cps)) de n st = Some (0, take de (out @ E))
    \<and> (\<forall>b \<in> set E. b \<noteq> 0x2D \<and> b < 128) \<and> puny_insert nd i (unat (puny_bias st)) (filter (\<lambda>c. c < n) cps) E = Some cps"
  using n m todo out
proof (induction "length (filter (\<lambda>c. n \<le> c) cps)" arbitrary: n st nd i out rule: less_induct)
  case less
  let ?buf = "pre @ utf8_string cps @ post" and ?se = "length (pre @ utf8_string cps)"
  let ?todo = "length (filter (\<lambda>c. n \<le> c) cps)"
  have len: "?todo < 3000" using cps(2) by (rule le_less_trans [OF length_filter_le])
  show ?case
  proof (cases "?todo = 0")
    case True
    then have "filter (\<lambda>c. c < n) cps = cps" by (auto simp: filter_empty_conv filter_id_conv not_le)
    then show ?thesis using less.prems(3,4) True by (intro exI [of _ "[]"]) (subst encode_loop.simps, subst puny_insert.simps, simp)
  next
    case False
    then obtain c0 where c0: "c0 \<in> set cps" "n \<le> c0" by (auto simp: filter_empty_conv)
    obtain m where m: "fold_flow (least_body n) cps (- 1) = Inr m" "m \<in> set cps" "n \<le> m" "\<And>c. c \<in> set cps \<Longrightarrow> n \<le> c \<Longrightarrow> m \<le> c"
      using least_codepoint [OF c0 cps(1)] by blast
    have mb: "unat m \<le> 0x10FFFF" "m \<le> 0x10FFFF" using scalar_bound [of m] m(2) cps(1) by (auto simp: word_le_nat_alt)
    have nt: "puny_todo st \<noteq> 0"
    proof
      assume "puny_todo st = 0"
      then have "unat (of_nat ?todo :: u32) = 0" using less.prems(3) by simp
      then show False using len False by (simp add: unat_of_nat)
    qed
    have eq: "filter (\<lambda>c. c < m) cps = filter (\<lambda>c. c < n) cps" using filter_less_least [of cps n m] m(3,4) by blast
    have hd: "handled n [] cps = filter (\<lambda>c. c < n) cps" "handled m [] cps = filter (\<lambda>c. c < n) cps" using eq by (simp_all add: handled_def)
    let ?h = "unat (puny_h st)" and ?x = "m - n" and ?y = "puny_h st + 1"
    have mt: "?h = length (filter (\<lambda>c. c < n) cps)" "puny_first st = (i = 0)" "i \<le> length (filter (\<lambda>c. c < n) cps)"
      "nd * Suc ?h + i + unat (puny_delta st) = unat n * Suc ?h" using less.prems(2) unfolding matches_def hd filter.simps list.size add_0_right by blast+
    have h: "?h < 3000" unfolding mt(1) using cps(2) by (rule le_less_trans [OF length_filter_le])
    have y: "unat ?y = Suc ?h" using h by (simp add: unat_word_ariths)
    have x: "unat ?x = unat m - unat n" using m(3) by (simp add: unat_sub)
    have nm: "unat n \<le> unat m" using m(3) by (simp add: word_le_nat_alt)
    have total: "unat (puny_delta st) + unat ?x * Suc ?h + nd * Suc ?h + i = unat m * Suc ?h"
    proof -
      have "unat m * Suc ?h = unat ?x * Suc ?h + unat n * Suc ?h" by (simp only: x add_mult_distrib [symmetric] le_add_diff_inverse2 [OF nm])
      then show ?thesis using mt(4) by linarith
    qed
    have "unat m * Suc ?h \<le> 0x10FFFF * 3000" using mb(1) h by (intro mult_mono) simp_all
    then have "unat (puny_delta st) + unat ?x * Suc ?h \<le> 0x10FFFF * 3000" using total by linarith
    then have small: "unat (puny_delta st) + unat ?x * Suc ?h < 2 ^ LENGTH(32)" by (rule le_less_trans) simp
    then have "unat ?x * Suc ?h < 2 ^ LENGTH(32)" by (rule le_less_trans [OF le_add2])
    then have xy: "unat (?x * ?y) = unat ?x * Suc ?h" by (simp only: unat_word_ariths(2) y mod_less)
    have d: "unat (puny_delta st + ?x * ?y) = unat (puny_delta st) + unat ?x * Suc ?h" using small by (simp only: unat_word_ariths(1) xy mod_less)
    have fits: "\<not> ?x > NOT (puny_delta st) div ?y"
    proof -
      have "unat ?x * Suc ?h \<le> unat (NOT (puny_delta st))" using small unfolding unat_complement by simp
      then have "unat ?x \<le> unat (NOT (puny_delta st)) div Suc ?h" by (simp add: less_eq_div_iff_mult_less_eq)
      then show ?thesis by (simp add: word_less_nat_alt unat_div y not_less)
    qed
    let ?st = "st\<lparr>puny_delta := puny_delta st + ?x * ?y\<rparr>"
    have "matches m [] cps ?st nd i" unfolding matches_def hd using mt(1-3) total d by simp
    from encode_pass [OF this mb(2) _ , of de out] cps(2) less.prems(4)
    obtain st' n' i' E1 where pass: "fold_flow (encode_body de m) cps ?st = Inr st'" "matches m cps [] st' n' i'"
      "puny_todo st' = puny_todo st - of_nat (count_list cps m)" "puny_out st' = take de (out @ E1)" "\<forall>b \<in> set E1. b \<noteq> 0x2D \<and> b < 128"
      "\<And>X. puny_insert nd i (unat (puny_bias st)) (handled m [] cps) (E1 @ X) = puny_insert n' i' (unat (puny_bias st')) (handled m cps []) X"
      by auto
    note b = matches_bound [OF pass(2) mb(2)]
    have m1: "unat (m + 1) = Suc (unat m)" using mb(1) by (simp add: unat_word_ariths)
    have lt: "c < m + 1 \<longleftrightarrow> c \<le> m" "m + 1 \<le> c \<longleftrightarrow> m < c" for c using m1 by (simp_all add: word_less_nat_alt word_le_nat_alt less_Suc_eq_le Suc_le_eq)
    have hd': "handled (m + 1) [] cps = handled m cps []" "handled m cps [] = filter (\<lambda>c. c < m + 1) cps" by (simp_all add: handled_def lt)
    let ?st' = "st'\<lparr>puny_delta := puny_delta st' + 1\<rparr>"
    have d1: "unat (puny_delta st' + 1) = Suc (unat (puny_delta st'))" using b(1) cps(2) by (simp add: unat_word_ariths)
    have h': "unat (puny_h st') = length (filter (\<lambda>c. c \<le> m) cps)" "n' * Suc (unat (puny_h st')) + i' + unat (puny_delta st') = unat m * Suc (unat (puny_h st')) + length (filter (\<lambda>c. c \<le> m) cps)"
      "puny_first st' = (i' = 0)" "i' \<le> length (filter (\<lambda>c. c \<le> m) cps)"
      using pass(2) unfolding matches_def handled_def filter.simps append_Nil2 by blast+
    have eq': "n' * Suc (unat (puny_h st')) + i' + Suc (unat (puny_delta st')) = Suc (unat m) * Suc (unat (puny_h st'))"
      using h'(2) unfolding h'(1) [symmetric] by simp
    have "matches (m + 1) [] cps ?st' n' i'" unfolding matches_def hd' lt using h'(1,3,4) eq' d1 m1 by simp
    moreover have "unat (m + 1) \<le> 0x110000" using m1 mb(1) by simp
    moreover have split: "length (filter (\<lambda>c. n \<le> c) cps) = count_list cps m + length (filter (\<lambda>c. m + 1 \<le> c) cps)"
    proof -
      have "filter (\<lambda>c. n \<le> c) cps = filter (\<lambda>c. m \<le> c) cps" using m(3,4) by (intro filter_cong) (auto intro: order_trans)
      moreover have "length (filter (\<lambda>c. m \<le> c) xs) = count_list xs m + length (filter (\<lambda>c. m < c) xs)" for xs by (induction xs) (auto simp: order_less_le)
      ultimately show ?thesis by (simp add: lt)
    qed
    then have "puny_todo ?st' = of_nat (length (filter (\<lambda>c. m + 1 \<le> c) cps))" using pass(3) less.prems(3) by simp
    moreover have "0 < count_list cps m" using m(2) by (simp add: count_list_0_iff flip: neq0_conv)
    then have "length (filter (\<lambda>c. m + 1 \<le> c) cps) < length (filter (\<lambda>c. n \<le> c) cps)" using split by simp
    ultimately obtain E2 where ih: "encode_loop ?buf (length pre) ?se de (m + 1) ?st' = Some (0, take de ((out @ E1) @ E2))"
      "\<forall>b \<in> set E2. b \<noteq> 0x2D \<and> b < 128" "puny_insert n' i' (unat (puny_bias st')) (filter (\<lambda>c. c < m + 1) cps) E2 = Some cps"
      using less.hyps [of "m + 1" ?st' n' i' "out @ E1"] pass(4) by auto
    note each = foreach_codepoints [OF cps(1) post, of _ pre]
    have "encode_loop ?buf (length pre) ?se de n st = encode_loop ?buf (length pre) ?se de (m + 1) ?st'"
      using nt fits by (subst encode_loop.simps) (simp add: each m(1) pass(1) Let_def del: length_append)
    moreover have "puny_insert nd i (unat (puny_bias st)) (filter (\<lambda>c. c < n) cps) (E1 @ E2) = Some cps"
      using pass(6) [of E2] ih(3) unfolding hd hd' by simp
    moreover have "\<forall>b \<in> set (E1 @ E2). b \<noteq> 0x2D \<and> b < 128" using pass(5) ih(2) unfolding set_append by blast
    ultimately show ?thesis using ih(1) by (intro exI [of _ "E1 @ E2"]) simp
  qed
qed

end
