(* ===== verification/Uv_Idna_Names.thy ===== *)
theory Uv_Idna_Names
  imports Uv_Idna_Correct
begin

text \<open>
  Labels and names: a name is split at its dots, each label is copied when it is ASCII and otherwise encoded, and the results
  are joined by dots.
\<close>

section \<open>A label\<close>

abbreviation ascii :: "u32 list \<Rightarrow> u32 list" where
  "ascii cps \<equiv> filter (\<lambda>c. c < 128) cps"

text \<open>What a label is written as: itself, or \<open>xn--\<close> and a text from which the decoder of the RFC reads it.\<close>

definition ace_of :: "u32 list \<Rightarrow> u8 list \<Rightarrow> bool" where
  "ace_of cps ace \<longleftrightarrow>
     (if \<forall>c \<in> set cps. c < 128 then ace = map ucast cps
      else \<exists>p. ace = [0x78, 0x6E, 0x2D, 0x2D] @ p \<and> puny_decode p = Some cps) \<and> (\<forall>b \<in> set ace. b < 128)"

lemma scalar_valid: "scalar c \<Longrightarrow> c \<noteq> - 1"
  by (auto simp: scalar_def word_le_nat_alt unsigned_minus_1_eq_mask mask_eq_exp_minus_1)

lemma count_fold:
  "\<forall>c \<in> set cps. scalar c \<Longrightarrow> fold_flow count_body cps (h, todo)
     = Inr (h + of_nat (length (ascii cps)), todo + of_nat (length (filter (\<lambda>c. 128 \<le> c) cps)))"
  by (induction cps arbitrary: h todo) (auto simp: count_body_def scalar_valid not_less)

lemma of_nat_eq_0: "k < 2 ^ 32 \<Longrightarrow> (of_nat k :: u32) = 0 \<longleftrightarrow> k = 0"
proof
  assume k: "k < 2 ^ 32" and "(of_nat k :: u32) = 0"
  then have "unat (of_nat k :: u32) = 0" by simp
  then show "k = 0" using k by (simp add: unat_of_nat)
qed simp

lemma copy_fold:
  "length (ascii cps) < 2 ^ 32 \<Longrightarrow> h = x + of_nat (length (ascii cps)) \<Longrightarrow>
   \<exists>x'. fold_flow (copy_body de h) cps (x, take de out) = Inr (x', take de (out @ map ucast (ascii cps)))"
proof (induction cps arbitrary: x out)
  case (Cons c cps)
  show ?case
  proof (cases "c < 128")
    case True
    then have nc: "\<not> c > 127" by (simp add: word_less_nat_alt)
    let ?k = "length (ascii cps)"
    have h: "h = (x + 1) + of_nat ?k" using Cons.prems(2) True by simp
    have k: "?k < 2 ^ 32" using Cons.prems(1) True by simp
    show ?thesis
    proof (cases "?k = 0")
      case 0: True
      then have "h = x + 1" using h by simp
      moreover have "ascii (c # cps) = [c]" using 0 True by simp
      ultimately show ?thesis using nc by (simp add: copy_body_def Let_def put_take)
    next
      case False
      then have "x + 1 \<noteq> h" using h of_nat_eq_0 [OF k] by (metis add_cancel_right_right)
      then show ?thesis using Cons.IH [OF k h, of "out @ [ucast c]"] True nc by (simp add: copy_body_def Let_def put_take)
    qed
  next
    case False
    then have nc: "c > 127" by (simp add: word_less_nat_alt)
    then show ?thesis using Cons.IH [of x out] Cons.prems False by (simp add: copy_body_def)
  qed
qed simp

lemma byte_of_ascii: "c < (128 :: u32) \<Longrightarrow> ucast (ucast c :: u8) = c \<and> (ucast c :: u8) < 128"
proof -
  assume "c < 128"
  then have "unat c < 2 ^ 7" by (simp add: word_less_nat_alt)
  then have c: "take_bit 7 c = c" by (rule take_bit_small)
  have "ucast (ucast c :: u8) = c" using low_byte(2) [of 7 c] c by simp
  moreover have "unat (ucast c :: u8) = unat c" using \<open>unat c < 2 ^ 7\<close> by (simp add: unsigned_ucast_eq take_bit_nat_eq_self)
  ultimately show ?thesis using \<open>unat c < 2 ^ 7\<close> by (simp add: word_less_nat_alt)
qed

lemma ascii_back: "map ucast (map ucast (ascii cps) :: u8 list) = ascii cps"
  using byte_of_ascii by (induction cps) auto

lemma label_plain:
  assumes "\<forall>c \<in> set cps. c < 128"
  shows "ace_of cps (map ucast cps)"
  using assms byte_of_ascii by (auto simp: ace_of_def)

lemma label_encoded:
  assumes "c \<in> set cps" "\<not> c < 128" and E: "\<forall>b \<in> set E. b \<noteq> 0x2D \<and> b < 128" "puny_insert 128 0 72 (ascii cps) E = Some cps"
  shows "ace_of cps ([0x78, 0x6E, 0x2D, 0x2D] @ map ucast (ascii cps) @ (if ascii cps = [] then [] else [0x2D]) @ E)"
proof -
  let ?p = "map ucast (ascii cps) @ (if ascii cps = [] then [] else [0x2D]) @ E"
  have n: "0x2D \<notin> set E" using E(1) by blast
  have "puny_decode ?p = Some cps"
  proof (cases "ascii cps = []")
    case True
    then show ?thesis using puny_decode_ext [OF n] E(2) by simp
  next
    case False
    then show ?thesis using puny_decode_split [OF n, of "map ucast (ascii cps)"] E(2) by (simp add: ascii_back [unfolded map_map])
  qed
  moreover have "\<forall>b \<in> set ([0x78, 0x6E, 0x2D, 0x2D] @ ?p). b < 128" using E(1) byte_of_ascii by auto
  ultimately show ?thesis using assms(1,2) unfolding ace_of_def by auto
qed

lemma label_correct:
  assumes cps: "\<forall>c \<in> set cps. scalar c" "length cps < 3000" and post: "end_ok post"
  shows "\<exists>rc ace. uv__idna_toascii_label (pre @ utf8_string cps @ post) (length pre) (length (pre @ utf8_string cps)) de (take de out)
      = Some (rc, take de (out @ ace)) \<and> 0 \<le> rc \<and> ace_of cps ace"
proof -
  let ?h = "of_nat (length (ascii cps)) :: u32" and ?high = "filter (\<lambda>c. 128 \<le> c) cps"
  let ?todo = "of_nat (length ?high) :: u32"
  have small: "length (ascii cps) < 3000" "length ?high < 3000" using cps(2) by (auto intro: le_less_trans [OF length_filter_le])
  note each = foreach_codepoints [OF cps(1) post, of _ pre]
  have t0: "?todo = 0 \<longleftrightarrow> ?high = []" "?h = 0 \<longleftrightarrow> ascii cps = []" using small of_nat_eq_0 by simp_all
  let ?out = "if ?high = [] then out else out @ [0x78, 0x6E, 0x2D, 0x2D]"
  obtain x where copy: "fold_flow (copy_body de ?h) cps (0, take de ?out) = Inr (x, take de (?out @ map ucast (ascii cps)))"
    using copy_fold [of cps ?h 0 de ?out] small by auto
  have xn: "(if ?todo > 0 then put_byte de 0x2D (put_byte de 0x2D (put_byte de 0x6E (put_byte de 0x78 (take de out)))) else take de out) = take de ?out"
    using t0(1) by (simp add: put_take word_gt_0 del: take_append)
  show ?thesis
  proof (cases "?high = []")
    case True
    then have all: "\<forall>c \<in> set cps. c < 128" by (auto simp: filter_empty_conv not_le)
    then have "ascii cps = cps" by simp
    moreover have "0 \<le> sint ?h"
    proof -
      have "uint ?h < 2 ^ 31" using small(1) by (simp add: uint_nat unat_of_nat)
      moreover have "- (2 ^ 31) \<le> uint ?h" by (rule order_trans [OF _ unsigned_greater_eq]) simp
      ultimately have "signed_take_bit (LENGTH(32) - Suc 0) (uint ?h) = uint ?h" by (intro signed_take_bit_int_eq_self) simp_all
      then show ?thesis by (simp add: sint_uint)
    qed
    ultimately show ?thesis using True label_plain [OF all] copy xn t0(1)
      by (intro exI [of _ "sint ?h"] exI [of _ "map ucast cps"]) (simp add: uv__idna_toascii_label_def each count_fold [OF cps(1)] Let_def del: length_append)
  next
    case False
    let ?out' = "?out @ map ucast (ascii cps) @ (if ascii cps = [] then [] else [0x2D])"
    let ?st = "\<lparr>puny_delta = 0, puny_h = ?h, puny_bias = 72, puny_first = True, puny_todo = ?todo, puny_out = take de ?out'\<rparr>"
    have "matches 128 [] cps ?st 128 0" using small(1) by (simp add: matches_def handled_def unat_of_nat)
    from encode_loop_correct [OF cps post _ this, of de ?out' pre] obtain E where
      E: "encode_loop (pre @ utf8_string cps @ post) (length pre) (length (pre @ utf8_string cps)) de 128 ?st = Some (0, take de (?out' @ E))"
      "\<forall>b \<in> set E. b \<noteq> 0x2D \<and> b < 128" "puny_insert 128 0 72 (ascii cps) E = Some cps" by auto
    obtain c where c: "c \<in> set cps" "\<not> c < 128" using False by (auto simp: filter_empty_conv not_less)
    have sep: "(if ?h > 0 then put_byte de 0x2D (take de (?out @ map ucast (ascii cps))) else take de (?out @ map ucast (ascii cps))) = take de ?out'"
      using t0(2) by (simp add: put_take word_gt_0 del: take_append)
    have nz: "?todo \<noteq> 0" using False t0(1) by simp
    have "uv__idna_toascii_label (pre @ utf8_string cps @ post) (length pre) (length (pre @ utf8_string cps)) de (take de out)
      = encode_loop (pre @ utf8_string cps @ post) (length pre) (length (pre @ utf8_string cps)) de 128 ?st"
      unfolding uv__idna_toascii_label_def each count_fold [OF cps(1)] option.case sum.case split add_0 Let_def xn copy sum.case id_apply snd_conv sep
      using nz by simp
    then show ?thesis using E(1) label_encoded [OF c E(2,3)] False
      by (intro exI [of _ 0] exI [of _ "[0x78, 0x6E, 0x2D, 0x2D] @ map ucast (ascii cps) @ (if ascii cps = [] then [] else [0x2D]) @ E"]) simp
  qed
qed

section \<open>A name\<close>

definition is_dot :: "u32 \<Rightarrow> bool" where
  "is_dot c \<longleftrightarrow> c = 0x2E \<or> c = 0x3002 \<or> c = 0xFF0E \<or> c = 0xFF61"

fun labels :: "u32 list \<Rightarrow> u32 list list" where
  "labels [] = [[]]"
| "labels (c # cs) = (if is_dot c then [] # labels cs else (c # hd (labels cs)) # tl (labels cs))"

fun dotted :: "u8 list list \<Rightarrow> u8 list" where
  "dotted [] = []"
| "dotted [a] = a"
| "dotted (a # b # as) = a @ 0x2E # dotted (b # as)"

lemma labels_ne [simp]: "labels cs \<noteq> []"
  by (induction cs) auto

text \<open>The labels when some of the first has been read.\<close>

definition labels_from :: "u32 list \<Rightarrow> u32 list \<Rightarrow> u32 list list" where
  "labels_from lbl rest = (lbl @ hd (labels rest)) # tl (labels rest)"

lemma labels_from_simps:
  "labels_from lbl [] = [lbl]"
  "is_dot c \<Longrightarrow> labels_from lbl (c # cs) = lbl # labels_from [] cs"
  "\<not> is_dot c \<Longrightarrow> labels_from lbl (c # cs) = labels_from (lbl @ [c]) cs"
  "labels_from [] cs = labels cs"
  by (simp_all add: labels_from_def)

lemma dotted_snoc: "dotted (as @ [a]) = concat (map (\<lambda>a. a @ [0x2E]) as) @ a"
  by (induction as rule: dotted.induct) auto

lemma labels_length: "l \<in> set (labels cs) \<Longrightarrow> length l \<le> length cs"
proof (induction cs arbitrary: l)
  case (Cons c cs)
  have "hd (labels cs) \<in> set (labels cs)" by simp
  moreover have "set (tl (labels cs)) \<subseteq> set (labels cs)" by (cases "labels cs") auto
  ultimately show ?case using Cons by (fastforce split: if_splits)
qed simp

text \<open>The last label is left to be converted after the loop.\<close>

lemma label_loop_correct:
  assumes "\<forall>c \<in> set (lbl @ rest). scalar c" and "length (lbl @ rest) < 3000" and post: "end_ok post"
  shows "\<exists>pre' last aces. label_loop (pre @ utf8_string lbl @ utf8_string rest @ post) (length (pre @ utf8_string lbl @ utf8_string rest)) de
        (length (pre @ utf8_string lbl)) (length pre) (take de out)
      = Some (Inr (length pre'), take de (out @ concat (map (\<lambda>a. a @ [0x2E]) aces)))
    \<and> pre @ utf8_string lbl @ utf8_string rest = pre' @ utf8_string last \<and> (\<forall>c \<in> set last. scalar c) \<and> length last < 3000
    \<and> (\<exists>ls. labels_from lbl rest = ls @ [last] \<and> list_all2 ace_of ls aces)"
  using assms(1,2)
proof (induction rest arbitrary: pre lbl out)
  case Nil
  show ?case
    by (intro exI [of _ pre] exI [of _ lbl] exI [of _ "[]"]) (use Nil in \<open>subst label_loop.simps, simp add: labels_from_simps\<close>)
next
  case (Cons c rest)
  let ?buf = "pre @ utf8_string lbl @ utf8_string (c # rest) @ post" and ?se = "length (pre @ utf8_string lbl @ utf8_string (c # rest))"
  let ?si = "length (pre @ utf8_string lbl)" and ?si' = "length (pre @ utf8_string lbl @ utf8_bytes c)"
  have si: "?si < ?se" using utf8_bytes_ne [of c] by simp
  then have d: "uv__utf8_decode1 ?buf ?si ?se = Some (c, ?si')"
    using decode_utf8_bytes [of c "pre @ utf8_string lbl" ?se "utf8_string rest @ post"] Cons.prems(1) by simp
  show ?case
  proof (cases "is_dot c")
    case False
    then have "label_loop ?buf ?se de ?si (length pre) (take de out) = label_loop ?buf ?se de ?si' (length pre) (take de out)"
      using si d by (subst label_loop.simps) (simp add: is_dot_def)
    then show ?thesis using Cons.IH [of "lbl @ [c]" pre out] Cons.prems False by (simp add: labels_from_simps)
  next
    case True
    have "end_ok (utf8_string (c # rest) @ post)" using post utf8_bytes_ne [of c] by (cases "utf8_bytes c") (auto simp: end_ok_def)
    from label_correct [OF _ _ this, of lbl pre de out] Cons.prems obtain rc ace where
      l: "uv__idna_toascii_label ?buf (length pre) ?si de (take de out) = Some (rc, take de (out @ ace))" "0 \<le> rc" "ace_of lbl ace" by auto
    have step: "label_loop ?buf ?se de ?si (length pre) (take de out) = label_loop ?buf ?se de ?si' ?si' (take de (out @ ace @ [0x2E]))"
    proof -
      have nd: "(c \<noteq> 0x2E \<and> c \<noteq> 0x3002 \<and> c \<noteq> 0xFF0E \<and> c \<noteq> 0xFF61) = False" using True by (auto simp: is_dot_def)
      show ?thesis using si by (subst label_loop.simps) (simp only: d nd l(1) if_True if_False option.case split put_take append_assoc not_less [THEN iffD2, OF l(2)])
    qed
    obtain pre' last aces ls where ih: "label_loop ?buf ?se de ?si' ?si' (take de (out @ ace @ [0x2E]))
        = Some (Inr (length pre'), take de ((out @ ace @ [0x2E]) @ concat (map (\<lambda>a. a @ [0x2E]) aces)))"
      "(pre @ utf8_string lbl @ utf8_bytes c) @ utf8_string rest = pre' @ utf8_string last" "\<forall>c \<in> set last. scalar c" "length last < 3000"
      "labels_from [] rest = ls @ [last]" "list_all2 ace_of ls aces"
      using Cons.IH [of "[]" "pre @ utf8_string lbl @ utf8_bytes c" "out @ ace @ [0x2E]"] Cons.prems by auto
    have "label_loop ?buf ?se de ?si (length pre) (take de out) = Some (Inr (length pre'), take de (out @ concat (map (\<lambda>a. a @ [0x2E]) (ace # aces))))"
      unfolding step ih(1) by (simp del: take_append)
    moreover have "labels_from lbl (c # rest) = (lbl # ls) @ [last]" "list_all2 ace_of (lbl # ls) (ace # aces)" using ih(5,6) l(3) True by (simp_all add: labels_from_simps)
    moreover have "pre @ utf8_string lbl @ utf8_string (c # rest) = pre' @ utf8_string last" using ih(2) by simp
    ultimately show ?thesis using ih(3,4) by blast
  qed
qed

lemma toascii_correct:
  assumes cps: "\<forall>c \<in> set cps. scalar c" "length cps < 3000" and post: "end_ok post"
  shows "\<exists>aces. list_all2 ace_of (labels cps) aces
    \<and> uv__idna_toascii (utf8_string cps @ post) 0 (length (utf8_string cps)) de
      = Some (int (length (take de (dotted aces @ [0]))), take de (dotted aces @ [0]))"
proof -
  obtain pre last aces ls where r: "label_loop (utf8_string cps @ post) (length (utf8_string cps)) de 0 0 []
      = Some (Inr (length pre), take de (concat (map (\<lambda>a. a @ [0x2E]) aces)))"
    "utf8_string cps = pre @ utf8_string last" "\<forall>c \<in> set last. scalar c" "length last < 3000" "labels cps = ls @ [last]" "list_all2 ace_of ls aces"
    using label_loop_correct [of "[]" cps post "[]" de "[]"] cps post by (auto simp: labels_from_simps)
  obtain rc ace where l: "uv__idna_toascii_label (pre @ utf8_string last @ post) (length pre) (length (pre @ utf8_string last)) de (take de (concat (map (\<lambda>a. a @ [0x2E]) aces)))
      = Some (rc, take de (concat (map (\<lambda>a. a @ [0x2E]) aces) @ ace))" "0 \<le> rc" "ace_of last ace"
    using label_correct [OF r(3,4) post] by blast
  have "(if length pre < length (utf8_string cps)
        then uv__idna_toascii_label (utf8_string cps @ post) (length pre) (length (utf8_string cps)) de (take de (concat (map (\<lambda>a. a @ [0x2E]) aces)))
        else Some (0, take de (concat (map (\<lambda>a. a @ [0x2E]) aces))))
      = Some (if last = [] then 0 else rc, take de (dotted (aces @ [ace])))"
  proof (cases "last = []")
    case True
    then have "ace = []" using l(3) by (simp add: ace_of_def)
    then show ?thesis using r(2) True by (simp add: dotted_snoc)
  next
    case False
    then have "utf8_string last \<noteq> []" using utf8_bytes_ne by (cases last) auto
    then show ?thesis using l(1) False unfolding r(2) by (simp add: dotted_snoc)
  qed
  then have "uv__idna_toascii (utf8_string cps @ post) 0 (length (utf8_string cps)) de
      = Some (int (length (take de (dotted (aces @ [ace]) @ [0]))), take de (dotted (aces @ [ace]) @ [0]))"
    using r(1) l(2) by (simp add: uv__idna_toascii_def put_take Let_def del: take_append length_take)
  moreover have "list_all2 ace_of (labels cps) (aces @ [ace])" using r(5,6) l(3) by (simp add: list_all2_appendI)
  ultimately show ?thesis by blast
qed

end
