(* ===== verification/Uv_Idna_Properties.thy ===== *)
theory Uv_Idna_Properties
  imports Uv_Idna_Names
begin

text \<open>
  The properties of libuv's conversion of host names to ASCII.
\<close>

section \<open>Names that are well formed\<close>

text \<open>
  C37: A name that is a string of fewer than 3000 code points in UTF-8, ended by a null byte, is converted without reading outside the
  name and its null byte, and every loop ends. The name is split at its four kinds of dots; a label in ASCII stays
  as it is, any other becomes \<open>xn--\<close> and a text that the Punycode decoder of RFC 3492 decodes to exactly that label. The
  output is the labels joined by dots and a null byte, cut off at the end of the buffer, and the result is its length.
\<close>

theorem uv__idna_toascii_correct:
  assumes "\<forall>c \<in> set cps. scalar c" and "length cps < 3000"
  shows "\<exists>aces. list_all2 ace_of (labels cps) aces
    \<and> uv__idna_toascii (utf8_string cps @ [0]) 0 (length (utf8_string cps)) de
      = Some (int (length (take de (dotted aces @ [0]))), take de (dotted aces @ [0]))"
  by (rule toascii_correct [OF assms]) (simp add: end_ok_def)

text \<open>\<open>a\<close>, a label of three code points that are not ASCII, and \<open>b\<close>.\<close>

theorem uv__idna_toascii_correct_witness:
  "\<exists>p. uv__idna_toascii (utf8_string [0x61, 0x3002, 0x4E2D, 0xFC, 0x1F600, 0x2E, 0x62] @ [0]) 0
        (length (utf8_string [0x61, 0x3002, 0x4E2D, 0xFC, 0x1F600, 0x2E, 0x62])) 1000
      = Some (int (length (take 1000 ([0x61, 0x2E, 0x78, 0x6E, 0x2D, 0x2D] @ p @ [0x2E, 0x62, 0]))), take 1000 ([0x61, 0x2E, 0x78, 0x6E, 0x2D, 0x2D] @ p @ [0x2E, 0x62, 0]))
    \<and> puny_decode p = Some [0x4E2D, 0xFC, 0x1F600]"
proof -
  let ?cps = "[0x61, 0x3002, 0x4E2D, 0xFC, 0x1F600, 0x2E, 0x62] :: u32 list"
  have "\<forall>c \<in> set ?cps. scalar c" "length ?cps < 3000" by (simp_all add: scalar_def)
  from uv__idna_toascii_correct [OF this, of 1000] obtain aces where a: "list_all2 ace_of (labels ?cps) aces"
    "uv__idna_toascii (utf8_string ?cps @ [0]) 0 (length (utf8_string ?cps)) 1000 = Some (int (length (take 1000 (dotted aces @ [0]))), take 1000 (dotted aces @ [0]))" by blast
  have "labels ?cps = [[0x61], [0x4E2D, 0xFC, 0x1F600], [0x62]]" by (simp add: is_dot_def)
  then obtain x y z where xyz: "aces = [x, y, z]" "ace_of [0x61] x" "ace_of [0x4E2D, 0xFC, 0x1F600] y" "ace_of [0x62] z"
    using a(1) by (auto simp: list_all2_Cons1)
  then have "x = [0x61]" "z = [0x62]" by (simp_all add: ace_of_def)
  moreover obtain p where "y = [0x78, 0x6E, 0x2D, 0x2D] @ p" "puny_decode p = Some [0x4E2D, 0xFC, 0x1F600]" using xyz(3) by (auto simp: ace_of_def)
  ultimately show ?thesis using a(2) xyz(1) by (intro exI [of _ p]) (simp del: utf8_string_simps take_append length_take)
qed

section \<open>Names in ASCII\<close>

lemma utf8_of_ascii: "\<forall>b \<in> set name. b < 128 \<Longrightarrow> utf8_string (map ucast name) = name"
proof (induction name)
  case (Cons b name)
  then have "(ucast b :: u32) \<le> 0x7F" by (simp add: word_le_nat_alt word_less_nat_alt unat_ucast_up)
  then have "utf8_bytes (ucast b) = [b]" by (simp add: utf8_bytes_def byte_up_down)
  then show ?case using Cons by simp
qed simp

lemma ascii_scalar: "b < 128 \<Longrightarrow> scalar (ucast (b :: u8))" and ascii_small: "b < 128 \<Longrightarrow> (ucast (b :: u8) :: u32) < 128"
  by (simp_all add: scalar_def word_le_nat_alt word_less_nat_alt unat_ucast_up)

lemma labels_set: "l \<in> set (labels cs) \<Longrightarrow> c \<in> set l \<Longrightarrow> c \<in> set cs"
proof (induction cs arbitrary: l)
  case (Cons x cs)
  obtain y ys where y: "labels cs = y # ys" by (cases "labels cs") simp_all
  then have "c \<in> set cs" if "c \<in> set y \<or> (\<exists>l \<in> set ys. c \<in> set l)" using that Cons.IH by auto
  then show ?case using Cons.prems y by (auto split: if_splits)
qed simp

lemma dotted_Cons: "dotted ((b # a) # as) = b # dotted (a # as)" "as \<noteq> [] \<Longrightarrow> dotted ([] # as) = 0x2E # dotted as"
  by (cases as; simp)+

lemma dotted_labels:
  assumes "\<forall>c \<in> set cs. c < 128"
  shows "dotted (map (map ucast) (labels cs)) = (map ucast cs :: u8 list)"
  using assms
proof (induction cs)
  case (Cons c cs)
  obtain l ls where ls: "labels cs = l # ls" by (cases "labels cs") simp_all
  show ?case
  proof (cases "is_dot c")
    case True
    then have "c = 0x2E" using Cons.prems by (auto simp: is_dot_def)
    then show ?thesis using Cons ls True dotted_Cons(2) [of "map (map ucast) (labels cs)"] by simp
  next
    case False
    then show ?thesis using Cons ls by (simp add: dotted_Cons)
  qed
qed simp

lemma ascii_aces:
  assumes "\<forall>c \<in> set cs. c < 128" and "list_all2 ace_of (labels cs) aces"
  shows "aces = map (map ucast) (labels cs)"
proof -
  have "\<forall>l \<in> set (labels cs). \<forall>c \<in> set l. c < 128" using assms(1) labels_set by blast
  then have "list_all2 (\<lambda>l a. a = map ucast l) (labels cs) aces"
    using assms(2) by (intro list.rel_mono_strong [OF assms(2)]) (auto simp: ace_of_def)
  then show ?thesis by (induction rule: list_all2_induct) auto
qed

lemma toascii_ascii:
  assumes "\<forall>b \<in> set name. b < 128" and "length name < 3000"
  shows "uv__idna_toascii (name @ [0]) 0 (length name) de = Some (int (length (take de (name @ [0]))), take de (name @ [0]))"
proof -
  let ?cps = "map ucast name :: u32 list"
  have s: "\<forall>c \<in> set ?cps. scalar c" "\<forall>c \<in> set ?cps. c < 128" "length ?cps < 3000" using assms ascii_scalar ascii_small by auto
  obtain aces where a: "list_all2 ace_of (labels ?cps) aces"
    "uv__idna_toascii (name @ [0]) 0 (length name) de = Some (int (length (take de (dotted aces @ [0]))), take de (dotted aces @ [0]))"
    using toascii_correct [OF s(1,3), of "[0]" de] utf8_of_ascii [OF assms(1)] by (auto simp: end_ok_def)
  have "dotted aces = map ucast ?cps" unfolding ascii_aces [OF s(2) a(1)] by (rule dotted_labels [OF s(2)])
  then show ?thesis using a(2) by (simp add: byte_up_down comp_def)
qed

text \<open>
  C38: A name in ASCII that is as long as the output buffer or longer is not refused: the call returns the size of the buffer as if the
  name had been converted, the buffer holds the front of the name, and there is no null byte in it. (\<open>uv_getaddrinfo\<close>
  then takes the length of the string in its buffer of 256 bytes.)
\<close>

theorem uv__idna_toascii_truncates:
  assumes "\<forall>b \<in> set name. 0 < b \<and> b < 128" and "length name < 3000" and "de \<le> length name"
  shows "uv__idna_toascii (name @ [0]) 0 (length name) de = Some (int de, take de name) \<and> 0 \<notin> set (take de name)"
proof -
  have "0 \<notin> set name" using assms(1) by auto
  then show ?thesis using toascii_ascii [of name de] assms by (auto dest: in_set_takeD)
qed

theorem uv__idna_toascii_truncates_witness:
  "uv__idna_toascii (replicate 300 0x61 @ [0]) 0 300 256 = Some (256, replicate 256 0x61) \<and> 0 \<notin> set (replicate 256 (0x61 :: u8))"
  using uv__idna_toascii_truncates [of "replicate 300 0x61" 256] by simp

section \<open>Names that are not well formed\<close>

text \<open>The loop over the labels stops when the decoder does.\<close>

lemma label_loop_fault:
  assumes "\<forall>c \<in> set (lbl @ rest). scalar c" and "length (lbl @ rest) < 3000" and ne: "post \<noteq> []"
    and n: "length (pre @ utf8_string lbl @ utf8_string rest) < se"
    and fault: "uv__utf8_decode1 (pre @ utf8_string lbl @ utf8_string rest @ post) (length (pre @ utf8_string lbl @ utf8_string rest)) se = None"
  shows "label_loop (pre @ utf8_string lbl @ utf8_string rest @ post) se de (length (pre @ utf8_string lbl)) (length pre) (take de out) = None"
  using assms(1,2) n fault
proof (induction rest arbitrary: pre lbl out)
  case Nil
  then show ?case by (subst label_loop.simps) simp
next
  case (Cons c rest)
  let ?buf = "pre @ utf8_string lbl @ utf8_string (c # rest) @ post"
  let ?si = "length (pre @ utf8_string lbl)" and ?si' = "length (pre @ utf8_string lbl @ utf8_bytes c)"
  have si: "?si < se" using Cons.prems(3) by simp
  then have d: "uv__utf8_decode1 ?buf ?si se = Some (c, ?si')"
    using decode_utf8_bytes [of c "pre @ utf8_string lbl" se "utf8_string rest @ post"] Cons.prems(1) by simp
  show ?case
  proof (cases "is_dot c")
    case False
    then have "label_loop ?buf se de ?si (length pre) (take de out) = label_loop ?buf se de ?si' (length pre) (take de out)"
      using si d by (subst label_loop.simps) (simp add: is_dot_def)
    then show ?thesis using Cons.IH [of "lbl @ [c]" pre out] Cons.prems by simp
  next
    case True
    have "end_ok (utf8_string (c # rest) @ post)" using ne utf8_bytes_ne [of c] by (cases "utf8_bytes c") (auto simp: end_ok_def)
    from label_correct [OF _ _ this, of lbl pre de out] Cons.prems obtain rc ace where
      l: "uv__idna_toascii_label ?buf (length pre) ?si de (take de out) = Some (rc, take de (out @ ace))" "0 \<le> rc" by auto
    have nd: "(c \<noteq> 0x2E \<and> c \<noteq> 0x3002 \<and> c \<noteq> 0xFF0E \<and> c \<noteq> 0xFF61) = False" using True by (auto simp: is_dot_def)
    have "label_loop ?buf se de ?si (length pre) (take de out) = label_loop ?buf se de ?si' ?si' (take de (out @ ace @ [0x2E]))"
      using si by (subst label_loop.simps) (simp only: d nd l(1) if_True if_False option.case split put_take append_assoc not_less [THEN iffD2, OF l(2)])
    then show ?thesis using Cons.IH [of "[]" "pre @ utf8_string lbl @ utf8_bytes c" "out @ ace @ [0x2E]"] Cons.prems by simp
  qed
qed

lemma decode_past_end:
  assumes "0xE0 \<le> b" and "b \<le> 0xF7" and "length pre < pe"
  shows "uv__utf8_decode1 (pre @ [b, 0]) (length pre) pe = None"
proof -
  let ?b = "ucast b :: u32"
  have r: "\<not> ?b < 128" "\<not> ?b > 0xF7" "?b > 0xDF" using assms(1,2) by (simp_all add: word_le_nat_alt word_less_nat_alt unat_ucast_up)
  have c: "byte_at (pre @ [b, 0]) (length pre + 1) = Some 0" unfolding byte_at_skip by (simp add: byte_at_def)
  have d: "byte_at (pre @ [b, 0]) (length pre + 1 + 1) = None" unfolding add.assoc byte_at_skip by (simp add: byte_at_def)
  have "decode_default (pre @ [b, 0]) (length pre + 1) ?b = None"
  proof (cases "?b > 0xEF")
    case True
    then show ?thesis using c d by (simp add: decode_default_def)
  next
    case False
    then show ?thesis using decode_three [OF r(3) False c] d by simp
  qed
  then show ?thesis unfolding decode_inside [OF assms(3)] Let_def using r(1,2) by simp
qed

text \<open>
  C39: A name that ends in the first byte of a sequence of three or four makes the conversion read behind the null byte that ends the
  name: the decoder, called at that byte, takes the missing bytes from wherever the buffer goes on.
\<close>

theorem uv__idna_toascii_reads_past_end:
  assumes "\<forall>c \<in> set cps. scalar c" and "length cps < 3000" and "0xE0 \<le> b" and "b \<le> 0xF7"
  shows "uv__utf8_decode1 (utf8_string cps @ [b, 0]) (length (utf8_string cps)) (length (utf8_string cps) + 1) = None
    \<and> uv__idna_toascii (utf8_string cps @ [b, 0]) 0 (length (utf8_string cps) + 1) de = None"
proof -
  have d: "uv__utf8_decode1 (utf8_string cps @ [b, 0]) (length (utf8_string cps)) (length (utf8_string cps) + 1) = None"
    by (rule decode_past_end [OF assms(3,4)]) simp
  then show ?thesis using label_loop_fault [of "[]" cps "[b, 0]" "[]" "length (utf8_string cps) + 1" de "[]"] assms(1,2)
    by (simp add: uv__idna_toascii_def)
qed

theorem uv__idna_toascii_reads_past_end_witness:
  "uv__idna_toascii (utf8_string [0x61, 0x2E, 0xFC] @ [0xE4, 0]) 0 (length (utf8_string [0x61, 0x2E, 0xFC]) + 1) 256 = None"
proof -
  have "\<forall>c \<in> set [0x61, 0x2E, 0xFC :: u32]. scalar c" "length [0x61, 0x2E, 0xFC :: u32] < 3000" "(0xE0 :: u8) \<le> 0xE4" "(0xE4 :: u8) \<le> 0xF7"
    by (simp_all add: scalar_def)
  from uv__idna_toascii_reads_past_end [OF this] show ?thesis by blast
qed

lemma three_byte_range:
  fixes v :: u32
  assumes "drop_bit 12 v = take_bit 4 (ucast a)" and "0xE1 \<le> a" and "(a :: u8) \<le> 0xEC"
  shows "0x800 \<le> v \<and> v \<le> 0x10FFFF \<and> \<not> 0xD800 \<le> v"
proof -
  have a: "225 \<le> unat a" "unat a \<le> 236" using assms(2,3) by (simp_all add: word_le_nat_alt)
  have "unat v div 4096 = unat (take_bit 4 (ucast a :: u32))" using unat_drop_bit_eq [of 12 v] assms(1) by (simp add: drop_bit_eq_div)
  also have "\<dots> = unat a mod 16" by (simp add: take_bit_eq_mod unat_mod unat_ucast_up)
  finally have d: "unat v div 4096 = unat a mod 16" .
  have "unat a mod 16 = unat a - 224" using a by presburger
  then have "1 \<le> unat v div 4096" "unat v div 4096 \<le> 12" unfolding d using a by simp_all
  then have "4096 \<le> unat v" "unat v < 13 * 4096" by simp_all
  then show ?thesis by (simp add: word_le_nat_alt)
qed

text \<open>
  C40: The decoder does not check that the bytes that follow are continuation bytes: it looks at the exclusive or of their two
  upper bits. After a byte from \<open>0xE1\<close> to \<open>0xEC\<close>, any two bytes with the same upper bits, for instance two letters or a dot and
  a digit, are taken as the rest of a sequence and decoded to a code point; the parser of BoringSSL refuses them.
\<close>

theorem uv__utf8_decode1_unchecked:
  assumes "0xE1 \<le> a" and "a \<le> 0xEC" and "c AND 0xC0 = d AND 0xC0" and "length pre < pe"
  shows "uv__utf8_decode1 (pre @ [a, c, d] @ post) (length pre) pe
      = Some (push_bit 12 (ucast a AND 15) OR push_bit 6 (ucast c AND 63) OR (ucast d AND 63), length pre + 3)
    \<and> (c AND 0xC0 \<noteq> 0x80 \<longrightarrow> length post < 2 ^ 63 \<longrightarrow> fst (cbs_get_utf8 ([a, c, d] @ post)) = None)"
proof
  let ?a = "ucast a :: u32" and ?c = "ucast c :: u32" and ?d = "ucast d :: u32" and ?buf = "pre @ [a, c, d] @ post"
  have m: "x AND 15 = take_bit 4 x" "x AND 63 = take_bit 6 x" for x :: u32 by (simp_all add: take_bit_eq_mask mask_eq_exp_minus_1)
  let ?v = "push_bit 12 (?a AND 15) OR push_bit 6 (?c AND 63) OR (?d AND 63)"
  have r: "\<not> ?a < 128" "\<not> ?a > 0xF7" "?a > 0xDF" "\<not> ?a > 0xEF" using assms(1,2) by (simp_all add: word_le_nat_alt word_less_nat_alt unat_ucast_up)
  have b: "byte_at ?buf (length pre + 1) = Some ?c" "byte_at ?buf (length pre + 1 + 1) = Some ?d"
    unfolding add.assoc byte_at_skip by (simp_all add: byte_at_def)
  have low: "take_bit 6 (?a AND 15) = ?a AND 15" unfolding m by simp
  have "0xC0 AND (ucast x :: u32) = ucast (x AND 0xC0)" for x :: u8 by (simp add: unsigned_and_eq and.commute)
  then have xor: "0xC0 AND ((0x80 OR (?a AND 15)) XOR ?c XOR ?d) = 0x80" unfolding bit.conj_xor_distrib low_field(2) [OF low] using assms(3) by simp
  have range: "0x800 \<le> ?v" "?v \<le> 0x10FFFF" "\<not> 0xD800 \<le> ?v"
  proof -
    have "drop_bit 12 ?v = take_bit 4 ?a" unfolding m by (rule bit_word_eqI) (auto simp: bit_simps)
    from three_byte_range [OF this assms(1,2)] show "0x800 \<le> ?v" "?v \<le> 0x10FFFF" "\<not> 0xD800 \<le> ?v" by blast+
  qed
  have "joined 0x800 ?v = ?v" unfolding joined_def scalar_def using leD [OF range(1)] range(2,3) by (simp only: simp_thms if_False)
  then have "decode_check 0x800 0 (0x80 OR (?a AND 15)) ?c ?d = ?v"
    using check_joined [OF xor, of "0x800" 0] unfolding low_field(1) [OF low] push_bit_of_0 or.left_neutral by (rule trans [rotated])
  then have "decode_default ?buf (length pre + 1) ?a = Some (?v, length pre + 3)" using decode_three [OF r(3,4) b(1)] b(2) by simp
  then show "uv__utf8_decode1 ?buf (length pre) pe = Some (?v, length pre + 3)"
    using decode_inside [OF assms(4), of a "[c, d] @ post"] r(1,2) by (simp add: Let_def)
  show "c AND 0xC0 \<noteq> 0x80 \<longrightarrow> length post < 2 ^ 63 \<longrightarrow> fst (cbs_get_utf8 ([a, c, d] @ post)) = None"
  proof (intro impI)
    assume n: "c AND 0xC0 \<noteq> 0x80" and l: "length post < 2 ^ 63"
    have "a AND 0xF0 = 0xE0"
    proof -
      have "225 \<le> unat a" "unat a \<le> 236" using assms(1,2) by (simp_all add: word_le_nat_alt)
      then have "unat a div 16 = 14" by presburger
      then have "unat (drop_bit 4 a) = 14" by (simp add: drop_bit_eq_div unat_div)
      then have "drop_bit 4 a = 14" by (simp add: word_unat_eq_iff)
      moreover have "a AND 0xF0 = push_bit 4 (drop_bit 4 a)" unfolding masks8(6) [symmetric] by (rule bit_word_eqI) (auto simp: bit_simps)
      ultimately show ?thesis by simp
    qed
    then have "cbs_get_utf8 (a # c # d # post) = utf8_rest (ucast (a AND 0x0F)) 2 0x800 (c # d # post)" using utf8_heads(2) [of a "c # d # post"] l by simp
    moreover have "utf8_loop (Suc 1) v (c # d # post) = (None, d # post)" for v
      using n l CBS_get_u8_Cons [of c "d # post"] by (subst utf8_loop.simps(2)) (simp add: bits_values)
    ultimately show "fst (cbs_get_utf8 ([a, c, d] @ post)) = None" unfolding Suc_1 by (simp add: utf8_rest_def)
  qed
qed

theorem uv__utf8_decode1_unchecked_witness:
  "uv__utf8_decode1 [0xE1, 0x2E, 0x30] 0 3 = Some (0x1BB0, 3) \<and> fst (cbs_get_utf8 [0xE1, 0x2E, 0x30]) = None"
  using uv__utf8_decode1_unchecked [of "0xE1" "0x2E" "0x30" "[]" 3 "[]"] by simp

end
