(* ===== verification/Spec2Isabelle.thy ===== *)
theory Spec2Isabelle
  imports Pb_Properties Pb_Decode_Properties Bytestring_Properties Container_Properties Base64_Properties Uv_Properties Uv_Idna_Properties
begin

text \<open>
  Verification of the C code that BlindBoard ships.

  \<^bold>\<open>The program.\<close> BlindBoard is an iOS application in Swift; its own code is user interface and
  calls to Firebase. The C code it is linked with comes from its pods. Two libraries of these
  handle every message that leaves or reaches the application: nanopb
  (\<open>src/BlindBoard/Pods/nanopb\<close>), with which Firebase encodes and decodes protocol buffers, and
  the byte-string library of BoringSSL
  (\<open>src/BlindBoard/Pods/BoringSSL-GRPC/src/crypto/bytestring\<close>), on which its TLS and ASN.1 code
  parses (CBS) and builds (CBB) messages. With them come BoringSSL's containers, on which its certificate code
  rests: the hash table, the pool of shared buffers, the stack of pointers and the registry of
  extensions, and its Base64 coder; and of libuv (\<open>src/BlindBoard/Pods/Libuv-gRPC\<close>), the event loop of gRPC, the timers with
  their heap and the conversion of host names. All are written in C with pointers, machine integers
  and hand-written bounds checks, and are the subject here.

  \<^bold>\<open>nanopb.\<close> A message type is an array of field descriptors. The iterator of \<open>pb_common.c\<close>
  walks such an array together with a struct in memory; the encoder \<open>pb_encode.c\<close> reads the
  struct and writes to an output stream, the decoder \<open>pb_decode.c\<close> reads from an input stream
  and writes the struct, allocating what fields point to.
  \<^item> \<open>C_Prelude\<close>: bytes, words and memory, shared by all theories. Memory is a function from
    64-bit addresses to bytes, integers are words of their C width, little-endian.
  \<^item> \<open>Pb_Common\<close> models \<open>pb_common.c\<close>: descriptors (\<open>pb_field\<close>), the iterator as a record, and the
    functions \<open>pb_field_iter_begin\<close>, \<open>pb_field_iter_next\<close>, \<open>pb_field_iter_find\<close>; with the proof that the iterator
    visits the fields in order and computes the addresses the descriptors give.
  \<^item> \<open>Pb_Encode\<close> models \<open>pb_encode.c\<close>: output streams (sizing, buffer and callback streams), the
    writers of varints, fixed-width values, strings and submessages, arrays, extensions.
    \<open>Pb_Encode_Spec\<close> defines a one-pass reference encoder from memory to bytes;
    \<open>Pb_Encode_Refine\<close> proves that the code refines it.
  \<^item> \<open>Pb_Istream\<close> and \<open>Pb_Decode\<close> model \<open>pb_decode.c\<close>: input streams, substreams, the readers, the
    field decoders for static, pointer and callback fields, \<open>pb_decode\<close>, \<open>pb_release\<close>. The heap
    is a list of live blocks; an access to memory that is not allocated, and a double
    free, are an outcome of their own. \<open>Pb_Istream_Correct\<close> and \<open>Pb_Varint\<close> prove what the readers return;
    \<open>Pb_Decode_Safe\<close> that no function leaves its window and every loop ends; \<open>Pb_Fields\<close> what the field
    decoders store.
  \<^item> \<open>Pb_Properties\<close> and \<open>Pb_Decode_Properties\<close> state the properties with concrete instances.

  \<^bold>\<open>Byte strings.\<close> A CBS is a window of bytes that readers take values from; a CBB is an
  object that appends to a buffer, and may have a child whose length prefix is pending.
  \<^item> \<open>Cbs\<close> models \<open>cbs.c\<close>: fixed-width and length-prefixed reads, tags, DER and BER elements,
    typed and optional values. \<open>Cbs_Correct\<close> gives the encodings as definitions of their own
    and proves that the parser accepts exactly these; \<open>Cbs_Values\<close> does the typed values.
  \<^item> \<open>Cbb\<close> models \<open>cbb.c\<close>: the buffer with its growth, the tree of objects as a store from
    addresses to records, flushing, all the writers, identifiers as text, sets.
  \<^item> \<open>Cbb_Correct\<close>, \<open>Cbb_Builder\<close>: the abstract builder (bytes and a stack of open children), the
    representation of one by a buffer and a chain of objects, and the proof that flushing
    implements closing the stack. A contract (\<open>does\<close>) says what an operation does to the object it
    is called on; it composes, and is carried to any depth of the tree by one lemma.
  \<^item> \<open>Cbb_Ops\<close>: the contract of each writer, and that what a writer builds the matching reader
    returns. \<open>Cbb_Oid\<close>: object identifiers. \<open>Cbb_Set\<close>: the sorting of a SET OF. \<open>Cbb_Machine\<close>: a client
    that calls the operations in any order, as a step relation with its invariant.
  \<^item> \<open>Unicode\<close> models \<open>unicode.c\<close> and gives the shortest UTF-8 encodings as a definition. \<open>Ber\<close> models \<open>ber.c\<close> and
    \<open>asn1_compat.c\<close>; \<open>Ber_Correct\<close> describes what the converter reads as a forest of elements, and what it writes as the
    DER of that forest.
  \<^item> \<open>Bytestring_Properties\<close> states the properties with concrete instances.

  \<^bold>\<open>Containers.\<close> These are under \<open>src/BlindBoard/Pods/BoringSSL-GRPC/src/crypto\<close>.
  \<^item> \<open>Lhash\<close> models \<open>lhash/lhash.c\<close>: chains, resizing, traversal. \<open>Lhash_Correct\<close> has the invariant and proves that insertions,
    deletions and resizing act on the map the table stands for; \<open>Lhash_Walk\<close> the bounds on the load, and the traversal with callbacks
    that change the table.
  \<^item> \<open>Pool\<close> models \<open>pool/pool.c\<close>, a client of the hash table, \<open>refcount_c11.c\<close> and the hash of \<open>mem.c\<close>, with the buffers as
    a store and use after free as an outcome. \<open>Pool_Correct\<close> relates reference counts to holders, and has the machine
    whose steps are the critical sections of the locks.
  \<^item> \<open>Stack\<close> models \<open>stack/stack.c\<close>; \<open>Stack_Correct\<close> proves the effect of each operation on the list of valid pointers, the bisection and
    when the flag \<open>sorted\<close> tells the truth. \<open>X509_Ext\<close> models the registry at the start of \<open>x509v3/v3_lib.c\<close>, a client of the stack.
  \<^item> \<open>Container_Properties\<close> states the properties with concrete instances.

  \<^bold>\<open>Base64.\<close> \<open>Base64\<close> models \<open>base64/base64.c\<close> with the constant-time selections of \<open>internal.h\<close>; \<open>Base64_Correct\<close> proves that these compute
  the alphabet and that blocks round-trip, \<open>Base64_Stream\<close> does the streaming interface; \<open>Base64_Properties\<close> states the properties.

  \<^bold>\<open>libuv.\<close> These are under \<open>src/BlindBoard/Pods/Libuv-gRPC/src\<close>.
  \<^item> \<open>Uv_Heap\<close> models \<open>heap-inl.h\<close>: the heap of linked nodes as a store from addresses to records, with the pointers to pointers that lead
    to a position. \<open>Uv_Heap_Correct\<close> relates such a store to an array (\<open>tree_rep\<close>) and proves that the pointer surgery
    swaps, links and unlinks there; \<open>Uv_Heap_Order\<close> restores the order and has the operations on the set of nodes.
  \<^item> \<open>Uv_Timer\<close> models \<open>timer.c\<close>, a client of the heap, with the handle macros of \<open>uv-common.h\<close>. \<open>Uv_Timer_Correct\<close> has the
    invariant of a loop and what each call does to it; \<open>Uv_Timer_Run\<close> the machine whose steps are the calls of a client, and the
    loop that runs the timers that are due. \<open>Uv_Common\<close> has the error codes.
  \<^item> \<open>Uv_Idna\<close> models \<open>idna.c\<close>: the UTF-8 decoder with its reads, the Punycode encoder, the labels of a name. \<open>Uv_Idna_Decode\<close> proves what the
    decoder and the loop over code points do on the encodings of \<open>Unicode\<close>; \<open>Uv_Puny\<close> defines the decoder of RFC 3492 and relates
    digits and bias to it; \<open>Uv_Idna_Correct\<close> matches the encoder's state with that of the decoder; \<open>Uv_Idna_Names\<close> does labels and names.
  \<^item> \<open>Uv_Properties\<close> and \<open>Uv_Idna_Properties\<close> state the properties with concrete instances.

  \<^bold>\<open>Interfaces.\<close> \<open>Wire_Codec\<close> has the locale of a wire format, an encoder and a decoder that takes a
  value off the front of a string; unambiguity and the reading of sequences follow in the
  locale. It is interpreted on the varint, zigzag, fixed-width and tag formats of nanopb and on the
  integers, prefixed strings, elements and typed values of CBS. \<open>Cbb_Ops\<close> has the locale of a writer of
  the builder, and extends both to writers that have a reader. \<open>Lhash_Correct\<close> has the locale of a container that implements a map, and a
  sublocale that gives it for any callbacks that agree on a key; the pool interprets it on its buffers. \<open>Lhash_Walk\<close> has the
  locale of a callback that a traversal tolerates. \<open>Stack_Correct\<close> has the locale of a list used at both ends, interpreted on the stack, and that
  of a comparison that orders, interpreted on the extension numbers. \<open>Uv_Heap_Order\<close> has the locale of a comparison that a heap can
  rely on, in which the heap's operations are proved; it is interpreted on the order of the timers.

  \<^bold>\<open>What the theorems show.\<close> Encoding is exact and stays inside its buffer (C1, C2); the wire
  formats round-trip (C3, C4). Decoding any input, with any descriptors,
  stays inside its window and ends (C5, C6); fields are found (C7), missing required fields
  are detected (C8), integer fields arrive unchanged (C9); the 32-bit reader accepts some overlong
  varints (C10). The DER parser accepts exactly the DER encodings (C11). The
  builder implements its abstract specification at any depth (C12), never leaves its
  buffer (C13), and what it builds is parsed back (C14); sets are
  sorted (C15) and identifiers convert both ways (C16). BER that is found is converted (C17), some is overlooked (C18),
  UTF-8 is read exactly (C19). The hash table implements a map (C20), with
  short chains (C23) and complete traversals (C24); the pool never touches a freed buffer (C21) and shares equal ones
  (C22). The stack keeps its array and its order (C25, C26); extensions
  that were added are found (C27). Base64 round-trips in streams and blocks (C28, C29). The linked heap is a priority queue (C30) and sorts (C31); the
  heap of a loop has exactly its active timers (C32), which start (C33), bound the time to wait (C34) and are run when due, in
  order (C35), for ever if they restart themselves at once (C36). Host names are converted to what the Punycode
  decoder reads back (C37), but are cut off when too long (C38), and the UTF-8 decoder reads behind a truncated
  name (C39) and takes bytes that do not continue a sequence (C40). The theories of the properties prove
  further facts of the same kind beside these: the size of an encoding, the round trips of headers and of fixed-width and unsigned values,
  sizes that do not overflow on allocation, unknown fields that are skipped exactly, errors that stay, that
  DER elements are prefix-free and that BER extends DER, that \<open>sk_set\<close> leaves a wrong flag behind.

  \<^bold>\<open>Bounds and fuel.\<close> Recursion over nested messages, and over the chain of open children in
  \<open>CBB_flush\<close>, takes a depth argument; the theorems ask for a depth above the length of the
  chain, or hold at any depth. Loops over input recurse on its length, with a guard that
  is proved never to fail. Strings are assumed shorter than the address space. A traversal of a hash table takes the number of
  rounds its callback may make it run; with callbacks that add nothing the number of items is enough. The loops of the heap, of running timers and of encoding a label are
  partial functions whose \<open>None\<close> is not returning (or a null pointer followed, or a read outside the name); the theorems give
  \<open>Some\<close>, for fewer than \<open>2^32\<close> timers and names of fewer than 3000 code points, where the encoder's 32-bit sums cannot overflow.

  \<^bold>\<open>Parameters.\<close> The user's callbacks of nanopb, the choices of the allocators and the contents of
  fresh memory are arguments of the definitions. The decoder's theorems assume that a callback
  treats its substream as the library's own readers do. The containers are given the comparison and hash callbacks of their clients
  and a \<open>qsort\<close>; their theorems assume that a hash and a comparison agree on a key, that a comparison orders, and that
  \<open>qsort\<close> sorts. Locks are taken at their word: a critical section is one step. What a timer's callback does to the
  loop is a parameter too.

  \<^bold>\<open>Not modelled.\<close> The Swift code and the Objective-C and C++ pods (gRPC, abseil, leveldb,
  Firebase), which are not C; generated tables; the ciphers, hashes, big numbers, curves and most X.509 code of BoringSSL, whose correctness is number
  theory or rests on assembly; the rest of libuv, which is system calls, except for the conversion of addresses between
  bytes and text. Of \<open>v3_lib.c\<close>, the functions that read and write the extensions of certificates, which go through the
  ASN.1 templates. Of the files named above, functions that only release memory; errors pushed on OpenSSL's error
  queue are not recorded.
\<close>

end
